(* ===== verification/Prelude.thy ===== *)
theory Prelude
  imports Main "HOL-Library.Word"
begin

text \<open>
  Shared vocabulary of the development: the machine integers of the Rust sources, the
  fallible slice operations of the Rust standard library, checked arithmetic, and the
  little-endian reading of bytes, with the lemmas every component uses about them.

  Conventions. A \<open>u8\<close>, \<open>u16\<close>, \<open>u32\<close>, \<open>u64\<close> or \<open>u128\<close> of the source is a word of that
  width; a \<open>usize\<close> is a \<^typ>\<open>nat\<close> (the target is 64 bit, and a slice is at most
  \<open>isize::MAX\<close> bytes long, so sums of in-range offsets cannot wrap); an \<open>i64\<close> or \<open>i128\<close>
  is an \<^typ>\<open>int\<close> with its range written out where the source checks it. A Rust \<open>String\<close>
  is the list of its code points.
\<close>

unbundle bit_operations_syntax

section \<open>Names of the model's types\<close>

type_synonym u8 = "8 word"
type_synonym u16 = "16 word"
type_synonym u32 = "32 word"
type_synonym u64 = "64 word"
type_synonym u128 = "128 word"
type_synonym bytes = "8 word list"
type_synonym ustring = "nat list"

named_theorems slice_simps "rewrite rules for ranges of a slice"
named_theorems le_simps "rewrite rules for little-endian byte strings"
named_theorems checked_simps "inversion of checked arithmetic"

section \<open>Strings\<close>

text \<open>A string literal of the source, as code points (the literals used are ASCII).\<close>

definition lit :: "string \<Rightarrow> ustring" where
  "lit s = map of_char s"

text \<open>Decimal rendering of an unsigned number, as \<open>format!(\"{}\")\<close> prints it.\<close>

fun dec :: "nat \<Rightarrow> ustring" where
  "dec n = (if n < 10 then [48 + n] else dec (n div 10) @ [48 + n mod 10])"

declare dec.simps [simp del]

lemma dec_nonempty [simp]: "dec n \<noteq> []"
  by (subst dec.simps) simp

lemma dec_digits: "c \<in> set (dec n) \<Longrightarrow> 48 \<le> c \<and> c \<le> 57"
proof (induction n rule: dec.induct)
  case (1 n)
  have "c \<in> set (dec (n div 10)) \<Longrightarrow> \<not> n < 10 \<Longrightarrow> 48 \<le> c \<and> c \<le> 57"
    using "1.IH" by blast
  moreover have "c \<in> set (if n < 10 then [48 + n] else dec (n div 10) @ [48 + n mod 10])"
    using "1.prems" by (subst (asm) dec.simps)
  ultimately show ?case
    by (auto split: if_splits)
qed

text \<open>Hexadecimal rendering, as \<open>{:x}\<close> and \<open>{:016x}\<close> print it.\<close>

definition hex_digit :: "nat \<Rightarrow> nat" where
  "hex_digit d = (if d < 10 then 48 + d else 87 + d)"

fun hex :: "nat \<Rightarrow> ustring" where
  "hex n = (if n < 16 then [hex_digit n] else hex (n div 16) @ [hex_digit (n mod 16)])"

declare hex.simps [simp del]

definition hex16 :: "nat \<Rightarrow> ustring" where
  "hex16 n = replicate (16 - length (hex n)) 48 @ hex n"

definition hex_value :: "ustring \<Rightarrow> nat" where
  "hex_value s = foldl (\<lambda>v c. 16 * v + (if c < 58 then c - 48 else c - 87)) 0 s"

lemma hex_value_snoc [simp]: "hex_value (s @ [c]) = 16 * hex_value s + (if c < 58 then c - 48 else c - 87)"
  by (simp add: hex_value_def)

lemma hex_value_digit: "d < 16 \<Longrightarrow> (if hex_digit d < 58 then hex_digit d - 48 else hex_digit d - 87) = d"
  by (simp add: hex_digit_def)

lemma hex_value_hex [simp]: "hex_value (hex n) = n"
proof (induction n rule: hex.induct)
  case (1 n)
  show ?case
  proof (cases "n < 16")
    case True
    then have "hex n = [] @ [hex_digit n]"
      by (subst hex.simps) simp
    then show ?thesis
      using True hex_value_digit [of n] by (simp only: hex_value_snoc) (simp add: hex_value_def)
  next
    case False
    then have "hex n = hex (n div 16) @ [hex_digit (n mod 16)]"
      by (subst hex.simps) simp
    then show ?thesis
      using "1.IH" False hex_value_digit [of "n mod 16"] by simp
  qed
qed

lemma hex_inject: "hex m = hex n \<longleftrightarrow> m = n"
  by (metis hex_value_hex)

lemma hex_length: "n < 16 ^ Suc k \<Longrightarrow> length (hex n) \<le> Suc k"
proof (induction k arbitrary: n)
  case (Suc k)
  then show ?case
    by (subst hex.simps) (auto simp: less_mult_imp_div_less algebra_simps)
qed (simp add: hex.simps)

lemma hex16_value [simp]: "hex_value (hex16 n) = n"
proof -
  have "foldl (\<lambda>v c. 16 * v + (if c < 58 then c - 48 else c - 87)) 0 (replicate k 48) = (0 :: nat)" for k
    by (induction k) simp_all
  then show ?thesis
    using hex_value_hex [of n] by (simp add: hex16_def hex_value_def)
qed

lemma hex16_length: "n < 2 ^ 64 \<Longrightarrow> length (hex16 n) = 16"
  using hex_length [of n 15] by (simp add: hex16_def)

text \<open>\<open>join\<close> of path components with a backslash.\<close>

fun join_backslash :: "ustring list \<Rightarrow> ustring" where
  "join_backslash [] = []"
| "join_backslash [x] = x"
| "join_backslash (x # y # zs) = x @ [92] @ join_backslash (y # zs)"

lemma join_backslash_concat: "xs \<noteq> [] \<Longrightarrow> 92 # join_backslash xs = concat (map ((#) 92) xs)"
proof (induction xs rule: join_backslash.induct)
  case (3 x y zs)
  then show ?case by simp
qed simp_all

section \<open>Ranges of a slice\<close>

text \<open>
  \<open>s.get(a..b)\<close>: the bytes from \<open>a\<close> up to \<open>b\<close>, or \<open>None\<close> when the range is reversed or
  runs past the end.
\<close>

definition get_range :: "'a list \<Rightarrow> nat \<Rightarrow> nat \<Rightarrow> 'a list option" where
  "get_range xs a b = (if a \<le> b \<and> b \<le> length xs then Some (take (b - a) (drop a xs)) else None)"

lemma get_range_Some [slice_simps]:
  "a \<le> b \<Longrightarrow> b \<le> length xs \<Longrightarrow> get_range xs a b = Some (take (b - a) (drop a xs))"
  by (simp add: get_range_def)

lemma get_range_None_iff [slice_simps]:
  "get_range xs a b = None \<longleftrightarrow> \<not> (a \<le> b \<and> b \<le> length xs)"
  by (simp add: get_range_def)

lemma get_range_Some_iff:
  "get_range xs a b = Some ys \<longleftrightarrow> a \<le> b \<and> b \<le> length xs \<and> ys = take (b - a) (drop a xs)"
  by (auto simp: get_range_def)

lemma get_range_length: "get_range xs a b = Some ys \<Longrightarrow> length ys = b - a"
  by (auto simp: get_range_def split: if_splits)

lemma get_range_nth:
  "get_range xs a b = Some ys \<Longrightarrow> i < b - a \<Longrightarrow> ys ! i = xs ! (a + i)"
  by (auto simp: get_range_def split: if_splits)

lemma replicate_2 [simp]: "replicate 2 x = [x, x]"
  by (simp add: numeral_2_eq_2)

lemma get_range_whole [simp]: "get_range xs 0 (length xs) = Some xs"
  by (simp add: get_range_def)

lemma take_drop_append_right:
  "length pre = n \<Longrightarrow> take k (drop n (pre @ xs)) = take k xs"
  by simp

text \<open>Splitting a range at a point inside it.\<close>

lemma take_drop_split:
  "take (m + n) (drop a xs) = take m (drop a xs) @ take n (drop (a + m) xs)"
  by (simp add: take_add add.commute)

text \<open>The blocks of size \<open>k\<close> that fit into \<open>n\<close> bytes lie inside them.\<close>

lemma block_fits:
  fixes n k i :: nat
  assumes "i < n div k"
  shows "i * k + k \<le> n"
proof -
  have "Suc i * k \<le> n div k * k"
    using assms by (intro mult_le_mono1) simp
  also have "\<dots> \<le> n"
    by (rule div_times_less_eq_dividend)
  finally show ?thesis by (simp add: add.commute)
qed

section \<open>Powers of two\<close>

lemma pow2_le: "k \<le> n \<Longrightarrow> (2::nat) ^ k \<le> 2 ^ n"
  by (rule power_increasing) simp_all

lemma pow2_le_iff: "(2::nat) ^ k \<le> 2 ^ n \<longleftrightarrow> k \<le> n"
  by (rule power_increasing_iff) simp

lemma lt_2p64: "n \<le> 1000000000000000000 \<Longrightarrow> (n::nat) < 2 ^ 64"
  by simp

lemma unat_2p: "k < LENGTH('a::len) \<Longrightarrow> unat (2 ^ k :: 'a word) = 2 ^ k"
  using unat_of_nat [of "2 ^ k", where 'a = 'a] by simp

lemma unat_ucast_up:
  fixes w :: "'a::len word"
  assumes "LENGTH('a) \<le> LENGTH('b::len)"
  shows "unat (ucast w :: 'b word) = unat w"
proof -
  have "unat w < 2 ^ LENGTH('b)"
    using unsigned_less [of w] assms by (meson less_le_trans pow2_le)
  then show ?thesis
    by (simp add: unsigned_ucast_eq take_bit_nat_eq_self)
qed

section \<open>Checked arithmetic\<close>

text \<open>\<open>checked_add\<close> and \<open>checked_mul\<close> on an unsigned type: \<open>None\<close> on overflow.\<close>

definition checked_add :: "'a::len word \<Rightarrow> 'a word \<Rightarrow> 'a word option" where
  "checked_add a b = (if unat a + unat b < 2 ^ LENGTH('a) then Some (a + b) else None)"

definition checked_mul :: "'a::len word \<Rightarrow> 'a word \<Rightarrow> 'a word option" where
  "checked_mul a b = (if unat a * unat b < 2 ^ LENGTH('a) then Some (a * b) else None)"

definition saturating_mul :: "'a::len word \<Rightarrow> 'a word \<Rightarrow> 'a word" where
  "saturating_mul a b = (if unat a * unat b < 2 ^ LENGTH('a) then a * b else - 1)"

definition saturating_add :: "'a::len word \<Rightarrow> 'a word \<Rightarrow> 'a word" where
  "saturating_add a b = (if unat a + unat b < 2 ^ LENGTH('a) then a + b else - 1)"

text \<open>\<open>1u64.checked_shl(n)\<close>: \<open>None\<close> when the shift is at least the width.\<close>

definition checked_shl_one :: "nat \<Rightarrow> u64 option" where
  "checked_shl_one n = (if n < 64 then Some (push_bit n 1) else None)"

text \<open>\<open>usize::checked_add\<close> and \<open>usize::checked_mul\<close> on a 64-bit target.\<close>

definition usize_checked_add :: "nat \<Rightarrow> nat \<Rightarrow> nat option" where
  "usize_checked_add a b = (if a + b < 2 ^ 64 then Some (a + b) else None)"

definition usize_checked_mul :: "nat \<Rightarrow> nat \<Rightarrow> nat option" where
  "usize_checked_mul a b = (if a * b < 2 ^ 64 then Some (a * b) else None)"

text \<open>\<open>i64::checked_add\<close>, on the integers an \<open>i64\<close> denotes.\<close>

definition i64_range :: "int \<Rightarrow> bool" where
  "i64_range x \<longleftrightarrow> - (2 ^ 63) \<le> x \<and> x < 2 ^ 63"

definition i64_checked_add :: "int \<Rightarrow> int \<Rightarrow> int option" where
  "i64_checked_add a b = (if i64_range (a + b) then Some (a + b) else None)"

lemma checked_add_Some [checked_simps]:
  fixes a :: "'a::len word"
  shows "checked_add a b = Some c \<longleftrightarrow> unat a + unat b < 2 ^ LENGTH('a) \<and> c = a + b"
  by (auto simp: checked_add_def)

lemma checked_mul_Some [checked_simps]:
  fixes a :: "'a::len word"
  shows "checked_mul a b = Some c \<longleftrightarrow> unat a * unat b < 2 ^ LENGTH('a) \<and> c = a * b"
  by (auto simp: checked_mul_def)

lemma checked_add_unat: "checked_add a b = Some c \<Longrightarrow> unat c = unat a + unat b"
  by (auto simp: checked_add_def unat_word_ariths split: if_splits)

lemma checked_mul_unat: "checked_mul a b = Some c \<Longrightarrow> unat c = unat a * unat b"
  by (auto simp: checked_mul_def unat_word_ariths split: if_splits)

lemma saturating_mul_unat:
  fixes a :: "'a::len word"
  shows "unat a * unat b < 2 ^ LENGTH('a) \<Longrightarrow> unat (saturating_mul a b) = unat a * unat b"
  by (simp add: saturating_mul_def unat_word_ariths)

lemma saturating_add_unat:
  fixes a :: "'a::len word"
  shows "unat (saturating_add a b) = min (unat a + unat b) (2 ^ LENGTH('a) - 1)"
proof (cases "unat a + unat b < 2 ^ LENGTH('a)")
  case True
  then have "unat (a + b) = unat a + unat b"
    by (simp add: unat_word_ariths)
  with True show ?thesis
    by (simp add: saturating_add_def)
qed (auto simp: saturating_add_def unsigned_minus_1_eq_mask mask_eq_exp_minus_1 min_def)

lemma usize_checked_add_Some [checked_simps]:
  "usize_checked_add a b = Some c \<longleftrightarrow> a + b < 2 ^ 64 \<and> c = a + b"
  by (auto simp: usize_checked_add_def)

lemma usize_checked_mul_Some [checked_simps]:
  "usize_checked_mul a b = Some c \<longleftrightarrow> a * b < 2 ^ 64 \<and> c = a * b"
  by (auto simp: usize_checked_mul_def)

lemma i64_checked_add_Some [checked_simps]:
  "i64_checked_add a b = Some c \<longleftrightarrow> i64_range (a + b) \<and> c = a + b"
  by (auto simp: i64_checked_add_def)

section \<open>Little-endian byte strings\<close>

text \<open>The value of a little-endian byte string, and its reading as a word.\<close>

fun le_nat :: "bytes \<Rightarrow> nat" where
  "le_nat [] = 0"
| "le_nat (b # bs) = unat b + 256 * le_nat bs"

definition from_le_bytes :: "bytes \<Rightarrow> 'a::len word" where
  "from_le_bytes bs = word_of_nat (le_nat bs)"

text \<open>The inverse, \<open>to_le_bytes\<close>, on \<open>n\<close> bytes.\<close>

fun le_bytes :: "nat \<Rightarrow> nat \<Rightarrow> bytes" where
  "le_bytes 0 v = []"
| "le_bytes (Suc n) v = word_of_nat (v mod 256) # le_bytes n (v div 256)"

lemma unat_u8_less [simp]: "unat (b :: u8) < 256"
  using unsigned_less [of b] by simp

lemma unat_u16_less [simp]: "unat (b :: u16) < 65536"
  using unsigned_less [of b] by simp

lemma unat_u32_less [simp]: "unat (b :: u32) < 4294967296"
  using unsigned_less [of b] by simp

lemma unat_u64_less [simp]: "unat (b :: u64) < 18446744073709551616"
  using unsigned_less [of b] by simp

lemma unat_u8_of_nat: "v < 256 \<Longrightarrow> unat (word_of_nat v :: u8) = v"
  by (simp add: unat_of_nat)

lemma le_nat_bound: "le_nat bs < 256 ^ length bs"
proof (induction bs)
  case Nil
  then show ?case by simp
next
  case (Cons b bs)
  have "unat b + 256 * le_nat bs < 256 + 256 * le_nat bs"
    by simp
  also have "\<dots> = 256 * Suc (le_nat bs)"
    by simp
  also have "\<dots> \<le> 256 * 256 ^ length bs"
    using Cons.IH by (intro mult_le_mono) auto
  finally show ?case by simp
qed

lemma length_le_bytes [simp]: "length (le_bytes n v) = n"
  by (induction n arbitrary: v) auto

lemma le_bytes_numeral:
  "le_bytes (numeral k) v = word_of_nat (v mod 256) # le_bytes (pred_numeral k) (v div 256)"
  by (simp add: numeral_eq_Suc [of k])

lemma le_nat_le_bytes [le_simps]: "le_nat (le_bytes n v) = v mod 256 ^ n"
proof (induction n arbitrary: v)
  case 0
  then show ?case by simp
next
  case (Suc n)
  have "unat (word_of_nat (v mod 256) :: u8) = v mod 256"
    by (rule unat_u8_of_nat) simp
  moreover have "v mod (256 * 256 ^ n) = 256 * (v div 256 mod 256 ^ n) + v mod 256"
    by (rule mod_mult2_eq)
  ultimately show ?case
    using Suc.IH by simp
qed

lemma le_bytes_le_nat [le_simps]: "length bs = n \<Longrightarrow> le_bytes n (le_nat bs) = bs"
proof (induction bs arbitrary: n)
  case Nil
  then show ?case by simp
next
  case (Cons b bs)
  have "(unat b + 256 * le_nat bs) mod 256 = unat b"
    by simp
  moreover have "(unat b + 256 * le_nat bs) div 256 = le_nat bs"
    by simp
  ultimately show ?case
    using Cons by auto
qed

lemma unat_from_le_bytes:
  assumes "256 ^ length bs \<le> (2::nat) ^ LENGTH('a::len)"
  shows "unat (from_le_bytes bs :: 'a word) = le_nat bs"
  using le_nat_bound [of bs] assms
  by (simp add: from_le_bytes_def unat_of_nat)

lemma le_nat_zeros [simp]: "le_nat (replicate n 0) = 0"
  by (induction n) auto

lemma from_le_bytes_zeros [simp]: "from_le_bytes (replicate n 0) = 0"
  by (simp add: from_le_bytes_def)

lemma from_le_bytes_zero2 [simp]: "from_le_bytes [0, 0] = 0"
  by (simp add: from_le_bytes_def)

lemma le_nat_append: "le_nat (xs @ ys) = le_nat xs + 256 ^ length xs * le_nat ys"
  by (induction xs) (auto simp: algebra_simps)

section \<open>Rust's \<open>chunks_exact(2)\<close> on bytes, read as little-endian units\<close>

fun u16_units :: "bytes \<Rightarrow> u16 list" where
  "u16_units (a # b # bs) = from_le_bytes [a, b] # u16_units bs"
| "u16_units [a] = []"
| "u16_units [] = []"

lemma length_u16_units: "length (u16_units bs) = length bs div 2"
  by (induction bs rule: u16_units.induct) auto

lemma le_bytes_2: "le_bytes 2 v = [word_of_nat (v mod 256), word_of_nat (v div 256 mod 256)]"
  by (simp add: numeral_2_eq_2)

lemma from_le_bytes_2_inverse: "from_le_bytes (le_bytes 2 (unat u)) = (u :: u16)"
proof -
  have "unat u < 65536"
    using unsigned_less [of u] by simp
  then have "le_nat (le_bytes 2 (unat u)) = unat u"
    by (simp add: le_nat_le_bytes)
  then show ?thesis
    by (simp add: from_le_bytes_def)
qed

lemma u16_units_le_bytes:
  "u16_units (concat (map (\<lambda>u. le_bytes 2 (unat u)) us)) = us"
proof (induction us)
  case Nil
  then show ?case by simp
next
  case (Cons u us)
  then show ?case
    using from_le_bytes_2_inverse [of u] by (simp add: le_bytes_2)
qed

end
