(* ===== verification/Ntfs_Error.thy ===== *)
theory Ntfs_Error
  imports Prelude
begin

text \<open>
  The crate-wide error type of \<open>core/src/error.rs\<close> and the outcome of a fallible Rust
  function: a value, an error, or a panic. A panic is a value of its own, so that
  "never panics on crafted input" is a statement about the model and not an assumption
  of it: every slice index and every range of the sources is modelled by \<open>idx\<close> and
  \<open>slice\<close>, which panic exactly where Rust's bounds checks do.
\<close>

section \<open>Errors\<close>

datatype io_error = UnexpectedEof | InvalidInput string | OtherIo nat

datatype ntfs_error =
    TooShort string nat nat
  | BadOemId bytes
  | BadBytesPerSector u16
  | BadSectorsPerCluster u8
  | BadRecordSize u8
  | BadIndexRecordSize u8
  | BadRecordSignature bytes
  | FixupMismatch nat u16 u16
  | BadUpdateSequence string
  | BadAttribute nat string
  | BadRunlist string
  | BadIndex string
  | BadCompression string
  | BadAttributeList string
  | NotFound ustring
  | NotADirectory ustring
  | TooLarge u64
  | Usn ustring
  | Io io_error

section \<open>Outcomes\<close>

datatype 'a res = Ok 'a | Err ntfs_error | Panic

definition and_then :: "'a res \<Rightarrow> ('a \<Rightarrow> 'b res) \<Rightarrow> 'b res" where
  "and_then m f = (case m of Ok x \<Rightarrow> f x | Err e \<Rightarrow> Err e | Panic \<Rightarrow> Panic)"

text \<open>\<open>opt.ok_or(e)?\<close>.\<close>

definition ok_or :: "'a option \<Rightarrow> ntfs_error \<Rightarrow> 'a res" where
  "ok_or x e = (case x of Some y \<Rightarrow> Ok y | None \<Rightarrow> Err e)"

text \<open>\<open>r.ok()\<close>, for a result that is not a panic.\<close>

definition res_ok :: "'a res \<Rightarrow> 'a option" where
  "res_ok r = (case r of Ok x \<Rightarrow> Some x | _ \<Rightarrow> None)"

text \<open>\<open>s[i]\<close> and \<open>&s[a..b]\<close>: out of range is a panic.\<close>

definition idx :: "'a list \<Rightarrow> nat \<Rightarrow> 'a res" where
  "idx xs i = (if i < length xs then Ok (xs ! i) else Panic)"

definition slice :: "'a list \<Rightarrow> nat \<Rightarrow> nat \<Rightarrow> 'a list res" where
  "slice xs a b = (case get_range xs a b of Some ys \<Rightarrow> Ok ys | None \<Rightarrow> Panic)"

lemma and_then_simps [simp]:
  "and_then (Ok x) f = f x"
  "and_then (Err e) f = Err e"
  "and_then Panic f = Panic"
  by (simp_all add: and_then_def)

lemma and_then_Ok_iff:
  "and_then m f = Ok y \<longleftrightarrow> (\<exists>x. m = Ok x \<and> f x = Ok y)"
  by (cases m) auto

lemma and_then_Panic_iff:
  "and_then m f = Panic \<longleftrightarrow> m = Panic \<or> (\<exists>x. m = Ok x \<and> f x = Panic)"
  by (cases m) auto

lemma and_then_Err_iff:
  "and_then m f = Err e \<longleftrightarrow> m = Err e \<or> (\<exists>x. m = Ok x \<and> f x = Err e)"
  by (cases m) auto

lemma and_then_cong [fundef_cong]:
  "m = m' \<Longrightarrow> (\<And>x. m' = Ok x \<Longrightarrow> f x = g x) \<Longrightarrow> and_then m f = and_then m' g"
  by (cases m') auto

text \<open>For evaluation: the continuation is left alone until the first part has a value.\<close>

lemma and_then_weak_cong: "m = m' \<Longrightarrow> and_then m f = and_then m' f"
  by simp

lemma and_then_no_panic:
  "m \<noteq> Panic \<Longrightarrow> (\<And>x. m = Ok x \<Longrightarrow> f x \<noteq> Panic) \<Longrightarrow> and_then m f \<noteq> Panic"
  by (cases m) auto

lemma ok_or_simps [simp]:
  "ok_or (Some x) e = Ok x"
  "ok_or None e = Err e"
  by (simp_all add: ok_or_def)

lemma ok_or_Ok_iff [simp]: "ok_or x e = Ok y \<longleftrightarrow> x = Some y"
  by (cases x) auto

lemma ok_or_no_panic [simp]: "ok_or x e \<noteq> Panic"
  by (cases x) auto

lemma res_ok_simps [simp]:
  "res_ok (Ok x) = Some x"
  "res_ok (Err e) = None"
  "res_ok Panic = None"
  by (simp_all add: res_ok_def)

lemma idx_in [simp]: "i < length xs \<Longrightarrow> idx xs i = Ok (xs ! i)"
  by (simp add: idx_def)

lemma idx_Ok_iff: "idx xs i = Ok x \<longleftrightarrow> i < length xs \<and> x = xs ! i"
  by (auto simp: idx_def)

lemma idx_Panic_iff: "idx xs i = Panic \<longleftrightarrow> length xs \<le> i"
  by (auto simp: idx_def)

lemma slice_in [simp]:
  "a \<le> b \<Longrightarrow> b \<le> length xs \<Longrightarrow> slice xs a b = Ok (take (b - a) (drop a xs))"
  by (simp add: slice_def get_range_def)

lemma slice_Ok_iff:
  "slice xs a b = Ok ys \<longleftrightarrow> a \<le> b \<and> b \<le> length xs \<and> ys = take (b - a) (drop a xs)"
  by (auto simp: slice_def get_range_def)

lemma slice_Panic_iff: "slice xs a b = Panic \<longleftrightarrow> \<not> (a \<le> b \<and> b \<le> length xs)"
  by (auto simp: slice_def get_range_def)

lemma idx_not_Err [simp]: "idx xs i \<noteq> Err e"
  by (simp add: idx_def)

lemma slice_not_Err [simp]: "slice xs a b \<noteq> Err e"
  by (simp add: slice_def get_range_def)

lemmas res_inversions =
  and_then_Ok_iff and_then_Err_iff and_then_Panic_iff idx_Ok_iff idx_Panic_iff
  slice_Ok_iff slice_Panic_iff

end
