(* ===== verification/Nomicon.thy ===== *)
theory Nomicon
  imports Ntfs_Error
begin

text \<open>
  The \<open>forensicnomicon::ntfs\<close> constants the sources import. The crate is not part of the
  repository, so its constants are a parameter of the model: a record \<open>nomicon\<close> with one
  sub-record per module of the crate that the sources name. What the sources rely on is
  the predicate \<open>documented\<close>, whose equations are the on-disk layout the doc comments of
  \<open>boot.rs\<close>, \<open>record.rs\<close>, \<open>attribute.rs\<close> and \<open>vfs.rs\<close> and the fixtures of their tests spell out.
  \<open>ntfs_layout\<close> is the concrete instance with those values, for witnesses.
\<close>

section \<open>The modules of constants\<close>

record boot_offsets =
  OEM_ID_OFF :: nat
  BYTES_PER_SECTOR :: nat
  SECTORS_PER_CLUSTER :: nat
  TOTAL_SECTORS :: nat
  MFT_LCN :: nat
  MFTMIRR_LCN :: nat
  CLUSTERS_PER_RECORD :: nat
  CLUSTERS_PER_INDEX :: nat
  VOLUME_SERIAL :: nat

record mft_offsets =
  SIGNATURE :: nat
  USA_OFFSET :: nat
  USA_COUNT :: nat
  LSN :: nat
  SEQUENCE_NUMBER :: nat
  HARD_LINK_COUNT :: nat
  FIRST_ATTRIBUTE :: nat
  MFT_FLAGS :: nat
  USED_SIZE :: nat
  ALLOCATED_SIZE :: nat
  BASE_RECORD :: nat
  NEXT_ATTR_ID :: nat
  RECORD_NUMBER :: nat

record attr_offsets =
  ATTR_TYPE :: nat
  ATTR_LENGTH :: nat
  NON_RESIDENT :: nat
  NAME_LENGTH :: nat
  NAME_OFFSET :: nat
  ATTR_FLAGS :: nat
  ATTRIBUTE_ID :: nat
  RES_CONTENT_LENGTH :: nat
  RES_CONTENT_OFFSET :: nat
  NR_START_VCN :: nat
  NR_LAST_VCN :: nat
  NR_RUNS_OFFSET :: nat
  NR_COMPRESSION_UNIT :: nat
  NR_ALLOCATED_SIZE :: nat
  NR_REAL_SIZE :: nat
  NR_INITIALIZED_SIZE :: nat

record attr_types =
  T_STANDARD_INFORMATION :: u32
  T_ATTRIBUTE_LIST :: u32
  T_FILE_NAME :: u32
  T_VOLUME_NAME :: u32
  T_DATA :: u32
  T_INDEX_ROOT :: u32
  T_INDEX_ALLOCATION :: u32
  T_END :: u32

record nomicon =
  OEM_ID :: bytes
  SIGNATURE_FILE :: bytes
  SIGNATURE_BAAD :: bytes
  SIGNATURE_INDX :: bytes
  boot_off :: boot_offsets
  mft_off :: mft_offsets
  attr_off :: attr_offsets
  attr_ty :: attr_types
  MF_IN_USE :: u16
  MF_DIRECTORY :: u16
  AF_COMPRESSED :: u16
  AF_ENCRYPTED :: u16
  AF_SPARSE :: u16
  FA_READONLY :: u32
  FA_HIDDEN :: u32
  FA_SYSTEM :: u32
  NS_POSIX_CODE :: u8
  NS_WIN32_CODE :: u8
  NS_DOS_CODE :: u8
  NS_WIN32_AND_DOS_CODE :: u8
  MFT_RECORD :: u64
  VOLUME_RECORD :: u64
  ROOT_RECORD :: u64
  BITMAP_RECORD :: u64

section \<open>The documented layout\<close>

definition ntfs_boot_offsets :: boot_offsets where
  "ntfs_boot_offsets = \<lparr>OEM_ID_OFF = 3, BYTES_PER_SECTOR = 11, SECTORS_PER_CLUSTER = 13,
     TOTAL_SECTORS = 40, MFT_LCN = 48, MFTMIRR_LCN = 56, CLUSTERS_PER_RECORD = 64,
     CLUSTERS_PER_INDEX = 68, VOLUME_SERIAL = 72\<rparr>"

definition ntfs_mft_offsets :: mft_offsets where
  "ntfs_mft_offsets = \<lparr>SIGNATURE = 0, USA_OFFSET = 4, USA_COUNT = 6, LSN = 8,
     SEQUENCE_NUMBER = 16, HARD_LINK_COUNT = 18, FIRST_ATTRIBUTE = 20, MFT_FLAGS = 22,
     USED_SIZE = 24, ALLOCATED_SIZE = 28, BASE_RECORD = 32, NEXT_ATTR_ID = 40,
     RECORD_NUMBER = 44\<rparr>"

definition ntfs_attr_offsets :: attr_offsets where
  "ntfs_attr_offsets = \<lparr>ATTR_TYPE = 0, ATTR_LENGTH = 4, NON_RESIDENT = 8, NAME_LENGTH = 9,
     NAME_OFFSET = 10, ATTR_FLAGS = 12, ATTRIBUTE_ID = 14, RES_CONTENT_LENGTH = 16,
     RES_CONTENT_OFFSET = 20, NR_START_VCN = 16, NR_LAST_VCN = 24, NR_RUNS_OFFSET = 32,
     NR_COMPRESSION_UNIT = 34, NR_ALLOCATED_SIZE = 40, NR_REAL_SIZE = 48,
     NR_INITIALIZED_SIZE = 56\<rparr>"

definition ntfs_attr_types :: attr_types where
  "ntfs_attr_types = \<lparr>T_STANDARD_INFORMATION = 0x10, T_ATTRIBUTE_LIST = 0x20,
     T_FILE_NAME = 0x30, T_VOLUME_NAME = 0x60, T_DATA = 0x80, T_INDEX_ROOT = 0x90, T_INDEX_ALLOCATION = 0xA0,
     T_END = 0xFFFFFFFF\<rparr>"

definition ntfs_layout :: nomicon where
  "ntfs_layout = \<lparr>OEM_ID = [78, 84, 70, 83, 32, 32, 32, 32],
     SIGNATURE_FILE = [70, 73, 76, 69], SIGNATURE_BAAD = [66, 65, 65, 68],
     SIGNATURE_INDX = [73, 78, 68, 88],
     boot_off = ntfs_boot_offsets, mft_off = ntfs_mft_offsets,
     attr_off = ntfs_attr_offsets, attr_ty = ntfs_attr_types,
     MF_IN_USE = 1, MF_DIRECTORY = 2,
     AF_COMPRESSED = 1, AF_ENCRYPTED = 0x4000, AF_SPARSE = 0x8000,
     FA_READONLY = 1, FA_HIDDEN = 2, FA_SYSTEM = 4,
     NS_POSIX_CODE = 0, NS_WIN32_CODE = 1, NS_DOS_CODE = 2, NS_WIN32_AND_DOS_CODE = 3,
     MFT_RECORD = 0, VOLUME_RECORD = 3, ROOT_RECORD = 5, BITMAP_RECORD = 6\<rparr>"

definition documented :: "nomicon \<Rightarrow> bool" where
  "documented N \<longleftrightarrow> N = ntfs_layout"

lemmas layout_defs =
  ntfs_layout_def ntfs_boot_offsets_def ntfs_mft_offsets_def ntfs_attr_offsets_def
  ntfs_attr_types_def

lemma documented_ntfs_layout [simp]: "documented ntfs_layout"
  by (simp add: documented_def)

text \<open>The bounds that the fixed-size header checks of the sources rely on.\<close>

definition boot_in_bpb :: "nomicon \<Rightarrow> bool" where
  "boot_in_bpb N \<longleftrightarrow> SECTORS_PER_CLUSTER (boot_off N) < 80 \<and>
     CLUSTERS_PER_RECORD (boot_off N) < 80 \<and> CLUSTERS_PER_INDEX (boot_off N) < 80"

definition attr_in_header :: "nomicon \<Rightarrow> bool" where
  "attr_in_header N \<longleftrightarrow> NON_RESIDENT (attr_off N) < 16 \<and> NAME_LENGTH (attr_off N) < 16 \<and>
     ATTR_TYPE (attr_off N) < 16"

lemma documented_boot: "documented N \<Longrightarrow> boot_in_bpb N"
  by (simp add: documented_def boot_in_bpb_def layout_defs)

lemma documented_attr: "documented N \<Longrightarrow> attr_in_header N"
  by (simp add: documented_def attr_in_header_def layout_defs)

end
