(* ===== verification/Bytes.thy ===== *)
theory Bytes
  imports Ntfs_Error
begin

text \<open>
  \<open>core/src/bytes.rs\<close>: bounds-checked little-endian reads. A read that would run past
  the buffer yields zero; it never panics. The lemmas give the two branches of every
  read and the round trip with the bytes a value is stored as.
\<close>

section \<open>Reads\<close>

definition arr :: "nat \<Rightarrow> bytes \<Rightarrow> nat \<Rightarrow> bytes" where
  "arr n data off =
     (case get_range data off (off + n) of Some s \<Rightarrow> s | None \<Rightarrow> replicate n 0)"

definition le_u16 :: "bytes \<Rightarrow> nat \<Rightarrow> u16" where
  "le_u16 data off =
     (let b = replicate 2 0;
          b = (case get_range data off (off + 2) of Some s \<Rightarrow> s | None \<Rightarrow> b)
      in from_le_bytes b)"

definition le_u32 :: "bytes \<Rightarrow> nat \<Rightarrow> u32" where
  "le_u32 data off =
     (let b = replicate 4 0;
          b = (case get_range data off (off + 4) of Some s \<Rightarrow> s | None \<Rightarrow> b)
      in from_le_bytes b)"

definition le_u64 :: "bytes \<Rightarrow> nat \<Rightarrow> u64" where
  "le_u64 data off =
     (let b = replicate 8 0;
          b = (case get_range data off (off + 8) of Some s \<Rightarrow> s | None \<Rightarrow> b)
      in from_le_bytes b)"

lemmas le_read_defs = le_u16_def le_u32_def le_u64_def

section \<open>The two branches of a read\<close>

lemma length_arr [simp]: "length (arr n data off) = n"
  by (auto simp: arr_def get_range_def split: option.splits)

lemma le_u16_out: "length data < off + 2 \<Longrightarrow> le_u16 data off = 0"
  by (simp add: le_u16_def get_range_def)

lemma le_u32_out: "length data < off + 4 \<Longrightarrow> le_u32 data off = 0"
  by (simp add: le_u32_def get_range_def)

lemma le_u64_out: "length data < off + 8 \<Longrightarrow> le_u64 data off = 0"
  by (simp add: le_u64_def get_range_def)

lemma unat_le_u16_in:
  "off + 2 \<le> length data \<Longrightarrow> unat (le_u16 data off) = le_nat (take 2 (drop off data))"
  by (simp add: le_u16_def get_range_def unat_from_le_bytes)

lemma unat_le_u32_in:
  "off + 4 \<le> length data \<Longrightarrow> unat (le_u32 data off) = le_nat (take 4 (drop off data))"
  by (simp add: le_u32_def get_range_def unat_from_le_bytes)

lemma unat_le_u64_in:
  "off + 8 \<le> length data \<Longrightarrow> unat (le_u64 data off) = le_nat (take 8 (drop off data))"
  by (simp add: le_u64_def get_range_def unat_from_le_bytes)

text \<open>A read depends on its window only.\<close>

lemma le_u16_window:
  "get_range d off (off + 2) = get_range d' off' (off' + 2) \<Longrightarrow> le_u16 d off = le_u16 d' off'"
  by (simp add: le_u16_def)

section \<open>Round trip with the stored bytes\<close>

lemma le_u16_stored:
  "le_u16 (pre @ le_bytes 2 (unat v) @ post) (length pre) = v"
  by (simp add: le_u16_def get_range_def from_le_bytes_def le_nat_le_bytes)

lemma le_u32_stored:
  "le_u32 (pre @ le_bytes 4 (unat v) @ post) (length pre) = v"
  by (simp add: le_u32_def get_range_def from_le_bytes_def le_nat_le_bytes)

lemma le_u64_stored:
  "le_u64 (pre @ le_bytes 8 (unat v) @ post) (length pre) = v"
  by (simp add: le_u64_def get_range_def from_le_bytes_def le_nat_le_bytes)

end
