(* ===== verification/Boot.thy ===== *)
theory Boot
  imports Nomicon Bytes
begin

text \<open>
  \<open>core/src/boot.rs\<close>: the volume boot record. \<open>boot_parse\<close> is \<open>BootSector::parse\<close> with
  its checks in the source's order; \<open>record_size\<close> decodes the signed
  clusters-per-record byte. The invariant \<open>geometry_ok\<close> is what every later layer relies
  on: a sector size that is a power of two between 256 and 4096, a cluster size that is
  a power-of-two multiple of it, and record sizes between 256 bytes and 1 MiB.
\<close>

section \<open>Definitions\<close>

definition BOOT_MIN_LEN :: nat where
  "BOOT_MIN_LEN = 80"

definition MIN_RECORD_SIZE :: u64 where
  "MIN_RECORD_SIZE = 256"

definition MAX_RECORD_SIZE :: u64 where
  "MAX_RECORD_SIZE = push_bit 20 1"

record boot_sector =
  bytes_per_sector :: u16
  sectors_per_cluster :: u8
  total_sectors :: u64
  mft_lcn :: u64
  mftmirr_lcn :: u64
  mft_record_size :: u64
  index_record_size :: u64
  volume_serial :: u64

definition cluster_size :: "boot_sector \<Rightarrow> u64" where
  "cluster_size b = ucast (bytes_per_sector b) * ucast (sectors_per_cluster b)"

definition mft_byte_offset :: "boot_sector \<Rightarrow> u64" where
  "mft_byte_offset b = saturating_mul (mft_lcn b) (cluster_size b)"

definition mftmirr_byte_offset :: "boot_sector \<Rightarrow> u64" where
  "mftmirr_byte_offset b = saturating_mul (mftmirr_lcn b) (cluster_size b)"

text \<open>\<open>is_power_of_two\<close> of the standard library.\<close>

definition is_power_of_two :: "'a::len word \<Rightarrow> bool" where
  "is_power_of_two w \<longleftrightarrow> list_ex (\<lambda>k. w = 2 ^ k) [0..<LENGTH('a)]"

definition record_size :: "u8 \<Rightarrow> u64 \<Rightarrow> u64 option" where
  "record_size raw csize =
     (let v = sint raw;
          sz = (if v > 0 then checked_mul (word_of_nat (nat \<bar>v\<bar>)) csize
                else checked_shl_one (nat \<bar>v\<bar>))
      in case sz of
           None \<Rightarrow> None
         | Some n \<Rightarrow>
             if MIN_RECORD_SIZE \<le> n \<and> n \<le> MAX_RECORD_SIZE then Some n else None)"

definition boot_parse :: "nomicon \<Rightarrow> bytes \<Rightarrow> boot_sector res" where
  "boot_parse N sector =
     (if length sector < BOOT_MIN_LEN
      then Err (TooShort ''boot sector'' BOOT_MIN_LEN (length sector))
      else let off = boot_off N; oem = arr 8 sector (OEM_ID_OFF off) in
      if oem \<noteq> OEM_ID N then Err (BadOemId oem)
      else let bps = le_u16 sector (BYTES_PER_SECTOR off) in
      if \<not> (256 \<le> bps \<and> bps \<le> 4096) \<or> \<not> is_power_of_two bps then Err (BadBytesPerSector bps)
      else and_then (idx sector (SECTORS_PER_CLUSTER off)) (\<lambda>spc.
      if spc = 0 \<or> \<not> is_power_of_two spc then Err (BadSectorsPerCluster spc)
      else let csize = ucast bps * ucast spc;
               total = le_u64 sector (TOTAL_SECTORS off);
               mlcn = le_u64 sector (MFT_LCN off);
               mmlcn = le_u64 sector (MFTMIRR_LCN off) in
      and_then (idx sector (CLUSTERS_PER_RECORD off)) (\<lambda>cpr.
      and_then (ok_or (record_size cpr csize) (BadRecordSize cpr)) (\<lambda>mrs.
      and_then (idx sector (CLUSTERS_PER_INDEX off)) (\<lambda>cpi.
      and_then (ok_or (record_size cpi csize) (BadIndexRecordSize cpi)) (\<lambda>irs.
      Ok \<lparr>bytes_per_sector = bps, sectors_per_cluster = spc, total_sectors = total,
          mft_lcn = mlcn, mftmirr_lcn = mmlcn, mft_record_size = mrs,
          index_record_size = irs,
          volume_serial = le_u64 sector (VOLUME_SERIAL off)\<rparr>))))))"

section \<open>Geometry\<close>

definition record_size_ok :: "u64 \<Rightarrow> bool" where
  "record_size_ok s \<longleftrightarrow> 256 \<le> unat s \<and> unat s \<le> 2 ^ 20"

definition geometry_ok :: "boot_sector \<Rightarrow> bool" where
  "geometry_ok b \<longleftrightarrow>
     (\<exists>k. 8 \<le> k \<and> k \<le> 12 \<and> unat (bytes_per_sector b) = 2 ^ k) \<and>
     (\<exists>j. j < 8 \<and> unat (sectors_per_cluster b) = 2 ^ j) \<and>
     record_size_ok (mft_record_size b) \<and> record_size_ok (index_record_size b)"

lemma is_power_of_two_unat:
  fixes w :: "'a::len word"
  assumes "is_power_of_two w"
  obtains k where "k < LENGTH('a)" "unat w = 2 ^ k"
proof -
  from assms obtain k where k: "k < LENGTH('a)" "w = 2 ^ k"
    by (auto simp: is_power_of_two_def list_ex_iff)
  from k have "unat w = 2 ^ k"
    by (simp add: unat_2p)
  with k that show thesis by blast
qed

lemma record_size_range: "record_size raw c = Some s \<Longrightarrow> record_size_ok s"
  by (auto simp: record_size_def record_size_ok_def Let_def MIN_RECORD_SIZE_def
      MAX_RECORD_SIZE_def word_le_nat_alt split: option.splits if_splits)

text \<open>The two readings of the clusters-per-record byte.\<close>

lemma record_size_clusters:
  assumes "0 < sint raw" "record_size raw c = Some s"
  shows "unat s = nat (sint raw) * unat c"
proof -
  from assms have m: "checked_mul (word_of_nat (nat \<bar>sint raw\<bar>)) c = Some s"
    by (auto simp: record_size_def Let_def split: option.splits if_splits)
  have lt: "nat (sint raw) < 2 ^ 64"
    using assms(1) sint_lt [of raw] by simp
  have "unat (word_of_nat (nat (sint raw)) :: u64) = nat (sint raw) mod 2 ^ 64"
    by (subst unat_of_nat) simp
  with lt have "unat (word_of_nat (nat \<bar>sint raw\<bar>) :: u64) = nat (sint raw)"
    using assms(1) by (simp only: abs_of_pos mod_less)
  with checked_mul_unat [OF m] show ?thesis by simp
qed

lemma record_size_power:
  assumes "sint raw \<le> 0" "record_size raw c = Some s"
  shows "unat s = 2 ^ nat (- sint raw)"
proof -
  from assms have "checked_shl_one (nat \<bar>sint raw\<bar>) = Some s"
    by (auto simp: record_size_def Let_def split: option.splits if_splits)
  with assms(1) have s: "s = push_bit (nat (- sint raw)) 1" and lt: "nat (- sint raw) < 64"
    by (auto simp: checked_shl_one_def split: if_splits)
  have "s = 2 ^ nat (- sint raw)"
    by (simp add: s push_bit_eq_mult)
  with lt show ?thesis
    by (simp add: unat_2p)
qed

lemma cluster_size_unat:
  assumes "geometry_ok b"
  shows "unat (cluster_size b) = unat (bytes_per_sector b) * unat (sectors_per_cluster b)"
proof -
  from assms obtain k j where "k \<le> 12" "j < 8" "unat (bytes_per_sector b) = 2 ^ k"
    "unat (sectors_per_cluster b) = 2 ^ j"
    by (auto simp: geometry_ok_def)
  moreover from this have "(2::nat) ^ k * 2 ^ j \<le> 2 ^ 12 * 2 ^ 8"
    by (intro mult_le_mono pow2_le) simp_all
  ultimately show ?thesis
    by (simp add: cluster_size_def unat_word_ariths unat_ucast_up)
qed

lemma cluster_size_bounds:
  assumes "geometry_ok b"
  shows "256 \<le> unat (cluster_size b)" "unat (cluster_size b) \<le> 2 ^ 19"
proof -
  from assms obtain k j where kj: "8 \<le> k" "k \<le> 12" "j < 8"
    "unat (bytes_per_sector b) = 2 ^ k" "unat (sectors_per_cluster b) = 2 ^ j"
    by (auto simp: geometry_ok_def)
  have c: "unat (cluster_size b) = 2 ^ (k + j)"
    using cluster_size_unat [OF assms] kj by (simp add: power_add)
  have "(2::nat) ^ 8 \<le> 2 ^ (k + j)" "(2::nat) ^ (k + j) \<le> 2 ^ 19"
    using kj by (intro pow2_le; simp)+
  with c show "256 \<le> unat (cluster_size b)" "unat (cluster_size b) \<le> 2 ^ 19"
    by simp_all
qed

section \<open>Parsing\<close>

lemma boot_parse_no_panic: "boot_in_bpb N \<Longrightarrow> boot_parse N sector \<noteq> Panic"
  by (auto simp: boot_parse_def boot_in_bpb_def Let_def BOOT_MIN_LEN_def
      res_inversions split: if_splits)

lemma bytes_per_sector_power:
  fixes bps :: u16
  assumes "256 \<le> bps" "bps \<le> 4096" "is_power_of_two bps"
  shows "\<exists>k. 8 \<le> k \<and> k \<le> 12 \<and> unat bps = 2 ^ k"
proof -
  from assms(3) obtain k where k: "unat bps = 2 ^ k"
    by (rule is_power_of_two_unat)
  have "(2::nat) ^ 8 \<le> 2 ^ k" "(2::nat) ^ k \<le> 2 ^ 12"
    using assms(1,2) by (simp_all add: word_le_nat_alt flip: k)
  then have "8 \<le> k" "k \<le> 12"
    by (simp_all only: pow2_le_iff)
  with k show ?thesis by blast
qed

lemma boot_parse_geometry:
  assumes "boot_parse N sector = Ok b"
  shows "geometry_ok b"
proof -
  from assms have b: "256 \<le> bytes_per_sector b" "bytes_per_sector b \<le> 4096"
    "is_power_of_two (bytes_per_sector b)" "is_power_of_two (sectors_per_cluster b)"
    and r: "record_size_ok (mft_record_size b)" "record_size_ok (index_record_size b)"
    by (auto simp: boot_parse_def Let_def res_inversions
        intro: record_size_range split: if_splits)
  from b(4) obtain j where "j < 8" "unat (sectors_per_cluster b) = 2 ^ j"
    by (rule is_power_of_two_unat) simp
  with b(1-3) r show ?thesis
    by (auto simp: geometry_ok_def intro: bytes_per_sector_power)
qed

end
