(* ===== verification/Source.thy ===== *)
theory Source
  imports Bytes
begin

text \<open>
  \<open>core/src/source.rs\<close> and the \<open>Read + Seek\<close> interface every reader of the crate is
  generic over. A reader type is a dictionary \<open>host\<close> of its two trait methods together
  with the allocator's answer to \<open>try_reserve_exact\<close>; \<open>read_exact\<close> is the default method
  of \<open>std::io::Read\<close>, which loops over short reads. \<open>cursor_host\<close> is
  \<open>std::io::Cursor<Vec<u8>>\<close>, \<open>offset_host\<close> the \<open>OffsetReader\<close> of the crate. The locale
  \<open>medium\<close> says what a fault-free source promises; the offset reader over one such source
  is another, whose content is the partition window and nothing else.
\<close>

section \<open>The reader interface\<close>

datatype seek_from = SeekStart u64 | SeekCurrent int | SeekEnd int

text \<open>
  A read is asked for at most \<open>n\<close> bytes and returns those it put into the buffer. Errors
  of the two methods are the \<open>Io\<close> errors of the crate. \<open>ErrorKind::Interrupted\<close>, on which
  \<open>read_exact\<close> retries, is not among them.
\<close>

record 'r host =
  io_seek :: "'r \<Rightarrow> seek_from \<Rightarrow> u64 res \<times> 'r"
  io_read :: "'r \<Rightarrow> nat \<Rightarrow> bytes res \<times> 'r"
  mem_reserve :: "nat \<Rightarrow> bool"

function read_exact :: "('r, 'z) host_scheme \<Rightarrow> 'r \<Rightarrow> nat \<Rightarrow> bytes res \<times> 'r" where
  "read_exact H r n =
     (if n = 0 then (Ok [], r)
      else case io_read H r n of
        (Ok bs, r') \<Rightarrow>
          if bs = [] then (Err (Io UnexpectedEof), r')
          else if length bs > n then (Panic, r')
          else (case read_exact H r' (n - length bs) of
                  (Ok rest, r'') \<Rightarrow> (Ok (bs @ rest), r'')
                | (e, r'') \<Rightarrow> (e, r''))
      | (Err e, r') \<Rightarrow> (Err e, r')
      | (Panic, r') \<Rightarrow> (Panic, r'))"
  by pat_completeness auto

termination read_exact
  by (relation "measure (\<lambda>(H, r, n). n)") auto

declare read_exact.simps [simp del]

text \<open>\<open>reader.seek(SeekFrom::Start(off))?; reader.read_exact(..)?\<close>.\<close>

definition seek_read :: "('r, 'z) host_scheme \<Rightarrow> 'r \<Rightarrow> u64 \<Rightarrow> nat \<Rightarrow> bytes res \<times> 'r" where
  "seek_read H r off n =
     (case io_seek H r (SeekStart off) of
        (Ok _, r') \<Rightarrow> read_exact H r' n
      | (Err e, r') \<Rightarrow> (Err e, r')
      | (Panic, r') \<Rightarrow> (Panic, r'))"

section \<open>\<open>std::io::Cursor\<close>\<close>

record cursor =
  cur_bytes :: bytes
  cur_pos :: u64

definition cursor_read :: "cursor \<Rightarrow> nat \<Rightarrow> bytes res \<times> cursor" where
  "cursor_read c n =
     (let bs = take n (drop (unat (cur_pos c)) (cur_bytes c))
      in (Ok bs, c\<lparr>cur_pos := cur_pos c + word_of_nat (length bs)\<rparr>))"

definition cursor_seek :: "cursor \<Rightarrow> seek_from \<Rightarrow> u64 res \<times> cursor" where
  "cursor_seek c f =
     (case f of
        SeekStart n \<Rightarrow> (Ok n, c\<lparr>cur_pos := n\<rparr>)
      | _ \<Rightarrow>
        let t = (case f of SeekCurrent d \<Rightarrow> uint (cur_pos c) + d
                 | SeekEnd d \<Rightarrow> int (length (cur_bytes c)) + d | SeekStart n \<Rightarrow> uint n) in
        if 0 \<le> t \<and> t < 2 ^ 64 then (Ok (word_of_int t), c\<lparr>cur_pos := word_of_int t\<rparr>)
        else (Err (Io (InvalidInput ''invalid seek to a negative or overflowing position'')), c))"

definition cursor_host :: "cursor host" where
  "cursor_host = \<lparr>io_seek = cursor_seek, io_read = cursor_read, mem_reserve = (\<lambda>_. True)\<rparr>"

section \<open>\<open>OffsetReader\<close>\<close>

record 'r offset_reader =
  or_inner :: 'r
  or_base :: u64
  or_len :: u64
  or_pos :: u64

definition offset_new :: "('r, 'z) host_scheme \<Rightarrow> 'r \<Rightarrow> u64 \<Rightarrow> u64 \<Rightarrow> 'r offset_reader res" where
  "offset_new H inner base len =
     (case io_seek H inner (SeekStart base) of
        (Ok _, inner') \<Rightarrow> Ok \<lparr>or_inner = inner', or_base = base, or_len = len, or_pos = 0\<rparr>
      | (Err e, _) \<Rightarrow> Err e
      | (Panic, _) \<Rightarrow> Panic)"

definition offset_is_empty :: "'r offset_reader \<Rightarrow> bool" where
  "offset_is_empty s \<longleftrightarrow> or_len s = 0"

definition offset_read ::
  "('r, 'z) host_scheme \<Rightarrow> 'r offset_reader \<Rightarrow> nat \<Rightarrow> bytes res \<times> 'r offset_reader" where
  "offset_read H s n =
     (let remaining = unat (or_len s) - unat (or_pos s) in
      if remaining = 0 then (Ok [], s)
      else let cap = min remaining n in
      case checked_add (or_base s) (or_pos s) of
        None \<Rightarrow> (Err (Io (InvalidInput ''offset overflow'')), s)
      | Some ab \<Rightarrow>
         (case io_seek H (or_inner s) (SeekStart ab) of
            (Ok _, r1) \<Rightarrow>
              (case io_read H r1 cap of
                 (Ok bs, r2) \<Rightarrow>
                   if unat (or_pos s) + length bs < 2 ^ 64
                   then (Ok bs, s\<lparr>or_inner := r2, or_pos := or_pos s + word_of_nat (length bs)\<rparr>)
                   else (Panic, s\<lparr>or_inner := r2\<rparr>)
               | (Err e, r2) \<Rightarrow> (Err e, s\<lparr>or_inner := r2\<rparr>)
               | (Panic, r2) \<Rightarrow> (Panic, s\<lparr>or_inner := r2\<rparr>))
          | (Err e, r1) \<Rightarrow> (Err e, s\<lparr>or_inner := r1\<rparr>)
          | (Panic, r1) \<Rightarrow> (Panic, s\<lparr>or_inner := r1\<rparr>)))"

definition offset_seek :: "'r offset_reader \<Rightarrow> seek_from \<Rightarrow> u64 res \<times> 'r offset_reader" where
  "offset_seek s f =
     (let target = (case f of
                      SeekStart n \<Rightarrow> uint n
                    | SeekCurrent d \<Rightarrow> uint (or_pos s) + d
                    | SeekEnd d \<Rightarrow> uint (or_len s) + d) in
      if target < 0 then (Err (Io (InvalidInput ''seek before partition start'')), s)
      else let p = (if target < 2 ^ 64 then word_of_int target else - 1)
           in (Ok p, s\<lparr>or_pos := p\<rparr>))"

definition offset_host :: "('r, 'z) host_scheme \<Rightarrow> 'r offset_reader host" where
  "offset_host H = \<lparr>io_seek = offset_seek, io_read = offset_read H, mem_reserve = mem_reserve H\<rparr>"

section \<open>What a fault-free source promises\<close>

text \<open>
  \<open>disk r\<close> is the content behind the reader and \<open>at r\<close> its position. Seeking moves the
  position; a read returns the bytes there, at least one of them unless none was asked for
  or the end is reached. Neither changes the content.
\<close>

locale medium =
  fixes H :: "'r host" and good :: "'r \<Rightarrow> bool" and disk :: "'r \<Rightarrow> bytes" and at :: "'r \<Rightarrow> nat"
  assumes seek_start:
      "good r \<Longrightarrow> \<exists>r'. io_seek H r (SeekStart p) = (Ok p, r') \<and> good r' \<and> disk r' = disk r \<and> at r' = unat p"
    and read_some:
      "good r \<Longrightarrow> \<exists>bs r'. io_read H r n = (Ok bs, r') \<and> good r' \<and> disk r' = disk r \<and>
         length bs \<le> n \<and> bs = take (length bs) (drop (at r) (disk r)) \<and>
         at r' = at r + length bs \<and> (bs = [] \<longrightarrow> n = 0 \<or> length (disk r) \<le> at r)"
begin

lemma read_exact_in:
  assumes "good r" "at r + n \<le> length (disk r)"
  shows "\<exists>r'. read_exact H r n = (Ok (take n (drop (at r) (disk r))), r') \<and> good r' \<and>
    disk r' = disk r \<and> at r' = at r + n"
  using assms
proof (induction n arbitrary: r rule: less_induct)
  case (less n)
  show ?case
  proof (cases "n = 0")
    case True
    with less.prems show ?thesis by (simp add: read_exact.simps)
  next
    case False
    from read_some [OF less.prems(1), of n] obtain bs r' where
      rd: "io_read H r n = (Ok bs, r')" "good r'" "disk r' = disk r" "length bs \<le> n"
      "bs = take (length bs) (drop (at r) (disk r))" "at r' = at r + length bs"
      "bs = [] \<longrightarrow> n = 0 \<or> length (disk r) \<le> at r"
      by blast
    with False less.prems have "bs \<noteq> []"
      by auto
    with rd less.prems obtain r'' where
      "read_exact H r' (n - length bs) = (Ok (take (n - length bs) (drop (at r') (disk r'))), r'')"
      "good r''" "disk r'' = disk r'" "at r'' = at r' + (n - length bs)"
      using less.IH [of "n - length bs" r'] by (metis (no_types, lifting) False add.assoc diff_less
          le_add_diff_inverse length_greater_0_conv neq0_conv)
    moreover have "take n (drop (at r) (disk r)) =
        bs @ take (n - length bs) (drop (at r + length bs) (disk r))"
      using take_drop_split [of "length bs" "n - length bs" "at r" "disk r"] rd(4,5) by simp
    ultimately show ?thesis
      using rd False \<open>bs \<noteq> []\<close> by (subst read_exact.simps) simp
  qed
qed

lemma read_exact_eof:
  assumes "good r" "length (disk r) < at r + n" "0 < n"
  shows "\<exists>r'. read_exact H r n = (Err (Io UnexpectedEof), r') \<and> good r' \<and> disk r' = disk r"
  using assms
proof (induction n arbitrary: r rule: less_induct)
  case (less n)
  from read_some [OF less.prems(1), of n] obtain bs r' where
    rd: "io_read H r n = (Ok bs, r')" "good r'" "disk r' = disk r" "length bs \<le> n"
    "bs = take (length bs) (drop (at r) (disk r))" "at r' = at r + length bs"
    by blast
  show ?case
  proof (cases "bs = []")
    case True
    with rd less.prems show ?thesis by (subst read_exact.simps) simp
  next
    case False
    have "length bs \<le> length (disk r) - at r"
      using rd(5) by (metis length_drop length_take min.cobounded1)
    with False less.prems have "length bs < n"
      by (cases bs) auto
    with rd False less.prems obtain r'' where
      "read_exact H r' (n - length bs) = (Err (Io UnexpectedEof), r'')" "good r''" "disk r'' = disk r'"
      using less.IH [of "n - length bs" r'] by auto
    then show ?thesis
      using rd False less.prems by (subst read_exact.simps) simp
  qed
qed

lemma seek_read_in:
  assumes "good r" "unat off + n \<le> length (disk r)"
  shows "\<exists>r'. seek_read H r off n = (Ok (take n (drop (unat off) (disk r))), r') \<and> good r' \<and>
    disk r' = disk r"
proof -
  from seek_start [OF assms(1), of off] obtain r' where
    "io_seek H r (SeekStart off) = (Ok off, r')" "good r'" "disk r' = disk r" "at r' = unat off"
    by blast
  with read_exact_in [of r' n] assms(2) show ?thesis
    by (auto simp: seek_read_def)
qed

lemma seek_read_out:
  assumes "good r" "length (disk r) < unat off + n" "0 < n"
  shows "\<exists>r'. seek_read H r off n = (Err (Io UnexpectedEof), r') \<and> good r' \<and> disk r' = disk r"
proof -
  from seek_start [OF assms(1), of off] obtain r' where
    "io_seek H r (SeekStart off) = (Ok off, r')" "good r'" "disk r' = disk r" "at r' = unat off"
    by blast
  with read_exact_eof [of r' n] assms(2,3) show ?thesis
    by (auto simp: seek_read_def)
qed

text \<open>Either way the reader stays usable and its content is not changed.\<close>

lemma seek_read_cases:
  assumes "good r"
  obtains r' where "seek_read H r off n =
      ((if n = 0 \<or> unat off + n \<le> length (disk r) then Ok (take n (drop (unat off) (disk r)))
        else Err (Io UnexpectedEof)), r')" "good r'" "disk r' = disk r"
proof (cases "unat off + n \<le> length (disk r)")
  case True
  with seek_read_in [OF assms] that show ?thesis
    by auto
next
  case False
  show ?thesis
  proof (cases "n = 0")
    case True
    from seek_start [OF assms, of off] that show ?thesis
      by (auto simp: seek_read_def read_exact.simps True)
  next
    case nz: False
    with False seek_read_out [OF assms, of off n] that show ?thesis
      by auto
  qed
qed

end

section \<open>The cursor is such a source\<close>

definition cursor_good :: "cursor \<Rightarrow> bool" where
  "cursor_good c \<longleftrightarrow> length (cur_bytes c) < 2 ^ 63"

lemma unat_add_of_nat:
  fixes w :: "'a::len word"
  assumes "unat w + n < 2 ^ LENGTH('a)"
  shows "unat (w + word_of_nat n) = unat w + n"
proof -
  have "unat (word_of_nat n :: 'a word) = n"
    using assms by (simp add: unat_of_nat)
  then show ?thesis
    using assms by (simp add: unat_word_ariths)
qed

lemma cursor_read_pos:
  assumes "cursor_good c" "bs = take n (drop (unat (cur_pos c)) (cur_bytes c))"
  shows "unat (cur_pos c + word_of_nat (length bs)) = unat (cur_pos c) + length bs"
proof (cases "bs = []")
  case False
  then have "unat (cur_pos c) + length bs \<le> length (cur_bytes c)"
    using assms(2) by auto
  then show ?thesis
    using assms(1) by (intro unat_add_of_nat) (simp add: cursor_good_def)
qed simp

interpretation disk_cursor: medium cursor_host cursor_good cur_bytes "\<lambda>c. unat (cur_pos c)"
proof
  fix r :: cursor and n
  assume "cursor_good r"
  then show "\<exists>bs r'. io_read cursor_host r n = (Ok bs, r') \<and> cursor_good r' \<and>
      cur_bytes r' = cur_bytes r \<and> length bs \<le> n \<and>
      bs = take (length bs) (drop (unat (cur_pos r)) (cur_bytes r)) \<and>
      unat (cur_pos r') = unat (cur_pos r) + length bs \<and>
      (bs = [] \<longrightarrow> n = 0 \<or> length (cur_bytes r) \<le> unat (cur_pos r))"
    using cursor_read_pos [of r "take n (drop (unat (cur_pos r)) (cur_bytes r))" n]
    by (auto simp: cursor_host_def cursor_read_def cursor_good_def Let_def min_def)
qed (auto simp: cursor_host_def cursor_seek_def cursor_good_def)

section \<open>A partition window over a source is such a source\<close>

locale window = medium
begin

definition win_good :: "'a offset_reader \<Rightarrow> bool" where
  "win_good s \<longleftrightarrow> good (or_inner s) \<and> unat (or_base s) + unat (or_len s) < 2 ^ 64"

definition win_disk :: "'a offset_reader \<Rightarrow> bytes" where
  "win_disk s = take (unat (or_len s)) (drop (unat (or_base s)) (disk (or_inner s)))"

lemma offset_seek_start:
  "offset_seek s (SeekStart p) = (Ok p, s\<lparr>or_pos := p\<rparr>)"
  using uint_bounded [of p] by (simp add: offset_seek_def Let_def)

lemma offset_read_window:
  assumes "win_good s"
  shows "\<exists>bs s'. offset_read H s n = (Ok bs, s') \<and> win_good s' \<and> win_disk s' = win_disk s \<and>
    length bs \<le> n \<and> bs = take (length bs) (drop (unat (or_pos s)) (win_disk s)) \<and>
    unat (or_pos s') = unat (or_pos s) + length bs \<and>
    (bs = [] \<longrightarrow> n = 0 \<or> length (win_disk s) \<le> unat (or_pos s))"
proof (cases "unat (or_len s) \<le> unat (or_pos s)")
  case True
  then show ?thesis
    using assms by (auto simp: offset_read_def win_disk_def)
next
  case False
  let ?cap = "min (unat (or_len s) - unat (or_pos s)) n"
  have lt: "unat (or_base s) + unat (or_pos s) < 2 ^ 64"
    using assms False by (auto simp: win_good_def)
  then have ab: "checked_add (or_base s) (or_pos s) = Some (or_base s + or_pos s)"
    "unat (or_base s + or_pos s) = unat (or_base s) + unat (or_pos s)"
    by (simp_all add: checked_add_def unat_word_ariths)
  from assms seek_start [of "or_inner s" "or_base s + or_pos s"] obtain r1 where
    sk: "io_seek H (or_inner s) (SeekStart (or_base s + or_pos s)) = (Ok (or_base s + or_pos s), r1)"
    "good r1" "disk r1 = disk (or_inner s)" "at r1 = unat (or_base s) + unat (or_pos s)"
    using ab by (auto simp: win_good_def)
  from read_some [OF sk(2), of ?cap] obtain bs r2 where
    rd: "io_read H r1 ?cap = (Ok bs, r2)" "good r2" "disk r2 = disk r1" "length bs \<le> ?cap"
    "bs = take (length bs) (drop (at r1) (disk r1))"
    "bs = [] \<longrightarrow> ?cap = 0 \<or> length (disk r1) \<le> at r1"
    by blast
  have np: "unat (or_pos s) + length bs < 2 ^ 64"
  proof -
    have "unat (or_pos s) + length bs \<le> unat (or_len s)"
      using rd(4) False by auto
    also have "\<dots> < 2 ^ 64"
      by simp
    finally show ?thesis .
  qed
  then have pos': "unat (or_pos s + word_of_nat (length bs)) = unat (or_pos s) + length bs"
    by (intro unat_add_of_nat) simp
  have "offset_read H s n =
      (Ok bs, s\<lparr>or_inner := r2, or_pos := or_pos s + word_of_nat (length bs)\<rparr>)"
    using False ab sk rd np by (simp add: offset_read_def Let_def)
  moreover have "bs = take (length bs) (drop (unat (or_pos s)) (win_disk s))"
  proof -
    have "take (length bs) (drop (unat (or_pos s)) (win_disk s)) =
        take (min (length bs) (unat (or_len s) - unat (or_pos s)))
          (drop (unat (or_base s) + unat (or_pos s)) (disk (or_inner s)))"
      by (simp add: win_disk_def drop_take add.commute)
    then show ?thesis
      using rd(4,5) sk(3,4) by (simp add: min_absorb1)
  qed
  ultimately show ?thesis
    using assms rd sk pos' False
    by (auto simp: win_good_def win_disk_def)
qed

end

sublocale window \<subseteq> win: medium "offset_host H" win_good win_disk "\<lambda>s. unat (or_pos s)"
proof
  show "win_good r \<Longrightarrow> \<exists>r'. io_seek (offset_host H) r (SeekStart p) = (Ok p, r') \<and> win_good r' \<and>
      win_disk r' = win_disk r \<and> unat (or_pos r') = unat p" for r p
    by (auto simp: offset_host_def offset_seek_start win_good_def win_disk_def)
  show "win_good r \<Longrightarrow> \<exists>bs r'. io_read (offset_host H) r n = (Ok bs, r') \<and> win_good r' \<and>
      win_disk r' = win_disk r \<and> length bs \<le> n \<and>
      bs = take (length bs) (drop (unat (or_pos r)) (win_disk r)) \<and>
      unat (or_pos r') = unat (or_pos r) + length bs \<and>
      (bs = [] \<longrightarrow> n = 0 \<or> length (win_disk r) \<le> unat (or_pos r))" for r n
    using offset_read_window by (simp add: offset_host_def)
qed

interpretation disk_window: window cursor_host cursor_good cur_bytes "\<lambda>c. unat (cur_pos c)"
  by unfold_locales

section \<open>Properties\<close>

text \<open>A seek of the window never touches the source and never fails going forward.\<close>

lemma offset_seek_inner: "or_inner (snd (offset_seek s f)) = or_inner s"
  by (simp add: offset_seek_def Let_def)

text \<open>
  Claim C6. A partition opened through the offset reader is read exactly as if its window had
  been cut out of the disk: whatever the position, an exact read of \<open>n\<close> bytes returns the
  bytes of the window there, or end of file when they would leave the window, even where
  the disk goes on.
\<close>

theorem offset_reader_confined:
  assumes "length d < 2 ^ 63" "unat base + unat len < 2 ^ 64"
    and "offset_new cursor_host \<lparr>cur_bytes = d, cur_pos = p\<rparr> base len = Ok s" "0 < n"
  shows "fst (seek_read (offset_host cursor_host) s off n) =
    (let w = take (unat len) (drop (unat base) d) in
     if unat off + n \<le> length w then Ok (take n (drop (unat off) w)) else Err (Io UnexpectedEof))"
proof -
  have s: "s = \<lparr>or_inner = \<lparr>cur_bytes = d, cur_pos = base\<rparr>, or_base = base, or_len = len, or_pos = 0\<rparr>"
    using assms(3) by (simp add: offset_new_def cursor_host_def cursor_seek_def)
  have g: "disk_window.win_good s" and w: "disk_window.win_disk s = take (unat len) (drop (unat base) d)"
    using assms(1,2) by (simp_all add: s disk_window.win_good_def disk_window.win_disk_def cursor_good_def)
  obtain s' where "seek_read (offset_host cursor_host) s off n =
      ((if n = 0 \<or> unat off + n \<le> length (disk_window.win_disk s)
        then Ok (take n (drop (unat off) (disk_window.win_disk s)))
        else Err (Io UnexpectedEof)), s')"
    using disk_window.win.seek_read_cases [OF g, of off n] by blast
  then show ?thesis
    using assms(4) by (simp only: w Let_def fst_conv) simp
qed

theorem offset_reader_confined_witness:
  "fst (seek_read (offset_host cursor_host)
     \<lparr>or_inner = \<lparr>cur_bytes = [1, 2, 3, 4, 5, 6], cur_pos = 2\<rparr>, or_base = 2, or_len = 3, or_pos = 0\<rparr> 1 2) =
     Ok [4, 5] \<and>
   fst (seek_read (offset_host cursor_host)
     \<lparr>or_inner = \<lparr>cur_bytes = [1, 2, 3, 4, 5, 6], cur_pos = 2\<rparr>, or_base = 2, or_len = 3, or_pos = 0\<rparr> 2 2) =
     Err (Io UnexpectedEof)"
  (is "fst (seek_read _ ?s _ _) = _ \<and> _")
proof -
  have "offset_new cursor_host \<lparr>cur_bytes = [1, 2, 3, 4, 5, 6], cur_pos = 0\<rparr> 2 3 = Ok ?s"
    by (simp add: offset_new_def cursor_host_def cursor_seek_def)
  from offset_reader_confined [OF _ _ this, of 2 1] offset_reader_confined [OF _ _ this, of 2 2]
  show ?thesis by simp
qed

end
