(* ===== verification/Runlist.thy ===== *)
theory Runlist
  imports Bytes
begin

text \<open>
  \<open>core/src/runlist.rs\<close>: decoding the data runs of a non-resident attribute. The field
  readers keep the source's shift-and-or loops on 64-bit words; \<open>read_uint_value\<close> and
  \<open>read_sint_value\<close> show that they compute the unsigned and the two's complement value
  of the field. \<open>encode_runs\<close> writes a list of runs with chosen field widths; decoding is
  its left inverse.
\<close>

section \<open>Definitions\<close>

record run =
  run_length :: u64
  lcn :: "u64 option"

definition MAX_RUNS :: nat where
  "MAX_RUNS = 2 ^ 20"

text \<open>The accumulating loop \<open>v |= u64::from(b) << (8 * i)\<close> of both readers.\<close>

fun or_loop :: "bytes \<Rightarrow> nat \<Rightarrow> u64 \<Rightarrow> u64" where
  "or_loop [] i v = v"
| "or_loop (b # bs) i v = or_loop bs (Suc i) (v OR push_bit (8 * i) (ucast b))"

definition read_uint :: "bytes \<Rightarrow> nat \<Rightarrow> nat \<Rightarrow> u64 option" where
  "read_uint data pos n =
     Option.bind (usize_checked_add pos n) (\<lambda>stop.
     Option.bind (get_range data pos stop) (\<lambda>s.
     Some (or_loop s 0 0)))"

text \<open>The \<open>i64\<close> is kept as its 64 bits and read as an integer at the end.\<close>

definition read_sint :: "bytes \<Rightarrow> nat \<Rightarrow> nat \<Rightarrow> int option" where
  "read_sint data pos n =
     Option.bind (usize_checked_add pos n) (\<lambda>stop.
     Option.bind (get_range data pos stop) (\<lambda>s.
     let v = or_loop s 0 0; bits = n * 8 in
     if bits < 64 \<and> v AND push_bit (bits - 1) 1 \<noteq> 0 then Some (sint (v OR - push_bit bits 1))
     else Some (sint v)))"

text \<open>
  One iteration of the loop of \<open>decode\<close>, past the terminator test: the run whose header
  byte is at \<open>pos\<close>, the position after it and the running cluster number.
\<close>

definition decode_run :: "bytes \<Rightarrow> nat \<Rightarrow> int \<Rightarrow> u8 \<Rightarrow> (run \<times> nat \<times> int) res" where
  "decode_run data pos current_lcn header =
     (let pos = pos + 1;
          len_bytes = unat (header AND 0x0F);
          off_bytes = unat (drop_bit 4 header) in
      if len_bytes = 0 \<or> len_bytes > 8 then Err (BadRunlist ''invalid run length field width'')
      else if off_bytes > 8 then Err (BadRunlist ''invalid run offset field width'')
      else and_then (ok_or (read_uint data pos len_bytes) (BadRunlist ''length runs past end'')) (\<lambda>len.
      let pos = pos + len_bytes in
      if len = 0 then Err (BadRunlist ''zero-length run'')
      else if off_bytes = 0 then Ok (\<lparr>run_length = len, lcn = None\<rparr>, pos, current_lcn)
      else and_then (ok_or (read_sint data pos off_bytes) (BadRunlist ''offset runs past end'')) (\<lambda>delta.
      let pos = pos + off_bytes in
      and_then (ok_or (i64_checked_add current_lcn delta) (BadRunlist ''LCN overflow'')) (\<lambda>current_lcn.
      if current_lcn < 0 then Err (BadRunlist ''negative LCN'')
      else Ok (\<lparr>run_length = len, lcn = Some (word_of_int current_lcn)\<rparr>, pos, current_lcn)))))"

fun decode_loop :: "bytes \<Rightarrow> nat \<Rightarrow> nat \<Rightarrow> int \<Rightarrow> run list res" where
  "decode_loop data 0 pos current_lcn = Ok []"
| "decode_loop data (Suc n) pos current_lcn =
     (if length data \<le> pos then Ok []
      else let header = data ! pos in
      if header = 0 then Ok []
      else and_then (decode_run data pos current_lcn header) (\<lambda>(r, pos', lcn').
           and_then (decode_loop data n pos' lcn') (\<lambda>rs. Ok (r # rs))))"

definition runlist_decode :: "bytes \<Rightarrow> run list res" where
  "runlist_decode data = decode_loop data MAX_RUNS 0 0"

fun total_clusters_loop :: "run list \<Rightarrow> u64 \<Rightarrow> u64 res" where
  "total_clusters_loop [] acc = Ok acc"
| "total_clusters_loop (r # rs) acc =
     and_then (ok_or (checked_add acc (run_length r)) (BadRunlist ''total cluster count overflow''))
       (total_clusters_loop rs)"

definition total_clusters :: "run list \<Rightarrow> u64 res" where
  "total_clusters rs = total_clusters_loop rs 0"

section \<open>The field readers compute the stored numbers\<close>

text \<open>The two's complement value of a little-endian byte string.\<close>

definition le_int :: "bytes \<Rightarrow> int" where
  "le_int bs = (if le_nat bs < 2 ^ (8 * length bs - 1) then int (le_nat bs)
                else int (le_nat bs) - 2 ^ (8 * length bs))"

lemma byte_or_push: "ucast (b::u8) OR push_bit 8 w = (ucast b + push_bit 8 w :: u64)"
proof (rule sym, rule disjunctive_add_eq_or)
  show "ucast b AND push_bit 8 w = (0 :: u64)"
    by (rule bit_eqI) (auto simp: bit_simps dest: bit_imp_le_length)
qed

lemma word_of_nat_le_nat_Cons:
  "(word_of_nat (le_nat (b # bs)) :: u64) = ucast b OR push_bit 8 (word_of_nat (le_nat bs))"
  by (simp only: byte_or_push) (simp add: push_bit_eq_mult)

lemma or_loop_value: "or_loop bs i v = v OR push_bit (8 * i) (word_of_nat (le_nat bs))"
proof (induction bs arbitrary: i v)
  case Nil
  then show ?case by simp
next
  case (Cons b bs)
  have "push_bit (8 * Suc i) w = push_bit (8 * i) (push_bit 8 w)" for w :: u64
    by (simp add: push_bit_push_bit algebra_simps)
  with Cons.IH show ?case
    by (simp only: or_loop.simps word_of_nat_le_nat_Cons push_bit_or or.assoc)
qed

lemma le_nat_pow2: "le_nat bs < 2 ^ (8 * length bs)"
  using le_nat_bound [of bs] by (simp add: power_mult)

lemma le_nat_lt64:
  assumes "length bs \<le> 8"
  shows "le_nat bs < 2 ^ 64"
  using le_nat_pow2 [of bs] pow2_le [of "8 * length bs" 64] assms by linarith

lemma unat_or_loop: "length bs \<le> 8 \<Longrightarrow> unat (or_loop bs 0 0) = le_nat bs"
  using le_nat_lt64 [of bs] by (simp add: or_loop_value unat_of_nat)

lemma read_uint_value:
  "read_uint data pos n = Some v \<Longrightarrow> n \<le> 8 \<Longrightarrow>
   pos + n \<le> length data \<and> unat v = le_nat (take n (drop pos data))"
  by (auto simp: read_uint_def get_range_Some_iff checked_simps bind_eq_Some_conv unat_or_loop)

lemma read_uint_in:
  "pos + n \<le> length data \<Longrightarrow> pos + n < 2 ^ 64 \<Longrightarrow>
   read_uint data pos n = Some (or_loop (take n (drop pos data)) 0 0)"
  by (simp add: read_uint_def usize_checked_add_def get_range_def)

lemma bit_top_iff:
  assumes "le_nat bs < 2 ^ Suc k" "Suc k \<le> 64"
  shows "(word_of_nat (le_nat bs) :: u64) AND push_bit k 1 \<noteq> 0 \<longleftrightarrow> 2 ^ k \<le> le_nat bs"
proof -
  have "(word_of_nat (le_nat bs) :: u64) AND push_bit k 1 \<noteq> 0 \<longleftrightarrow> bit (word_of_nat (le_nat bs) :: u64) k"
    by (simp only: bit_iff_and_push_bit_not_eq_0)
  also have "\<dots> \<longleftrightarrow> bit (le_nat bs) k"
    using assms(2) by (simp add: bit_simps)
  also have "\<dots> \<longleftrightarrow> odd (le_nat bs div 2 ^ k)"
    by (simp add: bit_iff_odd)
  also have "le_nat bs div 2 ^ k < 2"
    using assms(1) by (simp add: div_less_iff_less_mult)
  then have "odd (le_nat bs div 2 ^ k) \<longleftrightarrow> 1 \<le> le_nat bs div 2 ^ k"
    by (cases "le_nat bs div 2 ^ k") auto
  also have "\<dots> \<longleftrightarrow> 2 ^ k \<le> le_nat bs"
    by (simp add: less_eq_div_iff_mult_less_eq)
  finally show ?thesis .
qed

lemma or_high_bits:
  assumes "m < 2 ^ k" "k \<le> 64"
  shows "(word_of_nat m :: u64) OR - push_bit k 1 = word_of_int (int m - 2 ^ k)"
proof -
  have "(word_of_nat m :: u64) AND - push_bit k 1 = 0"
  proof (rule bit_eqI)
    fix n
    have "n < k" if "bit m n"
      using assms(1) that by (metis bit_take_bit_iff take_bit_nat_eq_self)
    then show "bit ((word_of_nat m :: u64) AND - push_bit k 1) n = bit (0 :: u64) n"
      by (auto simp: bit_simps minus_exp_eq_not_mask push_bit_of_1)
  qed
  then have "(word_of_nat m :: u64) OR - push_bit k 1 = word_of_nat m + (- push_bit k 1)"
    by (rule disjunctive_add_eq_or [symmetric])
  also have "\<dots> = word_of_int (int m - 2 ^ k)"
    by (simp add: push_bit_of_1)
  finally show ?thesis .
qed

lemma sint_of_int: "- (2 ^ 63) \<le> x \<Longrightarrow> x < 2 ^ 63 \<Longrightarrow> sint (word_of_int x :: u64) = x"
  by (simp add: signed_of_int signed_take_bit_int_eq_self)

lemma le_int_range: "bs \<noteq> [] \<Longrightarrow> - (2 ^ (8 * length bs - 1)) \<le> le_int bs \<and> le_int bs < 2 ^ (8 * length bs - 1)"
proof -
  assume "bs \<noteq> []"
  then obtain k where k: "8 * length bs = Suc k"
    by (cases bs) auto
  have "int (le_nat bs) < int (2 ^ Suc k)"
    using le_nat_pow2 [of bs] k by (simp only: of_nat_less_iff)
  then have hi: "int (le_nat bs) < 2 * 2 ^ k"
    by simp
  have "le_nat bs < 2 ^ k \<longleftrightarrow> int (le_nat bs) < 2 ^ k"
    by (metis of_nat_less_iff of_nat_numeral of_nat_power)
  then have "le_int bs = (if int (le_nat bs) < 2 ^ k then int (le_nat bs) else int (le_nat bs) - 2 * 2 ^ k)"
    using k by (simp add: le_int_def)
  with hi k show ?thesis
    by (simp split: if_splits)
qed

lemma read_sint_in:
  assumes "pos + n \<le> length data" "pos + n < 2 ^ 64" "0 < n" "n \<le> 8"
  shows "read_sint data pos n = Some (le_int (take n (drop pos data)))"
proof -
  define s where "s = take n (drop pos data)"
  have len: "length s = n"
    using assms(1) by (simp add: s_def)
  obtain k where k: "8 * n = Suc k" "k \<le> 63"
    using assms(3,4) by (cases "8 * n") auto
  have lt: "le_nat s < 2 ^ Suc k"
    using le_nat_pow2 [of s] len k by simp
  have ext: "sint (word_of_int (le_int s) :: u64) = le_int s"
  proof -
    have "(2::int) ^ k \<le> 2 ^ 63"
      using k(2) by (rule power_increasing) simp
    moreover have "s \<noteq> []"
      using len assms(3) by auto
    ultimately show ?thesis
      using le_int_range [of s] len k by (intro sint_of_int) auto
  qed
  have "read_sint data pos n = Some (sint (word_of_int (le_int s) :: u64))"
  proof (cases "2 ^ k \<le> le_nat s")
    case False
    then have "le_int s = int (le_nat s)"
      using len k by (simp add: le_int_def)
    moreover have "\<not> ((word_of_nat (le_nat s) :: u64) AND push_bit (n * 8 - 1) 1 \<noteq> 0)"
      using bit_top_iff [OF lt] False k by (simp add: mult.commute)
    ultimately show ?thesis
      using assms by (simp add: read_sint_def usize_checked_add_def get_range_def or_loop_value
          flip: s_def)
  next
    case True
    then have neg: "le_int s = int (le_nat s) - 2 ^ (8 * n)"
      using len k by (simp add: le_int_def)
    have top: "(word_of_nat (le_nat s) :: u64) AND push_bit (n * 8 - 1) 1 \<noteq> 0"
      using bit_top_iff [OF lt] True k by (simp add: mult.commute)
    have "(word_of_nat (le_nat s) :: u64) = word_of_int (le_int s)" if "n = 8"
      using that neg by simp
    moreover have "(word_of_nat (le_nat s) :: u64) OR - push_bit (n * 8) 1 = word_of_int (le_int s)"
      using or_high_bits [of "le_nat s" "n * 8"] lt k neg by (simp add: mult.commute)
    ultimately show ?thesis
      using assms top by (auto simp: read_sint_def usize_checked_add_def get_range_def or_loop_value
          Let_def simp flip: s_def)
  qed
  then show ?thesis
    using ext by (simp add: s_def)
qed

lemma read_sint_Some:
  "read_sint data pos n = Some v \<Longrightarrow> pos + n \<le> length data \<and> pos + n < 2 ^ 64"
  by (auto simp: read_sint_def get_range_Some_iff checked_simps bind_eq_Some_conv Let_def split: if_splits)

section \<open>What decoding establishes\<close>

definition run_ok :: "run \<Rightarrow> bool" where
  "run_ok r \<longleftrightarrow> run_length r \<noteq> 0 \<and> (case lcn r of None \<Rightarrow> True | Some c \<Rightarrow> unat c < 2 ^ 63)"

lemma i64_nonneg_word: "i64_range x \<Longrightarrow> 0 \<le> x \<Longrightarrow> unat (word_of_int x :: u64) < 2 ^ 63"
  by (simp add: i64_range_def unat_eq_nat_uint uint_word_of_int)

lemma decode_run_Ok:
  assumes "decode_run data pos cur h = Ok (r, pos', cur')"
  shows "run_ok r" "pos + 2 \<le> pos'" "pos' \<le> length data"
proof -
  from assms have "run_ok r \<and> pos + 2 \<le> pos' \<and> pos' \<le> length data"
    by (auto simp: decode_run_def Let_def res_inversions run_ok_def checked_simps not_less
        i64_nonneg_word [simplified]
        dest!: read_uint_value read_sint_Some simp del: of_int_add split: if_splits)
  then show "run_ok r" "pos + 2 \<le> pos'" "pos' \<le> length data"
    by auto
qed

lemma decode_run_no_panic: "decode_run data pos cur h \<noteq> Panic"
  by (auto simp: decode_run_def Let_def res_inversions split: if_splits)

lemma decode_loop_no_panic: "decode_loop data n pos cur \<noteq> Panic"
  by (induction n arbitrary: pos cur)
     (auto simp: Let_def res_inversions decode_run_no_panic split: if_splits)

lemma decode_loop_ok:
  assumes "decode_loop data n pos cur = Ok rs"
  shows "(\<forall>r \<in> set rs. run_ok r) \<and> length rs \<le> n \<and> 2 * length rs \<le> length data - pos"
  using assms
proof (induction n arbitrary: pos cur rs)
  case 0
  then show ?case by simp
next
  case (Suc n)
  show ?case
  proof (cases rs)
    case Nil
    then show ?thesis by simp
  next
    case (Cons r rest)
    with Suc.prems obtain h pos' cur' where
      d: "decode_run data pos cur h = Ok (r, pos', cur')"
      and l: "decode_loop data n pos' cur' = Ok rest"
      by (auto simp: Let_def res_inversions split: if_splits)
    from Suc.IH [OF l] decode_run_Ok [OF d] Cons show ?thesis
      by auto
  qed
qed

lemma total_clusters_loop_spec:
  "total_clusters_loop rs acc =
     (if unat acc + (\<Sum>r\<leftarrow>rs. unat (run_length r)) < 2 ^ 64
      then Ok (acc + word_of_nat (\<Sum>r\<leftarrow>rs. unat (run_length r)))
      else Err (BadRunlist ''total cluster count overflow''))"
proof (induction rs arbitrary: acc)
  case Nil
  then show ?case by simp
next
  case (Cons r rs)
  show ?case
  proof (cases "unat acc + unat (run_length r) < 2 ^ 64")
    case True
    then have "unat (acc + run_length r) = unat acc + unat (run_length r)"
      by (simp add: unat_word_ariths)
    then show ?thesis
      using True Cons.IH [of "acc + run_length r"] by (simp add: checked_add_def add.assoc)
  next
    case False
    then show ?thesis
      by (simp add: checked_add_def)
  qed
qed

section \<open>A reference encoder\<close>

text \<open>
  A run with the widths of its two fields. \<open>enc_ok\<close> says that the widths hold the
  values: the length unsigned, the cluster delta from the previous placed run signed.
\<close>

record coded_run =
  len_width :: nat
  off_width :: nat
  crun :: run

definition lcn_delta :: "int \<Rightarrow> run \<Rightarrow> int" where
  "lcn_delta cur r = (case lcn r of None \<Rightarrow> 0 | Some c \<Rightarrow> int (unat c) - cur)"

definition next_lcn :: "int \<Rightarrow> run \<Rightarrow> int" where
  "next_lcn cur r = (case lcn r of None \<Rightarrow> cur | Some c \<Rightarrow> int (unat c))"

definition enc_ok :: "int \<Rightarrow> coded_run \<Rightarrow> bool" where
  "enc_ok cur c \<longleftrightarrow> run_ok (crun c) \<and> 0 < len_width c \<and> len_width c \<le> 8 \<and> off_width c \<le> 8 \<and>
     unat (run_length (crun c)) < 2 ^ (8 * len_width c) \<and>
     (off_width c = 0 \<longleftrightarrow> lcn (crun c) = None) \<and>
     (off_width c \<noteq> 0 \<longrightarrow> - (2 ^ (8 * off_width c - 1)) \<le> lcn_delta cur (crun c) \<and>
        lcn_delta cur (crun c) < 2 ^ (8 * off_width c - 1))"

definition encode_run :: "int \<Rightarrow> coded_run \<Rightarrow> bytes" where
  "encode_run cur c =
     word_of_nat (16 * off_width c + len_width c) #
     le_bytes (len_width c) (unat (run_length (crun c))) @
     le_bytes (off_width c) (nat (lcn_delta cur (crun c) mod 2 ^ (8 * off_width c)))"

fun encode_runs :: "int \<Rightarrow> coded_run list \<Rightarrow> bytes" where
  "encode_runs cur [] = [0]"
| "encode_runs cur (c # cs) = encode_run cur c @ encode_runs (next_lcn cur (crun c)) cs"

fun encs_ok :: "int \<Rightarrow> coded_run list \<Rightarrow> bool" where
  "encs_ok cur [] = True"
| "encs_ok cur (c # cs) \<longleftrightarrow> enc_ok cur c \<and> encs_ok (next_lcn cur (crun c)) cs"

lemma le_int_le_bytes:
  assumes "0 < n" "- (2 ^ (8 * n - 1)) \<le> x" "x < 2 ^ (8 * n - 1)"
  shows "le_int (le_bytes n (nat (x mod 2 ^ (8 * n)))) = x"
proof -
  obtain k where k: "8 * n = Suc k"
    using assms(1) by (cases "8 * n") auto
  have "nat (x mod 2 ^ (8 * n)) < 2 ^ (8 * n)"
    by (simp add: nat_less_iff)
  then have v: "le_nat (le_bytes n (nat (x mod 2 ^ (8 * n)))) = nat (x mod 2 ^ (8 * n))"
    by (simp add: le_nat_le_bytes power_mult)
  have "x mod 2 ^ (8 * n) = (if 0 \<le> x then x else x + 2 ^ (8 * n))"
  proof (cases "0 \<le> x")
    case True
    with assms k show ?thesis
      by (simp add: mod_pos_pos_trivial)
  next
    case False
    then have "(x + 2 ^ (8 * n)) mod 2 ^ (8 * n) = x + 2 ^ (8 * n)"
      using assms k by (intro mod_pos_pos_trivial) auto
    with False show ?thesis
      by simp
  qed
  then show ?thesis
    using assms k unfolding le_int_def v
    by (auto simp: nat_less_iff le_nat_iff)
qed

lemma header_nibbles:
  assumes "l \<le> 8" "n \<le> 8"
  shows "unat ((word_of_nat (16 * n + l) :: u8) AND 0x0F) = l"
    and "unat (drop_bit 4 (word_of_nat (16 * n + l) :: u8)) = n"
proof -
  have v: "unat (word_of_nat (16 * n + l) :: u8) = 16 * n + l"
    using assms by (intro unat_u8_of_nat) simp
  have "(0x0F :: u8) = mask 4"
    by (simp add: mask_eq_exp_minus_1)
  then have "unat ((word_of_nat (16 * n + l) :: u8) AND 0x0F) = take_bit 4 (16 * n + l)"
    by (simp only: v unsigned_take_bit_eq flip: take_bit_eq_mask)
  then show "unat ((word_of_nat (16 * n + l) :: u8) AND 0x0F) = l"
    using assms by (simp add: take_bit_eq_mod)
  have "unat (drop_bit 4 (word_of_nat (16 * n + l) :: u8)) = drop_bit 4 (16 * n + l)"
    by (simp only: unat_drop_bit_eq v)
  then show "unat (drop_bit 4 (word_of_nat (16 * n + l) :: u8)) = n"
    using assms by (simp add: drop_bit_eq_div)
qed

lemma length_encode_run [simp]: "length (encode_run cur c) = 1 + len_width c + off_width c"
  by (simp add: encode_run_def)

lemma decode_run_encoded:
  fixes pre post :: bytes
  assumes ok: "enc_ok cur c" and len: "length (pre @ encode_run cur c @ post) < 2 ^ 64"
  shows "decode_run (pre @ encode_run cur c @ post) (length pre) cur (hd (encode_run cur c)) =
    Ok (crun c, length pre + length (encode_run cur c), next_lcn cur (crun c))"
proof -
  let ?d = "pre @ encode_run cur c @ post"
  let ?l = "len_width c" and ?n = "off_width c"
  have nib: "unat (hd (encode_run cur c) AND 0x0F) = ?l" "unat (drop_bit 4 (hd (encode_run cur c))) = ?n"
    using ok header_nibbles [of ?l ?n] by (auto simp: encode_run_def enc_ok_def)
  have tl: "take ?l (drop (length pre + 1) ?d) = le_bytes ?l (unat (run_length (crun c)))"
    by (simp add: encode_run_def)
  have ru: "read_uint ?d (length pre + 1) ?l = Some (run_length (crun c))"
  proof -
    have "le_nat (le_bytes ?l (unat (run_length (crun c)))) = unat (run_length (crun c))"
      using ok by (simp add: le_nat_le_bytes enc_ok_def power_mult)
    with tl len show ?thesis
      by (subst read_uint_in) (auto simp: or_loop_value)
  qed
  have tn: "take ?n (drop (length pre + 1 + ?l) ?d) =
      le_bytes ?n (nat (lcn_delta cur (crun c) mod 2 ^ (8 * ?n)))"
    by (simp add: encode_run_def)
  have rs: "read_sint ?d (length pre + 1 + ?l) ?n = Some (lcn_delta cur (crun c))" if "?n \<noteq> 0"
  proof -
    have "le_int (take ?n (drop (length pre + 1 + ?l) ?d)) = lcn_delta cur (crun c)"
      unfolding tn using that ok by (intro le_int_le_bytes) (auto simp: enc_ok_def)
    moreover have "read_sint ?d (length pre + 1 + ?l) ?n =
        Some (le_int (take ?n (drop (length pre + 1 + ?l) ?d)))"
      using len ok that by (intro read_sint_in) (auto simp: enc_ok_def)
    ultimately show ?thesis
      by (simp only:)
  qed
  have big: "unat x < 2 ^ 63 \<Longrightarrow> i64_range (int (unat x))" for x :: u64
  proof -
    assume "unat x < 2 ^ 63"
    then have "int (unat x) < 2 ^ 63"
      by (metis of_nat_less_iff of_nat_numeral of_nat_power)
    then show "i64_range (int (unat x))"
      unfolding i64_range_def by linarith
  qed
  show ?thesis
  proof (cases "lcn (crun c)")
    case None
    then show ?thesis
      using ok nib ru by (simp add: decode_run_def enc_ok_def run_ok_def next_lcn_def)
  next
    case (Some x)
    then have "i64_checked_add cur (lcn_delta cur (crun c)) = Some (int (unat x))"
      using ok big [of x] by (simp add: i64_checked_add_def lcn_delta_def enc_ok_def run_ok_def)
    with Some show ?thesis
      using ok nib ru rs by (simp add: decode_run_def enc_ok_def run_ok_def next_lcn_def)
  qed
qed

lemma decode_loop_encoded:
  assumes "encs_ok cur cs" "length cs < n" "length (pre @ encode_runs cur cs @ post) < 2 ^ 64"
  shows "decode_loop (pre @ encode_runs cur cs @ post) n (length pre) cur = Ok (map crun cs)"
  using assms
proof (induction cs arbitrary: cur n pre)
  case Nil
  then show ?case by (cases n) simp_all
next
  case (Cons c cs)
  obtain m where n: "n = Suc m" "length cs < m"
    using Cons.prems(2) by (cases n) auto
  let ?cur = "next_lcn cur (crun c)"
  let ?rest = "encode_runs ?cur cs @ post"
  have "unat (hd (encode_run cur c) AND 0x0F) \<noteq> 0"
    using Cons.prems(1) header_nibbles [of "len_width c" "off_width c"]
    by (auto simp: encode_run_def enc_ok_def)
  then have nz: "hd (encode_run cur c) \<noteq> 0"
    by auto
  have at: "(pre @ encode_run cur c @ ?rest) ! length pre = hd (encode_run cur c)"
    by (simp add: encode_run_def)
  have "decode_run (pre @ encode_run cur c @ ?rest) (length pre) cur (hd (encode_run cur c)) =
      Ok (crun c, length (pre @ encode_run cur c), ?cur)"
    using Cons.prems by (subst decode_run_encoded) auto
  moreover have "decode_loop ((pre @ encode_run cur c) @ ?rest) m (length (pre @ encode_run cur c)) ?cur =
      Ok (map crun cs)"
    using Cons.prems n by (intro Cons.IH) auto
  ultimately show ?case
    using nz n(1) by (simp add: at Let_def)
qed

lemmas decode_loop_numeral =
  decode_loop.simps(2) [of data "pred_numeral k" pos cur for data k pos cur, folded numeral_eq_Suc]

section \<open>Properties\<close>

definition sample_runs :: "coded_run list" where
  "sample_runs =
     [\<lparr>len_width = 1, off_width = 2, crun = \<lparr>run_length = 8, lcn = Some 256\<rparr>\<rparr>,
      \<lparr>len_width = 1, off_width = 0, crun = \<lparr>run_length = 4, lcn = None\<rparr>\<rparr>,
      \<lparr>len_width = 2, off_width = 1, crun = \<lparr>run_length = 5, lcn = Some 240\<rparr>\<rparr>]"

text \<open>
  Claim C2. Decoding inverts encoding: whatever field widths the writer chose, the decoder
  returns the runs that were written, sparse runs and negative cluster deltas included, and
  ignores what follows the terminator.
\<close>

theorem decode_encode_runs:
  assumes "encs_ok 0 cs" "length cs < MAX_RUNS" "length (encode_runs 0 cs @ post) < 2 ^ 64"
  shows "runlist_decode (encode_runs 0 cs @ post) = Ok (map crun cs)"
  using decode_loop_encoded [of 0 cs MAX_RUNS "[]" post] assms by (simp add: runlist_decode_def)

theorem decode_encode_runs_witness:
  "runlist_decode (encode_runs 0 sample_runs @ [0xAA]) =
     Ok [\<lparr>run_length = 8, lcn = Some 256\<rparr>, \<lparr>run_length = 4, lcn = None\<rparr>,
         \<lparr>run_length = 5, lcn = Some 240\<rparr>]"
  by (subst decode_encode_runs)
     (simp_all add: sample_runs_def enc_ok_def run_ok_def lcn_delta_def next_lcn_def MAX_RUNS_def
       encode_run_def)

text \<open>
  Claim C8. Decoding is total and bounded on every input: it never panics; when it succeeds
  every run is non-empty and placed below cluster \<open>2^63\<close>, and there are at most \<open>MAX_RUNS\<close>
  runs and at most one per two bytes.
\<close>

theorem runlist_decode_safe:
  "case runlist_decode data of
     Panic \<Rightarrow> False
   | Err e \<Rightarrow> True
   | Ok rs \<Rightarrow> list_all run_ok rs \<and> length rs \<le> MAX_RUNS \<and> 2 * length rs \<le> length data"
  using decode_loop_ok [of data MAX_RUNS 0 0] decode_loop_no_panic [of data MAX_RUNS 0 0]
  by (auto simp: runlist_decode_def list_all_iff split: res.splits)

text \<open>
  The total is the exact sum of the run lengths, or an error precisely when that
  sum does not fit in 64 bits.
\<close>

theorem total_clusters_exact:
  "total_clusters rs =
     (if (\<Sum>r\<leftarrow>rs. unat (run_length r)) < 2 ^ 64
      then Ok (word_of_nat (\<Sum>r\<leftarrow>rs. unat (run_length r)))
      else Err (BadRunlist ''total cluster count overflow''))"
  by (simp add: total_clusters_def total_clusters_loop_spec)

end
