(* ===== verification/Utf16.thy ===== *)
theory Utf16
  imports Prelude
begin

text \<open>
  UTF-16 as the standard library decodes it. Every name the sources read goes through
  \<open>char::decode_utf16(units).map(|r| r.unwrap_or('\\u{FFFD}'))\<close> or its equal
  \<open>String::from_utf16_lossy\<close>: an unpaired surrogate becomes U+FFFD and decoding resumes
  at the next unit. \<open>encode_utf16\<close> is the standard library's encoder, the other half of
  the round trip.
\<close>

definition REPLACEMENT :: nat where
  "REPLACEMENT = 0xFFFD"

definition is_high :: "u16 \<Rightarrow> bool" where
  "is_high u \<longleftrightarrow> 0xD800 \<le> unat u \<and> unat u < 0xDC00"

definition is_low :: "u16 \<Rightarrow> bool" where
  "is_low u \<longleftrightarrow> 0xDC00 \<le> unat u \<and> unat u < 0xE000"

definition combine :: "u16 \<Rightarrow> u16 \<Rightarrow> nat" where
  "combine h l = (unat h - 0xD800) * 1024 + (unat l - 0xDC00) + 0x10000"

fun decode_utf16_lossy :: "u16 list \<Rightarrow> ustring" where
  "decode_utf16_lossy [] = []"
| "decode_utf16_lossy [u] =
     (if is_high u \<or> is_low u then [REPLACEMENT] else [unat u])"
| "decode_utf16_lossy (u # v # us) =
     (if \<not> is_high u \<and> \<not> is_low u then unat u # decode_utf16_lossy (v # us)
      else if is_high u \<and> is_low v then combine u v # decode_utf16_lossy us
      else REPLACEMENT # decode_utf16_lossy (v # us))"

text \<open>Unicode scalar values, the values of a Rust \<open>char\<close>.\<close>

definition scalar :: "nat \<Rightarrow> bool" where
  "scalar c \<longleftrightarrow> c < 0xD800 \<or> 0xE000 \<le> c \<and> c < 0x110000"

definition encode_char :: "nat \<Rightarrow> u16 list" where
  "encode_char c =
     (if c < 0x10000 then [word_of_nat c]
      else [word_of_nat (0xD800 + (c - 0x10000) div 1024),
            word_of_nat (0xDC00 + (c - 0x10000) mod 1024)])"

definition encode_utf16 :: "ustring \<Rightarrow> u16 list" where
  "encode_utf16 s = concat (map encode_char s)"

lemma scalar_unit: "\<not> is_high u \<Longrightarrow> \<not> is_low u \<Longrightarrow> scalar (unat u)"
  using unat_u16_less [of u] unfolding is_high_def is_low_def scalar_def by linarith

lemma scalar_combine: "is_high u \<Longrightarrow> is_low v \<Longrightarrow> scalar (combine u v)"
  unfolding is_high_def is_low_def scalar_def combine_def by linarith

text \<open>Whatever the units, the decoded name is a well-formed Rust string.\<close>

lemma decode_utf16_scalar: "c \<in> set (decode_utf16_lossy us) \<Longrightarrow> scalar c"
  by (induction us rule: decode_utf16_lossy.induct)
    (auto simp: REPLACEMENT_def scalar_unit scalar_combine split: if_splits,
      auto simp: scalar_def)

lemma length_decode_utf16: "length (decode_utf16_lossy us) \<le> length us"
  by (induction us rule: decode_utf16_lossy.induct) auto

lemma unat_u16_of_nat: "n < 65536 \<Longrightarrow> unat (word_of_nat n :: u16) = n"
  by (simp add: unat_of_nat)

lemma decode_bmp:
  assumes "\<not> is_high u" "\<not> is_low u"
  shows "decode_utf16_lossy (u # us) = unat u # decode_utf16_lossy us"
  using assms by (cases us) auto

lemma decode_encode_char:
  assumes "scalar c"
  shows "decode_utf16_lossy (encode_char c @ us) = c # decode_utf16_lossy us"
proof (cases "c < 0x10000")
  case True
  then have "unat (word_of_nat c :: u16) = c"
    by (simp add: unat_u16_of_nat)
  with True assms show ?thesis
    by (subst encode_char_def) (auto simp: decode_bmp is_high_def is_low_def scalar_def)
next
  case False
  define d where "d = c - 0x10000"
  have c: "c = d + 0x10000" and d: "d < 0x100000"
    using False assms by (auto simp: d_def scalar_def)
  have q: "d div 1024 < 1024"
    using d by linarith
  have h: "unat (word_of_nat (0xD800 + d div 1024) :: u16) = 0xD800 + d div 1024"
    using q by (intro unat_u16_of_nat) simp
  have m: "d mod 1024 < 1024"
    by simp
  have l: "unat (word_of_nat (0xDC00 + d mod 1024) :: u16) = 0xDC00 + d mod 1024"
    using m by (intro unat_u16_of_nat) linarith
  have "d div 1024 * 1024 + d mod 1024 = d"
    by simp
  then have "combine (word_of_nat (0xD800 + d div 1024)) (word_of_nat (0xDC00 + d mod 1024)) = c"
    unfolding combine_def h l c by simp
  moreover have "is_high (word_of_nat (0xD800 + d div 1024))" "is_low (word_of_nat (0xDC00 + d mod 1024))"
    unfolding is_high_def is_low_def h l using q m by simp_all
  moreover have "encode_char c = [word_of_nat (0xD800 + d div 1024), word_of_nat (0xDC00 + d mod 1024)]"
    using False by (simp add: encode_char_def d_def)
  ultimately show ?thesis by simp
qed

lemma decode_encode_utf16:
  "(\<And>c. c \<in> set s \<Longrightarrow> scalar c) \<Longrightarrow> decode_utf16_lossy (encode_utf16 s) = s"
proof (induction s)
  case Nil
  then show ?case by (simp add: encode_utf16_def)
next
  case (Cons c s)
  then show ?case
    using decode_encode_char [of c "encode_utf16 s"] by (simp add: encode_utf16_def)
qed

end
