(* ===== verification/Attribute.thy ===== *)
theory Attribute
  imports Nomicon Bytes Utf16
begin

text \<open>
  \<open>core/src/attribute.rs\<close>: walking the attribute chain of a record. One iteration of the
  source's loop is \<open>parse_one\<close>, with the name and the body in helpers of their own; the
  loop, bounded by \<open>MAX_ATTRIBUTES\<close>, is \<open>attributes_loop\<close>. \<open>attr_chain\<close> and \<open>attr_wf\<close>
  say what the walk establishes for every attribute it returns.
\<close>

section \<open>Data\<close>

definition HEADER_MIN :: nat where
  "HEADER_MIN = 16"

definition RESIDENT_MIN :: nat where
  "RESIDENT_MIN = 24"

definition NONRESIDENT_MIN :: nat where
  "NONRESIDENT_MIN = 64"

definition MAX_ATTRIBUTES :: nat where
  "MAX_ATTRIBUTES = 4096"

datatype attribute_body =
    Resident (content_offset: u16) (content_length: u32)
  | NonResident (start_vcn: u64) (last_vcn: u64) (runs_offset: u16)
      (body_compression_unit: u16) (allocated_size: u64) (real_size: u64)
      (initialized_size: u64)

record attribute =
  type_code :: u32
  attr_length :: u32
  non_resident :: bool
  attr_name :: "ustring option"
  attr_flags :: u16
  attribute_id :: u16
  attr_offset :: nat
  attr_body :: attribute_body

definition is_compressed :: "nomicon \<Rightarrow> attribute \<Rightarrow> bool" where
  "is_compressed N a \<longleftrightarrow> attr_flags a AND AF_COMPRESSED N \<noteq> 0"

definition compression_unit :: "attribute \<Rightarrow> u16" where
  "compression_unit a =
     (case attr_body a of
        NonResident _ _ _ cu _ _ _ \<Rightarrow> cu
      | Resident _ _ \<Rightarrow> 0)"

definition is_encrypted :: "nomicon \<Rightarrow> attribute \<Rightarrow> bool" where
  "is_encrypted N a \<longleftrightarrow> attr_flags a AND AF_ENCRYPTED N \<noteq> 0"

definition is_sparse :: "nomicon \<Rightarrow> attribute \<Rightarrow> bool" where
  "is_sparse N a \<longleftrightarrow> attr_flags a AND AF_SPARSE N \<noteq> 0"

definition resident_content :: "attribute \<Rightarrow> bytes \<Rightarrow> bytes option" where
  "resident_content a rec =
     (case attr_body a of
        Resident co cl \<Rightarrow>
          Option.bind (usize_checked_add (attr_offset a) (unat co)) (\<lambda>start.
          Option.bind (usize_checked_add start (unat cl)) (\<lambda>stop.
          get_range rec start stop))
      | NonResident _ _ _ _ _ _ _ \<Rightarrow> None)"

section \<open>The walk\<close>

definition parse_attr_name :: "bytes \<Rightarrow> nat \<Rightarrow> nat \<Rightarrow> nat \<Rightarrow> nat \<Rightarrow> ustring option res" where
  "parse_attr_name rec pos stop name_length name_offset =
     (let bad = BadAttribute pos in
      if name_length = 0 then Ok None
      else and_then (ok_or (usize_checked_mul name_length 2) (bad ''name length overflow'')) (\<lambda>nbytes.
      and_then (ok_or (usize_checked_add pos name_offset) (bad ''name offset overflow'')) (\<lambda>nstart.
      and_then (ok_or (usize_checked_add nstart nbytes) (bad ''name overflow'')) (\<lambda>nend.
      if nend > stop \<or> nend > length rec then Err (bad ''name out of bounds'')
      else and_then (slice rec nstart nend) (\<lambda>raw.
      Ok (Some (decode_utf16_lossy (u16_units raw))))))))"

definition parse_attr_body :: "nomicon \<Rightarrow> bytes \<Rightarrow> nat \<Rightarrow> nat \<Rightarrow> bool \<Rightarrow> attribute_body res" where
  "parse_attr_body N rec pos stop nonres =
     (let off = attr_off N; bad = BadAttribute pos in
      if nonres then
        if pos + NONRESIDENT_MIN > stop then Err (bad ''non-resident header runs past attribute'')
        else Ok (NonResident (le_u64 rec (pos + NR_START_VCN off)) (le_u64 rec (pos + NR_LAST_VCN off))
               (le_u16 rec (pos + NR_RUNS_OFFSET off)) (le_u16 rec (pos + NR_COMPRESSION_UNIT off))
               (le_u64 rec (pos + NR_ALLOCATED_SIZE off)) (le_u64 rec (pos + NR_REAL_SIZE off))
               (le_u64 rec (pos + NR_INITIALIZED_SIZE off)))
      else
        if pos + RESIDENT_MIN > stop then Err (bad ''resident header runs past attribute'')
        else let cl = le_u32 rec (pos + RES_CONTENT_LENGTH off);
                 co = le_u16 rec (pos + RES_CONTENT_OFFSET off) in
        and_then (ok_or (usize_checked_add pos (unat co)) (bad ''content offset overflow'')) (\<lambda>cstart.
        and_then (ok_or (usize_checked_add cstart (unat cl)) (bad ''content overflow'')) (\<lambda>cend.
        if cend > stop \<or> cend > length rec then Err (bad ''resident content out of bounds'')
        else Ok (Resident co cl))))"

text \<open>One iteration past the end-marker test: the attribute at \<open>pos\<close>.\<close>

definition parse_one :: "nomicon \<Rightarrow> bytes \<Rightarrow> nat \<Rightarrow> u32 \<Rightarrow> attribute res" where
  "parse_one N rec pos tc =
     (let off = attr_off N; bad = BadAttribute pos in
      if pos + HEADER_MIN > length rec then Err (bad ''header runs past record'')
      else let len = le_u32 rec (pos + ATTR_LENGTH off) in
      if unat len < HEADER_MIN then Err (bad ''length below header minimum'')
      else and_then (ok_or (usize_checked_add pos (unat len)) (bad ''length overflow'')) (\<lambda>stop.
      if stop > length rec then Err (bad ''attribute extends past record'')
      else and_then (idx rec (pos + NON_RESIDENT off)) (\<lambda>nr.
      and_then (idx rec (pos + NAME_LENGTH off)) (\<lambda>nl.
      and_then (parse_attr_name rec pos stop (unat nl) (unat (le_u16 rec (pos + NAME_OFFSET off)))) (\<lambda>nm.
      and_then (parse_attr_body N rec pos stop (nr \<noteq> 0)) (\<lambda>body.
      Ok \<lparr>type_code = tc, attr_length = len, non_resident = (nr \<noteq> 0), attr_name = nm,
          attr_flags = le_u16 rec (pos + ATTR_FLAGS off),
          attribute_id = le_u16 rec (pos + ATTRIBUTE_ID off),
          attr_offset = pos, attr_body = body\<rparr>))))))"

text \<open>
  The loop. The sums at its head can wrap only for a start offset within four bytes of
  \<open>usize::MAX\<close>; with overflow checks that is a panic.
\<close>

fun attributes_loop :: "nomicon \<Rightarrow> bytes \<Rightarrow> nat \<Rightarrow> nat \<Rightarrow> attribute list res" where
  "attributes_loop N rec 0 pos = Ok []"
| "attributes_loop N rec (Suc n) pos =
     (let p = pos + ATTR_TYPE (attr_off N) in
      if 2 ^ 64 \<le> p + 4 then Panic
      else case get_range rec p (p + 4) of
        None \<Rightarrow> Ok []
      | Some _ \<Rightarrow>
          let tc = le_u32 rec p in
          if tc = T_END (attr_ty N) then Ok []
          else and_then (parse_one N rec pos tc) (\<lambda>a.
               and_then (attributes_loop N rec n (pos + unat (attr_length a))) (\<lambda>rest.
               Ok (a # rest))))"

definition parse_attributes :: "nomicon \<Rightarrow> bytes \<Rightarrow> nat \<Rightarrow> attribute list res" where
  "parse_attributes N rec first_attr_offset =
     attributes_loop N rec MAX_ATTRIBUTES first_attr_offset"

section \<open>What a parsed attribute satisfies\<close>

definition attr_wf :: "bytes \<Rightarrow> attribute \<Rightarrow> bool" where
  "attr_wf rec a \<longleftrightarrow>
     16 \<le> unat (attr_length a) \<and> attr_offset a + unat (attr_length a) \<le> length rec \<and>
     (case attr_body a of
        Resident co cl \<Rightarrow> \<not> non_resident a \<and> 24 \<le> unat (attr_length a) \<and>
          unat co + unat cl \<le> unat (attr_length a)
      | NonResident _ _ _ _ _ _ _ \<Rightarrow> non_resident a \<and> 64 \<le> unat (attr_length a))"

fun attr_chain :: "nat \<Rightarrow> attribute list \<Rightarrow> bool" where
  "attr_chain p [] = True"
| "attr_chain p (a # as) \<longleftrightarrow> attr_offset a = p \<and> attr_chain (p + unat (attr_length a)) as"

fun chain_end :: "nat \<Rightarrow> attribute list \<Rightarrow> nat" where
  "chain_end p [] = p"
| "chain_end p (a # as) = chain_end (p + unat (attr_length a)) as"

lemma parse_attr_name_no_panic: "stop \<le> length rec \<Longrightarrow> parse_attr_name rec pos stop nl no \<noteq> Panic"
  by (auto simp: parse_attr_name_def Let_def res_inversions checked_simps split: if_splits)

lemma parse_attr_body_no_panic: "parse_attr_body N rec pos stop nr \<noteq> Panic"
  by (auto simp: parse_attr_body_def Let_def res_inversions split: if_splits)

lemma parse_one_no_panic:
  assumes "attr_in_header N"
  shows "parse_one N rec pos tc \<noteq> Panic"
  using assms parse_attr_name_no_panic parse_attr_body_no_panic
  by (auto simp: parse_one_def Let_def attr_in_header_def HEADER_MIN_def res_inversions checked_simps
      split: if_splits)

lemma parse_attr_body_wf:
  assumes "parse_attr_body N rec pos stop nr = Ok body"
  shows "case body of
      Resident co cl \<Rightarrow> \<not> nr \<and> pos + 24 \<le> stop \<and> pos + unat co + unat cl \<le> stop
    | NonResident _ _ _ _ _ _ _ \<Rightarrow> nr \<and> pos + 64 \<le> stop"
  using assms
  by (auto simp: parse_attr_body_def Let_def NONRESIDENT_MIN_def RESIDENT_MIN_def res_inversions
      checked_simps split: if_splits)

lemma parse_one_Ok:
  assumes "parse_one N rec pos tc = Ok a"
  shows "attr_offset a = pos" "type_code a = tc" "attr_wf rec a"
proof -
  from assms obtain stop nr body where
    *: "attr_offset a = pos" "type_code a = tc" "16 \<le> unat (attr_length a)"
    "stop = pos + unat (attr_length a)" "stop \<le> length rec"
    "parse_attr_body N rec pos stop nr = Ok body" "attr_body a = body" "non_resident a = nr"
    by (auto simp: parse_one_def Let_def HEADER_MIN_def res_inversions checked_simps
        split: if_splits)
  from parse_attr_body_wf [OF *(6)] * show "attr_offset a = pos" "type_code a = tc" "attr_wf rec a"
    by (auto simp: attr_wf_def split: attribute_body.splits)
qed

lemma attributes_loop_no_panic:
  assumes "attr_in_header N" "length rec + ATTR_TYPE (attr_off N) + 4 < 2 ^ 64"
    and "pos + ATTR_TYPE (attr_off N) + 4 < 2 ^ 64"
  shows "attributes_loop N rec n pos \<noteq> Panic"
  using assms(3)
proof (induction n arbitrary: pos)
  case 0
  then show ?case by simp
next
  case (Suc n)
  have "attributes_loop N rec n (pos + unat (attr_length a)) \<noteq> Panic"
    if "parse_one N rec pos tc = Ok a" for tc a
    using parse_one_Ok [OF that] assms(2)
    by (intro Suc.IH) (auto simp: attr_wf_def)
  with Suc.prems parse_one_no_panic [OF assms(1)] show ?case
    by (auto simp: Let_def res_inversions split: option.splits)
qed

lemma attributes_loop_wf:
  assumes "attributes_loop N rec n pos = Ok as"
  shows "attr_chain pos as \<and> length as \<le> n \<and> (\<forall>a \<in> set as. attr_wf rec a)"
  using assms
proof (induction n arbitrary: pos as)
  case 0
  then show ?case by simp
next
  case (Suc n)
  show ?case
  proof (cases as)
    case Nil
    then show ?thesis by simp
  next
    case (Cons a rest)
    with Suc.prems have a: "parse_one N rec pos (le_u32 rec (pos + ATTR_TYPE (attr_off N))) = Ok a"
      and r: "attributes_loop N rec n (pos + unat (attr_length a)) = Ok rest"
      by (auto simp: Let_def res_inversions split: option.splits if_splits)
    from Suc.IH [OF r] parse_one_Ok [OF a] Cons show ?thesis
      by simp
  qed
qed

text \<open>Why the walk stopped: the cap, the end of the record, or the end marker.\<close>

lemma attributes_loop_stop:
  assumes "attributes_loop N rec n pos = Ok as"
  shows "length as = n \<or>
    (let p = chain_end pos as + ATTR_TYPE (attr_off N)
     in length rec < p + 4 \<or> le_u32 rec p = T_END (attr_ty N))"
  using assms
proof (induction n arbitrary: pos as)
  case 0
  then show ?case by simp
next
  case (Suc n)
  show ?case
  proof (cases as)
    case Nil
    with Suc.prems show ?thesis
      by (auto simp: Let_def res_inversions get_range_None_iff split: option.splits if_splits)
  next
    case (Cons a rest)
    with Suc.prems have "attributes_loop N rec n (pos + unat (attr_length a)) = Ok rest"
      by (auto simp: Let_def res_inversions split: option.splits if_splits)
    from Suc.IH [OF this] Cons show ?thesis
      by (auto simp: Let_def)
  qed
qed

lemma attr_chain_offsets:
  assumes "attr_chain p as" "i < j" "j < length as"
    and "\<forall>a \<in> set as. attr_wf rec a"
  shows "attr_offset (as ! i) + unat (attr_length (as ! i)) \<le> attr_offset (as ! j)"
  using assms
proof (induction as arbitrary: p i j)
  case Nil
  then show ?case by simp
next
  case (Cons a as)
  have lower: "q \<le> attr_offset (as ! k)" if "attr_chain q as" "k < length as" for q k
    using that
  proof (induction as arbitrary: q k)
    case Nil
    then show ?case by simp
  next
    case (Cons b bs)
    then show ?case
      by (cases k) (auto dest!: Cons.IH)
  qed
  show ?case
  proof (cases i)
    case 0
    with Cons.prems lower [of "p + unat (attr_length a)" "j - 1"] show ?thesis
      by (cases j) auto
  next
    case (Suc i')
    with Cons.prems Cons.IH [of "p + unat (attr_length a)" i' "j - 1"] show ?thesis
      by (cases j) auto
  qed
qed

lemmas attributes_loop_numeral =
  attributes_loop.simps(2) [of N rec "pred_numeral k" pos for N rec k pos, folded numeral_eq_Suc]

section \<open>Properties\<close>

text \<open>A record with one resident attribute of four content bytes and an end marker.\<close>

definition sample_attrs :: bytes where
  "sample_attrs = [0x10, 0, 0, 0, 28, 0, 0, 0, 0, 0, 0, 0, 0, 0, 7, 0, 4, 0, 0, 0, 24, 0, 0, 0,
     1, 2, 3, 4, 0xFF, 0xFF, 0xFF, 0xFF]"

definition sample_attribute :: attribute where
  "sample_attribute = \<lparr>type_code = 0x10, attr_length = 28, non_resident = False, attr_name = None,
     attr_flags = 0, attribute_id = 7, attr_offset = 0, attr_body = Resident 24 4\<rparr>"

lemma sample_attrs_parse: "parse_attributes ntfs_layout sample_attrs 0 = Ok [sample_attribute]"
  by (simp add: parse_attributes_def MAX_ATTRIBUTES_def attributes_loop_numeral sample_attrs_def
      sample_attribute_def parse_one_def parse_attr_name_def parse_attr_body_def layout_defs
      HEADER_MIN_def RESIDENT_MIN_def le_read_defs get_range_def from_le_bytes_def
      usize_checked_add_def idx_def cong: and_then_weak_cong)

text \<open>
  Claim C7. The attributes a walk returns tile the record: they lie back to back from the
  start offset, inside the record, without overlap, at most \<open>MAX_ATTRIBUTES\<close> of them, and
  each resident value lies inside its attribute.
\<close>

theorem parse_attributes_tile:
  assumes "parse_attributes N rec off = Ok as"
  shows "attr_chain off as \<and> length as \<le> MAX_ATTRIBUTES \<and> (\<forall>a \<in> set as. attr_wf rec a) \<and>
    (\<forall>i j. i < j \<and> j < length as \<longrightarrow>
       attr_offset (as ! i) + unat (attr_length (as ! i)) \<le> attr_offset (as ! j))"
  using assms attributes_loop_wf [of N rec MAX_ATTRIBUTES off as] attr_chain_offsets [of off as _ _ rec]
  by (simp add: parse_attributes_def)

theorem parse_attributes_tile_witness:
  "parse_attributes ntfs_layout sample_attrs 0 = Ok [sample_attribute] \<and>
   attr_wf sample_attrs sample_attribute"
  using parse_attributes_tile [OF sample_attrs_parse] sample_attrs_parse by simp

text \<open>
  The walk never panics on a crafted record: for any bytes and any start offset a record
  header can hold, it returns attributes or an error. (The attribute-header offsets of
  the constants crate lie inside the 16-byte common header.)
\<close>

lemma parse_attributes_no_panic:
  assumes "attr_in_header N" "length rec < 2 ^ 63" "off < 2 ^ 16"
  shows "parse_attributes N rec off \<noteq> Panic"
  using assms unfolding parse_attributes_def
  by (intro attributes_loop_no_panic) (auto simp: attr_in_header_def)

text \<open>
  The content of a parsed resident attribute can always be read: \<open>resident_content\<close>
  returns exactly the declared number of bytes for it, and nothing for a non-resident one.
\<close>

theorem resident_content_total:
  assumes "parse_attributes N rec off = Ok as" "a \<in> set as" "length rec < 2 ^ 63"
  shows "case attr_body a of
      Resident co cl \<Rightarrow> \<exists>c. resident_content a rec = Some c \<and> length c = unat cl
    | NonResident _ _ _ _ _ _ _ \<Rightarrow> resident_content a rec = None"
proof -
  have "attr_wf rec a"
    using attributes_loop_wf assms by (simp add: parse_attributes_def)
  with assms(3) show ?thesis
    by (auto simp: attr_wf_def resident_content_def usize_checked_add_def get_range_def
        split: attribute_body.splits)
qed

theorem resident_content_total_witness:
  "\<exists>c. resident_content sample_attribute sample_attrs = Some c \<and> length c = 4"
  using resident_content_total [OF sample_attrs_parse, of sample_attribute]
  by (simp add: sample_attribute_def sample_attrs_def)

end
