(* ===== verification/Data_Read.thy ===== *)
theory Data_Read
  imports Source Runlist Attribute
begin

text \<open>
  \<open>core/src/data.rs\<close>: reconstructing the bytes of an attribute, resident, non-resident or
  compressed. The readers thread the state of the volume reader; \<open>lznt1::decompress\<close> is
  the parameter \<open>lz\<close> (\<open>None\<close> is its error). \<open>run_content\<close> and \<open>stream\<close> are the
  specification of the uncompressed read, \<open>unit_content\<close> and \<open>unit_stream\<close> of the
  compressed one.
\<close>

section \<open>Uncompressed runs\<close>

definition MAX_VALUE_BYTES :: u64 where
  "MAX_VALUE_BYTES = 2 ^ 40"

fun allocated_loop :: "run list \<Rightarrow> u64 \<Rightarrow> u64 \<Rightarrow> u64 res" where
  "allocated_loop [] cs allocated = Ok allocated"
| "allocated_loop (r # rs) cs allocated =
     and_then (ok_or (checked_mul (run_length r) cs) (BadRunlist ''run byte length overflow'')) (\<lambda>run_bytes.
     and_then (ok_or (checked_add allocated run_bytes) (BadRunlist ''allocation overflow'')) (\<lambda>a.
     allocated_loop rs cs a))"

fun runs_loop :: "'r host \<Rightarrow> 'r \<Rightarrow> u64 \<Rightarrow> run list \<Rightarrow> u64 \<Rightarrow> bytes \<Rightarrow> bytes res \<times> 'r" where
  "runs_loop H rd cs [] remaining out = (Ok out, rd)"
| "runs_loop H rd cs (r # rs) remaining out =
     (if remaining = 0 then (Ok out, rd)
      else let run_bytes = run_length r * cs; tk = min run_bytes remaining in
      case lcn r of
        None \<Rightarrow> runs_loop H rd cs rs (remaining - tk) (out @ replicate (unat tk) 0)
      | Some l \<Rightarrow>
         (case checked_mul l cs of
            None \<Rightarrow> (Err (BadRunlist ''LCN byte offset overflow''), rd)
          | Some byte_off \<Rightarrow>
             (case seek_read H rd byte_off (unat tk) of
                (Ok bs, rd') \<Rightarrow> runs_loop H rd' cs rs (remaining - tk) (out @ bs)
              | (Err e, rd') \<Rightarrow> (Err e, rd')
              | (Panic, rd') \<Rightarrow> (Panic, rd'))))"

definition read_runs_capped ::
  "'r host \<Rightarrow> 'r \<Rightarrow> run list \<Rightarrow> u64 \<Rightarrow> u64 \<Rightarrow> u64 \<Rightarrow> bytes res \<times> 'r" where
  "read_runs_capped H rd runs cs rsize max_bytes =
     (case allocated_loop runs cs 0 of
        Err e \<Rightarrow> (Err e, rd)
      | Panic \<Rightarrow> (Panic, rd)
      | Ok allocated \<Rightarrow>
          let want = min (min rsize allocated) max_bytes in
          if want > MAX_VALUE_BYTES then (Err (TooLarge want), rd)
          else if \<not> mem_reserve H (unat want) then (Err (TooLarge want), rd)
          else runs_loop H rd cs runs want [])"

definition read_runs :: "'r host \<Rightarrow> 'r \<Rightarrow> run list \<Rightarrow> u64 \<Rightarrow> u64 \<Rightarrow> bytes res \<times> 'r" where
  "read_runs H rd runs cs rsize = read_runs_capped H rd runs cs rsize (- 1)"

section \<open>Compressed runs\<close>

type_synonym run_queue = "(u64 option \<times> u64) list"

text \<open>
  Reading \<open>n\<close> bytes at the end of a vector of \<open>start\<close> bytes: the seek, \<open>Vec::resize\<close>, which panics
  when the new length exceeds \<open>isize::MAX\<close>, and \<open>read_exact\<close>.
\<close>

definition seek_read_vec :: "'r host \<Rightarrow> 'r \<Rightarrow> u64 \<Rightarrow> nat \<Rightarrow> nat \<Rightarrow> bytes res \<times> 'r" where
  "seek_read_vec H rd off start n =
     (case io_seek H rd (SeekStart off) of
        (Ok _, rd') \<Rightarrow> if 2 ^ 63 \<le> start + n then (Panic, rd') else read_exact H rd' n
      | (Err e, rd') \<Rightarrow> (Err e, rd')
      | (Panic, rd') \<Rightarrow> (Panic, rd'))"

lemma seek_read_vec_small: "start + n < 2 ^ 63 \<Longrightarrow> seek_read_vec H rd off start n = seek_read H rd off n"
  by (simp add: seek_read_vec_def seek_read_def split: prod.splits res.splits)

text \<open>
  Gathering one compression unit from the front of the queue: the bytes of its allocated
  clusters, their number, and the number of clusters seen.
\<close>

record unit_acc =
  real_bytes :: bytes
  real_clusters :: u64
  got :: u64

definition gather_step ::
  "'r host \<Rightarrow> 'r \<Rightarrow> u64 \<Rightarrow> u64 \<Rightarrow> u64 option \<Rightarrow> u64 \<Rightarrow> run_queue \<Rightarrow> unit_acc \<Rightarrow>
   (run_queue \<times> unit_acc) res \<times> 'r" where
  "gather_step H rd cs uc l avail rest a =
     (let tk = min (uc - got a) avail;
          advance = (\<lambda>l a.
            let avail' = avail - tk
            in (if avail' = 0 then rest else (l, avail') # rest, a\<lparr>got := got a + tk\<rparr>)) in
      case l of
        None \<Rightarrow> (Ok (advance None a), rd)
      | Some c \<Rightarrow>
         (case checked_mul c cs of
            None \<Rightarrow> (Err (BadRunlist ''LCN byte offset overflow''), rd)
          | Some byte_off \<Rightarrow>
             (case seek_read_vec H rd byte_off (length (real_bytes a)) (unat (tk * cs)) of
                (Ok bs, rd') \<Rightarrow>
                  (case checked_add c tk of
                     None \<Rightarrow> (Panic, rd')
                   | Some c' \<Rightarrow>
                       (Ok (advance (Some c')
                          (a\<lparr>real_bytes := real_bytes a @ bs, real_clusters := real_clusters a + tk\<rparr>)), rd'))
              | (Err e, rd') \<Rightarrow> (Err e, rd')
              | (Panic, rd') \<Rightarrow> (Panic, rd'))))"

function gather_unit ::
  "'r host \<Rightarrow> 'r \<Rightarrow> u64 \<Rightarrow> u64 \<Rightarrow> run_queue \<Rightarrow> unit_acc \<Rightarrow> (run_queue \<times> unit_acc) res \<times> 'r" where
  "gather_unit H rd cs uc [] a = (Ok ([], a), rd)"
| "gather_unit H rd cs uc ((l, avail) # rest) a =
     (if \<not> got a < uc then (Ok ((l, avail) # rest, a), rd)
      else case gather_step H rd cs uc l avail rest a of
        (Ok (q', a'), rd') \<Rightarrow> gather_unit H rd' cs uc q' a'
      | (Err e, rd') \<Rightarrow> (Err e, rd')
      | (Panic, rd') \<Rightarrow> (Panic, rd'))"
  by pat_completeness auto

lemma unat_min: "unat (min a b :: 'a::len word) = min (unat a) (unat b)"
  by (simp add: min_def word_le_nat_alt)

lemma unat_take_add:
  fixes g uc avail :: u64
  assumes "g < uc"
  shows "unat (g + min (uc - g) avail) = unat g + unat (min (uc - g) avail)"
    and "unat g + unat (min (uc - g) avail) \<le> unat uc"
proof -
  have "min (uc - g) avail \<le> uc - g"
    by simp
  then show le: "unat g + unat (min (uc - g) avail) \<le> unat uc"
    using assms by (simp add: word_le_nat_alt unat_sub word_less_nat_alt less_imp_le)
  also have "\<dots> < 2 ^ 64"
    by simp
  finally show "unat (g + min (uc - g) avail) = unat g + unat (min (uc - g) avail)"
    by (simp add: unat_word_ariths)
qed

lemma gather_step_queue:
  assumes "gather_step H rd cs uc l avail rest a = (Ok (q', a'), rd')"
  shows "got a' = got a + min (uc - got a) avail"
    and "q' = rest \<and> avail = min (uc - got a) avail \<or>
      (\<exists>l'. q' = (l', avail - min (uc - got a) avail) # rest \<and> avail \<noteq> min (uc - got a) avail)"
  using assms
  by (auto simp: gather_step_def Let_def split: option.splits prod.splits res.splits if_splits)

lemma gather_step_decreases:
  assumes st: "gather_step H rd cs uc l avail rest a = (Ok (q', a'), rd')" and lt: "got a < uc"
  shows "length q' + (unat uc - unat (got a')) < Suc (length rest) + (unat uc - unat (got a))"
  using gather_step_queue(2) [OF st]
proof
  assume "q' = rest \<and> avail = min (uc - got a) avail"
  moreover have "unat (got a) \<le> unat (got a')"
    using gather_step_queue(1) [OF st] unat_take_add [OF lt, of avail] by simp
  ultimately show ?thesis by simp
next
  assume "\<exists>l'. q' = (l', avail - min (uc - got a) avail) # rest \<and> avail \<noteq> min (uc - got a) avail"
  then have "got a' = uc" "length q' = Suc (length rest)"
    using gather_step_queue(1) [OF st] by (auto simp: min_def split: if_splits)
  then show ?thesis
    using lt by (simp add: word_less_nat_alt)
qed

termination gather_unit
  by (relation "measure (\<lambda>(H, rd, cs, uc, q, a). length q + (unat uc - unat (got a)))")
     (auto dest!: gather_step_decreases [OF sym])

text \<open>The clusters the queue still describes: the measure of the outer loop.\<close>

definition queue_clusters :: "run_queue \<Rightarrow> nat" where
  "queue_clusters q = (\<Sum>(l, n)\<leftarrow>q. unat n)"

lemma gather_unit_consumes:
  "gather_unit H rd cs uc q a = (Ok (q', a'), rd') \<Longrightarrow>
   queue_clusters q' + unat (got a') = queue_clusters q + unat (got a)"
proof (induction H rd cs uc q a arbitrary: q' a' rd' rule: gather_unit.induct)
  case (1 H rd cs uc a)
  then show ?case by simp
next
  case (2 H rd cs uc l avail rest a)
  show ?case
  proof (cases "got a < uc")
    case True
    obtain q1 a1 rd1 where st: "gather_step H rd cs uc l avail rest a = (Ok (q1, a1), rd1)"
      and rec: "gather_unit H rd1 cs uc q1 a1 = (Ok (q', a'), rd')"
      using "2.prems" True by (auto split: prod.splits res.splits)
    have "queue_clusters q' + unat (got a') = queue_clusters q1 + unat (got a1)"
      using "2.IH" [of "Ok (q1, a1)" rd1 "(q1, a1)" q1 a1] True st rec by simp
    moreover have "queue_clusters q1 + unat (min (uc - got a) avail) = queue_clusters ((l, avail) # rest)"
    proof -
      have "min (uc - got a) avail \<le> avail"
        by simp
      then have "unat (avail - min (uc - got a) avail) + unat (min (uc - got a) avail) = unat avail"
        by (simp add: unat_sub word_le_nat_alt)
      then show ?thesis
        using gather_step_queue(2) [OF st] by (auto simp: queue_clusters_def)
    qed
    ultimately show ?thesis
      using gather_step_queue(1) [OF st] unat_take_add(1) [OF True, of avail] by simp
  qed (use "2.prems" in simp)
qed

text \<open>The outer loop, one compression unit per iteration.\<close>

function compressed_loop ::
  "'r host \<Rightarrow> (bytes \<Rightarrow> bytes option) \<Rightarrow> 'r \<Rightarrow> u64 \<Rightarrow> u64 \<Rightarrow> u64 \<Rightarrow> nat \<Rightarrow> run_queue \<Rightarrow> bytes \<Rightarrow>
   bytes res \<times> 'r" where
  "compressed_loop H lz rd cs uc unit_bytes target q out =
     (if \<not> length out < target then (Ok out, rd)
      else case gather_unit H rd cs uc q \<lparr>real_bytes = [], real_clusters = 0, got = 0\<rparr> of
        (Err e, rd') \<Rightarrow> (Err e, rd')
      | (Panic, rd') \<Rightarrow> (Panic, rd')
      | (Ok (q', a), rd') \<Rightarrow>
          if got a = 0 then (Ok out, rd')
          else if real_clusters a = 0 then
            compressed_loop H lz rd' cs uc unit_bytes target q'
              (out @ replicate (min (unat unit_bytes) (target - length out)) 0)
          else if real_clusters a = uc then
            compressed_loop H lz rd' cs uc unit_bytes target q' (out @ real_bytes a)
          else case lz (real_bytes a) of
            None \<Rightarrow> (Err (BadCompression ''LZNT1 decode failed''), rd')
          | Some d \<Rightarrow>
              compressed_loop H lz rd' cs uc unit_bytes target q' (out @ take (unat unit_bytes) d))"
  by pat_completeness auto

lemma gather_unit_fresh:
  assumes "gather_unit H rd cs uc q \<lparr>real_bytes = bs, real_clusters = c, got = 0\<rparr> = (Ok (q', a), rd')"
    and "got a \<noteq> 0"
  shows "queue_clusters q' < queue_clusters q"
proof -
  have "0 < unat (got a)"
    using assms(2) by (simp only: unat_gt_0 not_False_eq_True)
  then show ?thesis
    using gather_unit_consumes [OF assms(1)] by simp
qed

termination compressed_loop
  by (relation "measure (\<lambda>(H, lz, rd, cs, uc, ub, t, q, out). queue_clusters q)")
     (auto dest!: sym [of "(Ok _, _)"] intro: gather_unit_fresh)

declare compressed_loop.simps [simp del]

definition read_compressed_runs_capped ::
  "'r host \<Rightarrow> (bytes \<Rightarrow> bytes option) \<Rightarrow> 'r \<Rightarrow> run list \<Rightarrow> u64 \<Rightarrow> u64 \<Rightarrow> u64 \<Rightarrow> u64 \<Rightarrow> bytes res \<times> 'r" where
  "read_compressed_runs_capped H lz rd runs cs rsize unit_clusters max_bytes =
     (if rsize > MAX_VALUE_BYTES then (Err (TooLarge rsize), rd)
      else let target = min rsize max_bytes in
      case checked_mul unit_clusters cs of
        None \<Rightarrow> (Err (BadRunlist ''compression unit byte size overflow''), rd)
      | Some unit_bytes \<Rightarrow>
          let queue = map (\<lambda>r. (lcn r, run_length r)) runs in
          (case compressed_loop H lz rd cs unit_clusters unit_bytes (unat target) queue [] of
             (Ok out, rd') \<Rightarrow> (Ok (take (unat target) out), rd')
           | (e, rd') \<Rightarrow> (e, rd')))"

section \<open>Dispatch on the attribute\<close>

definition read_nonresident_capped ::
  "nomicon \<Rightarrow> 'r host \<Rightarrow> (bytes \<Rightarrow> bytes option) \<Rightarrow> 'r \<Rightarrow> run list \<Rightarrow> u64 \<Rightarrow> u64 \<Rightarrow> attribute \<Rightarrow> u64 \<Rightarrow>
   bytes res \<times> 'r" where
  "read_nonresident_capped N H lz rd runs cs rsize a max_bytes =
     (let cu = compression_unit a in
      if is_compressed N a \<and> cu \<noteq> 0 then
        case checked_shl_one (unat cu) of
          None \<Rightarrow> (Err (BadAttribute (attr_offset a) ''implausible compression unit''), rd)
        | Some unit_clusters \<Rightarrow>
            read_compressed_runs_capped H lz rd runs cs rsize unit_clusters max_bytes
      else read_runs_capped H rd runs cs rsize max_bytes)"

definition read_nonresident ::
  "nomicon \<Rightarrow> 'r host \<Rightarrow> (bytes \<Rightarrow> bytes option) \<Rightarrow> 'r \<Rightarrow> run list \<Rightarrow> u64 \<Rightarrow> u64 \<Rightarrow> attribute \<Rightarrow>
   bytes res \<times> 'r" where
  "read_nonresident N H lz rd runs cs rsize a =
     read_nonresident_capped N H lz rd runs cs rsize a (- 1)"

definition attribute_runlist :: "bytes \<Rightarrow> attribute \<Rightarrow> run list res" where
  "attribute_runlist rec a =
     (let bad = BadAttribute (attr_offset a) in
      case attr_body a of
        Resident _ _ \<Rightarrow> Err (bad ''attribute is resident (no runlist)'')
      | NonResident _ _ runs_off _ _ _ _ \<Rightarrow>
          and_then (ok_or (usize_checked_add (attr_offset a) (unat (attr_length a)))
              (bad ''attribute length overflow'')) (\<lambda>attr_end.
          and_then (ok_or (usize_checked_add (attr_offset a) (unat runs_off))
              (bad ''runs offset overflow'')) (\<lambda>runs_start.
          and_then (ok_or (get_range rec runs_start attr_end) (bad ''runlist out of bounds''))
            runlist_decode)))"

definition read_attribute_value ::
  "nomicon \<Rightarrow> 'r host \<Rightarrow> (bytes \<Rightarrow> bytes option) \<Rightarrow> 'r \<Rightarrow> bytes \<Rightarrow> attribute \<Rightarrow> u64 \<Rightarrow> bytes res \<times> 'r" where
  "read_attribute_value N H lz rd rec a cs =
     (case attr_body a of
        Resident _ _ \<Rightarrow>
          (ok_or (resident_content a rec)
             (BadAttribute (attr_offset a) ''resident content out of bounds''), rd)
      | NonResident _ _ _ _ _ rsize _ \<Rightarrow>
          (case attribute_runlist rec a of
             Ok runs \<Rightarrow> read_nonresident N H lz rd runs cs rsize a
           | Err e \<Rightarrow> (Err e, rd)
           | Panic \<Rightarrow> (Panic, rd)))"

section \<open>The specification of the uncompressed read\<close>

definition run_content :: "bytes \<Rightarrow> nat \<Rightarrow> run \<Rightarrow> bytes" where
  "run_content d cs r =
     (case lcn r of
        None \<Rightarrow> replicate (unat (run_length r) * cs) 0
      | Some c \<Rightarrow> take (unat (run_length r) * cs) (drop (unat c * cs) d))"

definition stream :: "bytes \<Rightarrow> nat \<Rightarrow> run list \<Rightarrow> bytes" where
  "stream d cs runs = concat (map (run_content d cs) runs)"

definition run_on_disk :: "bytes \<Rightarrow> nat \<Rightarrow> run \<Rightarrow> bool" where
  "run_on_disk d cs r \<longleftrightarrow>
     (case lcn r of None \<Rightarrow> True | Some c \<Rightarrow> (unat c + unat (run_length r)) * cs \<le> length d)"

definition allocated_bytes :: "nat \<Rightarrow> run list \<Rightarrow> nat" where
  "allocated_bytes cs runs = (\<Sum>r\<leftarrow>runs. unat (run_length r) * cs)"

lemma run_bytes_unat:
  assumes "unat (run_length r) * unat cs < 2 ^ 64"
  shows "unat (run_length r * cs) = unat (run_length r) * unat cs"
  using assms by (simp add: unat_word_ariths)

lemma allocated_Cons:
  "allocated_bytes cs (r # rs) = unat (run_length r) * cs + allocated_bytes cs rs"
  by (simp add: allocated_bytes_def)

lemma allocated_loop_fits:
  "unat acc + allocated_bytes (unat cs) runs < 2 ^ 64 \<Longrightarrow>
   allocated_loop runs cs acc = Ok (acc + word_of_nat (allocated_bytes (unat cs) runs))"
proof (induction runs arbitrary: acc)
  case Nil
  then show ?case by (simp add: allocated_bytes_def)
next
  case (Cons r rs)
  define x where "x = unat (run_length r) * unat cs"
  have lt: "unat acc + x + allocated_bytes (unat cs) rs < 2 ^ 64"
    using Cons.prems by (simp add: allocated_Cons x_def)
  then have p: "unat (run_length r * cs) = x"
    unfolding x_def by (intro run_bytes_unat) linarith
  have s: "unat (acc + run_length r * cs) = unat acc + x"
    using lt p by (simp add: unat_word_ariths)
  have w: "run_length r * cs = word_of_nat x"
    unfolding p [symmetric] by simp
  have "allocated_loop (r # rs) cs acc = allocated_loop rs cs (acc + run_length r * cs)"
    using lt p by (simp add: checked_mul_def checked_add_def flip: x_def)
  also have "\<dots> = Ok (acc + run_length r * cs + word_of_nat (allocated_bytes (unat cs) rs))"
    using lt by (intro Cons.IH) (simp add: s)
  also have "\<dots> = Ok (acc + word_of_nat (allocated_bytes (unat cs) (r # rs)))"
    unfolding w by (simp add: allocated_Cons x_def add.assoc)
  finally show ?case .
qed

lemma allocated_loop_overflows:
  "2 ^ 64 \<le> unat acc + allocated_bytes (unat cs) runs \<Longrightarrow>
   \<exists>m. allocated_loop runs cs acc = Err (BadRunlist m)"
proof (induction runs arbitrary: acc)
  case Nil
  moreover have "\<not> 2 ^ 64 \<le> unat acc"
    by (simp add: not_le)
  ultimately show ?case
    by (simp only: allocated_bytes_def list.map sum_list.Nil add_0_right)
next
  case (Cons r rs)
  define x where "x = unat (run_length r) * unat cs"
  have ge: "2 ^ 64 \<le> unat acc + x + allocated_bytes (unat cs) rs"
    using Cons.prems by (simp add: allocated_Cons x_def)
  show ?case
  proof (cases "x < 2 ^ 64")
    case True
    then have p: "unat (run_length r * cs) = x"
      unfolding x_def by (rule run_bytes_unat)
    show ?thesis
    proof (cases "unat acc + x < 2 ^ 64")
      case fits: True
      then have "unat (acc + run_length r * cs) = unat acc + x"
        using p by (simp add: unat_word_ariths)
      then have "\<exists>m. allocated_loop rs cs (acc + run_length r * cs) = Err (BadRunlist m)"
        using ge by (intro Cons.IH) simp
      then show ?thesis
        using True fits p by (simp add: checked_mul_def checked_add_def flip: x_def)
    next
      case False
      then show ?thesis
        using True p by (simp add: checked_mul_def checked_add_def flip: x_def)
    qed
  next
    case False
    then show ?thesis
      by (simp add: checked_mul_def flip: x_def)
  qed
qed

lemma allocated_loop_Ok:
  "allocated_loop runs cs 0 = Ok a \<longleftrightarrow>
   allocated_bytes (unat cs) runs < 2 ^ 64 \<and> a = word_of_nat (allocated_bytes (unat cs) runs)"
proof (cases "allocated_bytes (unat cs) runs < 2 ^ 64")
  case True
  then show ?thesis
    using allocated_loop_fits [of 0 cs runs] by auto
next
  case False
  then show ?thesis
    using allocated_loop_overflows [of 0 cs runs] by auto
qed

lemma length_run_content: "length (run_content d cs r) \<le> unat (run_length r) * cs"
  by (simp add: run_content_def split: option.splits)

lemma length_run_content_on_disk:
  "run_on_disk d cs r \<Longrightarrow> length (run_content d cs r) = unat (run_length r) * cs"
  by (auto simp: run_content_def run_on_disk_def algebra_simps split: option.splits)

lemma length_stream_on_disk:
  "list_all (run_on_disk d cs) runs \<Longrightarrow> length (stream d cs runs) = allocated_bytes cs runs"
  by (induction runs) (auto simp: stream_def allocated_bytes_def length_run_content_on_disk)

context medium
begin

lemma run_part:
  assumes "good rd" "lcn r = Some c" "checked_mul c cs = Some off" "tk \<le> unat (run_length r) * unat cs"
    and "seek_read H rd off tk = (Ok bs, rd')"
  shows "bs = take tk (run_content (disk rd) (unat cs) r)" "length bs = tk" "good rd'" "disk rd' = disk rd"
proof -
  obtain rd1 where sk: "seek_read H rd off tk =
      ((if tk = 0 \<or> unat off + tk \<le> length (disk rd) then Ok (take tk (drop (unat off) (disk rd)))
        else Err (Io UnexpectedEof)), rd1)" "good rd1" "disk rd1 = disk rd"
    using seek_read_cases [OF assms(1)] by metis
  with assms(5) have c: "tk = 0 \<or> unat off + tk \<le> length (disk rd)"
    and bs: "bs = take tk (drop (unat off) (disk rd))" and "rd' = rd1"
    by (auto split: if_splits)
  with sk show "good rd'" "disk rd' = disk rd" "length bs = tk"
    by auto
  show "bs = take tk (run_content (disk rd) (unat cs) r)"
    using bs assms(4) checked_mul_unat [OF assms(3)] by (simp add: run_content_def assms(2) min_absorb1)
qed

text \<open>Whatever the loop returns is the prefix asked for.\<close>

lemma runs_loop_sound:
  assumes "good rd" "allocated_bytes (unat cs) runs < 2 ^ 64"
    and "runs_loop H rd cs runs remaining out = (Ok res, rd')"
  shows "res = out @ take (unat remaining) (stream (disk rd) (unat cs) runs) \<and>
    length res = length out + min (unat remaining) (allocated_bytes (unat cs) runs) \<and>
    good rd' \<and> disk rd' = disk rd"
  using assms
proof (induction runs arbitrary: rd remaining out)
  case Nil
  then show ?case by (simp add: stream_def allocated_bytes_def)
next
  case (Cons r rs)
  show ?case
  proof (cases "remaining = 0")
    case True
    with Cons.prems show ?thesis by simp
  next
    case False
    define tk where "tk = min (run_length r * cs) remaining"
    let ?k = "unat (run_length r) * unat cs"
    have prod: "?k < 2 ^ 64"
      using Cons.prems(2) by (simp add: allocated_Cons)
    have tk: "unat tk = min ?k (unat remaining)"
      unfolding tk_def unat_min run_bytes_unat [OF prod] ..
    have rem: "unat (remaining - tk) = unat remaining - unat tk"
      by (simp add: unat_sub tk_def)
    have al: "allocated_bytes (unat cs) (r # rs) = ?k + allocated_bytes (unat cs) rs"
      by (simp add: allocated_bytes_def)
    obtain bs rd1 where bs: "bs = take (unat tk) (run_content (disk rd) (unat cs) r)"
      "length bs = unat tk" "good rd1" "disk rd1 = disk rd"
      and rest: "runs_loop H rd1 cs rs (remaining - tk) (out @ bs) = (Ok res, rd')"
    proof (cases "lcn r")
      case None
      have z: "replicate (unat tk) 0 = take (unat tk) (run_content (disk rd) (unat cs) r)"
        using tk by (simp add: run_content_def None)
      have "runs_loop H rd cs rs (remaining - tk) (out @ replicate (unat tk) 0) = (Ok res, rd')"
        using Cons.prems(3) False None by (simp add: Let_def flip: tk_def)
      then show ?thesis
        by (intro that [OF z _ Cons.prems(1) refl]) (rule length_replicate)
    next
      case (Some c)
      then obtain off bs rd1 where off: "checked_mul c cs = Some off"
        and sk: "seek_read H rd off (unat tk) = (Ok bs, rd1)"
        and lp: "runs_loop H rd1 cs rs (remaining - tk) (out @ bs) = (Ok res, rd')"
        using Cons.prems(3) False by (auto simp: Let_def split: option.splits prod.splits res.splits simp flip: tk_def)
      have "unat tk \<le> ?k"
        using tk by simp
      from run_part [OF Cons.prems(1) Some off this sk] lp that show ?thesis
        by blast
    qed
    have "allocated_bytes (unat cs) rs < 2 ^ 64"
      using Cons.prems(2) al by simp
    note ih = Cons.IH [OF bs(3) this rest]
    have "length (run_content (disk rd) (unat cs) r) \<le> ?k"
      by (rule length_run_content)
    moreover have "unat tk \<le> length (run_content (disk rd) (unat cs) r)"
      using bs(1,2) by simp
    ultimately have "take (unat remaining) (stream (disk rd) (unat cs) (r # rs)) =
        bs @ take (unat remaining - unat tk) (stream (disk rd) (unat cs) rs)"
      using bs(1) tk by (auto simp: stream_def min_def split: if_splits)
    with ih bs tk rem al show ?thesis
      by (auto simp: min_def split: if_splits)
  qed
qed

text \<open>It succeeds when the runs lie on the medium.\<close>

lemma runs_loop_complete:
  assumes "good rd" "length (disk rd) < 2 ^ 64" "allocated_bytes (unat cs) runs < 2 ^ 64"
    and "list_all (run_on_disk (disk rd) (unat cs)) runs"
  shows "\<exists>res rd'. runs_loop H rd cs runs remaining out = (Ok res, rd')"
  using assms
proof (induction runs arbitrary: rd remaining out)
  case Nil
  then show ?case by simp
next
  case (Cons r rs)
  define tk where "tk = min (run_length r * cs) remaining"
  have prod: "unat (run_length r) * unat cs < 2 ^ 64"
    using Cons.prems(3) by (simp add: allocated_Cons)
  have tk: "unat tk \<le> unat (run_length r) * unat cs"
    unfolding tk_def unat_min run_bytes_unat [OF prod] by simp
  have al: "allocated_bytes (unat cs) rs < 2 ^ 64"
    using Cons.prems(3) by (simp add: allocated_bytes_def)
  note ih = Cons.IH [OF _ _ al]
  show ?case
  proof (cases "lcn r")
    case None
    then show ?thesis
      using ih [of rd] Cons.prems by (auto simp: Let_def)
  next
    case (Some c)
    have on: "unat c * unat cs + unat (run_length r) * unat cs \<le> length (disk rd)"
      using Cons.prems(4) Some by (simp add: run_on_disk_def algebra_simps)
    then have "unat c * unat cs < 2 ^ 64"
      using Cons.prems(2) by linarith
    then have off: "checked_mul c cs = Some (c * cs)" "unat (c * cs) = unat c * unat cs"
      by (simp_all add: checked_mul_def unat_word_ariths)
    then have "unat (c * cs) + unat tk \<le> length (disk rd)"
      using on tk by linarith
    from seek_read_in [OF Cons.prems(1) this] obtain bs rd1 where
      "seek_read H rd (c * cs) (unat tk) = (Ok bs, rd1)" "good rd1" "disk rd1 = disk rd"
      by blast
    then show ?thesis
      using ih [of rd1 "remaining - tk" "out @ bs"] Cons.prems Some off by (auto simp: Let_def tk_def)
  qed
qed


lemma read_runs_capped_sound:
  assumes "good rd" "read_runs_capped H rd runs cs rsize cap = (Ok out, rd')"
  shows "out = take (min (unat rsize) (unat cap)) (stream (disk rd) (unat cs) runs) \<and>
    length out = min (min (unat rsize) (allocated_bytes (unat cs) runs)) (unat cap) \<and>
    good rd' \<and> disk rd' = disk rd"
proof -
  let ?a = "allocated_bytes (unat cs) runs"
  define want where "want = min (min rsize (word_of_nat ?a)) cap"
  have a: "?a < 2 ^ 64" and lp: "runs_loop H rd cs runs want [] = (Ok out, rd')"
    using assms(2) by (auto simp: read_runs_capped_def allocated_loop_Ok Let_def want_def
        split: res.splits if_splits)
  have w: "unat want = min (min (unat rsize) ?a) (unat cap)"
    using a by (simp add: want_def unat_min unat_of_nat)
  have "length (stream (disk rd) (unat cs) runs) \<le> ?a"
    by (induction runs) (auto simp: stream_def allocated_bytes_def intro!: add_mono length_run_content)
  then have "take (unat want) (stream (disk rd) (unat cs) runs) =
      take (min (unat rsize) (unat cap)) (stream (disk rd) (unat cs) runs)"
    using w by (auto simp: min_def split: if_splits)
  with runs_loop_sound [OF assms(1) a lp] w show ?thesis
    by (auto simp: min_def split: if_splits)
qed

lemma read_runs_capped_complete:
  assumes "good rd" "length (disk rd) < 2 ^ 64" "allocated_bytes (unat cs) runs < 2 ^ 64"
    and "list_all (run_on_disk (disk rd) (unat cs)) runs"
    and "min (min (unat rsize) (allocated_bytes (unat cs) runs)) (unat cap) \<le> 2 ^ 40"
    and "\<And>n. mem_reserve H n"
  shows "\<exists>out rd'. read_runs_capped H rd runs cs rsize cap = (Ok out, rd')"
proof -
  have "allocated_loop runs cs 0 = Ok (word_of_nat (allocated_bytes (unat cs) runs))"
    using assms(3) by (simp add: allocated_loop_Ok)
  moreover have "\<not> min (min rsize (word_of_nat (allocated_bytes (unat cs) runs))) cap > MAX_VALUE_BYTES"
    using assms(3,5)
    by (simp add: word_less_nat_alt unat_min unat_of_nat MAX_VALUE_BYTES_def not_less min_le_iff_disj)
  ultimately show ?thesis
    using runs_loop_complete [OF assms(1-4)] assms(6) by (simp add: read_runs_capped_def Let_def)
qed

end

section \<open>Properties\<close>

definition sample_disk :: bytes where
  "sample_disk = [0, 0, 1, 1, 2, 2, 3, 3]"

definition sample_layout :: "run list" where
  "sample_layout = [\<lparr>run_length = 2, lcn = Some 2\<rparr>, \<lparr>run_length = 1, lcn = None\<rparr>,
     \<lparr>run_length = 1, lcn = Some 1\<rparr>]"

text \<open>
  Claim C3. Reading a non-resident value through any fault-free source returns exactly the
  bytes its runs describe: when the runs lie on the medium and the size is below the
  1 TiB ceiling, the result is the first \<open>min (real_size, max_bytes)\<close> bytes of the
  concatenation of the runs, sparse runs as zeroes.
\<close>

theorem read_runs_exact:
  assumes "medium H good disk at" "good rd" "length (disk rd) < 2 ^ 64"
    and "allocated_bytes (unat cs) runs < 2 ^ 64"
    and "list_all (run_on_disk (disk rd) (unat cs)) runs"
    and "min (min (unat rsize) (allocated_bytes (unat cs) runs)) (unat cap) \<le> 2 ^ 40"
    and "\<And>n. mem_reserve H n"
  shows "\<exists>rd'. read_runs_capped H rd runs cs rsize cap =
    (Ok (take (min (unat rsize) (unat cap)) (stream (disk rd) (unat cs) runs)), rd')"
proof -
  obtain out rd' where r: "read_runs_capped H rd runs cs rsize cap = (Ok out, rd')"
    using medium.read_runs_capped_complete [OF assms] by blast
  with medium.read_runs_capped_sound [OF assms(1,2) r] show ?thesis
    by auto
qed

theorem read_runs_exact_witness:
  "\<exists>rd'. read_runs_capped cursor_host \<lparr>cur_bytes = sample_disk, cur_pos = 0\<rparr> sample_layout 2 7 100 =
    (Ok [2, 2, 3, 3, 0, 0, 1], rd')"
proof -
  have "list_all (run_on_disk sample_disk (unat (2::u64))) sample_layout"
    "allocated_bytes (unat (2::u64)) sample_layout = 8" "length sample_disk = 8"
    "take 7 (stream sample_disk (unat (2::u64)) sample_layout) = [2, 2, 3, 3, 0, 0, 1]"
    by (simp_all add: sample_disk_def sample_layout_def run_on_disk_def allocated_bytes_def stream_def
        run_content_def)
  then show ?thesis
    using read_runs_exact [OF disk_cursor.medium_axioms, of "\<lparr>cur_bytes = sample_disk, cur_pos = 0\<rparr>"
        2 sample_layout 7 100]
    by (simp add: cursor_good_def cursor_host_def)
qed

text \<open>
  The cap yields a true prefix: over any fault-free source, whatever the runs, a
  capped read that succeeds returns the first \<open>max_bytes\<close> bytes of what the uncapped read
  returns, and neither changes the medium.
\<close>

theorem read_runs_cap_prefix:
  assumes "medium H good disk at" "good rd"
    and "read_runs H rd runs cs rsize = (Ok full, rd1)"
    and "read_runs_capped H rd runs cs rsize cap = (Ok part, rd2)"
  shows "part = take (unat cap) full \<and> disk rd1 = disk rd \<and> disk rd2 = disk rd"
proof -
  have "rsize \<le> - 1"
    by (rule word_order.extremum)
  then have "unat rsize \<le> unat (- 1 :: u64)"
    by (simp only: word_le_nat_alt)
  then show ?thesis
    using medium.read_runs_capped_sound [OF assms(1,2) assms(3) [unfolded read_runs_def]]
      medium.read_runs_capped_sound [OF assms(1,2,4)]
    by (simp add: min_absorb1 min.commute)
qed

theorem read_runs_cap_prefix_witness:
  "\<exists>rd1 rd2 full part. let rd = \<lparr>cur_bytes = sample_disk, cur_pos = 0\<rparr> in
     read_runs cursor_host rd sample_layout 2 7 = (Ok full, rd1) \<and>
     read_runs_capped cursor_host rd sample_layout 2 7 3 = (Ok part, rd2) \<and>
     part = take 3 full"
proof -
  let ?rd = "\<lparr>cur_bytes = sample_disk, cur_pos = 0\<rparr>"
  have "cursor_good ?rd"
    by (simp add: cursor_good_def sample_disk_def)
  moreover have "\<exists>out rd'. read_runs_capped cursor_host ?rd sample_layout 2 7 cap = (Ok out, rd')"
    for cap
    by (rule disk_cursor.read_runs_capped_complete)
       (simp_all add: cursor_good_def cursor_host_def sample_disk_def sample_layout_def
         run_on_disk_def allocated_bytes_def)
  ultimately obtain full part rd1 rd2 where
    "cursor_good ?rd" "read_runs cursor_host ?rd sample_layout 2 7 = (Ok full, rd1)"
    "read_runs_capped cursor_host ?rd sample_layout 2 7 3 = (Ok part, rd2)"
    unfolding read_runs_def by metis
  moreover from this have "part = take 3 full"
    using read_runs_cap_prefix [OF disk_cursor.medium_axioms] by fastforce
  ultimately show ?thesis
    unfolding Let_def by blast
qed

end
