(* ===== verification/Reader_Monad.thy ===== *)
theory Reader_Monad
  imports Data_Read
begin

text \<open>
  The volume reader threads the state of its source through every operation, and every
  \<open>?\<close> of the sources stops at the first error. \<open>io_bind\<close> is that composition and
  \<open>io_lift\<close> embeds a pure step. Over a fault-free medium every operation built this way
  is a function of the medium's content alone (\<open>content_only\<close>): it neither changes it nor
  depends on where earlier reads left the position. That is what lets several workers
  share one handle behind a lock.
\<close>

section \<open>Composition\<close>

type_synonym ('r, 'a) io = "'r \<Rightarrow> 'a res \<times> 'r"

definition io_lift :: "'a res \<Rightarrow> ('r, 'a) io" where
  "io_lift m = (\<lambda>rd. (m, rd))"

definition io_bind :: "('r, 'a) io \<Rightarrow> ('a \<Rightarrow> ('r, 'b) io) \<Rightarrow> ('r, 'b) io" where
  "io_bind m f = (\<lambda>rd.
     case m rd of
       (Ok x, rd') \<Rightarrow> f x rd'
     | (Err e, rd') \<Rightarrow> (Err e, rd')
     | (Panic, rd') \<Rightarrow> (Panic, rd'))"

lemma io_lift_simps [simp]: "io_lift m rd = (m, rd)"
  by (simp add: io_lift_def)

lemma io_bind_lift [simp]:
  "io_bind (io_lift (Ok x)) f = f x"
  "io_bind (io_lift (Err e)) f = io_lift (Err e)"
  "io_bind (io_lift Panic) f = io_lift Panic"
  by (simp_all add: io_bind_def io_lift_def)

lemma io_bind_Ok:
  "io_bind m f rd = (Ok y, rd') \<longleftrightarrow> (\<exists>x rd1. m rd = (Ok x, rd1) \<and> f x rd1 = (Ok y, rd'))"
  by (auto simp: io_bind_def split: prod.splits res.splits)

lemma io_bind_step: "m rd = (Ok x, rd1) \<Longrightarrow> io_bind m f rd = f x rd1"
  by (simp add: io_bind_def)

lemma io_bind_assoc: "io_bind (io_bind m f) g = io_bind m (\<lambda>x. io_bind (f x) g)"
  by (rule ext) (simp add: io_bind_def split: prod.splits res.splits)

section \<open>The loops of \<open>data.rs\<close> as compositions\<close>

lemma runs_loop_bind:
  "(\<lambda>rd. runs_loop H rd cs (r # rs) remaining out) =
     (if remaining = 0 then io_lift (Ok out)
      else let tk = min (run_length r * cs) remaining in
      case lcn r of
        None \<Rightarrow> (\<lambda>rd. runs_loop H rd cs rs (remaining - tk) (out @ replicate (unat tk) 0))
      | Some l \<Rightarrow>
          io_bind (io_lift (ok_or (checked_mul l cs) (BadRunlist ''LCN byte offset overflow''))) (\<lambda>off.
          io_bind (\<lambda>rd. seek_read H rd off (unat tk)) (\<lambda>bs rd.
          runs_loop H rd cs rs (remaining - tk) (out @ bs))))"
  by (rule ext) (auto simp: io_bind_def io_lift_def Let_def split: option.splits prod.splits res.splits)

lemma read_runs_capped_bind:
  "(\<lambda>rd. read_runs_capped H rd runs cs rsize cap) =
     io_bind (io_lift (allocated_loop runs cs 0)) (\<lambda>allocated.
       let want = min (min rsize allocated) cap in
       if want > MAX_VALUE_BYTES then io_lift (Err (TooLarge want))
       else if \<not> mem_reserve H (unat want) then io_lift (Err (TooLarge want))
       else (\<lambda>rd. runs_loop H rd cs runs want []))"
  by (rule ext) (auto simp: read_runs_capped_def io_bind_def Let_def split: res.splits)

lemma gather_step_bind:
  "(\<lambda>rd. gather_step H rd cs uc l avail rest a) =
     (let tk = min (uc - got a) avail;
          advance = (\<lambda>l a.
            let avail' = avail - tk
            in (if avail' = 0 then rest else (l, avail') # rest, a\<lparr>got := got a + tk\<rparr>)) in
      case l of
        None \<Rightarrow> io_lift (Ok (advance None a))
      | Some c \<Rightarrow>
          io_bind (io_lift (ok_or (checked_mul c cs) (BadRunlist ''LCN byte offset overflow''))) (\<lambda>off.
          io_bind (\<lambda>rd. seek_read_vec H rd off (length (real_bytes a)) (unat (tk * cs))) (\<lambda>bs.
          case checked_add c tk of
            None \<Rightarrow> io_lift Panic
          | Some c' \<Rightarrow> io_lift (Ok (advance (Some c')
              (a\<lparr>real_bytes := real_bytes a @ bs, real_clusters := real_clusters a + tk\<rparr>))))))"
  by (rule ext) (auto simp: gather_step_def io_bind_def io_lift_def Let_def
      split: option.splits prod.splits res.splits)

lemma gather_unit_bind:
  "(\<lambda>rd. gather_unit H rd cs uc ((l, avail) # rest) a) =
     (if \<not> got a < uc then io_lift (Ok ((l, avail) # rest, a))
      else io_bind (\<lambda>rd. gather_step H rd cs uc l avail rest a) (\<lambda>(q', a') rd.
        gather_unit H rd cs uc q' a'))"
  by (rule ext) (auto simp: io_bind_def split: prod.splits res.splits)

text \<open>What the outer loop does with a gathered unit.\<close>

definition unit_turn ::
  "'r host \<Rightarrow> (bytes \<Rightarrow> bytes option) \<Rightarrow> u64 \<Rightarrow> u64 \<Rightarrow> u64 \<Rightarrow> nat \<Rightarrow> bytes \<Rightarrow> run_queue \<Rightarrow> unit_acc \<Rightarrow>
   ('r, bytes) io" where
  "unit_turn H lz cs uc ub target out q' a =
     (if got a = 0 then io_lift (Ok out)
      else if real_clusters a = 0 then
        (\<lambda>rd. compressed_loop H lz rd cs uc ub target q'
           (out @ replicate (min (unat ub) (target - length out)) 0))
      else if real_clusters a = uc then
        (\<lambda>rd. compressed_loop H lz rd cs uc ub target q' (out @ real_bytes a))
      else case lz (real_bytes a) of
        None \<Rightarrow> io_lift (Err (BadCompression ''LZNT1 decode failed''))
      | Some d \<Rightarrow> (\<lambda>rd. compressed_loop H lz rd cs uc ub target q' (out @ take (unat ub) d)))"

lemma compressed_loop_bind:
  "(\<lambda>rd. compressed_loop H lz rd cs uc ub target q out) =
     (if \<not> length out < target then io_lift (Ok out)
      else io_bind (\<lambda>rd. gather_unit H rd cs uc q \<lparr>real_bytes = [], real_clusters = 0, got = 0\<rparr>)
        (\<lambda>(q', a). unit_turn H lz cs uc ub target out q' a))"
  by (rule ext) (subst compressed_loop.simps,
      auto simp: unit_turn_def io_bind_def split: prod.splits res.splits option.splits)

lemma read_compressed_bind:
  "(\<lambda>rd. read_compressed_runs_capped H lz rd runs cs rsize uc cap) =
     (if rsize > MAX_VALUE_BYTES then io_lift (Err (TooLarge rsize))
      else io_bind (io_lift (ok_or (checked_mul uc cs)
          (BadRunlist ''compression unit byte size overflow''))) (\<lambda>ub.
        io_bind (\<lambda>rd. compressed_loop H lz rd cs uc ub (unat (min rsize cap))
            (map (\<lambda>r. (lcn r, run_length r)) runs) []) (\<lambda>out.
        io_lift (Ok (take (unat (min rsize cap)) out)))))"
  by (rule ext) (auto simp: read_compressed_runs_capped_def io_bind_def Let_def
      split: option.splits prod.splits res.splits)

lemma read_nonresident_capped_bind:
  "(\<lambda>rd. read_nonresident_capped N H lz rd runs cs rsize a cap) =
     (if is_compressed N a \<and> compression_unit a \<noteq> 0 then
        case checked_shl_one (unat (compression_unit a)) of
          None \<Rightarrow> io_lift (Err (BadAttribute (attr_offset a) ''implausible compression unit''))
        | Some uc \<Rightarrow> (\<lambda>rd. read_compressed_runs_capped H lz rd runs cs rsize uc cap)
      else (\<lambda>rd. read_runs_capped H rd runs cs rsize cap))"
  by (rule ext) (auto simp: read_nonresident_capped_def Let_def split: option.splits)

lemma read_attribute_value_bind:
  "(\<lambda>rd. read_attribute_value N H lz rd rec a cs) =
     (case attr_body a of
        Resident _ _ \<Rightarrow> io_lift (ok_or (resident_content a rec)
            (BadAttribute (attr_offset a) ''resident content out of bounds''))
      | NonResident _ _ _ _ _ rsize _ \<Rightarrow>
          io_bind (io_lift (attribute_runlist rec a)) (\<lambda>runs rd.
            read_nonresident_capped N H lz rd runs cs rsize a (- 1)))"
  by (rule ext) (auto simp: read_attribute_value_def read_nonresident_def io_bind_def
      split: attribute_body.splits res.splits)

section \<open>Operations that depend on the content only\<close>

context medium
begin

definition content_only :: "('r, 'b) io \<Rightarrow> bool" where
  "content_only m \<longleftrightarrow> (\<forall>rd. good rd \<longrightarrow> good (snd (m rd)) \<and> disk (snd (m rd)) = disk rd \<and>
     (\<forall>rd'. good rd' \<longrightarrow> disk rd' = disk rd \<longrightarrow> fst (m rd') = fst (m rd)))"

lemma content_only_lift [simp, intro]: "content_only (io_lift m)"
  by (simp add: content_only_def)

lemma content_onlyI:
  assumes "\<And>rd. good rd \<Longrightarrow> \<exists>rd1. m rd = (F (disk rd), rd1) \<and> good rd1 \<and> disk rd1 = disk rd"
  shows "content_only m"
  unfolding content_only_def using assms by (metis fst_conv snd_conv)

lemma content_onlyE:
  assumes "content_only m" "good rd"
  shows "good (snd (m rd))" "disk (snd (m rd)) = disk rd"
    "good rd' \<Longrightarrow> disk rd' = disk rd \<Longrightarrow> fst (m rd') = fst (m rd)"
  using assms unfolding content_only_def by blast+

lemma content_only_bind_reached:
  assumes m: "content_only m" and f: "\<And>x rd rd1. m rd = (Ok x, rd1) \<Longrightarrow> content_only (f x)"
  shows "content_only (io_bind m f)"
  unfolding content_only_def
proof (intro allI impI)
  fix rd
  assume g: "good rd"
  obtain r rd1 where e: "m rd = (r, rd1)"
    by (cases "m rd")
  with content_onlyE(1,2) [OF m g] have g1: "good rd1" "disk rd1 = disk rd"
    by auto
  show "good (snd (io_bind m f rd)) \<and> disk (snd (io_bind m f rd)) = disk rd \<and>
    (\<forall>rd'. good rd' \<longrightarrow> disk rd' = disk rd \<longrightarrow> fst (io_bind m f rd') = fst (io_bind m f rd))"
  proof (intro conjI allI impI)
    show "good (snd (io_bind m f rd))" "disk (snd (io_bind m f rd)) = disk rd"
      using e g1 content_onlyE(1,2) [OF f g1(1)] by (auto simp: io_bind_def split: res.splits)
    fix rd'
    assume g': "good rd'" "disk rd' = disk rd"
    obtain rd1' where e': "m rd' = (r, rd1')"
      using content_onlyE(3) [OF m g g'] e by (cases "m rd'") auto
    with content_onlyE(1,2) [OF m g'(1)] g' have "good rd1'" "disk rd1' = disk rd1"
      using g1 by auto
    then show "fst (io_bind m f rd') = fst (io_bind m f rd)"
      using e e' content_onlyE(3) [OF f g1(1), of rd _ rd1 rd1']
      by (auto simp: io_bind_def split: res.splits)
  qed
qed

lemma content_only_bind [intro]:
  "content_only m \<Longrightarrow> (\<And>x. content_only (f x)) \<Longrightarrow> content_only (io_bind m f)"
  by (rule content_only_bind_reached)

lemma content_only_if [intro]:
  "content_only m \<Longrightarrow> content_only m' \<Longrightarrow> content_only (if b then m else m')"
  by simp

lemma content_only_option [intro]:
  "content_only m \<Longrightarrow> (\<And>x. content_only (f x)) \<Longrightarrow>
   content_only (case z of None \<Rightarrow> m | Some x \<Rightarrow> f x)"
  by (cases z) auto

lemma seek_read_content [intro]: "content_only (\<lambda>rd. seek_read H rd off n)"
  by (rule content_onlyI [where F = "\<lambda>d. if n = 0 \<or> unat off + n \<le> length d
        then Ok (take n (drop (unat off) d)) else Err (Io UnexpectedEof)"])
     (metis seek_read_cases)

lemma seek_read_vec_content [intro]: "content_only (\<lambda>rd. seek_read_vec H rd off start n)"
proof (cases "start + n < 2 ^ 63")
  case True
  then show ?thesis
    using seek_read_content by (simp add: seek_read_vec_small)
next
  case False
  show ?thesis
  proof (rule content_onlyI [where F = "\<lambda>_. Panic"])
    fix rd
    assume "good rd"
    with seek_start [of rd off] False
    show "\<exists>rd1. seek_read_vec H rd off start n = (Panic, rd1) \<and> good rd1 \<and> disk rd1 = disk rd"
      by (auto simp: seek_read_vec_def)
  qed
qed

lemma runs_loop_content [intro]: "content_only (\<lambda>rd. runs_loop H rd cs runs remaining out)"
proof (induction runs arbitrary: remaining out)
  case Nil
  then show ?case
    using content_only_lift [of "Ok out"] by (simp add: io_lift_def)
next
  case (Cons r rs)
  then show ?case
    unfolding runs_loop_bind Let_def by (auto split: option.splits)
qed

lemma read_runs_capped_content [intro]:
  "content_only (\<lambda>rd. read_runs_capped H rd runs cs rsize cap)"
  unfolding read_runs_capped_bind Let_def by auto

lemma gather_step_content [intro]: "content_only (\<lambda>rd. gather_step H rd cs uc l avail rest a)"
  unfolding gather_step_bind Let_def by (auto split: option.splits)

lemma gather_unit_content [intro]: "content_only (\<lambda>rd. gather_unit H rd cs uc q a)"
proof (induction "length q + (unat uc - unat (got a))" arbitrary: q a rule: less_induct)
  case less
  show ?case
  proof (cases q)
    case Nil
    then show ?thesis
      using content_only_lift [of "Ok ([], a)"] by (simp add: io_lift_def)
  next
    case (Cons r rest)
    obtain l avail where r: "r = (l, avail)"
      by (cases r)
    have "content_only (io_bind (\<lambda>rd. gather_step H rd cs uc l avail rest a) (\<lambda>(q', a') rd.
           gather_unit H rd cs uc q' a'))" if "got a < uc"
      using that by (intro content_only_bind_reached gather_step_content)
        (auto simp: Cons dest!: gather_step_decreases intro!: less.hyps)
    then show ?thesis
      unfolding Cons r gather_unit_bind by (auto simp: content_only_lift)
  qed
qed

lemma compressed_loop_content [intro]:
  "content_only (\<lambda>rd. compressed_loop H lz rd cs uc ub target q out)"
proof (induction "queue_clusters q" arbitrary: q out rule: less_induct)
  case less
  have "content_only (io_bind (\<lambda>rd. gather_unit H rd cs uc q \<lparr>real_bytes = [], real_clusters = 0, got = 0\<rparr>)
      (\<lambda>(q', a). unit_turn H lz cs uc ub target out q' a))"
  proof (intro content_only_bind_reached gather_unit_content, goal_cases)
    case (1 x rd rd1)
    obtain q' a where x: "x = (q', a)"
      by (cases x)
    show ?case
    proof (cases "got a = 0")
      case False
      then have "content_only (\<lambda>rd. compressed_loop H lz rd cs uc ub target q' out')" for out'
        using 1 x by (intro less.hyps gather_unit_fresh [of H rd cs uc q "[]" 0 q' a rd1]) simp_all
      then show ?thesis
        unfolding x prod.case unit_turn_def by (intro content_only_if content_only_option content_only_lift)
    qed (simp add: x unit_turn_def content_only_lift)
  qed
  then show ?case
    by (auto simp: compressed_loop_bind content_only_lift)
qed

lemma read_compressed_content [intro]:
  "content_only (\<lambda>rd. read_compressed_runs_capped H lz rd runs cs rsize uc cap)"
  unfolding read_compressed_bind by auto

lemma read_nonresident_capped_content [intro]:
  "content_only (\<lambda>rd. read_nonresident_capped N H lz rd runs cs rsize a cap)"
  unfolding read_nonresident_capped_bind by (auto split: option.splits)

lemma read_attribute_value_content [intro]:
  "content_only (\<lambda>rd. read_attribute_value N H lz rd rec a cs)"
  unfolding read_attribute_value_bind by (auto split: attribute_body.splits)

end

end
