(* ===== verification/Entry_Walk.thy ===== *)
theory Entry_Walk
  imports Ntfs_Error
begin

text \<open>
  The loop that most parsers of the crate share: \<open>for _ in 0..CAP\<close>, look at the bytes at
  \<open>pos\<close>, and stop, fail, or push an entry and continue at a later position. \<open>walk\<close> is that
  loop with its body as an argument; the locale \<open>bounded_walk\<close> states what a body has to
  promise (progress inside a limit) and proves what every such loop then has.
\<close>

section \<open>The loop\<close>

datatype 'e walk_step = Stop | Last 'e | Continue 'e nat

fun walk :: "(nat \<Rightarrow> 'e walk_step res) \<Rightarrow> nat \<Rightarrow> nat \<Rightarrow> 'e list res" where
  "walk step 0 pos = Ok []"
| "walk step (Suc n) pos =
     and_then (step pos) (\<lambda>s.
       case s of
         Stop \<Rightarrow> Ok []
       | Last e \<Rightarrow> Ok [e]
       | Continue e pos' \<Rightarrow> and_then (walk step n pos') (\<lambda>es. Ok (e # es)))"

lemmas walk_numeral =
  walk.simps(2) [of step "pred_numeral k" pos for step k pos, folded numeral_eq_Suc]

lemma walk_Suc_Ok:
  "walk step (Suc n) pos = Ok es \<longleftrightarrow>
     step pos = Ok Stop \<and> es = [] \<or>
     (\<exists>e. step pos = Ok (Last e) \<and> es = [e]) \<or>
     (\<exists>e pos' rest. step pos = Ok (Continue e pos') \<and> walk step n pos' = Ok rest \<and> es = e # rest)"
proof (cases "step pos")
  case (Ok s)
  then show ?thesis
    by (cases s) (auto simp: and_then_Ok_iff)
qed auto

lemma walk_length: "walk step n pos = Ok es \<Longrightarrow> length es \<le> n"
proof (induction n arbitrary: pos es)
  case 0
  then show ?case by simp
next
  case (Suc n)
  then show ?case
    by (auto simp: walk_Suc_Ok simp del: walk.simps(2))
qed

lemma walk_all:
  assumes "walk step n pos = Ok es"
    and "\<And>p e p'. step p = Ok (Continue e p') \<Longrightarrow> P e"
    and "\<And>p e. step p = Ok (Last e) \<Longrightarrow> P e"
  shows "list_all P es"
  using assms(1)
proof (induction n arbitrary: pos es)
  case 0
  then show ?case by simp
next
  case (Suc n)
  then show ?case
    using assms(2,3) by (auto simp: walk_Suc_Ok simp del: walk.simps(2))
qed

lemma walk_Continue:
  "step pos = Ok (Continue e pos') \<Longrightarrow> walk step n pos' = Ok es \<Longrightarrow>
   walk step (Suc n) pos = Ok (e # es)"
  by simp

section \<open>A body that advances inside a limit\<close>

locale bounded_walk =
  fixes step :: "nat \<Rightarrow> 'e walk_step res" and lim stride :: nat
  assumes stride_pos: "0 < stride"
    and no_panic: "step pos \<noteq> Panic"
    and progress: "step pos = Ok (Continue e pos') \<Longrightarrow> pos + stride \<le> pos' \<and> pos' \<le> lim"
    and last_fits: "step pos = Ok (Last e) \<Longrightarrow> pos + stride \<le> lim"
begin

lemma walk_no_panic: "walk step n pos \<noteq> Panic"
  by (induction n arbitrary: pos) (auto simp: res_inversions no_panic split: walk_step.splits)

lemma walk_count: "walk step n pos = Ok es \<Longrightarrow> es \<noteq> [] \<Longrightarrow> pos + stride * length es \<le> lim"
proof (induction n arbitrary: pos es)
  case 0
  then show ?case by simp
next
  case (Suc n)
  show ?case
  proof (cases "step pos")
    case (Ok s)
    show ?thesis
    proof (cases s)
      case (Continue e pos')
      with Ok Suc.prems obtain rest where
        es: "es = e # rest" and w: "walk step n pos' = Ok rest"
        by (auto simp: res_inversions)
      from Ok Continue have "pos + stride \<le> pos'" "pos' \<le> lim"
        using progress by auto
      with Suc.IH [OF w] es show ?thesis
        by (cases "rest = []") auto
    qed (use Ok Suc.prems last_fits in auto)
  qed (use Suc.prems in auto)
qed

text \<open>The cap is never what ends the loop once it exceeds the room there is.\<close>

lemma walk_enough:
  assumes "lim < pos + stride * Suc n" "n \<le> m"
  shows "walk step (Suc m) pos = walk step (Suc n) pos"
  using assms
proof (induction n arbitrary: pos m)
  case 0
  then have "step pos \<noteq> Ok (Continue e p)" for e p
    using progress [of pos e p] by auto
  then show ?case
    by (cases "step pos") (auto split: walk_step.splits)
next
  case (Suc n)
  then obtain k where m: "m = Suc k" "n \<le> k"
    by (cases m) auto
  have "walk step (Suc k) pos' = walk step (Suc n) pos'" if "step pos = Ok (Continue e pos')" for e pos'
    using progress [OF that] Suc.prems(1) m(2) by (intro Suc.IH) auto
  then show ?case
    unfolding m(1) walk.simps(2) [of step "Suc k"] walk.simps(2) [of step "Suc n"]
    by (cases "step pos") (auto split: walk_step.splits simp del: walk.simps)
qed

end

end
