(* ===== verification/Mft_Record.thy ===== *)
theory Mft_Record
  imports Nomicon Bytes
begin

text \<open>
  \<open>core/src/record.rs\<close>: the file-record-segment header and the update-sequence-array
  fixup. \<open>apply_fixup\<close> works in place in the source, so the model returns the buffer as it
  is afterwards beside the outcome, on the error paths too. \<open>fixup\<close> is the pattern every
  caller uses, \<open>apply_fixup(&mut buf, n)?\<close> followed by reads of \<open>buf\<close>.
  \<open>protect\<close> is the writer NTFS itself uses, the specification the fixup inverts.
\<close>

section \<open>Record header\<close>

definition HEADER_LEN :: nat where
  "HEADER_LEN = 48"

record mft_record_header =
  signature :: bytes
  usa_offset :: u16
  usa_count :: u16
  lsn :: u64
  sequence_number :: u16
  hard_link_count :: u16
  first_attribute_offset :: u16
  hdr_flags :: u16
  used_size :: u32
  hdr_allocated_size :: u32
  base_record :: u64
  next_attr_id :: u16
  record_number :: u32

definition is_in_use :: "nomicon \<Rightarrow> mft_record_header \<Rightarrow> bool" where
  "is_in_use N h \<longleftrightarrow> hdr_flags h AND MF_IN_USE N \<noteq> 0"

definition is_directory :: "nomicon \<Rightarrow> mft_record_header \<Rightarrow> bool" where
  "is_directory N h \<longleftrightarrow> hdr_flags h AND MF_DIRECTORY N \<noteq> 0"

definition is_base_record :: "mft_record_header \<Rightarrow> bool" where
  "is_base_record h \<longleftrightarrow> base_record h = 0"

definition is_corrupt :: "nomicon \<Rightarrow> mft_record_header \<Rightarrow> bool" where
  "is_corrupt N h \<longleftrightarrow> signature h = SIGNATURE_BAAD N"

definition header_parse :: "nomicon \<Rightarrow> bytes \<Rightarrow> mft_record_header res" where
  "header_parse N buf =
     (if length buf < HEADER_LEN
      then Err (TooShort ''MFT record header'' HEADER_LEN (length buf))
      else let off = mft_off N; sig = arr 4 buf (SIGNATURE off) in
      if sig \<noteq> SIGNATURE_FILE N \<and> sig \<noteq> SIGNATURE_BAAD N then Err (BadRecordSignature sig)
      else Ok \<lparr>signature = sig,
        usa_offset = le_u16 buf (USA_OFFSET off),
        usa_count = le_u16 buf (USA_COUNT off),
        lsn = le_u64 buf (LSN off),
        sequence_number = le_u16 buf (SEQUENCE_NUMBER off),
        hard_link_count = le_u16 buf (HARD_LINK_COUNT off),
        first_attribute_offset = le_u16 buf (FIRST_ATTRIBUTE off),
        hdr_flags = le_u16 buf (MFT_FLAGS off),
        used_size = le_u32 buf (USED_SIZE off),
        hdr_allocated_size = le_u32 buf (ALLOCATED_SIZE off),
        base_record = le_u64 buf (BASE_RECORD off),
        next_attr_id = le_u16 buf (NEXT_ATTR_ID off),
        record_number = le_u32 buf (RECORD_NUMBER off)\<rparr>)"

lemma header_parse_no_panic [simp]: "header_parse N buf \<noteq> Panic"
  by (simp add: header_parse_def Let_def)

section \<open>Update-sequence fixup\<close>

text \<open>One iteration of the loop: check the tail of sector \<open>i\<close>, then restore it.\<close>

definition fixup_sector :: "nat \<Rightarrow> nat \<Rightarrow> u16 \<Rightarrow> nat \<Rightarrow> bytes \<Rightarrow> unit res \<times> bytes" where
  "fixup_sector ss uo usn i buf =
     (let tail = (i + 1) * ss - 2 in
      case and_then (idx buf tail) (\<lambda>lo. and_then (idx buf (tail + 1)) (\<lambda>hi.
             Ok (from_le_bytes [lo, hi]))) of
        Ok found \<Rightarrow>
          if found \<noteq> usn then (Err (FixupMismatch i usn found), buf)
          else let original = uo + 2 + i * 2 in
            (case idx buf original of
               Ok x \<Rightarrow>
                 let buf1 = buf[tail := x] in
                 (case idx buf1 (original + 1) of
                    Ok y \<Rightarrow> (Ok (), buf1[tail + 1 := y])
                  | _ \<Rightarrow> (Panic, buf1))
             | _ \<Rightarrow> (Panic, buf))
      | _ \<Rightarrow> (Panic, buf))"

fun fixup_loop :: "nat \<Rightarrow> nat \<Rightarrow> u16 \<Rightarrow> nat \<Rightarrow> nat \<Rightarrow> bytes \<Rightarrow> unit res \<times> bytes" where
  "fixup_loop ss uo usn i 0 buf = (Ok (), buf)"
| "fixup_loop ss uo usn i (Suc n) buf =
     (case fixup_sector ss uo usn i buf of
        (Ok _, buf') \<Rightarrow> fixup_loop ss uo usn (i + 1) n buf'
      | (r, buf') \<Rightarrow> (r, buf'))"

definition apply_fixup :: "nomicon \<Rightarrow> bytes \<Rightarrow> nat \<Rightarrow> unit res \<times> bytes" where
  "apply_fixup N buf ss =
     (if length buf < HEADER_LEN
      then (Err (TooShort ''MFT record'' HEADER_LEN (length buf)), buf)
      else if ss < 2 then (Err (BadUpdateSequence ''sector size smaller than 2 bytes''), buf)
      else let uo = unat (le_u16 buf (USA_OFFSET (mft_off N)));
               uc = unat (le_u16 buf (USA_COUNT (mft_off N))) in
      if uc = 0 then (Err (BadUpdateSequence ''usa_count is zero''), buf)
      else case usize_checked_add uo (uc * 2) of
        None \<Rightarrow> (Err (BadUpdateSequence ''usa offset/count overflow''), buf)
      | Some usa_end \<Rightarrow>
          if usa_end > length buf then (Err (BadUpdateSequence ''usa extends past record''), buf)
          else (case usize_checked_mul (uc - 1) ss of
            None \<Rightarrow> (Err (BadUpdateSequence ''sector span overflow''), buf)
          | Some span \<Rightarrow>
              if span > length buf
              then (Err (BadUpdateSequence ''fixup sectors exceed record size''), buf)
              else fixup_loop ss uo (le_u16 buf uo) 0 (uc - 1) buf))"

definition fixup :: "nomicon \<Rightarrow> bytes \<Rightarrow> nat \<Rightarrow> bytes res" where
  "fixup N buf ss =
     (case apply_fixup N buf ss of
        (Ok _, buf') \<Rightarrow> Ok buf' | (Err e, _) \<Rightarrow> Err e | (Panic, _) \<Rightarrow> Panic)"

section \<open>One sector\<close>

definition tail_pos :: "nat \<Rightarrow> nat \<Rightarrow> nat" where
  "tail_pos ss i = (i + 1) * ss - 2"

definition tail_word :: "bytes \<Rightarrow> nat \<Rightarrow> nat \<Rightarrow> u16" where
  "tail_word buf ss i = from_le_bytes [buf ! tail_pos ss i, buf ! (tail_pos ss i + 1)]"

text \<open>The span the checks of \<open>apply_fixup\<close> establish for sectors \<open>0..<n\<close>.\<close>

definition span_ok :: "nat \<Rightarrow> nat \<Rightarrow> nat \<Rightarrow> bytes \<Rightarrow> bool" where
  "span_ok ss uo n buf \<longleftrightarrow> 2 \<le> ss \<and> n * ss \<le> length buf \<and> uo + 2 + 2 * n \<le> length buf"

lemma tail_pos_bound:
  assumes "2 \<le> ss" "i < n"
  shows "tail_pos ss i + 2 \<le> n * ss"
proof -
  have "(i + 1) * ss \<le> n * ss"
    using assms by (intro mult_le_mono1) simp
  moreover have "2 \<le> (i + 1) * ss"
    using assms(1) by (simp add: add_increasing2)
  ultimately show ?thesis
    by (simp add: tail_pos_def)
qed

lemma tail_pos_mono:
  assumes "2 \<le> ss" "i < j"
  shows "tail_pos ss i + 2 \<le> tail_pos ss j"
  using tail_pos_bound [OF assms] assms
  by (simp add: tail_pos_def)

lemma fixup_sector_mismatch:
  assumes "span_ok ss uo n buf" "i < n" "tail_word buf ss i \<noteq> usn"
  shows "fixup_sector ss uo usn i buf = (Err (FixupMismatch i usn (tail_word buf ss i)), buf)"
  using assms tail_pos_bound [of ss i n]
  unfolding fixup_sector_def tail_pos_def [symmetric] Let_def
  by (simp add: tail_word_def span_ok_def)

lemma fixup_sector_match:
  assumes "span_ok ss uo n buf" "i < n" "tail_word buf ss i = usn"
  shows "fixup_sector ss uo usn i buf =
    (Ok (), let t = tail_pos ss i; o1 = uo + 2 + i * 2; b = buf[t := buf ! o1]
            in b[t + 1 := b ! (o1 + 1)])"
  using assms tail_pos_bound [of ss i n]
  unfolding fixup_sector_def tail_pos_def [symmetric] Let_def
  by (simp add: tail_word_def span_ok_def)

lemma fixup_sector_length: "length (snd (fixup_sector ss uo usn i buf)) = length buf"
  by (auto simp: fixup_sector_def Let_def split: res.splits)

lemma fixup_sector_frame:
  "k \<noteq> tail_pos ss i \<Longrightarrow> k \<noteq> tail_pos ss i + 1 \<Longrightarrow>
   snd (fixup_sector ss uo usn i buf) ! k = buf ! k"
  by (auto simp: fixup_sector_def tail_pos_def Let_def split: res.splits)

section \<open>The loop\<close>

lemma fixup_loop_length: "length (snd (fixup_loop ss uo usn i n buf)) = length buf"
proof (induction n arbitrary: i buf)
  case 0
  then show ?case by simp
next
  case (Suc n)
  then show ?case
    using fixup_sector_length [of ss uo usn i buf]
    by (auto split: prod.splits res.splits)
qed

lemma fixup_loop_no_panic:
  assumes "span_ok ss uo (i + n) buf"
  shows "fst (fixup_loop ss uo usn i n buf) \<noteq> Panic"
  using assms
proof (induction n arbitrary: i buf)
  case 0
  then show ?case by simp
next
  case (Suc n)
  show ?case
  proof (cases "tail_word buf ss i = usn")
    case True
    obtain b where b: "fixup_sector ss uo usn i buf = (Ok (), b)"
      using fixup_sector_match [OF Suc.prems _ True] by simp
    have "length b = length buf"
      using fixup_sector_length [of ss uo usn i buf] b by simp
    then have "span_ok ss uo (i + 1 + n) b"
      using Suc.prems by (simp add: span_ok_def)
    from Suc.IH [OF this] b show ?thesis by simp
  next
    case False
    then show ?thesis
      using fixup_sector_mismatch [OF Suc.prems _ False] by simp
  qed
qed

text \<open>Only sector tails are written, and a tail is read before any iteration writes it.\<close>

lemma fixup_loop_frame:
  assumes "\<And>j. i \<le> j \<Longrightarrow> j < i + n \<Longrightarrow> k \<noteq> tail_pos ss j \<and> k \<noteq> tail_pos ss j + 1"
  shows "snd (fixup_loop ss uo usn i n buf) ! k = buf ! k"
  using assms
proof (induction n arbitrary: i buf)
  case 0
  then show ?case by simp
next
  case (Suc n)
  have "k \<noteq> tail_pos ss i" "k \<noteq> tail_pos ss i + 1"
    using Suc.prems [of i] by auto
  then have s: "snd (fixup_sector ss uo usn i buf) ! k = buf ! k"
    by (rule fixup_sector_frame)
  have "snd (fixup_loop ss uo usn (i + 1) n b) ! k = b ! k" for b
    using Suc.prems by (intro Suc.IH) auto
  with s show ?case
    by (auto split: prod.splits res.splits)
qed

lemma tail_word_later:
  assumes "2 \<le> ss" "i < j"
  shows "tail_word (snd (fixup_sector ss uo usn i buf)) ss j = tail_word buf ss j"
  using tail_pos_mono [OF assms] by (simp add: tail_word_def fixup_sector_frame)

lemma all_from_split:
  fixes i n :: nat
  shows "(\<forall>j. i \<le> j \<and> j < i + Suc n \<longrightarrow> P j) \<longleftrightarrow>
    P i \<and> (\<forall>j. i + 1 \<le> j \<and> j < i + 1 + n \<longrightarrow> P j)"
proof
  assume r: "P i \<and> (\<forall>j. i + 1 \<le> j \<and> j < i + 1 + n \<longrightarrow> P j)"
  show "\<forall>j. i \<le> j \<and> j < i + Suc n \<longrightarrow> P j"
  proof (intro allI impI)
    fix j assume "i \<le> j \<and> j < i + Suc n"
    with r show "P j" by (cases "j = i") auto
  qed
qed auto

text \<open>The loop succeeds exactly when every tail carries the sequence number, and reports
  the first tail that does not.\<close>

lemma fixup_loop_Ok_iff:
  assumes "span_ok ss uo (i + n) buf"
  shows "fst (fixup_loop ss uo usn i n buf) = Ok () \<longleftrightarrow>
    (\<forall>j. i \<le> j \<and> j < i + n \<longrightarrow> tail_word buf ss j = usn)"
  using assms
proof (induction n arbitrary: i buf)
  case 0
  then show ?case by auto
next
  case (Suc n)
  have ss: "2 \<le> ss"
    using Suc.prems by (simp add: span_ok_def)
  show ?case
  proof (cases "tail_word buf ss i = usn")
    case True
    define b where "b = snd (fixup_sector ss uo usn i buf)"
    have b: "fixup_sector ss uo usn i buf = (Ok (), b)"
      using fixup_sector_match [OF Suc.prems _ True] by (simp add: b_def)
    have "length b = length buf"
      using fixup_sector_length [of ss uo usn i buf] b by simp
    then have "span_ok ss uo (i + 1 + n) b"
      using Suc.prems by (simp add: span_ok_def)
    note IH = Suc.IH [OF this]
    have later: "i < j \<Longrightarrow> tail_word b ss j = tail_word buf ss j" for j
      unfolding b_def by (rule tail_word_later [OF ss])
    have "(\<forall>j. i + 1 \<le> j \<and> j < i + 1 + n \<longrightarrow> tail_word b ss j = usn) \<longleftrightarrow>
          (\<forall>j. i + 1 \<le> j \<and> j < i + 1 + n \<longrightarrow> tail_word buf ss j = usn)"
      using later by auto
    with IH b True show ?thesis
      unfolding all_from_split by simp
  next
    case False
    then show ?thesis
      using fixup_sector_mismatch [OF Suc.prems _ False] by auto
  qed
qed

lemma fixup_loop_Err:
  assumes "span_ok ss uo (i + n) buf"
    and "fst (fixup_loop ss uo usn i n buf) = Err e"
  shows "\<exists>j. i \<le> j \<and> j < i + n \<and> tail_word buf ss j \<noteq> usn \<and>
    e = FixupMismatch j usn (tail_word buf ss j) \<and>
    (\<forall>k. i \<le> k \<and> k < j \<longrightarrow> tail_word buf ss k = usn)"
  using assms
proof (induction n arbitrary: i buf)
  case 0
  then show ?case by simp
next
  case (Suc n)
  have ss: "2 \<le> ss"
    using Suc.prems by (simp add: span_ok_def)
  show ?case
  proof (cases "tail_word buf ss i = usn")
    case True
    define b where "b = snd (fixup_sector ss uo usn i buf)"
    have b: "fixup_sector ss uo usn i buf = (Ok (), b)"
      using fixup_sector_match [OF Suc.prems(1) _ True] by (simp add: b_def)
    have "length b = length buf"
      using fixup_sector_length [of ss uo usn i buf] b by simp
    then have sp: "span_ok ss uo (i + 1 + n) b"
      using Suc.prems by (simp add: span_ok_def)
    have er: "fst (fixup_loop ss uo usn (i + 1) n b) = Err e"
      using Suc.prems(2) b by simp
    have later: "i < j \<Longrightarrow> tail_word b ss j = tail_word buf ss j" for j
      unfolding b_def by (rule tail_word_later [OF ss])
    from Suc.IH [OF sp er] obtain j where j: "i + 1 \<le> j" "j < i + 1 + n"
      "tail_word b ss j \<noteq> usn" "e = FixupMismatch j usn (tail_word b ss j)"
      "\<forall>k. i + 1 \<le> k \<and> k < j \<longrightarrow> tail_word b ss k = usn"
      by blast
    have "tail_word buf ss k = usn" if "i \<le> k" "k < j" for k
      using that j(5) later True by (cases "k = i") auto
    with j(1-4) later show ?thesis
      by (intro exI [of _ j]) auto
  next
    case False
    then show ?thesis
      using fixup_sector_mismatch [OF Suc.prems(1) _ False] Suc.prems(2) by auto
  qed
qed

section \<open>The whole fixup\<close>

text \<open>What the checks before the loop amount to.\<close>

definition usa_of :: "nomicon \<Rightarrow> bytes \<Rightarrow> nat \<times> nat" where
  "usa_of N buf = (unat (le_u16 buf (USA_OFFSET (mft_off N))),
                   unat (le_u16 buf (USA_COUNT (mft_off N))))"

definition fixup_ready :: "nomicon \<Rightarrow> bytes \<Rightarrow> nat \<Rightarrow> bool" where
  "fixup_ready N buf ss \<longleftrightarrow>
     (case usa_of N buf of (uo, uc) \<Rightarrow>
        HEADER_LEN \<le> length buf \<and> 2 \<le> ss \<and> 0 < uc \<and> uo + uc * 2 \<le> length buf \<and>
        (uc - 1) * ss < 2 ^ 64 \<and> (uc - 1) * ss \<le> length buf)"

lemma usa_end_no_overflow:
  "unat (x :: u16) + unat (y :: u16) * 2 < 2 ^ 64"
proof -
  have "unat x + unat y * 2 \<le> 65536 + 65536 * 2"
    using unat_u16_less [of x] unat_u16_less [of y] by linarith
  then show ?thesis by simp
qed

lemma apply_fixup_ready:
  assumes "fixup_ready N buf ss" "usa_of N buf = (uo, uc)"
  shows "apply_fixup N buf ss = fixup_loop ss uo (le_u16 buf uo) 0 (uc - 1) buf"
    and "span_ok ss uo (uc - 1) buf"
  using assms usa_end_no_overflow [of "le_u16 buf (USA_OFFSET (mft_off N))"
      "le_u16 buf (USA_COUNT (mft_off N))"]
  by (auto simp: apply_fixup_def fixup_ready_def usa_of_def Let_def span_ok_def
      usize_checked_add_def usize_checked_mul_def)

lemma apply_fixup_not_ready:
  assumes "\<not> fixup_ready N buf ss"
  shows "\<exists>e. apply_fixup N buf ss = (Err e, buf)"
  using assms usa_end_no_overflow [of "le_u16 buf (USA_OFFSET (mft_off N))"
      "le_u16 buf (USA_COUNT (mft_off N))"]
  by (auto simp: apply_fixup_def fixup_ready_def usa_of_def Let_def
      usize_checked_add_def usize_checked_mul_def not_less)

lemma apply_fixup_never_panics: "fst (apply_fixup N buf ss) \<noteq> Panic"
proof (cases "fixup_ready N buf ss")
  case True
  obtain uo uc where u: "usa_of N buf = (uo, uc)"
    by (cases "usa_of N buf")
  have "span_ok ss uo (0 + (uc - 1)) buf"
    using apply_fixup_ready(2) [OF True u] by simp
  then show ?thesis
    unfolding apply_fixup_ready(1) [OF True u] by (rule fixup_loop_no_panic)
next
  case False
  then show ?thesis
    using apply_fixup_not_ready by fastforce
qed

lemma apply_fixup_length: "length (snd (apply_fixup N buf ss)) = length buf"
proof (cases "fixup_ready N buf ss")
  case True
  obtain uo uc where u: "usa_of N buf = (uo, uc)"
    by (cases "usa_of N buf")
  show ?thesis
    unfolding apply_fixup_ready(1) [OF True u] by (rule fixup_loop_length)
next
  case False
  then show ?thesis
    using apply_fixup_not_ready by fastforce
qed

lemma apply_fixup_frame:
  assumes "\<And>j. k \<noteq> tail_pos ss j \<and> k \<noteq> tail_pos ss j + 1"
  shows "snd (apply_fixup N buf ss) ! k = buf ! k"
proof (cases "fixup_ready N buf ss")
  case True
  obtain uo uc where u: "usa_of N buf = (uo, uc)"
    by (cases "usa_of N buf")
  show ?thesis
    unfolding apply_fixup_ready(1) [OF True u]
    by (rule fixup_loop_frame) (use assms in blast)
next
  case False
  then show ?thesis
    using apply_fixup_not_ready by fastforce
qed

lemma fixup_Ok:
  assumes "fixup N buf ss = Ok b"
  shows "apply_fixup N buf ss = (Ok (), b)"
  using assms by (auto simp: fixup_def split: prod.splits res.splits)

lemma fixup_no_panic [simp]: "fixup N buf ss \<noteq> Panic"
  using apply_fixup_never_panics [of N buf ss]
  by (auto simp: fixup_def split: prod.splits res.splits)

lemma fixup_length: "fixup N buf ss = Ok b \<Longrightarrow> length b = length buf"
  using apply_fixup_length [of N buf ss] by (auto dest!: fixup_Ok)

text \<open>The bytes before the first sector tail survive: signature, header fields.\<close>

lemma fixup_prefix:
  assumes "fixup N buf ss = Ok b" "m + 2 \<le> ss"
  shows "take m b = take m buf"
proof (rule nth_equalityI)
  show "length (take m b) = length (take m buf)"
    using fixup_length [OF assms(1)] by simp
  fix k assume k: "k < length (take m b)"
  have "k \<noteq> tail_pos ss j \<and> k \<noteq> tail_pos ss j + 1" for j
  proof -
    obtain q where q: "(j + 1) * ss = ss + q"
      by simp
    show ?thesis
      unfolding tail_pos_def q using k assms(2) by auto
  qed
  from apply_fixup_frame [where k = k and N = N and buf = buf, OF this] fixup_Ok [OF assms(1)]
  show "take m b ! k = take m buf ! k"
    using k by simp
qed

section \<open>The fixup inverts the writer\<close>

text \<open>
  The on-disk form of a record: the sequence number in the first slot of the array, the
  displaced sector tails in the slots after it, and the sequence number in every tail.
\<close>

definition protect :: "nat \<Rightarrow> nat \<Rightarrow> nat \<Rightarrow> u16 \<Rightarrow> bytes \<Rightarrow> bytes" where
  "protect ss uo n usn buf =
     map (\<lambda>k. if uo \<le> k \<and> k < uo + 2 then le_bytes 2 (unat usn) ! (k - uo)
              else if uo + 2 \<le> k \<and> k < uo + 2 + 2 * n
              then buf ! (tail_pos ss ((k - uo - 2) div 2) + (k - uo) mod 2)
              else if k < n * ss \<and> ss \<le> k mod ss + 2
              then le_bytes 2 (unat usn) ! (k mod ss + 2 - ss)
              else buf ! k) [0..<length buf]"

lemma length_protect [simp]: "length (protect ss uo n usn buf) = length buf"
  by (simp add: protect_def)

lemma tail_pos_mod:
  assumes "2 \<le> ss"
  shows "tail_pos ss i mod ss = ss - 2" "(tail_pos ss i + 1) mod ss = ss - 1"
proof -
  have t: "tail_pos ss i = i * ss + (ss - 2)"
    using assms by (simp add: tail_pos_def)
  have t1: "tail_pos ss i + 1 = i * ss + (ss - 1)"
    using assms by (simp add: tail_pos_def)
  show "tail_pos ss i mod ss = ss - 2"
    unfolding t mod_mult_self3 using assms by (intro mod_less) simp
  show "(tail_pos ss i + 1) mod ss = ss - 1"
    unfolding t1 mod_mult_self3 using assms by (intro mod_less) simp
qed

lemma not_tail_pos:
  assumes "2 \<le> ss" "k mod ss + 2 < ss"
  shows "k \<noteq> tail_pos ss j \<and> k \<noteq> tail_pos ss j + 1"
  using assms tail_pos_mod [of ss j] by auto

lemma protect_nth_tail:
  assumes "uo + 2 + 2 * n \<le> k" "k < n * ss" "n * ss \<le> length buf" "ss \<le> k mod ss + 2"
  shows "protect ss uo n usn buf ! k = le_bytes 2 (unat usn) ! (k mod ss + 2 - ss)"
  using assms by (simp add: protect_def)

lemma protect_tail:
  assumes "uo + 4 + 2 * n \<le> ss" "i < n" "n * ss \<le> length buf"
  shows "tail_word (protect ss uo n usn buf) ss i = usn"
proof -
  have ss: "2 \<le> ss"
    using assms(1) by simp
  note tb = tail_pos_bound [OF ss assms(2)] and tm = tail_pos_mod [OF ss, of i]
  have low: "uo + 2 + 2 * n \<le> tail_pos ss i"
    using assms(1) by (simp add: tail_pos_def)
  have "protect ss uo n usn buf ! tail_pos ss i = le_bytes 2 (unat usn) ! 0"
    using protect_nth_tail [OF low _ assms(3)] tb tm(1) ss by simp
  moreover have "protect ss uo n usn buf ! (tail_pos ss i + 1) = le_bytes 2 (unat usn) ! 1"
    using protect_nth_tail [OF le_trans [OF low le_add1] _ assms(3), of 1] tb tm(2) ss by simp
  ultimately show ?thesis
    using from_le_bytes_2_inverse [of usn] by (simp add: tail_word_def le_bytes_2)
qed

lemma protect_slot:
  assumes "i < n" "n * ss \<le> length buf" "uo + 4 + 2 * n \<le> ss"
  shows "protect ss uo n usn buf ! (uo + 2 + 2 * i) = buf ! tail_pos ss i"
    and "protect ss uo n usn buf ! (uo + 2 + 2 * i + 1) = buf ! (tail_pos ss i + 1)"
proof -
  have "ss \<le> n * ss"
    using assms(1) by simp
  then have l: "uo + 3 + 2 * i < length buf"
    using assms by linarith
  have "(uo + 2 + 2 * i - uo - 2) div 2 = i" "(uo + 2 + 2 * i - uo) mod 2 = 0"
    by simp_all
  with l assms(1) show "protect ss uo n usn buf ! (uo + 2 + 2 * i) = buf ! tail_pos ss i"
    by (simp add: protect_def)
  have "(uo + 2 + 2 * i + 1 - uo - 2) div 2 = i" "(uo + 2 + 2 * i + 1 - uo) mod 2 = 1"
    by presburger+
  with l assms(1) show "protect ss uo n usn buf ! (uo + 2 + 2 * i + 1) = buf ! (tail_pos ss i + 1)"
    by (simp add: protect_def)
qed

lemma protect_other:
  assumes "k < length buf" "\<not> (uo \<le> k \<and> k < uo + 2 + 2 * n)"
    and "k < n * ss \<Longrightarrow> k mod ss + 2 < ss"
  shows "protect ss uo n usn buf ! k = buf ! k"
  using assms by (auto simp: protect_def)

text \<open>Where the array lies before the first tail, the loop copies it into the tails.\<close>

lemma fixup_loop_restores:
  assumes "span_ok ss uo (i + n) buf" "uo + 4 + 2 * (i + n) \<le> ss"
    and "fixup_loop ss uo usn i n buf = (Ok (), b)" "i \<le> j" "j < i + n"
  shows "b ! tail_pos ss j = buf ! (uo + 2 + 2 * j) \<and>
    b ! (tail_pos ss j + 1) = buf ! (uo + 2 + 2 * j + 1)"
  using assms
proof (induction n arbitrary: i buf)
  case 0
  then show ?case by simp
next
  case (Suc n)
  have ss: "2 \<le> ss"
    using Suc.prems by (simp add: span_ok_def)
  have ok: "tail_word buf ss i = usn"
    using fixup_sector_mismatch [OF Suc.prems(1), of i usn] Suc.prems(3) by force
  define c where "c = snd (fixup_sector ss uo usn i buf)"
  have c: "fixup_sector ss uo usn i buf = (Ok (), c)"
    using fixup_sector_match [OF Suc.prems(1) _ ok] by (simp add: c_def)
  have rest: "fixup_loop ss uo usn (i + 1) n c = (Ok (), b)"
    using Suc.prems(3) c by simp
  have lc: "length c = length buf"
    using fixup_sector_length [of ss uo usn i buf] c by simp
  have low: "ss \<le> tail_pos ss m + 2" for m
    using ss by (simp add: tail_pos_def)
  show ?case
  proof (cases "j = i")
    case True
    have "tail_pos ss i \<noteq> tail_pos ss m \<and> tail_pos ss i \<noteq> tail_pos ss m + 1 \<and>
        tail_pos ss i + 1 \<noteq> tail_pos ss m \<and> tail_pos ss i + 1 \<noteq> tail_pos ss m + 1"
      if "i + 1 \<le> m" for m
      using tail_pos_mono [OF ss, of i m] that by auto
    then have "b ! tail_pos ss i = c ! tail_pos ss i"
      "b ! (tail_pos ss i + 1) = c ! (tail_pos ss i + 1)"
      using fixup_loop_frame [of "i + 1" n _ ss uo usn c] rest by (metis snd_conv)+
    moreover have "tail_pos ss i + 1 < length buf"
      using tail_pos_bound [OF ss, of i "i + Suc n"] Suc.prems(1) by (simp add: span_ok_def)
    ultimately show ?thesis
      using True c fixup_sector_match [OF Suc.prems(1) _ ok] low [of i] Suc.prems(2)
      by (auto simp: Let_def nth_list_update mult.commute)
  next
    case False
    have "span_ok ss uo (i + 1 + n) c" "uo + 4 + 2 * (i + 1 + n) \<le> ss"
      using Suc.prems lc by (simp_all add: span_ok_def)
    from Suc.IH [OF this rest] have "b ! tail_pos ss j = c ! (uo + 2 + 2 * j) \<and>
        b ! (tail_pos ss j + 1) = c ! (uo + 2 + 2 * j + 1)"
      using False Suc.prems by simp
    moreover have "c ! m = buf ! m" if "m + 2 < ss" for m
      unfolding c_def using that low [of i] by (intro fixup_sector_frame) auto
    ultimately show ?thesis
      using Suc.prems by simp
  qed
qed

lemma protect_u16:
  assumes "off + 2 \<le> uo" "uo + 4 + 2 * n \<le> ss" "ss \<le> length buf"
  shows "le_u16 (protect ss uo n usn buf) off = le_u16 buf off"
proof -
  have "protect ss uo n usn buf ! k = buf ! k" if "k < uo" for k
    using that assms(2,3) by (intro protect_other) auto
  then have "take 2 (drop off (protect ss uo n usn buf)) = take 2 (drop off buf)"
    using assms by (intro nth_equalityI) simp_all
  then show ?thesis
    using assms by (simp add: le_u16_def get_range_def)
qed

lemma protect_usn:
  assumes "uo + 4 + 2 * n \<le> ss" "ss \<le> length buf"
  shows "le_u16 (protect ss uo n usn buf) uo = usn"
proof -
  have "take 2 (drop uo (protect ss uo n usn buf)) = le_bytes 2 (unat usn)"
    using assms by (intro nth_equalityI) (simp_all add: protect_def)
  then show ?thesis
    using assms from_le_bytes_2_inverse by (simp add: le_u16_def get_range_def)
qed

lemma tail_pos_cases:
  assumes "2 \<le> ss" "k < n * ss" "ss \<le> k mod ss + 2"
  shows "\<exists>j<n. k = tail_pos ss j \<or> k = tail_pos ss j + 1"
proof -
  have "k mod ss < ss"
    using assms(1) by simp
  then consider "k mod ss = ss - 2" | "k mod ss = ss - 1"
    using assms(3) by linarith
  moreover have "k = k div ss * ss + k mod ss"
    by simp
  ultimately have "k = tail_pos ss (k div ss) \<or> k = tail_pos ss (k div ss) + 1"
    using assms(1) by cases (auto simp: tail_pos_def)
  moreover have "k div ss < n"
    using assms by (simp add: div_less_iff_less_mult)
  ultimately show ?thesis by blast
qed

lemma fixup_loop_undoes_protect:
  assumes "fixup_loop ss uo usn 0 n (protect ss uo n usn buf) = (Ok (), b)"
    and "span_ok ss uo n buf" "uo + 4 + 2 * n \<le> ss"
    and "k < length buf" "\<not> (uo \<le> k \<and> k < uo + 2 + 2 * n)"
  shows "b ! k = buf ! k"
proof (cases "k < n * ss \<and> ss \<le> k mod ss + 2")
  case True
  have sp: "span_ok ss uo (0 + n) (protect ss uo n usn buf)"
    using assms(2) by (simp add: span_ok_def)
  from True assms(2) obtain j where j: "j < n" "k = tail_pos ss j \<or> k = tail_pos ss j + 1"
    using tail_pos_cases [of ss k n] by (auto simp: span_ok_def)
  from fixup_loop_restores [OF sp _ assms(1), of j] protect_slot [OF j(1), of ss buf uo usn] j assms(2,3)
  show ?thesis by (auto simp: span_ok_def)
next
  case False
  have ss: "2 \<le> ss"
    using assms(3) by simp
  have "k \<noteq> tail_pos ss j \<and> k \<noteq> tail_pos ss j + 1" if "j < n" for j
    using False tail_pos_bound [OF ss that] tail_pos_mod [OF ss, of j] ss by auto
  then have "b ! k = protect ss uo n usn buf ! k"
    using fixup_loop_frame [of 0 n k ss uo usn "protect ss uo n usn buf"] assms(1) by simp
  with False assms(4,5) show ?thesis
    by (subst (asm) protect_other) auto
qed

section \<open>The contract of the fixup towards its callers\<close>

text \<open>
  The index buffers, the \<open>$MFT\<close> aggregator, the \<open>$LogFile\<close> page reader and the volume
  reader all call the fixup before they interpret a buffer. They rely on three laws: it
  returns, it keeps the length, and it leaves the bytes before the first sector tail.
\<close>

locale sector_fixup =
  fixes fx :: "bytes \<Rightarrow> nat \<Rightarrow> bytes res"
  assumes fx_no_panic: "fx buf ss \<noteq> Panic"
    and fx_length: "fx buf ss = Ok b \<Longrightarrow> length b = length buf"
    and fx_prefix: "fx buf ss = Ok b \<Longrightarrow> m + 2 \<le> ss \<Longrightarrow> take m b = take m buf"
begin

lemma then_no_panic:
  assumes "\<And>b. length b = length buf \<Longrightarrow> f b \<noteq> Panic"
  shows "and_then (fx buf ss) f \<noteq> Panic"
  using assms fx_no_panic fx_length by (auto simp: and_then_Panic_iff)

lemma keeps_signature: "fx buf ss = Ok b \<Longrightarrow> 6 \<le> ss \<Longrightarrow> take 4 b = take 4 buf"
  by (rule fx_prefix) simp_all

lemma keeps_u16:
  assumes "fx buf ss = Ok b" "off + 4 \<le> ss"
  shows "le_u16 b off = le_u16 buf off"
proof -
  have p: "take (off + 2) b = take (off + 2) buf"
    using assms by (intro fx_prefix [OF assms(1)]) linarith
  have "take 2 (drop off b) = drop off (take (off + 2) b)"
    "take 2 (drop off buf) = drop off (take (off + 2) buf)"
    by (simp_all add: drop_take)
  with p fx_length [OF assms(1)] show ?thesis
    by (simp add: le_u16_def get_range_def)
qed

end

interpretation rec: sector_fixup "fixup N" for N
  by unfold_locales (auto simp: fixup_length intro: fixup_prefix)

section \<open>Properties\<close>

text \<open>
  Claim C1. The fixup inverts the NTFS writer: a record whose sector tails were displaced into
  its update sequence array and overwritten with the sequence number is accepted, and
  every byte outside the array is restored.
\<close>

theorem fixup_inverts_protect:
  assumes "HEADER_LEN \<le> length buf" "n * ss \<le> length buf" "n * ss < 2 ^ 64" "0 < n"
    and "unat (le_u16 buf (USA_OFFSET (mft_off N))) = uo"
    and "unat (le_u16 buf (USA_COUNT (mft_off N))) = n + 1"
    and "USA_OFFSET (mft_off N) + 2 \<le> uo" "USA_COUNT (mft_off N) + 2 \<le> uo"
    and "uo + 4 + 2 * n \<le> ss"
  shows "\<exists>b. fixup N (protect ss uo n usn buf) ss = Ok b \<and>
    take uo b = take uo buf \<and> drop (uo + 2 + 2 * n) b = drop (uo + 2 + 2 * n) buf"
proof -
  let ?d = "protect ss uo n usn buf"
  have sl: "ss \<le> length buf"
    using assms(2,4) by (metis le_trans mult_le_mono1 mult_1 Suc_leI One_nat_def)
  have sp: "span_ok ss uo n buf"
    using assms(2,9) sl by (simp add: span_ok_def)
  have u: "usa_of N ?d = (uo, n + 1)"
    using assms sl by (simp add: usa_of_def protect_u16)
  have "fixup_ready N ?d ss"
    using u assms sl by (simp add: fixup_ready_def)
  note loop = apply_fixup_ready [OF this u, unfolded protect_usn [OF assms(9) sl]]
  have "fst (fixup_loop ss uo usn 0 n ?d) = Ok ()"
    using loop(2) assms(2,9) by (subst fixup_loop_Ok_iff) (auto intro: protect_tail)
  then obtain b where b: "fixup_loop ss uo usn 0 n ?d = (Ok (), b)"
    by (metis prod.collapse)
  then have fx: "fixup N ?d ss = Ok b"
    using loop(1) by (simp add: fixup_def)
  have "take uo b = take uo buf \<and> drop (uo + 2 + 2 * n) b = drop (uo + 2 + 2 * n) buf"
    using fixup_length [OF fx] fixup_loop_undoes_protect [OF b sp assms(9)]
    by (auto intro!: nth_equalityI)
  with fx show ?thesis by blast
qed

definition sample_record :: bytes where
  "sample_record = [70, 73, 76, 69, 48, 0, 2, 0] @ replicate 40 7 @ replicate 14 9 @ [21, 22]"

theorem fixup_inverts_protect_witness:
  "\<exists>b. fixup ntfs_layout (protect 64 48 1 0x1234 sample_record) 64 = Ok b \<and>
     take 48 b = take 48 sample_record \<and> drop 52 b = drop 52 sample_record"
proof -
  have "HEADER_LEN \<le> length sample_record" "1 * 64 \<le> length sample_record"
    by (simp_all add: sample_record_def HEADER_LEN_def)
  moreover have "unat (le_u16 sample_record (USA_OFFSET (mft_off ntfs_layout))) = 48"
    "unat (le_u16 sample_record (USA_COUNT (mft_off ntfs_layout))) = 1 + 1"
    by (simp_all add: layout_defs sample_record_def le_u16_def get_range_def from_le_bytes_def)
  moreover have "USA_OFFSET (mft_off ntfs_layout) + 2 \<le> 48"
    "USA_COUNT (mft_off ntfs_layout) + 2 \<le> 48"
    by (simp_all add: layout_defs)
  ultimately show ?thesis
    using fixup_inverts_protect [of sample_record 1 64 ntfs_layout 48 "0x1234"] by simp
qed

text \<open>
  Claim C4. Torn writes are detected: once the array passes its bounds checks, the fixup
  succeeds exactly when every protected sector still carries the sequence number, and
  otherwise it reports the first sector that does not, with what was found there.
\<close>

theorem fixup_detects_torn_write:
  assumes "fixup_ready N buf ss" "usa_of N buf = (uo, uc)"
  shows "(fst (apply_fixup N buf ss) = Ok () \<longleftrightarrow>
      (\<forall>i < uc - 1. tail_word buf ss i = le_u16 buf uo)) \<and>
    (\<forall>e. fst (apply_fixup N buf ss) = Err e \<longrightarrow>
      (\<exists>i < uc - 1. e = FixupMismatch i (le_u16 buf uo) (tail_word buf ss i) \<and>
         tail_word buf ss i \<noteq> le_u16 buf uo \<and>
         (\<forall>k < i. tail_word buf ss k = le_u16 buf uo)))"
proof -
  note r = apply_fixup_ready [OF assms]
  have sp: "span_ok ss uo (0 + (uc - 1)) buf"
    using r(2) by simp
  show ?thesis
    unfolding r(1) using fixup_loop_Ok_iff [OF sp, of "le_u16 buf uo"] fixup_loop_Err [OF sp]
    by fastforce
qed

theorem fixup_detects_torn_write_witness:
  "fixup_ready ntfs_layout sample_record 64 \<and> usa_of ntfs_layout sample_record = (48, 2) \<and>
   fst (apply_fixup ntfs_layout sample_record 64) \<noteq> Ok ()"
proof -
  have r: "fixup_ready ntfs_layout sample_record 64" "usa_of ntfs_layout sample_record = (48, 2)"
    by (simp_all add: fixup_ready_def usa_of_def layout_defs sample_record_def le_u16_def
        get_range_def from_le_bytes_def HEADER_LEN_def)
  have "tail_word sample_record 64 0 \<noteq> le_u16 sample_record 48"
    by (simp add: tail_word_def tail_pos_def sample_record_def le_u16_def get_range_def
        from_le_bytes_def nth_append)
  with fixup_detects_torn_write [OF r] r show ?thesis by auto
qed

text \<open>
  The fixup is safe on every buffer, whatever its header claims: it never panics,
  keeps the length, and writes nothing but the last two bytes of sectors.
\<close>

theorem apply_fixup_safe:
  "fst (apply_fixup N buf ss) \<noteq> Panic \<and> length (snd (apply_fixup N buf ss)) = length buf \<and>
   {k. snd (apply_fixup N buf ss) ! k \<noteq> buf ! k} \<subseteq> {k. ss \<le> k mod ss + 2}"
proof -
  have "snd (apply_fixup N buf ss) ! k = buf ! k" if "\<not> ss \<le> k mod ss + 2" for k
  proof (cases "2 \<le> ss")
    case True
    with that show ?thesis
      by (intro apply_fixup_frame not_tail_pos) simp_all
  next
    case False
    then have "\<not> fixup_ready N buf ss"
      by (auto simp: fixup_ready_def split: prod.splits)
    then show ?thesis
      using apply_fixup_not_ready by fastforce
  qed
  then show ?thesis
    using apply_fixup_never_panics apply_fixup_length by blast
qed

end
