(* ===== verification/Filetime.thy ===== *)
theory Filetime
  imports Bytes
begin

text \<open>
  \<open>core/src/time.rs\<close>: the Windows \<open>FILETIME\<close>, 100-nanosecond ticks since 1601, and its
  conversions to Unix time. Rust's integer division truncates towards zero; \<open>i128_div\<close>
  is that division.
\<close>

datatype filetime = Filetime u64

fun ft_raw :: "filetime \<Rightarrow> u64" where
  "ft_raw (Filetime x) = x"

definition FILETIME_TO_UNIX_100NS :: int where
  "FILETIME_TO_UNIX_100NS = 116444736000000000"

definition filetime_from_le :: "bytes \<Rightarrow> filetime" where
  "filetime_from_le b = Filetime (from_le_bytes b)"

definition is_zero :: "filetime \<Rightarrow> bool" where
  "is_zero ft \<longleftrightarrow> ft_raw ft = 0"

definition i128_div :: "int \<Rightarrow> int \<Rightarrow> int" where
  "i128_div a b = sgn a * sgn b * (\<bar>a\<bar> div \<bar>b\<bar>)"

definition to_unix_seconds :: "filetime \<Rightarrow> int" where
  "to_unix_seconds ft =
     (let ticks_since_unix = uint (ft_raw ft) - FILETIME_TO_UNIX_100NS
      in i128_div ticks_since_unix 10000000)"

definition to_unix_nanos :: "filetime \<Rightarrow> int" where
  "to_unix_nanos ft = (uint (ft_raw ft) - FILETIME_TO_UNIX_100NS) * 100"

lemma i128_div_nonneg: "0 \<le> a \<Longrightarrow> 0 < b \<Longrightarrow> i128_div a b = a div b"
  by (cases "a = 0") (auto simp: i128_div_def)

lemma i128_div_neg: "a < 0 \<Longrightarrow> 0 < b \<Longrightarrow> i128_div a b = - ((- a) div b)"
  by (simp add: i128_div_def)

text \<open>
  The cast to \<open>i64\<close> at the end of \<open>to_unix_seconds\<close> loses nothing: every \<open>FILETIME\<close> is
  within the range of an \<open>i64\<close> count of seconds, so the model leaves it out.
\<close>

lemma to_unix_seconds_i64: "i64_range (to_unix_seconds ft)"
proof -
  define n where "n = uint (ft_raw ft)"
  have n: "0 \<le> n" "n < 2 ^ 64"
    using uint_lt2p [of "ft_raw ft"] by (auto simp: n_def)
  show ?thesis
  proof (cases "n < FILETIME_TO_UNIX_100NS")
    case True
    then have "to_unix_seconds ft = - ((FILETIME_TO_UNIX_100NS - n) div 10000000)"
      by (simp add: to_unix_seconds_def Let_def i128_div_neg flip: n_def)
    with n True show ?thesis
      by (simp add: i64_range_def FILETIME_TO_UNIX_100NS_def) linarith
  next
    case False
    then have "to_unix_seconds ft = (n - FILETIME_TO_UNIX_100NS) div 10000000"
      by (simp add: to_unix_seconds_def Let_def i128_div_nonneg flip: n_def)
    with n False show ?thesis
      by (simp add: i64_range_def FILETIME_TO_UNIX_100NS_def) linarith
  qed
qed

lemma to_unix_seconds_epoch [simp]:
  "to_unix_seconds (Filetime 116444736000000000) = 0"
  by (simp add: to_unix_seconds_def FILETIME_TO_UNIX_100NS_def i128_div_def)

text \<open>The raw value is never lost: the nanosecond count determines it.\<close>

lemma to_unix_nanos_inj: "to_unix_nanos a = to_unix_nanos b \<Longrightarrow> a = b"
proof -
  assume "to_unix_nanos a = to_unix_nanos b"
  then have "uint (ft_raw a) = uint (ft_raw b)"
    by (simp add: to_unix_nanos_def)
  then have "ft_raw a = ft_raw b"
    by (rule unsigned_word_eqI)
  then show ?thesis
    by (cases a; cases b) simp
qed

end
