(* ===== verification/File_Name.thy ===== *)
theory File_Name
  imports Nomicon Filetime Utf16
begin

text \<open>
  \<open>core/src/file_name.rs\<close>: the 64-bit file reference and the \<open>$FILE_NAME\<close> value.
  \<open>file_name_parse\<close> is \<open>FileName::parse\<close>; \<open>file_name_bytes\<close> is the on-disk form the parser
  inverts.
\<close>

section \<open>File references\<close>

record file_reference =
  fr_record_number :: u64
  fr_sequence :: u16

definition file_reference_from_u64 :: "u64 \<Rightarrow> file_reference" where
  "file_reference_from_u64 raw =
     \<lparr>fr_record_number = raw AND 0x0000FFFFFFFFFFFF, fr_sequence = ucast (drop_bit 48 raw)\<rparr>"

definition file_reference_raw :: "file_reference \<Rightarrow> u64" where
  "file_reference_raw r = fr_record_number r OR push_bit 48 (ucast (fr_sequence r))"

lemma mask48: "(0x0000FFFFFFFFFFFF :: u64) = mask 48"
  by (simp add: mask_eq_exp_minus_1)

lemma file_reference_record_bound:
  "unat (fr_record_number (file_reference_from_u64 raw)) < 2 ^ 48"
  by (simp add: file_reference_from_u64_def mask48 flip: take_bit_eq_mask)
     (simp add: unsigned_take_bit_eq take_bit_nat_less_exp [of 48, simplified])

text \<open>No bit of the reference is lost.\<close>

lemma file_reference_roundtrip: "file_reference_raw (file_reference_from_u64 raw) = raw"
  by (rule bit_word_eqI)
    (auto simp: file_reference_raw_def file_reference_from_u64_def mask48 bit_simps)

lemma file_reference_roundtrip':
  assumes "unat (fr_record_number r) < 2 ^ 48"
  shows "file_reference_from_u64 (file_reference_raw r) = r"
proof -
  have t: "take_bit 48 (fr_record_number r) = fr_record_number r"
    using assms by (simp add: word_unat_eq_iff unsigned_take_bit_eq take_bit_nat_eq_self)
  have hi: "n < 48" if "bit (fr_record_number r) n" for n
    using that by (subst (asm) t [symmetric]) (simp add: bit_take_bit_iff)
  have "file_reference_raw r AND 0x0000FFFFFFFFFFFF = fr_record_number r"
    by (rule bit_word_eqI) (use hi in \<open>auto simp: file_reference_raw_def mask48 bit_simps\<close>)
  moreover have "ucast (drop_bit 48 (file_reference_raw r)) = fr_sequence r"
    by (rule bit_word_eqI) (use hi in \<open>auto simp: file_reference_raw_def bit_simps\<close>)
  ultimately show ?thesis
    by (simp add: file_reference_from_u64_def)
qed

section \<open>The \<open>$FILE_NAME\<close> value\<close>

definition FN_MIN :: nat where
  "FN_MIN = 66"

record file_name =
  parent :: file_reference
  fn_created :: filetime
  fn_modified :: filetime
  fn_mft_modified :: filetime
  fn_accessed :: filetime
  fn_allocated_size :: u64
  fn_real_size :: u64
  fn_flags :: u32
  namespace :: u8
  fn_name :: ustring

definition is_dos_namespace :: "nomicon \<Rightarrow> file_name \<Rightarrow> bool" where
  "is_dos_namespace N f \<longleftrightarrow> namespace f = NS_DOS_CODE N"

definition file_name_parse :: "bytes \<Rightarrow> file_name res" where
  "file_name_parse content =
     (if length content < FN_MIN then Err (TooShort ''$FILE_NAME'' FN_MIN (length content))
      else let ft = (\<lambda>off. filetime_from_le (arr 8 content off)) in
      and_then (idx content 64) (\<lambda>nl.
      and_then (idx content 65) (\<lambda>ns.
      and_then (ok_or (usize_checked_mul (unat nl) 2)
          (BadAttribute 0 ''$FILE_NAME name length overflow'')) (\<lambda>name_bytes.
      and_then (ok_or (usize_checked_add FN_MIN name_bytes)
          (BadAttribute 0 ''$FILE_NAME name overflow'')) (\<lambda>name_end.
      if name_end > length content
      then Err (BadAttribute 0 ''$FILE_NAME name extends past content'')
      else and_then (slice content FN_MIN name_end) (\<lambda>raw.
      Ok \<lparr>parent = file_reference_from_u64 (le_u64 content 0),
          fn_created = ft 8, fn_modified = ft 16, fn_mft_modified = ft 24,
          fn_accessed = ft 32,
          fn_allocated_size = le_u64 content 40, fn_real_size = le_u64 content 48,
          fn_flags = le_u32 content 56, namespace = ns,
          fn_name = decode_utf16_lossy (u16_units raw)\<rparr>))))))"

lemma file_name_parse_no_panic [simp]: "file_name_parse content \<noteq> Panic"
  by (auto simp: file_name_parse_def Let_def FN_MIN_def res_inversions checked_simps
      split: if_splits)

text \<open>The exact domain of the parser.\<close>

lemma file_name_parse_Ok_iff:
  "(\<exists>f. file_name_parse content = Ok f) \<longleftrightarrow>
   66 \<le> length content \<and> 66 + 2 * unat (content ! 64) \<le> length content"
proof -
  have "unat (content ! 64) * 2 < 2 ^ 64"
    using unat_u8_less [of "content ! 64"] by (intro lt_2p64) linarith
  moreover have "66 + unat (content ! 64) * 2 < 2 ^ 64"
    using unat_u8_less [of "content ! 64"] by (intro lt_2p64) linarith
  ultimately show ?thesis
    by (auto simp: file_name_parse_def Let_def FN_MIN_def res_inversions usize_checked_mul_def
        usize_checked_add_def not_less)
qed

lemma file_name_parse_name:
  "file_name_parse content = Ok f \<Longrightarrow>
   fn_name f = decode_utf16_lossy (u16_units (take (2 * unat (content ! 64)) (drop 66 content)))"
  by (auto simp: file_name_parse_def Let_def FN_MIN_def res_inversions checked_simps mult.commute
      split: if_splits)

lemma file_name_parse_name_scalar:
  "file_name_parse content = Ok f \<Longrightarrow> c \<in> set (fn_name f) \<Longrightarrow> scalar c"
  by (auto dest!: file_name_parse_name decode_utf16_scalar)

section \<open>The on-disk form\<close>

text \<open>What a writer stores; the four bytes after the flags (\<open>ea\<close>) are not interpreted.\<close>

definition file_name_bytes :: "bytes \<Rightarrow> file_name \<Rightarrow> bytes" where
  "file_name_bytes ea f =
     le_bytes 8 (unat (file_reference_raw (parent f))) @
     le_bytes 8 (unat (ft_raw (fn_created f))) @ le_bytes 8 (unat (ft_raw (fn_modified f))) @
     le_bytes 8 (unat (ft_raw (fn_mft_modified f))) @ le_bytes 8 (unat (ft_raw (fn_accessed f))) @
     le_bytes 8 (unat (fn_allocated_size f)) @ le_bytes 8 (unat (fn_real_size f)) @
     le_bytes 4 (unat (fn_flags f)) @ ea @
     [word_of_nat (length (encode_utf16 (fn_name f))), namespace f] @
     concat (map (\<lambda>u. le_bytes 2 (unat u)) (encode_utf16 (fn_name f)))"

definition file_name_ok :: "file_name \<Rightarrow> bool" where
  "file_name_ok f \<longleftrightarrow> unat (fr_record_number (parent f)) < 2 ^ 48 \<and>
     list_all scalar (fn_name f) \<and> length (encode_utf16 (fn_name f)) < 256"

lemma length_units_bytes: "length (concat (map (\<lambda>u. le_bytes 2 (unat u)) us)) = 2 * length us"
  by (induction us) simp_all

lemma from_le_bytes_le_bytes8: "from_le_bytes (le_bytes 8 (unat v)) = (v :: u64)"
  by (simp add: from_le_bytes_def le_nat_le_bytes)

lemma from_le_bytes_le_bytes4: "from_le_bytes (le_bytes 4 (unat v)) = (v :: u32)"
  by (simp add: from_le_bytes_def le_nat_le_bytes)

lemma filetime_from_le_bytes: "filetime_from_le (le_bytes 8 (unat (ft_raw ft))) = ft"
  by (cases ft) (simp add: filetime_from_le_def from_le_bytes_le_bytes8)

lemma file_name_parse_bytes:
  assumes "file_name_ok f" "length ea = 4"
  shows "file_name_parse (file_name_bytes ea f @ post) = Ok f"
proof -
  let ?us = "encode_utf16 (fn_name f)"
  let ?u = "concat (map (\<lambda>u. le_bytes 2 (unat u)) ?us)"
  let ?c = "file_name_bytes ea f @ post"
  have nl: "unat (word_of_nat (length ?us) :: u8) = length ?us"
    using assms(1) by (intro unat_u8_of_nat) (simp add: file_name_ok_def)
  have len: "length ?c = 66 + 2 * length ?us + length post"
    by (simp add: file_name_bytes_def assms(2) length_units_bytes)
  have hd: "?c ! 64 = word_of_nat (length ?us)" "?c ! 65 = namespace f"
    by (simp_all add: file_name_bytes_def assms(2) nth_append)
  have u: "take (2 * length ?us) (drop 66 ?c) = ?u"
    by (simp add: file_name_bytes_def assms(2) length_units_bytes)
  have w: "arr 8 ?c 8 = le_bytes 8 (unat (ft_raw (fn_created f)))"
    "arr 8 ?c 16 = le_bytes 8 (unat (ft_raw (fn_modified f)))"
    "arr 8 ?c 24 = le_bytes 8 (unat (ft_raw (fn_mft_modified f)))"
    "arr 8 ?c 32 = le_bytes 8 (unat (ft_raw (fn_accessed f)))"
    by (simp_all add: arr_def get_range_def file_name_bytes_def assms(2))
  have r: "le_u64 ?c 0 = file_reference_raw (parent f)"
    "le_u64 ?c 40 = fn_allocated_size f" "le_u64 ?c 48 = fn_real_size f" "le_u32 ?c 56 = fn_flags f"
    by (simp_all add: le_read_defs get_range_def file_name_bytes_def assms(2)
        from_le_bytes_le_bytes8 from_le_bytes_le_bytes4)
  have tail: "drop 66 (file_name_bytes ea f) = ?u"
    by (simp add: file_name_bytes_def assms(2))
  have lt: "length ?us * 2 < 2 ^ 64" "66 + length ?us * 2 < 2 ^ 64"
    using assms(1) by (auto simp: file_name_ok_def)
  have dec: "decode_utf16_lossy ?us = fn_name f"
    using assms(1) by (intro decode_encode_utf16) (auto simp: file_name_ok_def list_all_iff)
  have sl: "slice ?c FN_MIN (66 + length ?us * 2) = Ok ?u"
    using len u by (simp add: FN_MIN_def mult.commute length_units_bytes)
  have pr: "file_reference_from_u64 (file_reference_raw (parent f)) = parent f"
    using assms(1) by (intro file_reference_roundtrip') (simp add: file_name_ok_def)
  show ?thesis
    unfolding file_name_parse_def Let_def
    using len lt by (simp add: hd nl w r sl tail FN_MIN_def usize_checked_mul_def usize_checked_add_def
        filetime_from_le_bytes pr u16_units_le_bytes dec length_units_bytes mult.commute [of _ 2]
        cong: and_then_weak_cong)
qed

end
