(* ===== verification/Index.thy ===== *)
theory Index
  imports Entry_Walk Mft_Record File_Name
begin

text \<open>
  \<open>core/src/index.rs\<close>: the nodes of a directory B-tree, \<open>$INDEX_ROOT\<close> and the \<open>INDX\<close>
  buffers. The entry loop is an instance of \<open>bounded_walk\<close>; \<open>index_node_bytes\<close> writes the
  entries of a node, and the parser is its left inverse.
\<close>

section \<open>Definitions\<close>

definition IH_FLAG_LARGE :: u32 where
  "IH_FLAG_LARGE = 0x01"

definition INDEX_HEADER_LEN :: nat where
  "INDEX_HEADER_LEN = 0x10"

definition IE_FLAG_SUBNODE :: u8 where
  "IE_FLAG_SUBNODE = 0x01"

definition IE_FLAG_LAST :: u8 where
  "IE_FLAG_LAST = 0x02"

definition IE_ENTRY_MIN :: nat where
  "IE_ENTRY_MIN = 0x10"

definition ROOT_HEADER_LEN :: nat where
  "ROOT_HEADER_LEN = 0x10"

definition INDX_HEADER_LEN :: nat where
  "INDX_HEADER_LEN = 0x18"

definition IX_MAX_ENTRIES :: nat where
  "IX_MAX_ENTRIES = 2 ^ 20"

record index_entry =
  ie_file_reference :: file_reference
  ie_file_name :: "file_name option"
  child_vcn :: "u64 option"

record index_root =
  indexed_type :: u32
  is_large :: bool
  root_entries :: "index_entry list"

text \<open>The body of the loop of \<open>parse_entries\<close>, with its two optional parts.\<close>

definition entry_child_vcn :: "bytes \<Rightarrow> nat \<Rightarrow> nat \<Rightarrow> u8 \<Rightarrow> u64 option res" where
  "entry_child_vcn node pos entry_end flags =
     (if flags AND IE_FLAG_SUBNODE \<noteq> 0 then
        if entry_end < pos + IE_ENTRY_MIN + 8
        then Err (BadIndex ''sub-node VCN does not fit in entry'')
        else Ok (Some (le_u64 node (entry_end - 8)))
      else Ok None)"

definition entry_file_name :: "bytes \<Rightarrow> nat \<Rightarrow> nat \<Rightarrow> bool \<Rightarrow> file_name option res" where
  "entry_file_name node pos entry_end is_last =
     (if is_last then Ok None
      else let stream_length = unat (le_u16 node (pos + 0x0A)); s_start = pos + 0x10 in
      and_then (ok_or (usize_checked_add s_start stream_length)
          (BadIndex ''stream length overflow'')) (\<lambda>s_end.
      if s_end > entry_end then Err (BadIndex ''stream extends past entry'')
      else and_then (slice node s_start s_end) (\<lambda>s.
           and_then (file_name_parse s) (\<lambda>f. Ok (Some f)))))"

definition index_step :: "bytes \<Rightarrow> nat \<Rightarrow> nat \<Rightarrow> index_entry walk_step res" where
  "index_step node stop pos =
     (if pos + IE_ENTRY_MIN > stop then Ok Stop
      else let entry_length = unat (le_u16 node (pos + 0x08)) in
      if entry_length < IE_ENTRY_MIN then Err (BadIndex ''entry length below minimum'')
      else and_then (ok_or (usize_checked_add pos entry_length)
          (BadIndex ''entry length overflow'')) (\<lambda>entry_end.
      if entry_end > stop then Err (BadIndex ''entry extends past node'')
      else and_then (idx node (pos + 0x0C)) (\<lambda>flags.
      let is_last = (flags AND IE_FLAG_LAST \<noteq> 0);
          fref = file_reference_from_u64 (le_u64 node (pos + 0x00)) in
      and_then (entry_child_vcn node pos entry_end flags) (\<lambda>vcn.
      and_then (entry_file_name node pos entry_end is_last) (\<lambda>fname.
      let e = \<lparr>ie_file_reference = fref, ie_file_name = fname, child_vcn = vcn\<rparr> in
      Ok (if is_last then Last e else Continue e entry_end))))))"

definition parse_entries :: "bytes \<Rightarrow> nat \<Rightarrow> nat \<Rightarrow> index_entry list res" where
  "parse_entries node start stop =
     (if stop > length node \<or> start > stop then Err (BadIndex ''entry region out of bounds'')
      else walk (index_step node stop) IX_MAX_ENTRIES start)"

definition parse_index_header :: "bytes \<Rightarrow> nat \<Rightarrow> (index_entry list \<times> bool) res" where
  "parse_index_header node base =
     and_then (ok_or (usize_checked_add base INDEX_HEADER_LEN) (BadIndex ''index header overflow'')) (\<lambda>header_end.
     if header_end > length node then Err (BadIndex ''index header past buffer'')
     else let u32at = (\<lambda>off. le_u32 node (base + off));
              first_entry = unat (u32at 0x00);
              total_size = unat (u32at 0x04);
              large = (u32at 0x0C AND IH_FLAG_LARGE \<noteq> 0) in
     and_then (ok_or (usize_checked_add base first_entry) (BadIndex ''first-entry offset overflow'')) (\<lambda>start.
     and_then (ok_or (usize_checked_add base total_size) (BadIndex ''total-size overflow'')) (\<lambda>stop.
     if start < header_end \<or> stop > length node \<or> start > stop
     then Err (BadIndex ''index entry region out of bounds'')
     else and_then (parse_entries node start stop) (\<lambda>es. Ok (es, large)))))"

definition index_root_parse :: "bytes \<Rightarrow> index_root res" where
  "index_root_parse content =
     (if length content < ROOT_HEADER_LEN + INDEX_HEADER_LEN
      then Err (TooShort ''$INDEX_ROOT'' (ROOT_HEADER_LEN + INDEX_HEADER_LEN) (length content))
      else and_then (parse_index_header content ROOT_HEADER_LEN) (\<lambda>(es, large).
      Ok \<lparr>indexed_type = le_u32 content 0, is_large = large, root_entries = es\<rparr>))"

text \<open>
  The buffer is fixed up in place, so the result carries it; bytes past
  \<open>index_record_size\<close> are not touched.
\<close>

definition parse_index_buffer :: "nomicon \<Rightarrow> bytes \<Rightarrow> nat \<Rightarrow> nat \<Rightarrow> index_entry list res \<times> bytes" where
  "parse_index_buffer N buffer index_record_size sector_size =
     (if length buffer < index_record_size \<or> index_record_size < INDX_HEADER_LEN + INDEX_HEADER_LEN
      then (Err (TooShort ''INDX buffer''
              (max index_record_size (INDX_HEADER_LEN + INDEX_HEADER_LEN)) (length buffer)), buffer)
      else let buf = take index_record_size buffer; rest = drop index_record_size buffer in
      if take 4 buf \<noteq> SIGNATURE_INDX N then (Err (BadIndex ''INDX signature missing''), buffer)
      else case apply_fixup N buf sector_size of
        (Ok _, buf') \<Rightarrow>
          (and_then (parse_index_header buf' INDX_HEADER_LEN) (\<lambda>(es, _). Ok es), buf' @ rest)
      | (Err e, buf') \<Rightarrow> (Err e, buf' @ rest)
      | (Panic, buf') \<Rightarrow> (Panic, buf' @ rest))"

lemmas index_consts =
  IH_FLAG_LARGE_def INDEX_HEADER_LEN_def IE_FLAG_SUBNODE_def IE_FLAG_LAST_def IE_ENTRY_MIN_def
  ROOT_HEADER_LEN_def INDX_HEADER_LEN_def

section \<open>The entry loop is a bounded walk\<close>

lemma entry_child_vcn_no_panic [simp]: "entry_child_vcn node pos stop flags \<noteq> Panic"
  by (simp add: entry_child_vcn_def)

lemma entry_file_name_no_panic:
  "entry_end \<le> length node \<Longrightarrow> entry_file_name node pos entry_end l \<noteq> Panic"
  by (auto simp: entry_file_name_def Let_def res_inversions checked_simps split: if_splits)

lemma index_step_no_panic: "stop \<le> length node \<Longrightarrow> index_step node stop pos \<noteq> Panic"
  using entry_file_name_no_panic [of _ node pos]
  by (auto simp: index_step_def Let_def index_consts res_inversions checked_simps split: if_splits)

lemma index_step_Continue:
  "index_step node stop pos = Ok (Continue e pos') \<Longrightarrow> pos + 16 \<le> pos' \<and> pos' \<le> stop"
  by (auto simp: index_step_def Let_def index_consts res_inversions checked_simps split: if_splits)

lemma index_step_Last: "index_step node stop pos = Ok (Last e) \<Longrightarrow> pos + 16 \<le> stop"
  by (auto simp: index_step_def Let_def index_consts res_inversions checked_simps split: if_splits)

text \<open>The limit is cut to the buffer, which \<open>parse_entries\<close> checks before the loop.\<close>

interpretation index: bounded_walk "index_step node (min stop (length node))" "min stop (length node)" 16
  for node stop
proof
  show "index_step node (min stop (length node)) pos \<noteq> Panic" for pos
    by (rule index_step_no_panic) simp
qed (auto dest: index_step_Continue index_step_Last)

lemma parse_entries_walk:
  "stop \<le> length node \<Longrightarrow> start \<le> stop \<Longrightarrow>
   parse_entries node start stop = walk (index_step node (min stop (length node))) IX_MAX_ENTRIES start"
  by (simp add: parse_entries_def min_absorb1)

lemma parse_entries_no_panic [simp]: "parse_entries node start stop \<noteq> Panic"
proof (cases "stop \<le> length node \<and> start \<le> stop")
  case True
  then show ?thesis
    using index.walk_no_panic [of node stop] by (simp add: parse_entries_walk)
qed (auto simp: parse_entries_def)

lemma parse_entries_count:
  assumes "parse_entries node start stop = Ok es"
  shows "16 * length es \<le> stop - start"
proof -
  have "stop \<le> length node" "start \<le> stop"
    using assms by (auto simp: parse_entries_def split: if_splits)
  then show ?thesis
    using assms index.walk_count [of node stop IX_MAX_ENTRIES start es]
    by (cases "es = []") (auto simp: parse_entries_walk)
qed

lemma parse_index_header_no_panic [simp]: "parse_index_header node base \<noteq> Panic"
  by (auto simp: parse_index_header_def Let_def res_inversions split: if_splits)

lemma index_root_parse_no_panic [simp]: "index_root_parse content \<noteq> Panic"
  by (auto simp: index_root_parse_def res_inversions split: if_splits)

lemma parse_index_buffer_no_panic [simp]: "fst (parse_index_buffer N buffer irs ss) \<noteq> Panic"
  using apply_fixup_never_panics [of N "take irs buffer" ss]
  by (auto simp: parse_index_buffer_def Let_def res_inversions split: if_splits prod.splits res.splits)

lemma parse_index_buffer_length:
  "length (snd (parse_index_buffer N buffer irs ss)) = length buffer"
  using apply_fixup_length [of N "take irs buffer" ss]
  by (auto simp: parse_index_buffer_def Let_def split: if_splits prod.splits res.splits)

section \<open>The on-disk form of a node\<close>

text \<open>
  A directory entry as a writer lays it out: header, the \<open>$FILE_NAME\<close> stream, padding,
  and the child's cluster number in the last eight bytes when there is one. The last
  entry carries no stream.
\<close>

definition entry_flags :: "bool \<Rightarrow> u64 option \<Rightarrow> u8" where
  "entry_flags is_last vcn =
     (if is_last then IE_FLAG_LAST else 0) OR (if vcn = None then 0 else IE_FLAG_SUBNODE)"

definition vcn_bytes :: "u64 option \<Rightarrow> bytes" where
  "vcn_bytes v = (case v of None \<Rightarrow> [] | Some w \<Rightarrow> le_bytes 8 (unat w))"

definition entry_bytes :: "bytes \<Rightarrow> bytes \<Rightarrow> index_entry \<Rightarrow> bytes" where
  "entry_bytes ea pad e =
     (let stream = (case ie_file_name e of None \<Rightarrow> [] | Some f \<Rightarrow> file_name_bytes ea f);
          body = stream @ pad @ vcn_bytes (child_vcn e) in
      le_bytes 8 (unat (file_reference_raw (ie_file_reference e))) @
      le_bytes 2 (16 + length body) @ le_bytes 2 (length stream) @
      [entry_flags (ie_file_name e = None) (child_vcn e), 0, 0, 0] @ body)"

definition entry_ok :: "bytes \<Rightarrow> bytes \<Rightarrow> index_entry \<Rightarrow> bool" where
  "entry_ok ea pad e \<longleftrightarrow> length ea = 4 \<and>
     unat (fr_record_number (ie_file_reference e)) < 2 ^ 48 \<and> length (entry_bytes ea pad e) < 65536 \<and>
     (case ie_file_name e of None \<Rightarrow> True | Some f \<Rightarrow> file_name_ok f)"

lemma length_vcn_bytes: "length (vcn_bytes v) = (case v of None \<Rightarrow> 0 | Some _ \<Rightarrow> 8)"
  by (simp add: vcn_bytes_def split: option.splits)

lemma length_entry_bytes:
  "length (entry_bytes ea pad e) =
     16 + (case ie_file_name e of None \<Rightarrow> 0 | Some f \<Rightarrow> length (file_name_bytes ea f)) +
     length pad + length (vcn_bytes (child_vcn e))"
  by (simp add: entry_bytes_def Let_def split: option.splits)

lemma entry_flags_last: "entry_flags l v AND IE_FLAG_LAST \<noteq> 0 \<longleftrightarrow> l"
  by (simp add: entry_flags_def IE_FLAG_LAST_def IE_FLAG_SUBNODE_def)

lemma entry_flags_subnode: "entry_flags l v AND IE_FLAG_SUBNODE \<noteq> 0 \<longleftrightarrow> v \<noteq> None"
  by (simp add: entry_flags_def IE_FLAG_LAST_def IE_FLAG_SUBNODE_def)

lemma from_le_bytes_u16: "n < 65536 \<Longrightarrow> from_le_bytes (le_bytes 2 n) = (word_of_nat n :: u16)"
  by (simp add: from_le_bytes_def le_nat_le_bytes)

lemma entry_fields:
  fixes pre post :: bytes
  assumes "entry_ok ea pad e"
  defines "d \<equiv> pre @ entry_bytes ea pad e @ post"
  shows "le_u64 d (length pre) = file_reference_raw (ie_file_reference e)"
    and "unat (le_u16 d (length pre + 8)) = length (entry_bytes ea pad e)"
    and "unat (le_u16 d (length pre + 10)) =
      (case ie_file_name e of None \<Rightarrow> 0 | Some f \<Rightarrow> length (file_name_bytes ea f))"
    and "d ! (length pre + 12) = entry_flags (ie_file_name e = None) (child_vcn e)"
    and "drop (length pre + 16) d =
      (case ie_file_name e of None \<Rightarrow> [] | Some f \<Rightarrow> file_name_bytes ea f) @ pad @
      vcn_bytes (child_vcn e) @ post"
proof -
  show "le_u64 d (length pre) = file_reference_raw (ie_file_reference e)"
    by (simp add: d_def entry_bytes_def Let_def le_u64_def get_range_def from_le_bytes_le_bytes8)
  show "unat (le_u16 d (length pre + 8)) = length (entry_bytes ea pad e)"
    using assms(1)
    by (simp add: d_def entry_ok_def entry_bytes_def Let_def le_u16_def get_range_def
        from_le_bytes_def le_nat_le_bytes unat_of_nat del: of_nat_add)
  show "unat (le_u16 d (length pre + 10)) =
      (case ie_file_name e of None \<Rightarrow> 0 | Some f \<Rightarrow> length (file_name_bytes ea f))"
    using assms(1)
    by (simp add: d_def entry_ok_def entry_bytes_def Let_def le_u16_def get_range_def
        from_le_bytes_def le_nat_le_bytes unat_of_nat split: option.splits)
  show "d ! (length pre + 12) = entry_flags (ie_file_name e = None) (child_vcn e)"
    by (simp add: d_def entry_bytes_def Let_def nth_append)
  show "drop (length pre + 16) d =
      (case ie_file_name e of None \<Rightarrow> [] | Some f \<Rightarrow> file_name_bytes ea f) @ pad @
      vcn_bytes (child_vcn e) @ post"
    by (simp add: d_def entry_bytes_def Let_def)
qed

lemma entry_child_vcn_encoded:
  fixes pre post :: bytes
  assumes "entry_ok ea pad e"
  shows "entry_child_vcn (pre @ entry_bytes ea pad e @ post) (length pre)
      (length pre + length (entry_bytes ea pad e)) (entry_flags l (child_vcn e)) = Ok (child_vcn e)"
proof (cases "child_vcn e")
  case None
  then show ?thesis
    using entry_flags_subnode [of l "child_vcn e"] by (simp add: entry_child_vcn_def)
next
  case (Some w)
  define q where "q = length (entry_bytes ea pad e) - 8"
  have q: "length (entry_bytes ea pad e) = q + 8" "16 \<le> q"
    using Some by (auto simp: q_def length_entry_bytes length_vcn_bytes)
  have d4: "drop (4 + n) (a # b # c # d # xs) = drop n xs" for n and a b c d :: u8 and xs
    by (simp add: numeral_eq_Suc)
  have "drop q (entry_bytes ea pad e) = le_bytes 8 (unat w)"
    using Some unfolding q_def
    by (simp add: length_entry_bytes length_vcn_bytes entry_bytes_def vcn_bytes_def Let_def
        d4 split: option.splits)
  then have "le_u64 (pre @ entry_bytes ea pad e @ post) (length pre + q) = w"
    using q by (simp add: le_u64_def get_range_def from_le_bytes_le_bytes8)
  with q Some show ?thesis
    using entry_flags_subnode [of l "child_vcn e"]
    by (simp add: entry_child_vcn_def index_consts)
qed

lemma entry_file_name_encoded:
  fixes pre post :: bytes
  assumes "entry_ok ea pad e" "length (pre @ entry_bytes ea pad e @ post) < 2 ^ 64"
  shows "entry_file_name (pre @ entry_bytes ea pad e @ post) (length pre)
      (length pre + length (entry_bytes ea pad e)) (ie_file_name e = None) = Ok (ie_file_name e)"
proof (cases "ie_file_name e")
  case None
  then show ?thesis by (simp add: entry_file_name_def)
next
  case (Some f)
  let ?d = "pre @ entry_bytes ea pad e @ post"
  let ?n = "length (file_name_bytes ea f)"
  have fits: "length pre + 16 + ?n \<le> length pre + length (entry_bytes ea pad e)"
    using Some by (simp add: length_entry_bytes)
  have "take ?n (drop (length pre + 16) ?d) = file_name_bytes ea f"
    using Some by (simp only: entry_fields(5) [OF assms(1)]) simp
  then have "slice ?d (length pre + 16) (length pre + 16 + ?n) = Ok (file_name_bytes ea f)"
    using fits by (subst slice_in) auto
  moreover have "file_name_parse (file_name_bytes ea f) = Ok f"
    using file_name_parse_bytes [of f ea "[]"] assms(1) Some by (simp add: entry_ok_def)
  moreover have "usize_checked_add (length pre + 16) ?n = Some (length pre + 16 + ?n)"
    using fits assms(2) by (auto simp: usize_checked_add_def)
  ultimately show ?thesis
    using fits Some entry_fields(3) [OF assms(1), of pre post]
    by (simp add: entry_file_name_def del: append_assoc)
qed

lemma index_step_encoded:
  fixes pre post :: bytes
  assumes "entry_ok ea pad e" "length (pre @ entry_bytes ea pad e @ post) < 2 ^ 64"
    and "length pre + length (entry_bytes ea pad e) \<le> stop"
  shows "index_step (pre @ entry_bytes ea pad e @ post) stop (length pre) =
    Ok (if ie_file_name e = None then Last e
        else Continue e (length pre + length (entry_bytes ea pad e)))"
proof -
  let ?d = "pre @ entry_bytes ea pad e @ post"
  let ?stop = "length pre + length (entry_bytes ea pad e)"
  have len: "16 \<le> length (entry_bytes ea pad e)"
    by (simp add: length_entry_bytes)
  have add: "usize_checked_add (length pre) (length (entry_bytes ea pad e)) = Some ?stop"
    using assms(2) by (simp add: usize_checked_add_def)
  have fr: "file_reference_from_u64 (file_reference_raw (ie_file_reference e)) = ie_file_reference e"
    using assms(1) by (intro file_reference_roundtrip') (simp add: entry_ok_def)
  have fl: "idx ?d (length pre + 12) = Ok (entry_flags (ie_file_name e = None) (child_vcn e))"
    using len entry_fields(4) [OF assms(1), of pre post] by (simp add: idx_def)
  show ?thesis
    unfolding index_step_def Let_def
    using assms(3) len
    by (simp add: entry_fields(1,2) [OF assms(1)] add fl fr index_consts(5)
        entry_child_vcn_encoded [OF assms(1)] entry_file_name_encoded [OF assms(1,2)]
        entry_flags_last cong: and_then_weak_cong)
qed

text \<open>A node: entries with a name, then the one without.\<close>

fun node_bytes :: "(bytes \<times> bytes \<times> index_entry) list \<Rightarrow> bytes" where
  "node_bytes [] = []"
| "node_bytes ((ea, pad, e) # es) = entry_bytes ea pad e @ node_bytes es"

fun node_ok :: "(bytes \<times> bytes \<times> index_entry) list \<Rightarrow> bool" where
  "node_ok [] = False"
| "node_ok [(ea, pad, e)] \<longleftrightarrow> entry_ok ea pad e \<and> ie_file_name e = None"
| "node_ok ((ea, pad, e) # es) \<longleftrightarrow> entry_ok ea pad e \<and> ie_file_name e \<noteq> None \<and> node_ok es"

lemma walk_node:
  assumes "node_ok es" "length es \<le> n" "length (pre @ node_bytes es @ post) < 2 ^ 64"
    and "length pre + length (node_bytes es) \<le> stop"
  shows "walk (index_step (pre @ node_bytes es @ post) stop) n (length pre) =
    Ok (map (\<lambda>(_, _, e). e) es)"
  using assms
proof (induction es arbitrary: n pre rule: node_ok.induct)
  case 1
  then show ?case by simp
next
  case (2 ea pad e)
  then obtain m where "n = Suc m"
    by (cases n) auto
  with 2 show ?case
    using index_step_encoded [of ea pad e pre post stop] by simp
next
  case (3 ea pad e e' es)
  then obtain m where n: "n = Suc m" "length (e' # es) \<le> m"
    by (cases n) auto
  let ?b = "entry_bytes ea pad e" and ?r = "node_bytes (e' # es)"
  have "walk (index_step ((pre @ ?b) @ ?r @ post) stop) m (length (pre @ ?b)) =
      Ok (map (\<lambda>(_, _, e). e) (e' # es))"
    using "3.prems" n by (intro "3.IH") auto
  moreover have "index_step (pre @ ?b @ (?r @ post)) stop (length pre) =
      Ok (Continue e (length pre + length ?b))"
    using "3.prems" by (subst index_step_encoded) auto
  ultimately show ?case
    unfolding n(1) by (simp del: node_bytes.simps(2) add: node_bytes.simps(2) [of ea pad e])
qed

section \<open>Properties\<close>

definition sample_fn :: file_name where
  "sample_fn = \<lparr>parent = \<lparr>fr_record_number = 5, fr_sequence = 5\<rparr>, fn_created = Filetime 1,
     fn_modified = Filetime 2, fn_mft_modified = Filetime 3, fn_accessed = Filetime 4,
     fn_allocated_size = 0, fn_real_size = 0, fn_flags = 0, namespace = 1, fn_name = [97]\<rparr>"

definition sample_node :: "(bytes \<times> bytes \<times> index_entry) list" where
  "sample_node =
     [([0, 0, 0, 0], [0, 0, 0, 0],
       \<lparr>ie_file_reference = \<lparr>fr_record_number = 30, fr_sequence = 1\<rparr>,
        ie_file_name = Some sample_fn, child_vcn = Some 3\<rparr>),
      ([0, 0, 0, 0], [],
       \<lparr>ie_file_reference = \<lparr>fr_record_number = 0, fr_sequence = 0\<rparr>,
        ie_file_name = None, child_vcn = Some 4\<rparr>)]"

text \<open>
  Claim C5. Reading a directory node inverts writing it: for every list of entries ending in
  the nameless last entry, with any padding and with or without child pointers, the parser
  returns exactly those entries, wherever the node lies in the buffer.
\<close>

theorem parse_entries_node:
  assumes "node_ok es" "length es \<le> IX_MAX_ENTRIES" "length (pre @ node_bytes es @ post) < 2 ^ 64"
  shows "parse_entries (pre @ node_bytes es @ post) (length pre) (length pre + length (node_bytes es)) =
    Ok (map (\<lambda>(_, _, e). e) es)"
  using walk_node [OF assms, of "length pre + length (node_bytes es)"] by (simp add: parse_entries_def)

lemma sample_fn_ok: "file_name_ok sample_fn" "length (file_name_bytes [0, 0, 0, 0] sample_fn) = 68"
  by (simp_all add: sample_fn_def file_name_ok_def scalar_def encode_utf16_def encode_char_def
      file_name_bytes_def)

theorem parse_entries_node_witness:
  "parse_entries (node_bytes sample_node) 0 (length (node_bytes sample_node)) =
    Ok (map (\<lambda>(_, _, e). e) sample_node)"
proof -
  have "node_ok sample_node" "length (node_bytes sample_node) < 2 ^ 64"
    by (simp_all add: sample_node_def entry_ok_def length_entry_bytes sample_fn_ok vcn_bytes_def)
  then show ?thesis
    using parse_entries_node [of sample_node "[]" "[]"]
    by (simp add: sample_node_def IX_MAX_ENTRIES_def)
qed

text \<open>
  Index parsing is safe on every input: neither the root nor an \<open>INDX\<close> buffer can
  make it panic, the buffer keeps its length, and a root of \<open>n\<close> bytes yields at most
  \<open>n div 16\<close> entries.
\<close>

theorem index_parse_safe:
  "index_root_parse content \<noteq> Panic \<and> fst (parse_index_buffer N buffer irs ss) \<noteq> Panic \<and>
   length (snd (parse_index_buffer N buffer irs ss)) = length buffer \<and>
   (case index_root_parse content of
      Ok r \<Rightarrow> 16 * length (root_entries r) \<le> length content | _ \<Rightarrow> True)"
proof -
  have "16 * length (root_entries r) \<le> length content" if "index_root_parse content = Ok r" for r
    using that by (auto simp: index_root_parse_def parse_index_header_def Let_def res_inversions
        checked_simps split: if_splits dest!: parse_entries_count)
  then show ?thesis
    by (simp add: parse_index_buffer_length split: res.splits)
qed

end
