(* ===== verification/Attribute_List.thy ===== *)
theory Attribute_List
  imports Entry_Walk File_Name
begin

text \<open>
  \<open>core/src/attribute_list.rs\<close>: the entries of an \<open>$ATTRIBUTE_LIST\<close> value. The body of the
  loop is \<open>attr_list_step\<close>; the loop itself is an instance of \<open>bounded_walk\<close>.
\<close>

section \<open>Definitions\<close>

definition AL_ENTRY_MIN :: nat where
  "AL_ENTRY_MIN = 0x1A"

definition AL_MAX_ENTRIES :: nat where
  "AL_MAX_ENTRIES = 2 ^ 20"

record attribute_list_entry =
  ale_type_code :: u32
  ale_start_vcn :: u64
  base_reference :: file_reference
  ale_attribute_id :: u16
  ale_name :: "ustring option"

definition attr_list_name :: "bytes \<Rightarrow> nat \<Rightarrow> nat \<Rightarrow> nat \<Rightarrow> nat \<Rightarrow> ustring option res" where
  "attr_list_name content pos entry_end name_length name_offset =
     (if name_length = 0 then Ok None
      else and_then (ok_or (usize_checked_add pos name_offset)
          (BadAttributeList ''name offset overflow'')) (\<lambda>n_start.
      and_then (ok_or (usize_checked_add n_start (name_length * 2))
          (BadAttributeList ''name length overflow'')) (\<lambda>n_end.
      if n_end > entry_end then Err (BadAttributeList ''name extends past entry'')
      else and_then (slice content n_start n_end) (\<lambda>raw.
      Ok (Some (decode_utf16_lossy (u16_units raw)))))))"

definition attr_list_step :: "bytes \<Rightarrow> nat \<Rightarrow> attribute_list_entry walk_step res" where
  "attr_list_step content pos =
     (if pos + AL_ENTRY_MIN > length content then Ok Stop
      else let entry_length = unat (le_u16 content (pos + 0x04)) in
      if entry_length < AL_ENTRY_MIN then Err (BadAttributeList ''entry length below minimum'')
      else and_then (ok_or (usize_checked_add pos entry_length)
          (BadAttributeList ''entry length overflow'')) (\<lambda>entry_end.
      if entry_end > length content then Err (BadAttributeList ''entry extends past content'')
      else and_then (idx content (pos + 0x06)) (\<lambda>name_length.
      and_then (idx content (pos + 0x07)) (\<lambda>name_offset.
      and_then (attr_list_name content pos entry_end (unat name_length) (unat name_offset)) (\<lambda>name.
      Ok (Continue
        \<lparr>ale_type_code = le_u32 content pos,
         ale_start_vcn = le_u64 content (pos + 0x08),
         base_reference = file_reference_from_u64 (le_u64 content (pos + 0x10)),
         ale_attribute_id = le_u16 content (pos + 0x18),
         ale_name = name\<rparr> entry_end))))))"

definition attribute_list_parse :: "bytes \<Rightarrow> attribute_list_entry list res" where
  "attribute_list_parse content = walk (attr_list_step content) AL_MAX_ENTRIES 0"

section \<open>The loop is a bounded walk\<close>

lemma attr_list_name_no_panic:
  "entry_end \<le> length content \<Longrightarrow> attr_list_name content pos entry_end nl no \<noteq> Panic"
  by (auto simp: attr_list_name_def res_inversions checked_simps split: if_splits)

lemma attr_list_step_no_panic: "attr_list_step content pos \<noteq> Panic"
  using attr_list_name_no_panic
  by (auto simp: attr_list_step_def Let_def AL_ENTRY_MIN_def res_inversions checked_simps
      split: if_splits)

lemma attr_list_step_Ok:
  "attr_list_step content pos = Ok s \<Longrightarrow>
   s = Stop \<or> (\<exists>e pos'. s = Continue e pos' \<and> pos + 26 \<le> pos' \<and> pos' \<le> length content)"
  by (auto simp: attr_list_step_def Let_def AL_ENTRY_MIN_def res_inversions checked_simps
      split: if_splits)

interpretation attr_list: bounded_walk "attr_list_step content" "length content" 26
  for content
  by unfold_locales (auto simp: attr_list_step_no_panic dest: attr_list_step_Ok)

section \<open>Properties\<close>

definition sample_attr_list :: bytes where
  "sample_attr_list = [0x80, 0, 0, 0, 28, 0, 1, 26, 2, 0, 0, 0, 0, 0, 0, 0, 40, 0, 0, 0, 0, 0, 1, 0,
     3, 0, 65, 0]"

lemma sample_attr_list_parse:
  "attribute_list_parse sample_attr_list =
     Ok [\<lparr>ale_type_code = 0x80, ale_start_vcn = 2,
          base_reference = \<lparr>fr_record_number = 40, fr_sequence = 1\<rparr>,
          ale_attribute_id = 3, ale_name = Some [65]\<rparr>]"
  by (simp add: attribute_list_parse_def AL_MAX_ENTRIES_def walk_numeral sample_attr_list_def
      attr_list_step_def attr_list_name_def AL_ENTRY_MIN_def le_read_defs get_range_def
      from_le_bytes_def usize_checked_add_def idx_def slice_def file_reference_from_u64_def
      is_high_def is_low_def cong: and_then_weak_cong)

text \<open>
  The loop cap never hides an entry: parsing a value of less than 26 MiB gives the
  same result as parsing with any larger cap, so the walk ends only at the end of the value
  or with an error; it never panics, and yields at most one entry per 26 bytes.
\<close>

theorem attribute_list_complete:
  assumes "length content < 26 * AL_MAX_ENTRIES" "AL_MAX_ENTRIES \<le> cap"
  shows "attribute_list_parse content = walk (attr_list_step content) cap 0 \<and>
    attribute_list_parse content \<noteq> Panic \<and>
    (case attribute_list_parse content of Ok es \<Rightarrow> 26 * length es \<le> length content | _ \<Rightarrow> True)"
proof -
  obtain m n where mn: "cap = Suc m" "AL_MAX_ENTRIES = Suc n" "n \<le> m"
    using assms(2) by (cases cap; cases AL_MAX_ENTRIES) (auto simp: AL_MAX_ENTRIES_def)
  have "walk (attr_list_step content) (Suc m) 0 = walk (attr_list_step content) (Suc n) 0"
    using assms(1) mn by (intro attr_list.walk_enough) simp_all
  moreover have "26 * length es \<le> length content" if "attribute_list_parse content = Ok es" for es
    using attr_list.walk_count [of content AL_MAX_ENTRIES 0 es] that
    by (cases "es = []") (auto simp: attribute_list_parse_def)
  ultimately show ?thesis
    using attr_list.walk_no_panic [of content AL_MAX_ENTRIES 0] mn
    by (auto simp: attribute_list_parse_def split: res.splits)
qed

theorem attribute_list_complete_witness:
  "walk (attr_list_step sample_attr_list) (2 ^ 21) 0 = attribute_list_parse sample_attr_list \<and>
   attribute_list_parse sample_attr_list \<noteq> Ok []"
  using attribute_list_complete [of sample_attr_list "2 ^ 21"]
  by (simp add: sample_attr_list_parse AL_MAX_ENTRIES_def) (simp add: sample_attr_list_def)

end
