(* ===== verification/Fs.thy ===== *)
theory Fs
  imports Reader_Monad Boot Index Attribute_List
begin

text \<open>
  \<open>core/src/fs.rs\<close>: the volume reader that ties the layers together. \<open>ntfs_fs\<close> holds what
  \<open>NtfsFs::open\<close> computes; the reader behind the lock is threaded explicitly, one locked
  scope after the other (theory \<open>Fs_Shared\<close> lets other workers in between). \<open>read_virtual_slice\<close> relates
  reading through the \<open>$MFT\<close> runs to a slice of the flat stream they describe.
\<close>

section \<open>Reading through a runlist\<close>

text \<open>
  The loop of \<open>read_virtual\<close>. The subtraction \<open>pos - run_base\<close> is where an unchecked
  underflow would panic.
\<close>

definition virtual_part :: "'r host \<Rightarrow> run \<Rightarrow> u64 \<Rightarrow> u64 \<Rightarrow> u64 \<Rightarrow> ('r, bytes) io" where
  "virtual_part H r cs within tk =
     (case lcn r of
        None \<Rightarrow> io_lift (Ok (replicate (unat tk) 0))
      | Some l \<Rightarrow>
          io_bind (io_lift (ok_or (Option.bind (checked_mul l cs) (\<lambda>b. checked_add b within))
            (BadRunlist ''physical offset overflow''))) (\<lambda>phys rd.
          seek_read H rd phys (unat tk)))"

fun virtual_loop ::
  "'r host \<Rightarrow> run list \<Rightarrow> u64 \<Rightarrow> u64 \<Rightarrow> u64 \<Rightarrow> u64 \<Rightarrow> bytes \<Rightarrow> ('r, bytes \<times> u64) io" where
  "virtual_loop H [] cs want pos run_base out = io_lift (Ok (out, want))"
| "virtual_loop H (r # rs) cs want pos run_base out =
     (if want = 0 then io_lift (Ok (out, want))
      else io_bind (io_lift (ok_or (checked_mul (run_length r) cs)
             (BadRunlist ''run byte length overflow''))) (\<lambda>run_bytes.
           io_bind (io_lift (ok_or (checked_add run_base run_bytes)
             (BadRunlist ''run end overflow''))) (\<lambda>run_end.
      if pos < run_end then
        if pos < run_base then io_lift Panic
        else let within = pos - run_base; tk = min (run_bytes - within) want in
        io_bind (virtual_part H r cs within tk) (\<lambda>bs.
        virtual_loop H rs cs (want - tk) (pos + tk) run_end (out @ bs))
      else virtual_loop H rs cs want pos run_end out)))"

definition read_virtual :: "'r host \<Rightarrow> run list \<Rightarrow> u64 \<Rightarrow> u64 \<Rightarrow> u64 \<Rightarrow> ('r, bytes) io" where
  "read_virtual H runs cs offset len =
     (if \<not> mem_reserve H (unat len) then io_lift (Err (TooLarge len))
      else io_bind (virtual_loop H runs cs len offset 0 []) (\<lambda>(out, want).
      if want > 0 then io_lift (Err (BadRunlist ''read past end of runs''))
      else io_lift (Ok out)))"

section \<open>Records\<close>

record ntfs_fs =
  fs_boot :: boot_sector
  fs_mft_runs :: "run list"

definition record_attributes :: "nomicon \<Rightarrow> bytes \<Rightarrow> attribute list res" where
  "record_attributes N rec =
     and_then (header_parse N rec) (\<lambda>h. parse_attributes N rec (unat (first_attribute_offset h)))"

definition read_record :: "nomicon \<Rightarrow> 'r host \<Rightarrow> ntfs_fs \<Rightarrow> u64 \<Rightarrow> ('r, bytes) io" where
  "read_record N H fs n =
     (let rec_size = mft_record_size (fs_boot fs) in
      io_bind (io_lift (ok_or (checked_mul n rec_size) (BadRunlist ''record offset overflow''))) (\<lambda>virt.
      io_bind (read_virtual H (fs_mft_runs fs) (cluster_size (fs_boot fs)) virt rec_size) (\<lambda>buf.
      io_lift (fixup N buf (unat (bytes_per_sector (fs_boot fs)))))))"

section \<open>Opening a volume\<close>

fun mft_data_runs_loop :: "nomicon \<Rightarrow> bytes \<Rightarrow> attribute list \<Rightarrow> run list res" where
  "mft_data_runs_loop N rec [] = Err (BadAttribute 0 ''$MFT has no non-resident $DATA'')"
| "mft_data_runs_loop N rec (a # as) =
     (if type_code a = T_DATA (attr_ty N) \<and> attr_name a = None then
        case attr_body a of
          NonResident _ _ roff _ _ _ _ \<Rightarrow>
            and_then (ok_or (get_range rec (attr_offset a + unat roff) (attr_offset a + unat (attr_length a)))
                (BadAttribute (attr_offset a) ''$MFT runlist out of bounds'')) runlist_decode
        | Resident _ _ \<Rightarrow> mft_data_runs_loop N rec as
      else mft_data_runs_loop N rec as)"

definition mft_data_runs :: "nomicon \<Rightarrow> bytes \<Rightarrow> run list res" where
  "mft_data_runs N rec =
     and_then (header_parse N rec) (\<lambda>h.
     and_then (parse_attributes N rec (unat (first_attribute_offset h))) (\<lambda>attrs.
     mft_data_runs_loop N rec attrs))"

text \<open>The unnamed non-resident \<open>$DATA\<close> fragments of one extension record.\<close>

fun ext_fragments :: "nomicon \<Rightarrow> bytes \<Rightarrow> attribute list \<Rightarrow> (u64 \<times> run list) list res" where
  "ext_fragments N ext [] = Ok []"
| "ext_fragments N ext (a # as) =
     (case attr_body a of
        Resident _ _ \<Rightarrow> ext_fragments N ext as
      | NonResident vcn _ _ _ _ _ _ \<Rightarrow>
          if type_code a = T_DATA (attr_ty N) \<and> attr_name a = None then
            and_then (attribute_runlist ext a) (\<lambda>rs.
            and_then (ext_fragments N ext as) (\<lambda>fs. Ok ((vcn, rs) # fs)))
          else ext_fragments N ext as)"

fun bootstrap_loop ::
  "nomicon \<Rightarrow> 'r host \<Rightarrow> boot_sector \<Rightarrow> run list \<Rightarrow> (u64 \<times> u64) list \<Rightarrow> u64 list \<Rightarrow>
   (u64 \<times> run list) list \<Rightarrow> ('r, (u64 \<times> run list) list) io" where
  "bootstrap_loop N H b runs [] seen frags = io_lift (Ok frags)"
| "bootstrap_loop N H b runs ((_, rn) # exts) seen frags =
     (if rn \<in> set seen then bootstrap_loop N H b runs exts seen frags
      else io_bind (io_lift (ok_or (checked_mul rn (mft_record_size b))
             (BadRunlist ''record offset overflow''))) (\<lambda>virt.
           io_bind (read_virtual H runs (cluster_size b) virt (mft_record_size b)) (\<lambda>raw.
           io_bind (io_lift (fixup N raw (unat (bytes_per_sector b)))) (\<lambda>ext.
           io_bind (io_lift (record_attributes N ext)) (\<lambda>attrs.
           io_bind (io_lift (ext_fragments N ext attrs)) (\<lambda>fs.
           bootstrap_loop N H b runs exts (rn # seen) (frags @ fs)))))))"

definition bootstrap_mft_runs ::
  "nomicon \<Rightarrow> 'r host \<Rightarrow> (bytes \<Rightarrow> bytes option) \<Rightarrow> bytes \<Rightarrow> boot_sector \<Rightarrow> ('r, run list) io" where
  "bootstrap_mft_runs N H lz rec0 b =
     io_bind (io_lift (mft_data_runs N rec0)) (\<lambda>runs.
     io_bind (io_lift (record_attributes N rec0)) (\<lambda>attrs.
     case find (\<lambda>a. type_code a = T_ATTRIBUTE_LIST (attr_ty N)) attrs of
       None \<Rightarrow> io_lift (Ok runs)
     | Some al \<Rightarrow>
         io_bind (\<lambda>rd. read_attribute_value N H lz rd rec0 al (cluster_size b)) (\<lambda>content.
         io_bind (io_lift (attribute_list_parse content)) (\<lambda>entries.
         let exts = sort_key fst (map (\<lambda>e. (ale_start_vcn e, fr_record_number (base_reference e)))
               (filter (\<lambda>e. ale_type_code e = T_DATA (attr_ty N) \<and> ale_name e = None \<and>
                 ale_start_vcn e \<noteq> 0) entries)) in
         io_bind (bootstrap_loop N H b runs exts [] []) (\<lambda>frags.
         io_lift (Ok (runs @ concat (map snd (sort_key fst frags)))))))))"

definition open_fs :: "nomicon \<Rightarrow> 'r host \<Rightarrow> (bytes \<Rightarrow> bytes option) \<Rightarrow> ('r, ntfs_fs) io" where
  "open_fs N H lz =
     io_bind (\<lambda>rd. seek_read H rd 0 512) (\<lambda>boot_buf.
     io_bind (io_lift (boot_parse N boot_buf)) (\<lambda>b.
     io_bind (\<lambda>rd. seek_read H rd (mft_byte_offset b) (unat (mft_record_size b))) (\<lambda>raw.
     io_bind (io_lift (fixup N raw (unat (bytes_per_sector b)))) (\<lambda>rec0.
     io_bind (bootstrap_mft_runs N H lz rec0 b) (\<lambda>runs.
     io_lift (Ok \<lparr>fs_boot = b, fs_mft_runs = runs\<rparr>))))))"

section \<open>Directories and paths\<close>

text \<open>
  The \<open>while\<close> loop over the \<open>INDX\<close> blocks of \<open>$INDEX_ALLOCATION\<close>. It advances by the index
  record size, which is at least 256 for every boot sector that parses, so it makes
  \<open>data.len() / irs\<close> iterations; the first argument counts them.
\<close>

fun index_blocks :: "nomicon \<Rightarrow> nat \<Rightarrow> nat \<Rightarrow> bytes \<Rightarrow> nat \<Rightarrow> nat \<Rightarrow> index_entry list res" where
  "index_blocks N 0 off data irs ss = Ok []"
| "index_blocks N (Suc n) off data irs ss =
     (if \<not> off + irs \<le> length data then Ok []
      else and_then (slice data off (off + 4)) (\<lambda>sig.
      and_then (if sig = [0x49, 0x4E, 0x44, 0x58] then
          and_then (slice data off (off + irs)) (\<lambda>buf.
          and_then (fst (parse_index_buffer N buf irs ss)) (\<lambda>entries.
          Ok (filter (\<lambda>e. ie_file_name e \<noteq> None) entries)))
        else Ok []) (\<lambda>here.
      and_then (index_blocks N n (off + irs) data irs ss) (\<lambda>rest.
      Ok (here @ rest)))))"

definition directory_entries ::
  "nomicon \<Rightarrow> 'r host \<Rightarrow> (bytes \<Rightarrow> bytes option) \<Rightarrow> ntfs_fs \<Rightarrow> bytes \<Rightarrow> ('r, index_entry list) io" where
  "directory_entries N H lz fs rec =
     io_bind (io_lift (record_attributes N rec)) (\<lambda>attrs.
     io_bind (io_lift (ok_or (find (\<lambda>a. type_code a = T_INDEX_ROOT (attr_ty N)) attrs)
       (NotADirectory (lit ''record has no $INDEX_ROOT'')))) (\<lambda>root_attr.
     io_bind (io_lift (ok_or (resident_content root_attr rec)
       (BadIndex ''$INDEX_ROOT content out of bounds''))) (\<lambda>content.
     io_bind (io_lift (index_root_parse content)) (\<lambda>root.
     let out = filter (\<lambda>e. ie_file_name e \<noteq> None) (root_entries root) in
     if is_large root then
       case find (\<lambda>a. type_code a = T_INDEX_ALLOCATION (attr_ty N)) attrs of
         None \<Rightarrow> io_lift (Ok out)
       | Some alloc \<Rightarrow>
           io_bind (\<lambda>rd. read_attribute_value N H lz rd rec alloc (cluster_size (fs_boot fs))) (\<lambda>data.
           let irs = unat (index_record_size (fs_boot fs)) in
           io_bind (io_lift (index_blocks N (length data div irs) 0 data irs
             (unat (bytes_per_sector (fs_boot fs))))) (\<lambda>more.
           io_lift (Ok (out @ more))))
     else io_lift (Ok out)))))"

text \<open>\<open>path.split(['\\', '/']).filter(|c| !c.is_empty())\<close>.\<close>

fun split_path :: "ustring \<Rightarrow> ustring \<Rightarrow> ustring list" where
  "split_path acc [] = [rev acc]"
| "split_path acc (c # cs) =
     (if c = 0x5C \<or> c = 0x2F then rev acc # split_path [] cs else split_path (c # acc) cs)"

definition path_components :: "ustring \<Rightarrow> ustring list" where
  "path_components path = filter (\<lambda>c. c \<noteq> []) (split_path [] path)"

definition ascii_lower :: "nat \<Rightarrow> nat" where
  "ascii_lower c = (if 65 \<le> c \<and> c \<le> 90 then c + 32 else c)"

definition eq_ignore_ascii_case :: "ustring \<Rightarrow> ustring \<Rightarrow> bool" where
  "eq_ignore_ascii_case s t \<longleftrightarrow> map ascii_lower s = map ascii_lower t"

fun find_child :: "ustring \<Rightarrow> index_entry list \<Rightarrow> u64 option" where
  "find_child name [] = None"
| "find_child name (e # es) =
     (case ie_file_name e of
        Some f \<Rightarrow> if eq_ignore_ascii_case (fn_name f) name
                  then Some (fr_record_number (ie_file_reference e)) else find_child name es
      | None \<Rightarrow> find_child name es)"

fun resolve_from ::
  "nomicon \<Rightarrow> 'r host \<Rightarrow> (bytes \<Rightarrow> bytes option) \<Rightarrow> ntfs_fs \<Rightarrow> u64 \<Rightarrow> ustring list \<Rightarrow> ('r, u64) io" where
  "resolve_from N H lz fs current [] = io_lift (Ok current)"
| "resolve_from N H lz fs current (c # cs) =
     io_bind (read_record N H fs current) (\<lambda>rec.
     io_bind (directory_entries N H lz fs rec) (\<lambda>entries.
     io_bind (io_lift (ok_or (find_child c entries) (NotFound c))) (\<lambda>next.
     resolve_from N H lz fs next cs)))"

definition resolve_path ::
  "nomicon \<Rightarrow> 'r host \<Rightarrow> (bytes \<Rightarrow> bytes option) \<Rightarrow> ntfs_fs \<Rightarrow> ustring \<Rightarrow> ('r, u64) io" where
  "resolve_path N H lz fs path = resolve_from N H lz fs (ROOT_RECORD N) (path_components path)"

section \<open>File data\<close>

fun gather_loop ::
  "nomicon \<Rightarrow> 'r host \<Rightarrow> ntfs_fs \<Rightarrow> attribute_list_entry list \<Rightarrow> u64 list \<Rightarrow> bytes list \<Rightarrow> ('r, bytes list) io" where
  "gather_loop N H fs [] seen records = io_lift (Ok records)"
| "gather_loop N H fs (e # es) seen records =
     (let rn = fr_record_number (base_reference e) in
      if rn \<in> set seen then gather_loop N H fs es seen records
      else io_bind (read_record N H fs rn) (\<lambda>r.
           gather_loop N H fs es (rn # seen) (records @ [r])))"

definition gather_records ::
  "nomicon \<Rightarrow> 'r host \<Rightarrow> (bytes \<Rightarrow> bytes option) \<Rightarrow> ntfs_fs \<Rightarrow> u64 \<Rightarrow> bytes \<Rightarrow> ('r, bytes list) io" where
  "gather_records N H lz fs base_num base_rec =
     io_bind (io_lift (record_attributes N base_rec)) (\<lambda>attrs.
     case find (\<lambda>a. type_code a = T_ATTRIBUTE_LIST (attr_ty N)) attrs of
       None \<Rightarrow> io_lift (Ok [base_rec])
     | Some al \<Rightarrow>
         io_bind (\<lambda>rd. read_attribute_value N H lz rd base_rec al (cluster_size (fs_boot fs))) (\<lambda>content.
         io_bind (io_lift (attribute_list_parse content)) (\<lambda>entries.
         gather_loop N H fs entries [base_num] [base_rec])))"

text \<open>The matching \<open>$DATA\<close> attributes of all records, each with the record it lies in.\<close>

fun data_attributes :: "nomicon \<Rightarrow> ustring option \<Rightarrow> bytes list \<Rightarrow> (bytes \<times> attribute) list res" where
  "data_attributes N strm [] = Ok []"
| "data_attributes N strm (r # rs) =
     and_then (record_attributes N r) (\<lambda>attrs.
     and_then (data_attributes N strm rs) (\<lambda>more.
     Ok (map (Pair r) (filter (\<lambda>a. type_code a = T_DATA (attr_ty N) \<and> attr_name a = strm) attrs) @ more)))"

definition is_resident :: "attribute \<Rightarrow> bool" where
  "is_resident a \<longleftrightarrow> (case attr_body a of Resident _ _ \<Rightarrow> True | _ \<Rightarrow> False)"

definition no_stream :: "u64 \<Rightarrow> ustring option \<Rightarrow> ntfs_error" where
  "no_stream rnum strm =
     (case strm of
        Some s \<Rightarrow> NotFound (lit ''record '' @ dec (unat rnum) @ lit '':'' @ s)
      | None \<Rightarrow> NotFound (lit ''record '' @ dec (unat rnum) @ lit ''::$DATA''))"

fun concat_runlists :: "(bytes \<times> attribute) list \<Rightarrow> run list res" where
  "concat_runlists [] = Ok []"
| "concat_runlists ((r, a) # fs) =
     and_then (attribute_runlist r a) (\<lambda>rs.
     and_then (concat_runlists fs) (\<lambda>more. Ok (rs @ more)))"

definition frag_vcn :: "bytes \<times> attribute \<Rightarrow> u64" where
  "frag_vcn f = (case attr_body (snd f) of NonResident v _ _ _ _ _ _ \<Rightarrow> v | _ \<Rightarrow> 0)"

definition frag_size :: "bytes \<times> attribute \<Rightarrow> u64" where
  "frag_size f = (case attr_body (snd f) of NonResident _ _ _ _ _ s _ \<Rightarrow> s | _ \<Rightarrow> 0)"

definition read_data_by_record ::
  "nomicon \<Rightarrow> 'r host \<Rightarrow> (bytes \<Rightarrow> bytes option) \<Rightarrow> ntfs_fs \<Rightarrow> u64 \<Rightarrow> ustring option \<Rightarrow> u64 \<Rightarrow> ('r, bytes) io" where
  "read_data_by_record N H lz fs rnum strm max_bytes =
     io_bind (read_record N H fs rnum) (\<lambda>rec.
     io_bind (gather_records N H lz fs rnum rec) (\<lambda>records.
     let cs = cluster_size (fs_boot fs) in
     io_bind (io_lift (data_attributes N strm records)) (\<lambda>found.
     let residents = filter (\<lambda>f. is_resident (snd f)) found;
         fragments = filter (\<lambda>f. \<not> is_resident (snd f)) found in
     if residents \<noteq> [] then
       (case last residents of (r, a) \<Rightarrow>
          io_bind (\<lambda>rd. read_attribute_value N H lz rd r a cs) (\<lambda>v.
          io_lift (Ok (if length v > unat max_bytes then take (unat max_bytes) v else v))))
     else if fragments = [] then io_lift (Err (no_stream rnum strm))
     else let sorted_frags = sort_key frag_vcn fragments in
       io_bind (io_lift (concat_runlists sorted_frags)) (\<lambda>runs rd.
       read_nonresident_capped N H lz rd runs cs (frag_size (hd sorted_frags))
         (snd (hd sorted_frags)) max_bytes))))"

definition runs_by_record ::
  "nomicon \<Rightarrow> 'r host \<Rightarrow> (bytes \<Rightarrow> bytes option) \<Rightarrow> ntfs_fs \<Rightarrow> u64 \<Rightarrow> ustring option \<Rightarrow> ('r, run list) io" where
  "runs_by_record N H lz fs rnum strm =
     io_bind (read_record N H fs rnum) (\<lambda>rec.
     io_bind (gather_records N H lz fs rnum rec) (\<lambda>records.
     io_bind (io_lift (data_attributes N strm records)) (\<lambda>found.
     if found = [] then io_lift (Err (no_stream rnum strm))
     else io_lift (concat_runlists (sort_key frag_vcn (filter (\<lambda>f. \<not> is_resident (snd f)) found))))))"

definition read_data_stream ::
  "nomicon \<Rightarrow> 'r host \<Rightarrow> (bytes \<Rightarrow> bytes option) \<Rightarrow> ntfs_fs \<Rightarrow> ustring \<Rightarrow> ustring option \<Rightarrow> u64 \<Rightarrow> ('r, bytes) io" where
  "read_data_stream N H lz fs path strm max_bytes =
     io_bind (resolve_path N H lz fs path) (\<lambda>rnum.
     read_data_by_record N H lz fs rnum strm max_bytes)"

definition read_file ::
  "nomicon \<Rightarrow> 'r host \<Rightarrow> (bytes \<Rightarrow> bytes option) \<Rightarrow> ntfs_fs \<Rightarrow> ustring \<Rightarrow> ('r, bytes) io" where
  "read_file N H lz fs path = read_data_stream N H lz fs path None (- 1)"

definition read_file_capped ::
  "nomicon \<Rightarrow> 'r host \<Rightarrow> (bytes \<Rightarrow> bytes option) \<Rightarrow> ntfs_fs \<Rightarrow> ustring \<Rightarrow> u64 \<Rightarrow> ('r, bytes) io" where
  "read_file_capped N H lz fs path max_bytes = read_data_stream N H lz fs path None max_bytes"

definition read_named_stream ::
  "nomicon \<Rightarrow> 'r host \<Rightarrow> (bytes \<Rightarrow> bytes option) \<Rightarrow> ntfs_fs \<Rightarrow> ustring \<Rightarrow> ustring \<Rightarrow> ('r, bytes) io" where
  "read_named_stream N H lz fs path strm = read_data_stream N H lz fs path (Some strm) (- 1)"

section \<open>What reading through the runs returns\<close>

lemma virtual_loop_done [simp]: "virtual_loop H runs cs 0 pos base out = io_lift (Ok (out, 0))"
  by (cases runs) simp_all

lemma take_drop_content:
  assumes "w + tk \<le> n"
  shows "take tk (drop w (take n xs)) = take tk (drop w xs)"
  using assms by (simp add: drop_take min_absorb1)

lemma diff_split_run: "w - (b - k) - (a - (k - b)) = w - (b + a - k)" for w b k a :: nat
  by arith

text \<open>The arithmetic of one turn of \<open>virtual_loop\<close>.\<close>

lemma virtual_take:
  fixes pos base run_bytes run_end want :: u64
  assumes "checked_add base run_bytes = Some run_end" "pos < run_end" "base \<le> pos"
  defines "tk \<equiv> min (run_bytes - (pos - base)) want"
  shows "unat (pos - base) = unat pos - unat base"
    "unat tk = min (unat run_end - unat pos) (unat want)"
    "unat (pos + tk) = unat pos + unat tk"
    "unat (want - tk) = unat want - unat tk"
    "run_end \<le> pos + tk \<or> want - tk = 0"
proof -
  have re: "unat run_end = unat base + unat run_bytes"
    using checked_add_unat [OF assms(1)] .
  have bp: "unat base \<le> unat pos" "unat pos < unat run_end"
    using assms(2,3) by (simp_all add: word_le_nat_alt word_less_nat_alt)
  show w: "unat (pos - base) = unat pos - unat base"
    using bp by (simp add: unat_sub_if_size)
  then have "unat (run_bytes - (pos - base)) = unat run_end - unat pos"
    using bp re by (auto simp: unat_sub_if_size)
  then show tk: "unat tk = min (unat run_end - unat pos) (unat want)"
    by (simp add: tk_def unat_min)
  then have "unat pos + unat tk \<le> unat run_end"
    using bp by simp
  then have "unat pos + unat tk < 2 ^ 64"
    by (rule le_less_trans) simp
  then show pos': "unat (pos + tk) = unat pos + unat tk"
    by (simp add: unat_word_ariths)
  show "unat (want - tk) = unat want - unat tk"
    using tk by (simp add: unat_sub_if_size)
  show "run_end \<le> pos + tk \<or> want - tk = 0"
    using tk pos' by (auto simp: word_le_nat_alt min_def unat_eq_0 [symmetric] unat_sub_if_size split: if_splits)
qed

context medium
begin

lemma run_window:
  assumes "good rd" "length (disk rd) < 2 ^ 64" "run_on_disk (disk rd) (unat cs) r"
    and "within + tk \<le> unat (run_length r) * unat cs" "unat w = within" "unat n = tk"
  shows "\<exists>rd'. virtual_part H r cs w n rd =
      (Ok (take tk (drop within (run_content (disk rd) (unat cs) r))), rd') \<and> good rd' \<and> disk rd' = disk rd"
proof (cases "lcn r")
  case None
  then show ?thesis
    using assms by (auto simp: run_content_def virtual_part_def)
next
  case (Some c)
  have on: "unat c * unat cs + unat (run_length r) * unat cs \<le> length (disk rd)"
    using assms(3) Some by (simp add: run_on_disk_def algebra_simps)
  have lt: "unat c * unat cs < 2 ^ 64" "unat c * unat cs + within < 2 ^ 64"
    using on assms(2,4) by linarith+
  then have m: "checked_mul c cs = Some (c * cs)" "unat (c * cs) = unat c * unat cs"
    by (simp_all add: checked_mul_def unat_word_ariths)
  then have a: "checked_add (c * cs) w = Some (c * cs + w)" "unat (c * cs + w) = unat c * unat cs + within"
    using lt(2) assms(5) by (simp_all add: checked_add_def unat_word_ariths)
  have "unat (c * cs + w) + tk \<le> length (disk rd)"
    using a(2) on assms(4) by linarith
  from seek_read_in [OF assms(1) this] obtain rd' where
    "seek_read H rd (c * cs + w) tk = (Ok (take tk (drop (unat (c * cs + w)) (disk rd))), rd')"
    "good rd'" "disk rd' = disk rd"
    by blast
  moreover have "take tk (drop (unat (c * cs + w)) (disk rd)) =
      take tk (drop within (run_content (disk rd) (unat cs) r))"
    using take_drop_content [OF assms(4), of "drop (unat c * unat cs) (disk rd)"]
    by (simp only: run_content_def Some option.case drop_drop a(2) add.commute [of within])
  ultimately show ?thesis
    using Some m a assms(6) by (simp add: virtual_part_def)
qed

text \<open>One turn of the loop: the part of the run the read overlaps, possibly none.\<close>

lemma virtual_loop_turn:
  fixes r :: run and cs base :: u64
  defines "rb \<equiv> unat (run_length r) * unat cs" and "re \<equiv> base + run_length r * cs"
  assumes "good rd" "length (disk rd) < 2 ^ 64" "run_on_disk (disk rd) (unat cs) r"
    and lt: "unat base + rb < 2 ^ 64" and "base \<le> pos" "want \<noteq> 0"
  shows "\<exists>rd' tk bs. virtual_loop H (r # rs) cs want pos base out rd =
      virtual_loop H rs cs (want - tk) (pos + tk) re (out @ bs) rd' \<and>
    bs = take (unat want) (drop (unat pos - unat base) (run_content (disk rd) (unat cs) r)) \<and>
    unat tk = length bs \<and> unat (pos + tk) = unat pos + unat tk \<and> unat (want - tk) = unat want - unat tk \<and>
    (re \<le> pos + tk \<or> want - tk = 0) \<and> good rd' \<and> disk rd' = disk rd"
proof -
  have m: "checked_mul (run_length r) cs = Some (run_length r * cs)" "unat (run_length r * cs) = rb"
    using lt by (simp_all add: checked_mul_def unat_word_ariths rb_def)
  have a: "checked_add base (run_length r * cs) = Some re" "unat re = unat base + rb"
    using lt m(2) by (simp_all add: checked_add_def unat_word_ariths re_def)
  have lc: "length (run_content (disk rd) (unat cs) r) = rb"
    using assms(5) by (simp add: length_run_content_on_disk rb_def)
  show ?thesis
  proof (cases "pos < re")
    case False
    then have "unat base + rb \<le> unat pos"
      using a(2) by (simp add: not_less word_le_nat_alt)
    moreover have "virtual_loop H (r # rs) cs want pos base out rd = virtual_loop H rs cs want pos re out rd"
      using False m a \<open>want \<noteq> 0\<close> by simp
    ultimately show ?thesis
      using assms(3) False lc by (intro exI [of _ rd] exI [of _ "0 :: u64"] exI [of _ "[] :: bytes"]) (simp add: not_less)
  next
    case True
    define tk where "tk = min (run_length r * cs - (pos - base)) want"
    note v = virtual_take(1) [OF a(1) True \<open>base \<le> pos\<close>]
      virtual_take(2-5) [OF a(1) True \<open>base \<le> pos\<close>, of want, folded tk_def]
    have "unat pos < unat base + rb" "unat base \<le> unat pos"
      using True a(2) \<open>base \<le> pos\<close> by (simp_all add: word_less_nat_alt word_le_nat_alt)
    then have tk: "unat tk = min (rb - unat (pos - base)) (unat want)"
      "unat (pos - base) + unat tk \<le> unat (run_length r) * unat cs"
      using v(1,2) a(2) unfolding rb_def [symmetric] by linarith+
    then obtain rd1 where bs: "virtual_part H r cs (pos - base) tk rd =
        (Ok (take (unat tk) (drop (unat (pos - base)) (run_content (disk rd) (unat cs) r))), rd1)"
      "good rd1" "disk rd1 = disk rd"
      using run_window [OF assms(3,4,5) tk(2)] by blast
    have "virtual_loop H (r # rs) cs want pos base out rd =
        virtual_loop H rs cs (want - tk) (pos + tk) re
          (out @ take (unat tk) (drop (unat (pos - base)) (run_content (disk rd) (unat cs) r))) rd1"
      using True m a \<open>want \<noteq> 0\<close> \<open>base \<le> pos\<close>
      by (simp add: Let_def not_less [symmetric] io_bind_step [where m = "virtual_part H r cs (pos - base) tk", OF bs(1)]
          flip: tk_def)
    moreover have "take (unat tk) (drop (unat (pos - base)) (run_content (disk rd) (unat cs) r)) =
        take (unat want) (drop (unat pos - unat base) (run_content (disk rd) (unat cs) r))"
      using tk(1) v(1) lc by (simp add: min_def)
    moreover have "unat tk = length (take (unat want) (drop (unat pos - unat base) (run_content (disk rd) (unat cs) r)))"
      using tk(1) v(1) lc by (simp add: min.commute)
    ultimately show ?thesis
      using v(3,4,5) bs(2,3) by (intro exI conjI) (assumption | simp)+
  qed
qed

lemma virtual_loop_spec:
  assumes "good rd" "length (disk rd) < 2 ^ 64" "list_all (run_on_disk (disk rd) (unat cs)) runs"
    and "unat base + allocated_bytes (unat cs) runs < 2 ^ 64" "base \<le> pos \<or> want = 0"
  shows "\<exists>rd' want'. virtual_loop H runs cs want pos base out rd =
      (Ok (out @ take (unat want) (drop (unat pos - unat base) (stream (disk rd) (unat cs) runs)), want'), rd') \<and>
    unat want' = unat want - (allocated_bytes (unat cs) runs - (unat pos - unat base)) \<and>
    good rd' \<and> disk rd' = disk rd"
  using assms
proof (induction runs arbitrary: rd want pos base out)
  case Nil
  then show ?case by (simp add: stream_def allocated_bytes_def)
next
  case (Cons r rs)
  show ?case
  proof (cases "want = 0")
    case True
    with Cons.prems show ?thesis by simp
  next
    case nz: False
    let ?rb = "unat (run_length r) * unat cs" and ?c = "run_content (disk rd) (unat cs) r"
      and ?k = "unat pos - unat base"
    have al: "allocated_bytes (unat cs) (r # rs) = ?rb + allocated_bytes (unat cs) rs"
      by (simp add: allocated_Cons)
    have lc: "length ?c = ?rb"
      using Cons.prems(3) by (simp add: length_run_content_on_disk)
    have bp: "base \<le> pos" "unat base \<le> unat pos"
      using Cons.prems(5) nz by (simp_all add: word_le_nat_alt)
    have on: "run_on_disk (disk rd) (unat cs) r" "unat base + ?rb < 2 ^ 64"
      using Cons.prems(3,4) al by simp_all
    have re: "unat (base + run_length r * cs) = unat base + ?rb"
      using Cons.prems(4) al by (simp add: unat_word_ariths)
    obtain rd1 tk bs where t: "virtual_loop H (r # rs) cs want pos base out rd =
        virtual_loop H rs cs (want - tk) (pos + tk) (base + run_length r * cs) (out @ bs) rd1"
      and bs: "bs = take (unat want) (drop ?k ?c)" "unat tk = length bs"
      and nxt: "unat (pos + tk) = unat pos + unat tk" "unat (want - tk) = unat want - unat tk"
        "base + run_length r * cs \<le> pos + tk \<or> want - tk = 0"
      and g: "good rd1" "disk rd1 = disk rd"
      using virtual_loop_turn [OF Cons.prems(1,2) on bp(1) nz, of rs out] by blast
    have k: "unat (pos + tk) - (unat base + ?rb) = ?k - ?rb"
      if "unat want - unat tk \<noteq> 0"
    proof -
      have "unat tk = ?rb - ?k"
        using that bs lc by (auto simp: min_def split: if_splits)
      then show ?thesis
        using nxt(1) bp(2) by linarith
    qed
    obtain rd' want' where r: "virtual_loop H rs cs (want - tk) (pos + tk) (base + run_length r * cs) (out @ bs) rd1 =
        (Ok ((out @ bs) @ take (unat want - unat tk) (drop (unat (pos + tk) - (unat base + ?rb))
          (stream (disk rd) (unat cs) rs)), want'), rd')"
      "unat want' = unat want - unat tk - (allocated_bytes (unat cs) rs - (unat (pos + tk) - (unat base + ?rb)))"
      "good rd'" "disk rd' = disk rd"
      using Cons.IH [of rd1 "base + run_length r * cs" "pos + tk" "want - tk" "out @ bs"] Cons.prems(2,3,4) g nxt re al by auto
    have left: "unat want - (?rb - ?k) = unat want - unat tk"
      using bs lc by (simp add: min_def)
    have "take (unat want) (drop ?k (stream (disk rd) (unat cs) (r # rs))) =
        take (unat want) (drop ?k ?c) @ take (unat want - (?rb - ?k)) (drop (?k - ?rb) (stream (disk rd) (unat cs) rs))"
      using lc by (simp add: stream_def)
    then have "take (unat want) (drop ?k (stream (disk rd) (unat cs) (r # rs))) =
        bs @ take (unat want - unat tk) (drop (unat (pos + tk) - (unat base + ?rb)) (stream (disk rd) (unat cs) rs))"
      unfolding left bs(1) [symmetric] using k by (cases "unat want - unat tk = 0") simp_all
    moreover have "unat want' = unat want - (allocated_bytes (unat cs) (r # rs) - ?k)"
      using diff_split_run [of "unat want" ?rb ?k "allocated_bytes (unat cs) rs"] r(2) k unfolding left al
      by (cases "unat want - unat tk = 0") simp_all
    ultimately show ?thesis
      using t r by simp
  qed
qed

text \<open>A read inside the stream returns the slice; a read past its end is an error.\<close>

lemma read_virtual_slice:
  assumes "good rd" "length (disk rd) < 2 ^ 64" "list_all (run_on_disk (disk rd) (unat cs)) runs"
    and "allocated_bytes (unat cs) runs < 2 ^ 64" "mem_reserve H (unat len)"
  shows "\<exists>rd'. read_virtual H runs cs off len rd =
      (if len = 0 \<or> unat off + unat len \<le> allocated_bytes (unat cs) runs
       then Ok (take (unat len) (drop (unat off) (stream (disk rd) (unat cs) runs)))
       else Err (BadRunlist ''read past end of runs''), rd') \<and> good rd' \<and> disk rd' = disk rd"
proof -
  obtain rd' want' where lp: "virtual_loop H runs cs len off 0 [] rd =
      (Ok (take (unat len) (drop (unat off) (stream (disk rd) (unat cs) runs)), want'), rd')"
    and wn: "unat want' = unat len - (allocated_bytes (unat cs) runs - unat off)"
    and g: "good rd'" "disk rd' = disk rd"
    using virtual_loop_spec [OF assms(1-3), of 0 off len "[]"] assms(4) by auto
  have "want' > 0 \<longleftrightarrow> \<not> (len = 0 \<or> unat off + unat len \<le> allocated_bytes (unat cs) runs)"
  proof -
    have "want' > 0 \<longleftrightarrow> 0 < unat want'"
      by (simp add: word_less_nat_alt)
    moreover have "len = 0 \<longleftrightarrow> unat len = 0"
      by (simp add: unat_eq_zero)
    ultimately show ?thesis
      unfolding wn by linarith
  qed
  then show ?thesis
    using g lp assms(5) by (auto simp: read_virtual_def io_bind_def)
qed


section \<open>Every operation depends on the content only\<close>

lemma virtual_part_content [intro]: "content_only (virtual_part H r cs w tk)"
  unfolding virtual_part_def
  by (intro content_only_option content_only_bind content_only_lift seek_read_content)

lemma virtual_loop_content [intro]: "content_only (virtual_loop H runs cs want pos base out)"
  by (induction runs arbitrary: want pos base out) (auto simp: Let_def intro!: content_only_bind)

lemma read_virtual_content [intro]: "content_only (read_virtual H runs cs off len)"
  unfolding read_virtual_def by (auto intro!: content_only_bind)

lemma read_record_content [intro]: "content_only (read_record N H fs n)"
  unfolding read_record_def Let_def
  by (intro content_only_bind content_only_lift read_virtual_content)

lemma directory_entries_content [intro]: "content_only (directory_entries N H lz fs rec)"
  unfolding directory_entries_def Let_def
  by (intro content_only_bind content_only_lift content_only_if content_only_option
      read_attribute_value_content)

lemma resolve_from_content [intro]: "content_only (resolve_from N H lz fs n cs)"
  by (induction cs arbitrary: n)
     (auto intro!: content_only_bind content_only_lift read_record_content directory_entries_content)

lemma gather_loop_content [intro]: "content_only (gather_loop N H fs es seen records)"
  by (induction es arbitrary: seen records)
     (auto simp: Let_def intro!: content_only_bind content_only_lift read_record_content)

lemma gather_records_content [intro]: "content_only (gather_records N H lz fs n rec)"
  unfolding gather_records_def
  by (intro content_only_bind content_only_lift content_only_option read_attribute_value_content
      gather_loop_content)

lemma read_data_by_record_content [intro]: "content_only (read_data_by_record N H lz fs n strm cap)"
  unfolding read_data_by_record_def Let_def
  by (auto intro!: content_only_bind content_only_lift content_only_if read_record_content
      gather_records_content read_attribute_value_content read_nonresident_capped_content split: prod.splits)

lemma read_data_stream_content [intro]: "content_only (read_data_stream N H lz fs path strm cap)"
  unfolding read_data_stream_def resolve_path_def
  by (intro content_only_bind resolve_from_content read_data_by_record_content)

end

section \<open>Caps yield prefixes\<close>

text \<open>What \<open>read_data_by_record\<close> does once the records are gathered.\<close>

definition data_tail ::
  "nomicon \<Rightarrow> 'r host \<Rightarrow> (bytes \<Rightarrow> bytes option) \<Rightarrow> ntfs_fs \<Rightarrow> u64 \<Rightarrow> ustring option \<Rightarrow> u64 \<Rightarrow> bytes list \<Rightarrow>
   ('r, bytes) io" where
  "data_tail N H lz fs rnum strm max_bytes records =
     (let cs = cluster_size (fs_boot fs) in
     io_bind (io_lift (data_attributes N strm records)) (\<lambda>found.
     let residents = filter (\<lambda>f. is_resident (snd f)) found;
         fragments = filter (\<lambda>f. \<not> is_resident (snd f)) found in
     if residents \<noteq> [] then
       (case last residents of (r, a) \<Rightarrow>
          io_bind (\<lambda>rd. read_attribute_value N H lz rd r a cs) (\<lambda>v.
          io_lift (Ok (if length v > unat max_bytes then take (unat max_bytes) v else v))))
     else if fragments = [] then io_lift (Err (no_stream rnum strm))
     else let sorted_frags = sort_key frag_vcn fragments in
       io_bind (io_lift (concat_runlists sorted_frags)) (\<lambda>runs rd.
       read_nonresident_capped N H lz rd runs cs (frag_size (hd sorted_frags))
         (snd (hd sorted_frags)) max_bytes)))"

lemma read_data_by_record_tail:
  "read_data_by_record N H lz fs rnum strm cap =
     io_bind (read_record N H fs rnum) (\<lambda>rec.
     io_bind (gather_records N H lz fs rnum rec) (\<lambda>records.
     data_tail N H lz fs rnum strm cap records))"
  by (simp add: read_data_by_record_def data_tail_def Let_def)

lemma io_bind_both:
  assumes "io_bind m f rd = (Ok a, r1)" "io_bind m g rd = (Ok b, r2)"
  shows "\<exists>x rd'. m rd = (Ok x, rd') \<and> f x rd' = (Ok a, r1) \<and> g x rd' = (Ok b, r2)"
  using assms by (auto simp: io_bind_Ok)

definition unit_chunk :: "(bytes \<Rightarrow> bytes option) \<Rightarrow> u64 \<Rightarrow> u64 \<Rightarrow> nat \<Rightarrow> unit_acc \<Rightarrow> bytes option" where
  "unit_chunk lz uc ub room a =
     (if real_clusters a = 0 then Some (replicate (min (unat ub) room) 0)
      else if real_clusters a = uc then Some (real_bytes a)
      else map_option (take (unat ub)) (lz (real_bytes a)))"

lemma compressed_loop_unfold:
  "compressed_loop H lz rd cs uc ub target q out =
     (if \<not> length out < target then (Ok out, rd)
      else case gather_unit H rd cs uc q \<lparr>real_bytes = [], real_clusters = 0, got = 0\<rparr> of
        (Err e, rd') \<Rightarrow> (Err e, rd')
      | (Panic, rd') \<Rightarrow> (Panic, rd')
      | (Ok (q', a), rd') \<Rightarrow>
          if got a = 0 then (Ok out, rd')
          else case unit_chunk lz uc ub (target - length out) a of
            None \<Rightarrow> (Err (BadCompression ''LZNT1 decode failed''), rd')
          | Some c \<Rightarrow> compressed_loop H lz rd' cs uc ub target q' (out @ c))"
  by (subst compressed_loop.simps) (auto simp: unit_chunk_def split: prod.splits res.splits option.splits)

lemma compressed_loop_Ok:
  assumes "compressed_loop H lz rd cs uc ub target q out = (Ok res, rd')" "length out < target"
  obtains (stop) q1 a1 rd1 where
      "gather_unit H rd cs uc q \<lparr>real_bytes = [], real_clusters = 0, got = 0\<rparr> = (Ok (q1, a1), rd1)"
      "got a1 = 0" "res = out"
  | (more) q1 a1 rd1 c where
      "gather_unit H rd cs uc q \<lparr>real_bytes = [], real_clusters = 0, got = 0\<rparr> = (Ok (q1, a1), rd1)"
      "got a1 \<noteq> 0" "unit_chunk lz uc ub (target - length out) a1 = Some c"
      "compressed_loop H lz rd1 cs uc ub target q1 (out @ c) = (Ok res, rd')"
      "queue_clusters q1 < queue_clusters q"
  using assms
  by (subst (asm) compressed_loop_unfold)
     (auto split: prod.splits res.splits option.splits if_splits dest: gather_unit_fresh)

lemma compressed_loop_extends:
  "compressed_loop H lz rd cs uc ub target q out = (Ok res, rd') \<Longrightarrow> \<exists>s. res = out @ s"
proof (induction "queue_clusters q" arbitrary: q out rd rule: less_induct)
  case less
  show ?case
  proof (cases "length out < target")
    case True
    from less.prems True show ?thesis
    proof (cases rule: compressed_loop_Ok)
      case (more q1 a1 rd1 c)
      from less.hyps [OF more(5,4)] show ?thesis by auto
    qed simp
  next
    case False
    with less.prems show ?thesis
      by (subst (asm) compressed_loop_unfold) simp
  qed
qed

lemma unit_chunk_cap:
  assumes "unit_chunk lz uc ub n a = Some c" "unit_chunk lz uc ub m a = Some c'" "n \<le> m" "c \<noteq> c'"
  shows "length c = n \<and> (\<exists>s. c' = c @ s)"
proof -
  have c: "c = replicate (min (unat ub) n) 0" "c' = replicate (min (unat ub) m) 0"
    using assms by (auto simp: unit_chunk_def split: if_splits)
  with assms(3,4) have "n \<le> unat ub"
    by (auto simp: min_def split: if_splits)
  with c assms(3) show ?thesis
    by (auto simp: min_def intro: exI [of _ "replicate (min (unat ub) m - n) 0"] simp flip: replicate_add)
qed

lemma compressed_loop_cap:
  assumes "compressed_loop H lz rd cs uc ub t1 q out = (Ok a, rd1)"
    and "compressed_loop H lz rd cs uc ub t2 q out = (Ok b, rd2)" "t1 \<le> t2"
  shows "take t1 a = take t1 b"
  using assms
proof (induction "queue_clusters q" arbitrary: q out rd rule: less_induct)
  case less
  show ?case
  proof (cases "length out < t1")
    case False
    then have "a = out"
      using less.prems(1) by (subst (asm) compressed_loop_unfold) simp
    with False compressed_loop_extends [OF less.prems(2)] show ?thesis
      by auto
  next
    case lt: True
    then have lt2: "length out < t2"
      using less.prems(3) by simp
    from less.prems(1) lt show ?thesis
    proof (cases rule: compressed_loop_Ok)
      case st: (stop q1 a1 rd1)
      from less.prems(2) lt2 show ?thesis
        by (cases rule: compressed_loop_Ok) (use st in simp_all)
    next
      case (more q1 a1 rd1' c)
      obtain c' where
        c': "unit_chunk lz uc ub (t2 - length out) a1 = Some c'"
        "compressed_loop H lz rd1' cs uc ub t2 q1 (out @ c') = (Ok b, rd2)"
        using less.prems(2) lt2 by (cases rule: compressed_loop_Ok) (use more(1,2) in simp_all)
      show ?thesis
      proof (cases "c = c'")
        case True
        with less.hyps [OF more(5,4)] c' less.prems(3) show ?thesis
          by simp
      next
        case False
        have "t1 - length out \<le> t2 - length out"
          using less.prems(3) by simp
        from unit_chunk_cap [OF more(3) c'(1) this False] obtain s where
          "length c = t1 - length out" "c' = c @ s"
          by auto
        moreover have "a = out @ c"
          using more(4) lt \<open>length c = t1 - length out\<close> by (subst (asm) compressed_loop_unfold) simp
        ultimately show ?thesis
          using compressed_loop_extends [OF c'(2)] lt by auto
      qed
    qed
  qed
qed

lemma read_compressed_cap:
  assumes "read_compressed_runs_capped H lz rd runs cs rsize uc cap = (Ok a, rd1)"
    and "read_compressed_runs_capped H lz rd runs cs rsize uc (- 1) = (Ok b, rd2)"
  shows "a = take (unat cap) b"
proof -
  let ?q = "map (\<lambda>r. (lcn r, run_length r)) runs"
  have top: "min rsize (- 1) = rsize"
    by (simp add: min_def)
  obtain ub a' b' where l1: "compressed_loop H lz rd cs uc ub (unat (min rsize cap)) ?q [] = (Ok a', rd1)"
    and l2: "compressed_loop H lz rd cs uc ub (unat rsize) ?q [] = (Ok b', rd2)"
    and ab: "a = take (unat (min rsize cap)) a'" "b = take (unat rsize) b'"
    using assms by (auto simp: read_compressed_runs_capped_def Let_def top
        split: if_splits option.splits prod.splits res.splits)
  have "take (unat (min rsize cap)) a' = take (unat (min rsize cap)) b'"
    using compressed_loop_cap [OF l1 l2] by (simp add: unat_min)
  then show ?thesis
    by (simp add: ab unat_min min.commute)
qed

context medium
begin

lemma read_nonresident_cap:
  assumes "good rd" "read_nonresident_capped N H lz rd runs cs rsize a cap = (Ok part, rd1)"
    and "read_nonresident_capped N H lz rd runs cs rsize a (- 1) = (Ok full, rd2)"
  shows "part = take (unat cap) full"
proof (cases "is_compressed N a \<and> compression_unit a \<noteq> 0")
  case True
  with assms(2,3) show ?thesis
    by (auto simp: read_nonresident_capped_def Let_def split: option.splits intro: read_compressed_cap)
next
  case False
  have "unat rsize \<le> unat (- 1 :: u64)"
    using word_order.extremum [of rsize] by (simp only: word_le_nat_alt)
  with False assms show ?thesis
    using read_runs_capped_sound [OF assms(1), of runs cs rsize cap part rd1]
      read_runs_capped_sound [OF assms(1), of runs cs rsize "- 1" full rd2]
    by (auto simp: read_nonresident_capped_def Let_def min_absorb1 min.commute)
qed

lemma read_data_by_record_cap:
  assumes "good rd" "read_data_by_record N H lz fs n strm cap rd = (Ok part, rd1)"
    and "read_data_by_record N H lz fs n strm (- 1) rd = (Ok full, rd2)"
  shows "part = take (unat cap) full"
proof -
  have neg1: "unat cap \<le> unat (- 1 :: u64)"
    using word_order.extremum [of cap] by (simp only: word_le_nat_alt)
  from assms(2,3) obtain rec rd' where r: "read_record N H fs n rd = (Ok rec, rd')"
    and k: "io_bind (gather_records N H lz fs n rec) (\<lambda>records. data_tail N H lz fs n strm cap records) rd' = (Ok part, rd1)"
      "io_bind (gather_records N H lz fs n rec) (\<lambda>records. data_tail N H lz fs n strm (- 1) records) rd' = (Ok full, rd2)"
    unfolding read_data_by_record_tail by (blast dest: io_bind_both)
  from k obtain records rd'' where g: "gather_records N H lz fs n rec rd' = (Ok records, rd'')"
    and tl: "data_tail N H lz fs n strm cap records rd'' = (Ok part, rd1)"
      "data_tail N H lz fs n strm (- 1) records rd'' = (Ok full, rd2)"
    by (blast dest: io_bind_both)
  have "good rd''"
    using content_onlyE(1) [OF read_record_content assms(1), of N fs n]
      content_onlyE(1) [OF gather_records_content, of rd' N lz fs n rec] r g by simp
  show ?thesis
  proof (cases "data_attributes N strm records")
    case (Ok found)
    let ?res = "filter (\<lambda>f. is_resident (snd f)) found"
    show ?thesis
    proof (cases "?res = []")
      case True
      with tl Ok show ?thesis
        using read_nonresident_cap [OF \<open>good rd''\<close>]
        by (auto simp: data_tail_def Let_def io_bind_Ok split: if_splits)
    next
      case False
      obtain r a where last: "last ?res = (r, a)"
        by (cases "last ?res")
      from tl Ok False last show ?thesis
        using neg1 by (auto simp: data_tail_def Let_def io_bind_Ok min_absorb1 split: if_splits)
    qed
  qed (use tl in \<open>simp_all add: data_tail_def\<close>)
qed

end

section \<open>The block loop is never cut short\<close>

lemma index_blocks_enough:
  assumes "0 < irs" "(length data - off) div irs \<le> n" "n \<le> m"
  shows "index_blocks N m off data irs ss = index_blocks N n off data irs ss"
  using assms(2,3)
proof (induction n arbitrary: off m)
  case 0
  then have "\<not> off + irs \<le> length data"
    using assms(1) by (auto simp: div_eq_0_iff)
  then show ?case by (cases m) auto
next
  case (Suc n)
  then obtain k where m: "m = Suc k" "n \<le> k"
    by (cases m) auto
  show ?case
  proof (cases "off + irs \<le> length data")
    case True
    then have "length data - off = irs + (length data - (off + irs))"
      by simp
    then have "(length data - off) div irs = (irs + (length data - (off + irs))) div irs"
      by (rule arg_cong)
    also have "\<dots> = Suc ((length data - (off + irs)) div irs)"
      using assms(1) by (subst div_add_self1) simp_all
    finally have "(length data - (off + irs)) div irs \<le> n"
      using Suc.prems(1) by linarith
    then show ?thesis
      using Suc.IH [of "off + irs" k] m by simp
  qed (simp add: m)
qed

section \<open>Paths compose\<close>

lemma resolve_from_append:
  "resolve_from N H lz fs n (xs @ ys) =
     io_bind (resolve_from N H lz fs n xs) (\<lambda>m. resolve_from N H lz fs m ys)"
  by (induction xs arbitrary: n) (simp_all add: io_bind_assoc)

lemma split_path_append:
  "c = 0x5C \<or> c = 0x2F \<Longrightarrow> split_path acc (p @ c # q) = split_path acc p @ split_path [] q"
  by (induction acc p rule: split_path.induct) auto

lemma path_components_append:
  "c = 0x5C \<or> c = 0x2F \<Longrightarrow> path_components (p @ c # q) = path_components p @ path_components q"
  by (simp add: path_components_def split_path_append)

section \<open>Records\<close>

context medium
begin

lemma read_record_slice:
  assumes "good rd" "length (disk rd) < 2 ^ 64"
    and "list_all (run_on_disk (disk rd) (unat (cluster_size (fs_boot fs)))) (fs_mft_runs fs)"
    and "allocated_bytes (unat (cluster_size (fs_boot fs))) (fs_mft_runs fs) < 2 ^ 64"
    and "mem_reserve H (unat (mft_record_size (fs_boot fs)))" "mft_record_size (fs_boot fs) \<noteq> 0"
  shows "\<exists>rd'. good rd' \<and> disk rd' = disk rd \<and>
    (let rs = unat (mft_record_size (fs_boot fs)); cs = unat (cluster_size (fs_boot fs));
         mft = stream (disk rd) cs (fs_mft_runs fs) in
     (unat n * rs + rs \<le> length mft \<longrightarrow> read_record N H fs n rd =
        (fixup N (take rs (drop (unat n * rs) mft)) (unat (bytes_per_sector (fs_boot fs))), rd')) \<and>
     (length mft < unat n * rs + rs \<longrightarrow> (\<exists>m. read_record N H fs n rd = (Err (BadRunlist m), rd'))))"
proof -
  let ?rs = "mft_record_size (fs_boot fs)" and ?cs = "cluster_size (fs_boot fs)"
  have len: "length (stream (disk rd) (unat ?cs) (fs_mft_runs fs)) = allocated_bytes (unat ?cs) (fs_mft_runs fs)"
    using assms(3) by (rule length_stream_on_disk)
  show ?thesis
  proof (cases "unat n * unat ?rs < 2 ^ 64")
    case True
    then have m: "checked_mul n ?rs = Some (n * ?rs)" "unat (n * ?rs) = unat n * unat ?rs"
      by (simp_all add: checked_mul_def unat_word_ariths)
    obtain rd' where v: "read_virtual H (fs_mft_runs fs) ?cs (n * ?rs) ?rs rd =
        (if unat n * unat ?rs + unat ?rs \<le> allocated_bytes (unat ?cs) (fs_mft_runs fs)
         then Ok (take (unat ?rs) (drop (unat n * unat ?rs) (stream (disk rd) (unat ?cs) (fs_mft_runs fs))))
         else Err (BadRunlist ''read past end of runs''), rd')" "good rd'" "disk rd' = disk rd"
      using read_virtual_slice [OF assms(1-5), of "n * ?rs"] assms(6) m(2) by auto
    then show ?thesis
      by (auto simp: read_record_def Let_def m(1) len io_bind_def)
  next
    case False
    then have "read_record N H fs n rd = (Err (BadRunlist ''record offset overflow''), rd)"
      by (simp add: read_record_def checked_mul_def)
    with False assms(1,4) show ?thesis
      by (auto simp: Let_def len)
  qed
qed

end

section \<open>A volume of one record\<close>

definition tiny_record :: bytes where
  "tiny_record = [70, 73, 76, 69, 48, 0, 2, 0, 0, 0, 0, 0, 0, 0, 0, 0, 1, 0, 1, 0, 56, 0, 1, 0,
     88, 0, 0, 0, 96, 0, 0, 0, 0, 0, 0, 0, 0, 0, 0, 0, 0, 0, 0, 0, 0, 0, 0, 0,
     7, 0, 0, 0, 0, 0, 0, 0,
     0x80, 0, 0, 0, 28, 0, 0, 0, 0, 0, 0, 0, 0, 0, 0, 0, 4, 0, 0, 0, 24, 0, 0, 0, 1, 2, 3, 4,
     0xFF, 0xFF, 0xFF, 0xFF, 0, 0, 0, 0, 0, 0, 7, 0]"

definition tiny_fs :: ntfs_fs where
  "tiny_fs = \<lparr>fs_boot = \<lparr>bytes_per_sector = 96, sectors_per_cluster = 1, total_sectors = 1,
     mft_lcn = 0, mftmirr_lcn = 0, mft_record_size = 96, index_record_size = 256, volume_serial = 0\<rparr>,
     fs_mft_runs = [\<lparr>run_length = 1, lcn = Some 0\<rparr>]\<rparr>"

definition tiny_disk :: cursor where
  "tiny_disk = \<lparr>cur_bytes = tiny_record, cur_pos = 3\<rparr>"

definition tiny_data :: attribute where
  "tiny_data = \<lparr>type_code = 0x80, attr_length = 28, non_resident = False, attr_name = None,
     attr_flags = 0, attribute_id = 0, attr_offset = 56, attr_body = Resident 24 4\<rparr>"

lemma tiny_fixup: "fixup ntfs_layout tiny_record 96 = Ok (tiny_record[94 := 0])"
  by (simp add: fixup_def apply_fixup_def HEADER_LEN_def tiny_record_def layout_defs le_u16_def
      get_range_def from_le_bytes_def usize_checked_add_def usize_checked_mul_def fixup_sector_def
      numeral_eq_Suc [of num.One] cong: and_then_weak_cong)

lemma tiny_geometry:
  "cluster_size (fs_boot tiny_fs) = 96" "cursor_good tiny_disk"
  "stream tiny_record 96 (fs_mft_runs tiny_fs) = tiny_record"
  "list_all (run_on_disk tiny_record 96) (fs_mft_runs tiny_fs)"
  "allocated_bytes 96 (fs_mft_runs tiny_fs) = 96"
  "mft_record_size (fs_boot tiny_fs) = 96" "bytes_per_sector (fs_boot tiny_fs) = 96"
  "cur_bytes tiny_disk = tiny_record" "length tiny_record = 96" "mem_reserve cursor_host n"
  by (simp_all add: cursor_host_def tiny_fs_def cluster_size_def tiny_disk_def cursor_good_def stream_def
      run_content_def run_on_disk_def allocated_bytes_def tiny_record_def)

lemma tiny_read_record:
  "\<exists>rd. read_record ntfs_layout cursor_host tiny_fs 0 tiny_disk = (Ok (tiny_record[94 := 0]), rd)"
  using disk_cursor.read_record_slice [of tiny_disk tiny_fs 0 ntfs_layout] tiny_geometry tiny_fixup
  by (auto simp: Let_def)

lemma tiny_attributes: "record_attributes ntfs_layout (tiny_record[94 := 0]) = Ok [tiny_data]"
  by (simp add: record_attributes_def header_parse_def HEADER_LEN_def tiny_record_def tiny_data_def
      parse_attributes_def MAX_ATTRIBUTES_def attributes_loop_numeral parse_one_def parse_attr_name_def
      parse_attr_body_def layout_defs HEADER_MIN_def RESIDENT_MIN_def le_read_defs get_range_def
      from_le_bytes_def usize_checked_add_def idx_def arr_def slice_def cong: and_then_weak_cong)

lemma tiny_read_data:
  "\<exists>rd. read_data_by_record ntfs_layout cursor_host lz tiny_fs 0 None cap tiny_disk =
     (Ok (take (unat cap) [1, 2, 3, 4]), rd)"
proof -
  obtain rd where r: "read_record ntfs_layout cursor_host tiny_fs 0 tiny_disk = (Ok (tiny_record[94 := 0]), rd)"
    using tiny_read_record by blast
  have "resident_content tiny_data (tiny_record[94 := 0]) = Some [1, 2, 3, 4]"
    by (simp add: resident_content_def tiny_data_def tiny_record_def usize_checked_add_def get_range_def)
  moreover have "type_code tiny_data = 0x80" "attr_name tiny_data = None" "attr_body tiny_data = Resident 24 4"
    "T_DATA (attr_ty ntfs_layout) = 0x80" "T_ATTRIBUTE_LIST (attr_ty ntfs_layout) = 0x20"
    by (simp_all add: tiny_data_def layout_defs)
  ultimately show ?thesis
    by (simp add: read_data_by_record_def io_bind_def r gather_records_def tiny_attributes is_resident_def
        read_attribute_value_def)
qed

section \<open>Properties\<close>

text \<open>
  Claim C9. Record lookup is correct over a fragmented \<open>$MFT\<close>: through any fault-free source
  and wherever the runs of the \<open>$MFT\<close> lie, record \<open>n\<close> is the fixed-up \<open>n\<close>-th slice of the
  flat stream the runs describe, and a number past its end is a runlist error.
\<close>

theorem read_record_correct:
  assumes "medium H good disk at" "good rd" "length (disk rd) < 2 ^ 64"
    and "list_all (run_on_disk (disk rd) (unat (cluster_size (fs_boot fs)))) (fs_mft_runs fs)"
    and "allocated_bytes (unat (cluster_size (fs_boot fs))) (fs_mft_runs fs) < 2 ^ 64"
    and "mem_reserve H (unat (mft_record_size (fs_boot fs)))" "mft_record_size (fs_boot fs) \<noteq> 0"
  shows "let rs = unat (mft_record_size (fs_boot fs)); cs = unat (cluster_size (fs_boot fs));
             mft = stream (disk rd) cs (fs_mft_runs fs) in
    if unat n * rs + rs \<le> length mft
    then fst (read_record N H fs n rd) =
      fixup N (take rs (drop (unat n * rs) mft)) (unat (bytes_per_sector (fs_boot fs)))
    else \<exists>m. fst (read_record N H fs n rd) = Err (BadRunlist m)"
proof -
  obtain rd' where "let rs = unat (mft_record_size (fs_boot fs)); cs = unat (cluster_size (fs_boot fs));
        mft = stream (disk rd) cs (fs_mft_runs fs) in
     (unat n * rs + rs \<le> length mft \<longrightarrow> read_record N H fs n rd =
        (fixup N (take rs (drop (unat n * rs) mft)) (unat (bytes_per_sector (fs_boot fs))), rd')) \<and>
     (length mft < unat n * rs + rs \<longrightarrow> (\<exists>m. read_record N H fs n rd = (Err (BadRunlist m), rd')))"
    using medium.read_record_slice [OF assms, of n N] by blast
  then show ?thesis
    unfolding Let_def not_le [symmetric] by (metis fst_conv)
qed

theorem read_record_correct_witness:
  "fst (read_record ntfs_layout cursor_host tiny_fs 0 tiny_disk) = fixup ntfs_layout tiny_record 96 \<and>
   (\<exists>m. fst (read_record ntfs_layout cursor_host tiny_fs 1 tiny_disk) = Err (BadRunlist m))"
  using read_record_correct [OF disk_cursor.medium_axioms, of tiny_disk tiny_fs 0 ntfs_layout]
    read_record_correct [OF disk_cursor.medium_axioms, of tiny_disk tiny_fs 1 ntfs_layout]
  by (simp add: tiny_geometry Let_def)

text \<open>
  A size cap yields a true prefix for every stream of every file, resident, split over
  extension records or compressed: over a fault-free source a capped read that succeeds
  returns the first \<open>max_bytes\<close> bytes of the full value.
\<close>

theorem read_data_cap_prefix:
  assumes "medium H good disk at" "good rd"
    and "read_data_by_record N H lz fs n strm (- 1) rd = (Ok full, rd2)"
    and "read_data_by_record N H lz fs n strm cap rd = (Ok part, rd1)"
  shows "part = take (unat cap) full"
  by (rule medium.read_data_by_record_cap [OF assms(1,2,4,3)])

theorem read_data_cap_prefix_witness:
  "\<exists>rd1 rd2. read_data_by_record ntfs_layout cursor_host (\<lambda>_. None) tiny_fs 0 None (- 1) tiny_disk =
       (Ok [1, 2, 3, 4], rd2) \<and>
     read_data_by_record ntfs_layout cursor_host (\<lambda>_. None) tiny_fs 0 None 3 tiny_disk =
       (Ok (take 3 [1, 2, 3, 4]), rd1)"
proof -
  have "unat (3 :: u64) \<le> unat (- 1 :: u64)" "unat (4 :: u64) \<le> unat (- 1 :: u64)"
    using word_order.extremum [of "3 :: u64"] word_order.extremum [of "4 :: u64"]
    by (simp_all only: word_le_nat_alt)
  then have "take (unat (- 1 :: u64)) [1, 2, 3, 4 :: u8] = [1, 2, 3, 4]"
    by (intro take_all) simp
  then obtain rd2 where full: "read_data_by_record ntfs_layout cursor_host (\<lambda>_. None) tiny_fs 0 None (- 1) tiny_disk =
      (Ok [1, 2, 3, 4], rd2)"
    using tiny_read_data [of "\<lambda>_. None" "- 1"] by metis
  obtain part rd1 where part: "read_data_by_record ntfs_layout cursor_host (\<lambda>_. None) tiny_fs 0 None 3 tiny_disk =
      (Ok part, rd1)"
    using tiny_read_data [of "\<lambda>_. None" 3] by blast
  have "part = take (unat (3 :: u64)) [1, 2, 3, 4]"
    by (rule read_data_cap_prefix [OF disk_cursor.medium_axioms _ full part]) (simp add: tiny_geometry)
  with full part show ?thesis by simp
qed

text \<open>
  Path resolution composes: a path with a separator, of either kind, resolves to what
  the second part resolves to from the directory the first part names; empty components
  are ignored.
\<close>

theorem resolve_path_compose:
  "resolve_path N H lz fs (p @ 0x2F # q) =
     io_bind (resolve_path N H lz fs p) (\<lambda>n. resolve_from N H lz fs n (path_components q)) \<and>
   resolve_path N H lz fs (p @ 0x5C # q) = resolve_path N H lz fs (p @ 0x2F # q)"
  by (simp add: resolve_path_def path_components_append resolve_from_append)

end
