(* ===== verification/Fs_Paths.thy ===== *)
theory Fs_Paths
  imports Fs
begin

text \<open>
  Path resolution (\<open>resolve_path\<close> of \<open>core/src/fs.rs\<close>) against an abstract directory graph: \<open>leads dirs
  n cs k\<close> walks the names \<open>cs\<close> from record \<open>n\<close> to record \<open>k\<close>, taking in each directory the first
  entry whose name agrees up to the case of ASCII letters.
\<close>

section \<open>The directory graph\<close>

definition entry_names :: "index_entry list \<Rightarrow> (ustring \<times> u64) list" where
  "entry_names es =
     List.map_filter (\<lambda>e. map_option (\<lambda>f. (fn_name f, fr_record_number (ie_file_reference e))) (ie_file_name e)) es"

definition dir_listing ::
  "nomicon \<Rightarrow> 'r host \<Rightarrow> (bytes \<Rightarrow> bytes option) \<Rightarrow> ntfs_fs \<Rightarrow> u64 \<Rightarrow> ('r, (ustring \<times> u64) list) io" where
  "dir_listing N H lz fs n =
     io_bind (read_record N H fs n) (\<lambda>rec.
     io_bind (directory_entries N H lz fs rec) (\<lambda>entries.
     io_lift (Ok (entry_names entries))))"

text \<open>The graph as the source shows it: the names a record lists, where it is a readable directory.\<close>

definition dir_graph ::
  "nomicon \<Rightarrow> 'r host \<Rightarrow> (bytes \<Rightarrow> bytes option) \<Rightarrow> ntfs_fs \<Rightarrow> 'r \<Rightarrow> u64 \<Rightarrow> (ustring \<times> u64) list option" where
  "dir_graph N H lz fs rd n =
     (case fst (dir_listing N H lz fs n rd) of Ok names \<Rightarrow> Some names | _ \<Rightarrow> None)"

definition pick :: "ustring \<Rightarrow> (ustring \<times> u64) list \<Rightarrow> u64 option" where
  "pick name names = map_option snd (find (\<lambda>e. eq_ignore_ascii_case (fst e) name) names)"

inductive leads :: "(u64 \<Rightarrow> (ustring \<times> u64) list option) \<Rightarrow> u64 \<Rightarrow> ustring list \<Rightarrow> u64 \<Rightarrow> bool"
  for dirs where
  leads_here: "leads dirs n [] n"
| leads_down: "dirs n = Some names \<Longrightarrow> pick c names = Some m \<Longrightarrow> leads dirs m cs k \<Longrightarrow> leads dirs n (c # cs) k"

inductive_simps leads_simps [simp]: "leads dirs n [] k" "leads dirs n (c # cs) k"

lemma leads_append: "leads dirs n (cs @ ds) k \<longleftrightarrow> (\<exists>m. leads dirs n cs m \<and> leads dirs m ds k)"
  by (induction cs arbitrary: n) auto

lemma leads_cong:
  assumes "map (map ascii_lower) cs = map (map ascii_lower) ds"
  shows "leads dirs n cs k \<longleftrightarrow> leads dirs n ds k"
  using assms
proof (induction cs arbitrary: n ds)
  case (Cons c cs)
  then obtain d ds' where ds: "ds = d # ds'" "map ascii_lower c = map ascii_lower d"
    "map (map ascii_lower) cs = map (map ascii_lower) ds'"
    by (cases ds) auto
  have "pick c names = pick d names" for names
    using ds(2) by (simp add: pick_def eq_ignore_ascii_case_def)
  with Cons.IH [OF ds(3)] ds(1) show ?case
    by simp
qed simp

section \<open>Paths\<close>

text \<open>Both separators are the same character, and so are the two cases of an ASCII letter.\<close>

definition path_fold :: "nat \<Rightarrow> nat" where
  "path_fold c = (if c = 0x2F then 0x5C else ascii_lower c)"

lemma path_fold_sep: "path_fold c = 0x5C \<longleftrightarrow> c = 0x5C \<or> c = 0x2F"
  by (auto simp: path_fold_def ascii_lower_def)

lemma split_path_fold:
  assumes "map path_fold p = map path_fold q" "map ascii_lower a = map ascii_lower b"
  shows "map (map ascii_lower) (split_path a p) = map (map ascii_lower) (split_path b q)"
  using assms
proof (induction p arbitrary: q a b)
  case (Cons c p)
  then obtain d q' where q: "q = d # q'" "path_fold c = path_fold d" "map path_fold p = map path_fold q'"
    by (cases q) auto
  show ?case
  proof (cases "c = 0x5C \<or> c = 0x2F")
    case True
    then have "d = 0x5C \<or> d = 0x2F"
      using q(2) path_fold_sep by metis
    then show ?thesis
      using True Cons.IH [OF q(3), of "[]" "[]"] Cons.prems(2) by (auto simp: q(1) rev_map [symmetric])
  next
    case False
    then have d: "\<not> (d = 0x5C \<or> d = 0x2F)"
      using q(2) path_fold_sep by metis
    then have "ascii_lower c = ascii_lower d"
      using False q(2) by (simp add: path_fold_def)
    then show ?thesis
      using False d Cons.IH [OF q(3), of "c # a" "d # b"] Cons.prems(2) by (simp add: q(1))
  qed
qed (simp add: rev_map [symmetric])

lemma path_components_fold:
  assumes "map path_fold p = map path_fold q"
  shows "map (map ascii_lower) (path_components p) = map (map ascii_lower) (path_components q)"
proof -
  have "map (map ascii_lower) (path_components r) = filter (\<lambda>c. c \<noteq> []) (map (map ascii_lower) (split_path [] r))" for r
    by (simp add: path_components_def filter_map o_def)
  then show ?thesis
    using split_path_fold [OF assms, of "[]" "[]"] by simp
qed

section \<open>Resolution walks the graph\<close>

lemma find_child_pick: "find_child c es = pick c (entry_names es)"
  by (induction es) (auto simp: pick_def entry_names_def List.map_filter_simps split: option.splits)

lemma resolve_from_listing:
  "resolve_from N H lz fs n (c # cs) =
     io_bind (dir_listing N H lz fs n) (\<lambda>names.
     io_bind (io_lift (ok_or (pick c names) (NotFound c))) (\<lambda>m. resolve_from N H lz fs m cs))"
  by (rule ext) (auto simp: dir_listing_def find_child_pick io_bind_def split: prod.splits res.splits)

context medium
begin

lemma dir_listing_content: "content_only (dir_listing N H lz fs n)"
  unfolding dir_listing_def
  by (intro content_only_bind content_only_lift read_record_content directory_entries_content)

lemma resolve_from_leads:
  assumes "good rd" "good rd0" "disk rd0 = disk rd"
  shows "fst (resolve_from N H lz fs n cs rd) = Ok k \<longleftrightarrow>
    leads (dir_graph N H lz fs rd0) n cs k"
  using assms
proof (induction cs arbitrary: n rd)
  case (Cons c cs)
  obtain x rd1 where l: "dir_listing N H lz fs n rd = (x, rd1)"
    by fastforce
  have same: "fst (dir_listing N H lz fs n rd0) = x"
    using content_onlyE(3) [OF dir_listing_content Cons.prems(1,2,3)] l by auto
  have rd1: "good rd1" "disk rd0 = disk rd1"
    using content_onlyE(1,2) [OF dir_listing_content Cons.prems(1), of N lz fs n] l Cons.prems(3) by auto
  show ?case
  proof (cases x)
    case (Ok names)
    then show ?thesis
      unfolding resolve_from_listing using l same Cons.IH [OF rd1(1) Cons.prems(2) rd1(2)]
      by (cases "pick c names") (auto simp: io_bind_def dir_graph_def)
  qed (use l same in \<open>auto simp: resolve_from_listing io_bind_def dir_graph_def simp del: resolve_from.simps\<close>)
qed auto

end

section \<open>A volume of directories\<close>

text \<open>Every record is the same directory, whose one entry \<open>a\<close> is record five again.\<close>

definition dir_record :: bytes where
  "dir_record = [
     70, 73, 76, 69, 48, 0, 2, 0, 0, 0, 0, 0, 0, 0, 0, 0, 4, 0, 1, 0, 56, 0, 3, 0, 224, 0, 0, 0, 0, 1,
     0, 0, 0, 0, 0, 0, 0, 0, 0, 0, 3, 0, 0, 0, 5, 0, 0, 0, 7, 0, 0, 0, 0, 0, 0, 0, 144, 0, 0, 0, 160,
     0, 0, 0, 0, 0, 24, 0, 0, 0, 1, 0, 136, 0, 0, 0, 24, 0, 0, 0, 48, 0, 0, 0, 1, 0, 0, 0, 0, 16, 0, 0,
     1, 0, 0, 0, 16, 0, 0, 0, 120, 0, 0, 0, 120, 0, 0, 0, 0, 0, 0, 0, 5, 0, 0, 0, 0, 0, 5, 0, 88, 0,
     68, 0, 0, 0, 0, 0, 5, 0, 0, 0, 0, 0, 5, 0, 0, 0, 0, 0, 0, 0, 0, 0, 0, 0, 0, 0, 0, 0, 0, 0, 0, 0,
     0, 0, 0, 0, 0, 0, 0, 0, 0, 0, 0, 0, 0, 0, 0, 0, 0, 0, 0, 0, 0, 0, 0, 0, 0, 0, 0, 0, 0, 0, 0, 0, 0,
     0, 0, 0, 0, 0, 1, 1, 97, 0, 0, 0, 0, 0, 0, 0, 0, 0, 0, 0, 0, 0, 16, 0, 0, 0, 2, 0, 0, 0, 255, 255,
     255, 255] @ replicate 34 0 @ [7, 0]"

definition dir_fixed :: bytes where
  "dir_fixed = dir_record[254 := 0]"

definition dir_fs :: ntfs_fs where
  "dir_fs = \<lparr>fs_boot = \<lparr>bytes_per_sector = 256, sectors_per_cluster = 1, total_sectors = 6, mft_lcn = 0,
     mftmirr_lcn = 0, mft_record_size = 256, index_record_size = 256, volume_serial = 0\<rparr>,
     fs_mft_runs = replicate 6 \<lparr>run_length = 1, lcn = Some 0\<rparr>\<rparr>"

definition dir_disk :: cursor where
  "dir_disk = \<lparr>cur_bytes = dir_record, cur_pos = 0\<rparr>"

definition dir_attr :: attribute where
  "dir_attr = \<lparr>type_code = 0x90, attr_length = 160, non_resident = False, attr_name = None,
     attr_flags = 0, attribute_id = 1, attr_offset = 56, attr_body = Resident 24 136\<rparr>"

lemma length_dir: "length dir_record = 256" "length dir_fixed = 256"
  by (simp_all add: dir_record_def dir_fixed_def)

lemma dir_fixup: "fixup ntfs_layout dir_record 256 = Ok dir_fixed"
  by (simp add: fixup_def apply_fixup_def HEADER_LEN_def dir_record_def dir_fixed_def layout_defs le_u16_def
      get_range_def from_le_bytes_def usize_checked_add_def usize_checked_mul_def fixup_sector_def
      numeral_eq_Suc [of num.One] nth_append list_update_append cong: and_then_weak_cong)

lemma dir_attributes: "record_attributes ntfs_layout dir_fixed = Ok [dir_attr]"
  by (simp add: record_attributes_def header_parse_def HEADER_LEN_def dir_record_def dir_fixed_def dir_attr_def
      parse_attributes_def MAX_ATTRIBUTES_def attributes_loop_numeral parse_one_def parse_attr_name_def
      parse_attr_body_def layout_defs HEADER_MIN_def RESIDENT_MIN_def NONRESIDENT_MIN_def le_read_defs get_range_def
      from_le_bytes_def usize_checked_add_def usize_checked_mul_def idx_def arr_def slice_def
      is_high_def is_low_def cong: and_then_weak_cong)

lemma dir_content: "resident_content dir_attr dir_fixed = Some (take 136 (drop 80 dir_fixed))"
  by (simp add: resident_content_def dir_attr_def usize_checked_add_def get_range_def length_dir)

lemma dir_node: "take 136 (drop 80 dir_fixed) = take 136 (drop 80 dir_record)"
  by (simp add: dir_fixed_def drop_update_swap take_update_cancel length_dir)

lemma dir_steps:
  defines "node \<equiv> take 136 (drop 80 dir_fixed)"
  shows "\<exists>e. index_step node 136 32 = Ok (Continue e 120) \<and> entry_names [e] = [([97], 5)]"
    "\<exists>e. index_step node 136 120 = Ok (Last e) \<and> ie_file_name e = None"
  unfolding node_def dir_node
  by (simp_all add: dir_record_def index_step_def index_consts le_read_defs get_range_def from_le_bytes_def
      usize_checked_add_def idx_def arr_def slice_def entry_child_vcn_def entry_file_name_def file_name_parse_def
      FN_MIN_def usize_checked_mul_def file_reference_from_u64_def is_high_def is_low_def entry_names_def List.map_filter_simps Let_def cong: and_then_weak_cong)

lemma dir_root: "\<exists>root. index_root_parse (take 136 (drop 80 dir_fixed)) = Ok root \<and> \<not> is_large root \<and>
    entry_names (filter (\<lambda>e. ie_file_name e \<noteq> None) (root_entries root)) = [([97], 5)]"
proof -
  let ?node = "take 136 (drop 80 dir_fixed)"
  obtain e l where e: "index_step ?node 136 32 = Ok (Continue e 120)" "entry_names [e] = [([97], 5)]"
    and l: "index_step ?node 136 120 = Ok (Last l)" "ie_file_name l = None"
    using dir_steps by blast
  have "walk (index_step ?node 136) (Suc (Suc n)) 32 = Ok [e, l]" for n
    by (simp add: e(1) l(1))
  from this [of "IX_MAX_ENTRIES - 2"] have "parse_entries ?node 32 136 = Ok [e, l]"
    by (simp add: parse_entries_def length_dir IX_MAX_ENTRIES_def)
  moreover have "le_u32 ?node 16 = 16" "le_u32 ?node 20 = 120" "le_u32 ?node 28 = 0"
    unfolding dir_node by (simp_all add: dir_record_def le_read_defs get_range_def from_le_bytes_def)
  ultimately have "parse_index_header ?node 16 = Ok ([e, l], False)"
    by (simp add: parse_index_header_def length_dir index_consts usize_checked_add_def Let_def)
  moreover have "ie_file_name e \<noteq> None"
    using e(2) by (auto simp: entry_names_def List.map_filter_simps split: option.splits)
  ultimately show ?thesis
    using e(2) l(2) by (simp add: index_root_parse_def index_consts length_dir)
qed

lemma dir_facts:
  "cursor_good dir_disk" "cur_bytes dir_disk = dir_record" "mft_record_size (fs_boot dir_fs) = 256"
  "bytes_per_sector (fs_boot dir_fs) = 256" "cluster_size (fs_boot dir_fs) = 256"
  "list_all (run_on_disk dir_record 256) (fs_mft_runs dir_fs)" "allocated_bytes 256 (fs_mft_runs dir_fs) = 1536"
  "stream dir_record 256 (fs_mft_runs dir_fs) = concat (replicate 6 dir_record)"
  "mem_reserve cursor_host n" "ROOT_RECORD ntfs_layout = 5"
  by (simp_all add: dir_disk_def cursor_good_def cursor_host_def length_dir dir_fs_def cluster_size_def list_all_iff
      run_on_disk_def allocated_bytes_def sum_list_replicate stream_def run_content_def layout_defs)

lemma dir_listed: "fst (dir_listing ntfs_layout cursor_host lz dir_fs 5 dir_disk) = Ok [([97], 5)]"
proof -
  have "concat (replicate 6 dir_record) = concat (replicate 5 dir_record) @ dir_record"
    using replicate_add [of 5 1 dir_record] by simp
  then have "take 256 (drop 1280 (concat (replicate 6 dir_record))) = dir_record"
    by (simp add: length_dir length_concat sum_list_replicate)
  then obtain rd where "read_record ntfs_layout cursor_host dir_fs 5 dir_disk = (Ok dir_fixed, rd)"
    using disk_cursor.read_record_slice [of dir_disk dir_fs 5 ntfs_layout] dir_fixup dir_facts
    by (auto simp: Let_def dir_facts length_dir length_concat sum_list_replicate)
  moreover have "type_code dir_attr = T_INDEX_ROOT (attr_ty ntfs_layout)"
    by (simp add: dir_attr_def layout_defs)
  moreover obtain root where "index_root_parse (take 136 (drop 80 dir_fixed)) = Ok root" "\<not> is_large root"
      "entry_names (filter (\<lambda>e. ie_file_name e \<noteq> None) (root_entries root)) = [([97], 5)]"
    using dir_root by blast
  ultimately show ?thesis
    by (simp add: dir_listing_def io_bind_def directory_entries_def dir_attributes dir_content)
qed

section \<open>Property\<close>

text \<open>
  Claim C11. Resolving a path walks the directory graph of the volume. Over a fault-free source,
  from wherever it stands, a path resolves to a record exactly when its components lead there
  from the root, in each directory through the first entry whose name agrees up to the case of
  ASCII letters. A path joined from two with either separator resolves to what the second leads to
  from where the first does, and neither the separators used nor the case of ASCII letters matter.
\<close>

theorem resolve_path_walks:
  assumes m: "medium H good disk at" and g: "good rd"
  shows "(\<forall>r. good r \<and> disk r = disk rd \<longrightarrow>
      (fst (resolve_path N H lz fs path r) = Ok k \<longleftrightarrow> leads (dir_graph N H lz fs rd) (ROOT_RECORD N) (path_components path) k)) \<and>
    (\<forall>p s q. path = p @ s # q \<and> (s = 0x5C \<or> s = 0x2F) \<longrightarrow>
      (fst (resolve_path N H lz fs path rd) = Ok k \<longleftrightarrow>
        (\<exists>n. fst (resolve_path N H lz fs p rd) = Ok n \<and> leads (dir_graph N H lz fs rd) n (path_components q) k))) \<and>
    (\<forall>q. map path_fold q = map path_fold path \<longrightarrow>
      (fst (resolve_path N H lz fs q rd) = Ok k \<longleftrightarrow> fst (resolve_path N H lz fs path rd) = Ok k))"
proof -
  have walk: "fst (resolve_path N H lz fs p r) = Ok n \<longleftrightarrow> leads (dir_graph N H lz fs rd) (ROOT_RECORD N) (path_components p) n"
    if "good r" "disk r = disk rd" for r p n
    unfolding resolve_path_def
    by (rule medium.resolve_from_leads [OF m that(1) g that(2) [symmetric]])
  show ?thesis
  proof (intro conjI allI impI)
    show "fst (resolve_path N H lz fs path r) = Ok k \<longleftrightarrow>
        leads (dir_graph N H lz fs rd) (ROOT_RECORD N) (path_components path) k" if "good r \<and> disk r = disk rd" for r
      using walk that by blast
    show "fst (resolve_path N H lz fs path rd) = Ok k \<longleftrightarrow>
        (\<exists>n. fst (resolve_path N H lz fs p rd) = Ok n \<and> leads (dir_graph N H lz fs rd) n (path_components q) k)"
      if "path = p @ s # q \<and> (s = 0x5C \<or> s = 0x2F)" for p s q
      using that by (simp only: walk [OF g refl] path_components_append leads_append)
    show "fst (resolve_path N H lz fs q rd) = Ok k \<longleftrightarrow> fst (resolve_path N H lz fs path rd) = Ok k"
      if "map path_fold q = map path_fold path" for q
      unfolding walk [OF g refl] by (rule leads_cong [OF path_components_fold [OF that]])
  qed
qed

theorem resolve_path_walks_witness:
  "fst (resolve_path ntfs_layout cursor_host (\<lambda>_. None) dir_fs [47, 97, 92, 65] dir_disk) = Ok 5"
proof -
  have "path_components [47, 97, 92, 65] = [[97], [65]]"
    by (simp add: path_components_def)
  moreover have "pick [97] [([97], 5)] = Some 5" "pick [65] [([97], 5)] = Some 5"
    by (simp_all add: pick_def eq_ignore_ascii_case_def ascii_lower_def)
  ultimately show ?thesis
    using resolve_path_walks [OF disk_cursor.medium_axioms dir_facts(1), of ntfs_layout "\<lambda>_. None" dir_fs "[47, 97, 92, 65]" 5]
    by (simp add: dir_listed dir_facts dir_graph_def)
qed

end
