(* ===== verification/Shared.thy ===== *)
theory Shared
  imports Reader_Monad "HOL-Library.Multiset"
begin

text \<open>
  Workers that share one reader behind a mutex. A worker is a tree of the points where it meets
  the others: it acquires the lock, uses the reader while it holds it, releases it, and
  computes on its own in between. \<open>pool_step\<close> lets any worker that can move take one such step, so
  its runs are all the interleavings a scheduler can choose. The mutex is the standard library's:
  one holder at a time, and poisoned for good once a holder has panicked; \<open>lock_reader\<close> is how the
  volume reader takes it. For workers that carry out an operation of a fault-free medium
  (\<open>carries\<close>) every schedule ends, and ends with what each operation returns on its own.
\<close>

section \<open>Workers\<close>

text \<open>What \<open>Mutex::lock\<close> returns; either way the caller then holds the lock.\<close>

datatype lock_result = Acquired | Poisoned

text \<open>\<open>Release\<close> says whether the guard is dropped by a panic.\<close>

datatype ('r, 'a) work =
    Finished "'a res"
  | Acquire "lock_result \<Rightarrow> ('r, 'a) work"
  | Use_Reader "'r \<Rightarrow> 'r" "'r \<Rightarrow> ('r, 'a) work"
  | Release bool "('r, 'a) work"

primrec work_bind :: "('r, 'b) work \<Rightarrow> ('b \<Rightarrow> ('r, 'a) work) \<Rightarrow> ('r, 'a) work" where
  "work_bind (Finished x) f = (case x of Ok v \<Rightarrow> f v | Err e \<Rightarrow> Finished (Err e) | Panic \<Rightarrow> Finished Panic)"
| "work_bind (Acquire k) f = Acquire (\<lambda>g. work_bind (k g) f)"
| "work_bind (Use_Reader u k) f = Use_Reader u (\<lambda>rd. work_bind (k rd) f)"
| "work_bind (Release p w) f = Release p (work_bind w f)"

text \<open>\<open>self.reader.lock().unwrap_or_else(PoisonError::into_inner)\<close>: a poisoned lock is used all the same.\<close>

definition lock_reader :: "('r, 'a) work \<Rightarrow> ('r, 'a) work" where
  "lock_reader body = Acquire (\<lambda>g. case g of Acquired \<Rightarrow> body | Poisoned \<Rightarrow> body)"

text \<open>
  A scope that takes the lock, runs one operation of the reader and drops the guard, also when the
  operation fails or panics.
\<close>

definition locked :: "('r, 'a) io \<Rightarrow> ('r, 'a) work" where
  "locked m = lock_reader (Use_Reader (\<lambda>rd. snd (m rd)) (\<lambda>rd.
     Release (case fst (m rd) of Panic \<Rightarrow> True | _ \<Rightarrow> False) (Finished (fst (m rd)))))"

section \<open>The pool\<close>

record 'r mutex =
  mx_holder :: "nat option"
  mx_poisoned :: bool
  mx_reader :: 'r

definition mutex_new :: "'r \<Rightarrow> 'r mutex" where
  "mutex_new rd = \<lparr>mx_holder = None, mx_poisoned = False, mx_reader = rd\<rparr>"

type_synonym ('r, 'a) pool = "('r, 'a) work list \<times> 'r mutex"

inductive pool_step :: "('r, 'a) pool \<Rightarrow> ('r, 'a) pool \<Rightarrow> bool" where
  acquire: "i < length ws \<Longrightarrow> ws ! i = Acquire k \<Longrightarrow> mx_holder mx = None \<Longrightarrow>
    pool_step (ws, mx) (ws[i := k (if mx_poisoned mx then Poisoned else Acquired)], mx\<lparr>mx_holder := Some i\<rparr>)"
| use_reader: "i < length ws \<Longrightarrow> ws ! i = Use_Reader u k \<Longrightarrow> mx_holder mx = Some i \<Longrightarrow>
    pool_step (ws, mx) (ws[i := k (mx_reader mx)], mx\<lparr>mx_reader := u (mx_reader mx)\<rparr>)"
| release: "i < length ws \<Longrightarrow> ws ! i = Release p w \<Longrightarrow> mx_holder mx = Some i \<Longrightarrow>
    pool_step (ws, mx) (ws[i := w], mx\<lparr>mx_holder := None, mx_poisoned := mx_poisoned mx \<or> p\<rparr>)"

inductive_cases pool_stepE: "pool_step (ws, mx) st"

abbreviation pool_steps :: "('r, 'a) pool \<Rightarrow> ('r, 'a) pool \<Rightarrow> bool" where
  "pool_steps \<equiv> pool_step\<^sup>*\<^sup>*"

section \<open>Every schedule ends\<close>

text \<open>Each step replaces one worker by what remains of it.\<close>

inductive remains :: "('r, 'a) work \<Rightarrow> ('r, 'a) work \<Rightarrow> bool" where
  "remains (k g) (Acquire k)"
| "remains (k rd) (Use_Reader u k)"
| "remains w (Release p w)"

inductive_simps remains_simps [simp]:
  "remains w (Finished x)" "remains w (Acquire k)" "remains w (Use_Reader u k)" "remains w (Release p w')"

lemma wfp_remains: "wfp (remains :: ('r, 'a) work \<Rightarrow> _)"
proof (rule wfpUNIVI)
  show "P w" if "\<forall>w. (\<forall>v. remains v w \<longrightarrow> P v) \<longrightarrow> P w" for P and w :: "('r, 'a) work"
    by (induction w; rule that [rule_format]) auto
qed

lemma pool_step_mult1:
  fixes st st' :: "('r, 'a) pool"
  assumes "pool_step st st'"
  shows "(mset (fst st'), mset (fst st)) \<in> mult1 {(v, w). remains v w}"
proof -
  have replace: "(mset (ws[i := v]), mset ws) \<in> mult1 {(v, w). remains v w}"
    if "i < length ws" "remains v (ws ! i)" for ws :: "('r, 'a) work list" and i v
  proof -
    have "mset ws = add_mset (ws ! i) (mset ws - {#ws ! i#})"
      using that(1) by simp
    moreover have "mset (ws[i := v]) = (mset ws - {#ws ! i#}) + {#v#}"
      using that(1) by (simp add: mset_update)
    ultimately show ?thesis
      using that(2) unfolding mult1_def by force
  qed
  show ?thesis
    using assms by cases (auto intro!: replace)
qed

lemma no_endless_schedule: "\<nexists>f :: nat \<Rightarrow> ('r, 'a) pool. \<forall>n. pool_step (f n) (f (Suc n))"
proof
  assume "\<exists>f :: nat \<Rightarrow> ('r, 'a) pool. \<forall>n. pool_step (f n) (f (Suc n))"
  then obtain f :: "nat \<Rightarrow> ('r, 'a) pool" where "\<And>n. pool_step (f n) (f (Suc n))"
    by blast
  then have "(mset (fst (f (Suc n))), mset (fst (f n))) \<in> mult1 {(v, w). remains v w}" for n
    by (rule pool_step_mult1)
  then have "\<not> wf (mult1 {(v :: ('r, 'a) work, w). remains v w})"
    unfolding wf_iff_no_infinite_down_chain by (auto intro: exI [of _ "\<lambda>n. mset (fst (f n))"])
  then show False
    using wf_mult1 wfp_remains by (auto simp: wfp_def)
qed

lemma schedule_ends: "\<exists>st'. pool_steps st st' \<and> (\<nexists>st''. pool_step st' st'')"
proof (rule ccontr)
  assume "\<not> ?thesis"
  then have "\<exists>v. pool_step u v" if "pool_steps st u" for u
    using that by blast
  then have "\<exists>f. f 0 = st \<and> (\<forall>n. pool_steps st (f n) \<and> pool_step (f n) (f (Suc n)))"
    using dependent_nat_choice [where P = "\<lambda>n u. pool_steps st u \<and> (n = 0 \<longrightarrow> u = st)" and Q = "\<lambda>_. pool_step"]
    by (metis rtranclp.simps nat.distinct(1))
  then show False
    using no_endless_schedule by blast
qed

section \<open>What a worker owes the others\<close>

text \<open>It uses the reader only while it holds the lock, never acquires a lock it holds, and ends without it.\<close>

primrec disciplined :: "bool \<Rightarrow> ('r, 'a) work \<Rightarrow> bool" where
  "disciplined h (Finished x) \<longleftrightarrow> \<not> h"
| "disciplined h (Acquire k) \<longleftrightarrow> \<not> h \<and> (\<forall>g. disciplined True (k g))"
| "disciplined h (Use_Reader u k) \<longleftrightarrow> h \<and> (\<forall>rd. disciplined h (k rd))"
| "disciplined h (Release p w) \<longleftrightarrow> h \<and> disciplined False w"

text \<open>
  Over readers in \<open>G\<close>, all of the same content, it keeps the reader in \<open>G\<close> and returns \<open>x\<close>, whatever the
  others do to the reader and the lock between its steps.
\<close>

primrec steady :: "('r \<Rightarrow> bool) \<Rightarrow> 'a res \<Rightarrow> ('r, 'a) work \<Rightarrow> bool" where
  "steady G x (Finished y) \<longleftrightarrow> y = x"
| "steady G x (Acquire k) \<longleftrightarrow> (\<forall>g. steady G x (k g))"
| "steady G x (Use_Reader u k) \<longleftrightarrow> (\<forall>rd. G rd \<longrightarrow> G (u rd) \<and> steady G x (k rd))"
| "steady G x (Release p w) \<longleftrightarrow> steady G x w"

lemma disciplined_bind:
  "disciplined h w \<Longrightarrow> (\<And>v. disciplined False (f v)) \<Longrightarrow> disciplined h (work_bind w f)"
  by (induction w arbitrary: h) (auto split: res.splits)

lemma steady_bind:
  "steady G x w \<Longrightarrow>
   (case x of Ok v \<Rightarrow> steady G y (f v) | Err e \<Rightarrow> y = Err e | Panic \<Rightarrow> y = Panic) \<Longrightarrow>
   steady G y (work_bind w f)"
  by (induction w) (auto split: res.splits)

definition pool_ok :: "('r \<Rightarrow> bool) \<Rightarrow> 'a res list \<Rightarrow> ('r, 'a) pool \<Rightarrow> bool" where
  "pool_ok G xs st \<longleftrightarrow>
     length (fst st) = length xs \<and> G (mx_reader (snd st)) \<and>
     (\<forall>j. mx_holder (snd st) = Some j \<longrightarrow> j < length xs) \<and>
     (\<forall>i < length xs. steady G (xs ! i) (fst st ! i) \<and> disciplined (mx_holder (snd st) = Some i) (fst st ! i))"

lemma pool_ok_step:
  assumes "pool_step st st'" "pool_ok G xs st"
  shows "pool_ok G xs st'"
  using assms by cases (auto simp: pool_ok_def nth_list_update all_conj_distrib)

lemma pool_ok_steps:
  assumes "pool_steps st st'" "pool_ok G xs st"
  shows "pool_ok G xs st'"
  using assms by (induction rule: rtranclp_induct) (auto intro: pool_ok_step)

text \<open>No deadlock: if nobody can move, everybody has finished.\<close>

lemma pool_ok_stuck:
  assumes "pool_ok G xs st" "\<nexists>st'. pool_step st st'"
  shows "fst st = map Finished xs"
proof -
  obtain ws mx where st: "st = (ws, mx)"
    by fastforce
  have free: "mx_holder mx = None"
  proof (rule ccontr)
    assume "mx_holder mx \<noteq> None"
    then obtain j where j: "mx_holder mx = Some j" "j < length ws" "disciplined True (ws ! j)"
      using assms(1) by (auto simp: pool_ok_def st)
    then show False
      using assms(2) unfolding st by (cases "ws ! j") (auto intro: use_reader release)
  qed
  have "ws ! i = Finished (xs ! i)" if "i < length xs" for i
  proof -
    have i: "i < length ws" "steady G (xs ! i) (ws ! i)" "disciplined False (ws ! i)"
      using assms(1) that free by (auto simp: pool_ok_def st)
    then show ?thesis
      using assms(2) acquire [OF i(1) _ free] unfolding st by (cases "ws ! i") auto
  qed
  then show ?thesis
    using assms(1) by (auto simp: pool_ok_def st intro: nth_equalityI)
qed

section \<open>Workers that carry out an operation\<close>

context medium
begin

definition carries :: "('r, 'b) work \<Rightarrow> ('r, 'b) io \<Rightarrow> bool" where
  "carries w m \<longleftrightarrow> content_only m \<and> disciplined False w \<and>
     (\<forall>rd. good rd \<longrightarrow> steady (\<lambda>r. good r \<and> disk r = disk rd) (fst (m rd)) w)"

lemma carries_lift [intro]: "carries (Finished x) (io_lift x)"
  by (auto simp: carries_def)

lemma carries_locked:
  assumes "content_only m"
  shows "carries (locked m) m"
proof -
  have both: "(case g of Acquired \<Rightarrow> w | Poisoned \<Rightarrow> w) = w" for g and w :: "('r, 'b) work"
    by (cases g) simp_all
  have "steady (\<lambda>r. good r \<and> disk r = disk rd) (fst (m rd)) (locked m)" if g: "good rd" for rd
    unfolding locked_def lock_reader_def both steady.simps
  proof (intro allI impI, elim conjE)
    show "(good (snd (m r)) \<and> disk (snd (m r)) = disk rd) \<and> fst (m r) = fst (m rd)"
      if "good r" "disk r = disk rd" for r
      using content_onlyE(1,2) [OF assms that(1)] content_onlyE(3) [OF assms g that] that(2) by simp
  qed
  moreover have "disciplined False (locked m)"
    by (simp add: locked_def lock_reader_def both)
  ultimately show ?thesis
    unfolding carries_def using assms by blast
qed

lemma carries_bind:
  assumes w: "carries w m" and f: "\<And>v. carries (f v) (g v)"
  shows "carries (work_bind w f) (io_bind m g)"
proof -
  have "steady (\<lambda>r. good r \<and> disk r = disk rd) (fst (io_bind m g rd)) (work_bind w f)" if "good rd" for rd
  proof (rule steady_bind)
    show "steady (\<lambda>r. good r \<and> disk r = disk rd) (fst (m rd)) w"
      using w that by (simp add: carries_def)
    obtain x rd1 where e: "m rd = (x, rd1)"
      by fastforce
    have rd1: "good rd1" "disk rd1 = disk rd"
      using content_onlyE(1,2) [OF _ that, of m] w e by (auto simp: carries_def)
    have "steady (\<lambda>r. good r \<and> disk r = disk rd) (fst (g v rd1)) (f v)" for v
    proof -
      have "\<forall>rd. good rd \<longrightarrow> steady (\<lambda>r. good r \<and> disk r = disk rd) (fst (g v rd)) (f v)"
        using f [of v] by (simp add: carries_def)
      from this [rule_format, OF rd1(1)] show ?thesis
        by (simp add: rd1(2))
    qed
    then show "case fst (m rd) of
        Ok v \<Rightarrow> steady (\<lambda>r. good r \<and> disk r = disk rd) (fst (io_bind m g rd)) (f v)
      | Err e \<Rightarrow> fst (io_bind m g rd) = Err e | Panic \<Rightarrow> fst (io_bind m g rd) = Panic"
      by (simp add: e io_bind_def split: res.splits)
  qed
  then show ?thesis
    using w f by (simp add: carries_def disciplined_bind content_only_bind)
qed

lemma carries_if [intro]: "carries v m \<Longrightarrow> carries w n \<Longrightarrow> carries (if b then v else w) (if b then m else n)"
  by simp

lemma carries_option [intro]:
  "carries v m \<Longrightarrow> (\<And>x. carries (w x) (n x)) \<Longrightarrow>
   carries (case z of None \<Rightarrow> v | Some x \<Rightarrow> w x) (case z of None \<Rightarrow> m | Some x \<Rightarrow> n x)"
  by (cases z) simp_all

lemma carries_pool:
  assumes "list_all2 carries ws ms" "good rd"
  shows "pool_ok (\<lambda>r. good r \<and> disk r = disk rd) (map (\<lambda>m. fst (m rd)) ms) (ws, mutex_new rd)"
  using assms by (auto simp: pool_ok_def mutex_new_def carries_def list_all2_conv_all_nth)

text \<open>However they are scheduled, every worker comes to what its operation returns on its own.\<close>

lemma carries_scheduled:
  assumes "list_all2 carries ws ms" "good rd" "pool_steps (ws, mutex_new rd) st"
  defines "xs \<equiv> map (\<lambda>m. fst (m rd)) ms"
  shows "i < length ws \<Longrightarrow> fst st ! i = Finished x \<Longrightarrow> x = fst ((ms ! i) rd)"
    and "(\<nexists>st'. pool_step st st') \<Longrightarrow> fst st = map Finished xs"
    and "\<exists>st'. pool_steps st st' \<and> fst st' = map Finished xs"
proof -
  have ok: "pool_ok (\<lambda>r. good r \<and> disk r = disk rd) xs st"
    unfolding xs_def by (rule pool_ok_steps [OF assms(3) carries_pool [OF assms(1,2)]])
  show "x = fst ((ms ! i) rd)" if "i < length ws" "fst st ! i = Finished x"
    using ok that list_all2_lengthD [OF assms(1)] by (auto simp: pool_ok_def xs_def)
  show "fst st = map Finished xs" if "\<nexists>st'. pool_step st st'"
    by (rule pool_ok_stuck [OF ok that])
  obtain st' where "pool_steps st st'" "\<nexists>st''. pool_step st' st''"
    using schedule_ends by blast
  then show "\<exists>st'. pool_steps st st' \<and> fst st' = map Finished xs"
    using pool_ok_stuck [OF pool_ok_steps [OF _ ok]] by blast
qed

end

end
