(* ===== verification/Fs_Shared.thy ===== *)
theory Fs_Shared
  imports Fs_Paths Shared
begin

text \<open>
  \<open>core/src/fs.rs\<close> as its callers run it in parallel: \<open>NtfsFs\<close> keeps the reader in a mutex, and N workers
  call the methods on one handle. Here each method is translated with its locked scopes, one per
  \<open>lock_reader\<close>, so that other workers may move between them; \<open>carries\<close> relates each to the method
  of theory \<open>Fs\<close>, where the reader is threaded through without interruption.
\<close>

section \<open>The methods and their locked scopes\<close>

definition read_record_w :: "nomicon \<Rightarrow> 'r host \<Rightarrow> ntfs_fs \<Rightarrow> u64 \<Rightarrow> ('r, bytes) work" where
  "read_record_w N H fs n =
     (let rec_size = mft_record_size (fs_boot fs) in
      work_bind (Finished (ok_or (checked_mul n rec_size) (BadRunlist ''record offset overflow''))) (\<lambda>virt.
      work_bind (locked (read_virtual H (fs_mft_runs fs) (cluster_size (fs_boot fs)) virt rec_size)) (\<lambda>buf.
      Finished (fixup N buf (unat (bytes_per_sector (fs_boot fs)))))))"

definition directory_entries_w ::
  "nomicon \<Rightarrow> 'r host \<Rightarrow> (bytes \<Rightarrow> bytes option) \<Rightarrow> ntfs_fs \<Rightarrow> bytes \<Rightarrow> ('r, index_entry list) work" where
  "directory_entries_w N H lz fs rec =
     work_bind (Finished (record_attributes N rec)) (\<lambda>attrs.
     work_bind (Finished (ok_or (find (\<lambda>a. type_code a = T_INDEX_ROOT (attr_ty N)) attrs)
       (NotADirectory (lit ''record has no $INDEX_ROOT'')))) (\<lambda>root_attr.
     work_bind (Finished (ok_or (resident_content root_attr rec)
       (BadIndex ''$INDEX_ROOT content out of bounds''))) (\<lambda>content.
     work_bind (Finished (index_root_parse content)) (\<lambda>root.
     let out = filter (\<lambda>e. ie_file_name e \<noteq> None) (root_entries root) in
     if is_large root then
       case find (\<lambda>a. type_code a = T_INDEX_ALLOCATION (attr_ty N)) attrs of
         None \<Rightarrow> Finished (Ok out)
       | Some alloc \<Rightarrow>
           work_bind (locked (\<lambda>rd. read_attribute_value N H lz rd rec alloc (cluster_size (fs_boot fs)))) (\<lambda>data.
           let irs = unat (index_record_size (fs_boot fs)) in
           work_bind (Finished (index_blocks N (length data div irs) 0 data irs
             (unat (bytes_per_sector (fs_boot fs))))) (\<lambda>more.
           Finished (Ok (out @ more))))
     else Finished (Ok out)))))"

fun resolve_from_w ::
  "nomicon \<Rightarrow> 'r host \<Rightarrow> (bytes \<Rightarrow> bytes option) \<Rightarrow> ntfs_fs \<Rightarrow> u64 \<Rightarrow> ustring list \<Rightarrow> ('r, u64) work" where
  "resolve_from_w N H lz fs current [] = Finished (Ok current)"
| "resolve_from_w N H lz fs current (c # cs) =
     work_bind (read_record_w N H fs current) (\<lambda>rec.
     work_bind (directory_entries_w N H lz fs rec) (\<lambda>entries.
     work_bind (Finished (ok_or (find_child c entries) (NotFound c))) (\<lambda>next.
     resolve_from_w N H lz fs next cs)))"

definition resolve_path_w ::
  "nomicon \<Rightarrow> 'r host \<Rightarrow> (bytes \<Rightarrow> bytes option) \<Rightarrow> ntfs_fs \<Rightarrow> ustring \<Rightarrow> ('r, u64) work" where
  "resolve_path_w N H lz fs path = resolve_from_w N H lz fs (ROOT_RECORD N) (path_components path)"

fun gather_loop_w ::
  "nomicon \<Rightarrow> 'r host \<Rightarrow> ntfs_fs \<Rightarrow> attribute_list_entry list \<Rightarrow> u64 list \<Rightarrow> bytes list \<Rightarrow> ('r, bytes list) work" where
  "gather_loop_w N H fs [] seen records = Finished (Ok records)"
| "gather_loop_w N H fs (e # es) seen records =
     (let rn = fr_record_number (base_reference e) in
      if rn \<in> set seen then gather_loop_w N H fs es seen records
      else work_bind (read_record_w N H fs rn) (\<lambda>r.
           gather_loop_w N H fs es (rn # seen) (records @ [r])))"

definition gather_records_w ::
  "nomicon \<Rightarrow> 'r host \<Rightarrow> (bytes \<Rightarrow> bytes option) \<Rightarrow> ntfs_fs \<Rightarrow> u64 \<Rightarrow> bytes \<Rightarrow> ('r, bytes list) work" where
  "gather_records_w N H lz fs base_num base_rec =
     work_bind (Finished (record_attributes N base_rec)) (\<lambda>attrs.
     case find (\<lambda>a. type_code a = T_ATTRIBUTE_LIST (attr_ty N)) attrs of
       None \<Rightarrow> Finished (Ok [base_rec])
     | Some al \<Rightarrow>
         work_bind (locked (\<lambda>rd. read_attribute_value N H lz rd base_rec al (cluster_size (fs_boot fs)))) (\<lambda>content.
         work_bind (Finished (attribute_list_parse content)) (\<lambda>entries.
         gather_loop_w N H fs entries [base_num] [base_rec])))"

definition read_data_by_record_w ::
  "nomicon \<Rightarrow> 'r host \<Rightarrow> (bytes \<Rightarrow> bytes option) \<Rightarrow> ntfs_fs \<Rightarrow> u64 \<Rightarrow> ustring option \<Rightarrow> u64 \<Rightarrow> ('r, bytes) work" where
  "read_data_by_record_w N H lz fs rnum strm max_bytes =
     work_bind (read_record_w N H fs rnum) (\<lambda>rec.
     work_bind (gather_records_w N H lz fs rnum rec) (\<lambda>records.
     let cs = cluster_size (fs_boot fs) in
     work_bind (Finished (data_attributes N strm records)) (\<lambda>found.
     let residents = filter (\<lambda>f. is_resident (snd f)) found;
         fragments = filter (\<lambda>f. \<not> is_resident (snd f)) found in
     if residents \<noteq> [] then
       (case last residents of (r, a) \<Rightarrow>
          work_bind (locked (\<lambda>rd. read_attribute_value N H lz rd r a cs)) (\<lambda>v.
          Finished (Ok (if length v > unat max_bytes then take (unat max_bytes) v else v))))
     else if fragments = [] then Finished (Err (no_stream rnum strm))
     else let sorted_frags = sort_key frag_vcn fragments in
       work_bind (Finished (concat_runlists sorted_frags)) (\<lambda>runs.
       locked (\<lambda>rd. read_nonresident_capped N H lz rd runs cs (frag_size (hd sorted_frags))
         (snd (hd sorted_frags)) max_bytes)))))"

definition runs_by_record_w ::
  "nomicon \<Rightarrow> 'r host \<Rightarrow> (bytes \<Rightarrow> bytes option) \<Rightarrow> ntfs_fs \<Rightarrow> u64 \<Rightarrow> ustring option \<Rightarrow> ('r, run list) work" where
  "runs_by_record_w N H lz fs rnum strm =
     work_bind (read_record_w N H fs rnum) (\<lambda>rec.
     work_bind (gather_records_w N H lz fs rnum rec) (\<lambda>records.
     work_bind (Finished (data_attributes N strm records)) (\<lambda>found.
     if found = [] then Finished (Err (no_stream rnum strm))
     else Finished (concat_runlists (sort_key frag_vcn (filter (\<lambda>f. \<not> is_resident (snd f)) found))))))"

definition read_data_stream_w ::
  "nomicon \<Rightarrow> 'r host \<Rightarrow> (bytes \<Rightarrow> bytes option) \<Rightarrow> ntfs_fs \<Rightarrow> ustring \<Rightarrow> ustring option \<Rightarrow> u64 \<Rightarrow> ('r, bytes) work" where
  "read_data_stream_w N H lz fs path strm max_bytes =
     work_bind (resolve_path_w N H lz fs path) (\<lambda>rnum.
     read_data_by_record_w N H lz fs rnum strm max_bytes)"

section \<open>The calls of a worker\<close>

datatype fs_call =
    Read_Record u64
  | Directory_Entries bytes
  | Resolve_Path ustring
  | Read_File ustring
  | Read_File_Capped ustring u64
  | Read_Named_Stream ustring ustring
  | Read_Data_By_Record u64 "ustring option" u64
  | Runs_By_Record u64 "ustring option"

datatype fs_reply =
    Raw bytes
  | Entries "index_entry list"
  | Number u64
  | Runs "run list"

definition map_io :: "('b \<Rightarrow> 'c) \<Rightarrow> ('r, 'b) io \<Rightarrow> ('r, 'c) io" where
  "map_io f m = io_bind m (\<lambda>x. io_lift (Ok (f x)))"

definition map_work :: "('b \<Rightarrow> 'c) \<Rightarrow> ('r, 'b) work \<Rightarrow> ('r, 'c) work" where
  "map_work f w = work_bind w (\<lambda>x. Finished (Ok (f x)))"

text \<open>A call with nobody else around, and the same call on the shared handle.\<close>

fun call_alone ::
  "nomicon \<Rightarrow> 'r host \<Rightarrow> (bytes \<Rightarrow> bytes option) \<Rightarrow> ntfs_fs \<Rightarrow> fs_call \<Rightarrow> ('r, fs_reply) io" where
  "call_alone N H lz fs (Read_Record n) = map_io Raw (read_record N H fs n)"
| "call_alone N H lz fs (Directory_Entries rec) = map_io Entries (directory_entries N H lz fs rec)"
| "call_alone N H lz fs (Resolve_Path p) = map_io Number (resolve_path N H lz fs p)"
| "call_alone N H lz fs (Read_File p) = map_io Raw (read_file N H lz fs p)"
| "call_alone N H lz fs (Read_File_Capped p n) = map_io Raw (read_file_capped N H lz fs p n)"
| "call_alone N H lz fs (Read_Named_Stream p s) = map_io Raw (read_named_stream N H lz fs p s)"
| "call_alone N H lz fs (Read_Data_By_Record n s c) = map_io Raw (read_data_by_record N H lz fs n s c)"
| "call_alone N H lz fs (Runs_By_Record n s) = map_io Runs (runs_by_record N H lz fs n s)"

fun call_shared ::
  "nomicon \<Rightarrow> 'r host \<Rightarrow> (bytes \<Rightarrow> bytes option) \<Rightarrow> ntfs_fs \<Rightarrow> fs_call \<Rightarrow> ('r, fs_reply) work" where
  "call_shared N H lz fs (Read_Record n) = map_work Raw (read_record_w N H fs n)"
| "call_shared N H lz fs (Directory_Entries rec) = map_work Entries (directory_entries_w N H lz fs rec)"
| "call_shared N H lz fs (Resolve_Path p) = map_work Number (resolve_path_w N H lz fs p)"
| "call_shared N H lz fs (Read_File p) = map_work Raw (read_data_stream_w N H lz fs p None (- 1))"
| "call_shared N H lz fs (Read_File_Capped p n) = map_work Raw (read_data_stream_w N H lz fs p None n)"
| "call_shared N H lz fs (Read_Named_Stream p s) = map_work Raw (read_data_stream_w N H lz fs p (Some s) (- 1))"
| "call_shared N H lz fs (Read_Data_By_Record n s c) = map_work Raw (read_data_by_record_w N H lz fs n s c)"
| "call_shared N H lz fs (Runs_By_Record n s) = map_work Runs (runs_by_record_w N H lz fs n s)"

definition shared_pool ::
  "nomicon \<Rightarrow> 'r host \<Rightarrow> (bytes \<Rightarrow> bytes option) \<Rightarrow> ntfs_fs \<Rightarrow> fs_call list \<Rightarrow> 'r \<Rightarrow> ('r, fs_reply) pool" where
  "shared_pool N H lz fs calls rd = (map (call_shared N H lz fs) calls, mutex_new rd)"

section \<open>Each method carries out its sequential model\<close>

context medium
begin

lemma read_record_carries: "carries (read_record_w N H fs n) (read_record N H fs n)"
  unfolding read_record_w_def read_record_def Let_def
  by (intro carries_bind carries_lift carries_locked read_virtual_content)

lemma directory_entries_carries: "carries (directory_entries_w N H lz fs rec) (directory_entries N H lz fs rec)"
  unfolding directory_entries_w_def directory_entries_def Let_def
  by (intro carries_bind carries_lift carries_if carries_option carries_locked read_attribute_value_content)

lemma resolve_from_carries: "carries (resolve_from_w N H lz fs n cs) (resolve_from N H lz fs n cs)"
proof (induction cs arbitrary: n)
  case (Cons c cs)
  show ?case
    unfolding resolve_from_w.simps resolve_from.simps
    by (intro carries_bind carries_lift read_record_carries directory_entries_carries Cons.IH)
qed (simp add: carries_lift)

lemma gather_loop_carries: "carries (gather_loop_w N H fs es seen records) (gather_loop N H fs es seen records)"
proof (induction es arbitrary: seen records)
  case (Cons e es)
  show ?case
    unfolding gather_loop_w.simps gather_loop.simps Let_def
    by (intro carries_if carries_bind read_record_carries Cons.IH)
qed (simp add: carries_lift)

lemma gather_records_carries: "carries (gather_records_w N H lz fs n rec) (gather_records N H lz fs n rec)"
  unfolding gather_records_w_def gather_records_def
  by (intro carries_bind carries_lift carries_option carries_locked read_attribute_value_content gather_loop_carries)

lemma read_data_by_record_carries:
  "carries (read_data_by_record_w N H lz fs n strm cap) (read_data_by_record N H lz fs n strm cap)"
  unfolding read_data_by_record_w_def read_data_by_record_def Let_def prod.case_eq_if
  by (intro carries_bind carries_lift carries_if carries_locked read_attribute_value_content
      read_nonresident_capped_content read_record_carries gather_records_carries)

lemma runs_by_record_carries: "carries (runs_by_record_w N H lz fs n strm) (runs_by_record N H lz fs n strm)"
  unfolding runs_by_record_w_def runs_by_record_def
  by (intro carries_bind carries_lift carries_if read_record_carries gather_records_carries)

lemma read_data_stream_carries:
  "carries (read_data_stream_w N H lz fs p strm cap) (read_data_stream N H lz fs p strm cap)"
  unfolding read_data_stream_w_def read_data_stream_def resolve_path_w_def resolve_path_def
  by (intro carries_bind resolve_from_carries read_data_by_record_carries)

lemma map_carries: "carries w m \<Longrightarrow> carries (map_work f w) (map_io f m)"
  unfolding map_work_def map_io_def by (intro carries_bind carries_lift)

lemma call_carries: "carries (call_shared N H lz fs c) (call_alone N H lz fs c)"
  by (cases c; simp only: call_shared.simps call_alone.simps read_file_def read_file_capped_def
      read_named_stream_def resolve_path_w_def resolve_path_def;
    intro map_carries read_record_carries directory_entries_carries resolve_from_carries
      read_data_by_record_carries runs_by_record_carries read_data_stream_carries)

end

section \<open>Property\<close>

text \<open>
  Claim C10. One handle serves N workers. Over a fault-free source, let any number of workers each make a call
  on the shared handle and let the scheduler choose who moves: no schedule goes on for ever; nobody
  is ever blocked for good, since a pool in which no worker can move has finished, and from
  every point the pool can finish; and every worker that has finished holds the result its call
  has on its own. A call that panics poisons the lock, which changes nothing for the others.
\<close>

theorem shared_handle_live:
  assumes "medium H good disk at" "good rd"
  shows "(\<nexists>f. f 0 = shared_pool N H lz fs calls rd \<and> (\<forall>n. pool_step (f n) (f (Suc n)))) \<and>
    (\<forall>st. pool_steps (shared_pool N H lz fs calls rd) st \<longrightarrow>
      (\<forall>i x. i < length calls \<and> fst st ! i = Finished x \<longrightarrow> x = fst (call_alone N H lz fs (calls ! i) rd)) \<and>
      ((\<nexists>st'. pool_step st st') \<longrightarrow> fst st = map (\<lambda>c. Finished (fst (call_alone N H lz fs c rd))) calls) \<and>
      (\<exists>st'. pool_steps st st' \<and> fst st' = map (\<lambda>c. Finished (fst (call_alone N H lz fs c rd))) calls))"
proof -
  have c: "list_all2 (medium.carries good disk) (map (call_shared N H lz fs) calls) (map (call_alone N H lz fs) calls)"
    by (simp add: list_all2_conv_all_nth medium.call_carries [OF assms(1)])
  note scheduled = medium.carries_scheduled [OF assms(1) c assms(2), folded shared_pool_def]
  show ?thesis
    using no_endless_schedule scheduled by (auto simp: o_def)
qed

theorem shared_handle_live_witness:
  "\<exists>st. pool_steps (shared_pool ntfs_layout cursor_host (\<lambda>_. None) dir_fs [Resolve_Path [97], Read_Record 0x100000000000000] dir_disk) st \<and>
     fst st = [Finished (Ok (Number 5)), Finished (Err (BadRunlist ''record offset overflow''))]"
proof -
  have "checked_mul 0x100000000000000 (256 :: u64) = None"
    by (simp add: checked_mul_def)
  moreover have "leads (dir_graph ntfs_layout cursor_host (\<lambda>_. None) dir_fs dir_disk) 5 [[97]] 5"
    by (simp add: dir_graph_def dir_listed pick_def eq_ignore_ascii_case_def)
  then have "fst (resolve_path ntfs_layout cursor_host (\<lambda>_. None) dir_fs [97] dir_disk) = Ok 5"
    using disk_cursor.resolve_from_leads [OF dir_facts(1) dir_facts(1)]
    by (simp add: resolve_path_def path_components_def dir_facts del: resolve_from.simps)
  ultimately have "fst (call_alone ntfs_layout cursor_host (\<lambda>_. None) dir_fs (Resolve_Path [97]) dir_disk) = Ok (Number 5)"
      "fst (call_alone ntfs_layout cursor_host (\<lambda>_. None) dir_fs (Read_Record 0x100000000000000) dir_disk) =
        Err (BadRunlist ''record offset overflow'')"
    by (auto simp: map_io_def io_bind_def read_record_def dir_facts split: prod.splits)
  then show ?thesis
    using shared_handle_live [OF disk_cursor.medium_axioms dir_facts(1), of ntfs_layout "\<lambda>_. None" dir_fs
        "[Resolve_Path [97], Read_Record 0x100000000000000]", THEN conjunct2, rule_format, OF rtranclp.rtrancl_refl]
    by (simp del: call_alone.simps)
qed

end
