(* ===== verification/Standard_Information.thy ===== *)
theory Standard_Information
  imports Nomicon Filetime
begin

text \<open>
  \<open>core/src/standard_information.rs\<close>: the \<open>$STANDARD_INFORMATION\<close> value. The security id
  and the journal sequence number are present exactly when the content has the NTFS 3.0
  length.
\<close>

definition SI_MIN :: nat where
  "SI_MIN = 48"

definition SI_V3 :: nat where
  "SI_V3 = 72"

record standard_information =
  si_created :: filetime
  si_modified :: filetime
  si_mft_modified :: filetime
  si_accessed :: filetime
  si_file_attributes :: u32
  si_security_id :: "u32 option"
  si_usn :: "u64 option"

definition is_hidden :: "nomicon \<Rightarrow> standard_information \<Rightarrow> bool" where
  "is_hidden N si \<longleftrightarrow> si_file_attributes si AND FA_HIDDEN N \<noteq> 0"

definition is_system :: "nomicon \<Rightarrow> standard_information \<Rightarrow> bool" where
  "is_system N si \<longleftrightarrow> si_file_attributes si AND FA_SYSTEM N \<noteq> 0"

definition is_read_only :: "nomicon \<Rightarrow> standard_information \<Rightarrow> bool" where
  "is_read_only N si \<longleftrightarrow> si_file_attributes si AND FA_READONLY N \<noteq> 0"

definition standard_information_parse :: "bytes \<Rightarrow> standard_information res" where
  "standard_information_parse content =
     (if length content < SI_MIN
      then Err (TooShort ''$STANDARD_INFORMATION'' SI_MIN (length content))
      else let ft = (\<lambda>off. filetime_from_le (arr 8 content off));
               (sid, usn) = (if SI_V3 \<le> length content
                             then (Some (le_u32 content 52), Some (le_u64 content 64))
                             else (None, None))
      in Ok \<lparr>si_created = ft 0, si_modified = ft 8, si_mft_modified = ft 16,
             si_accessed = ft 24, si_file_attributes = le_u32 content 32,
             si_security_id = sid, si_usn = usn\<rparr>)"

lemma standard_information_parse_no_panic [simp]: "standard_information_parse c \<noteq> Panic"
  by (auto simp: standard_information_parse_def Let_def)

lemma standard_information_parse_Ok_iff:
  "(\<exists>si. standard_information_parse c = Ok si) \<longleftrightarrow> 48 \<le> length c"
  by (auto simp: standard_information_parse_def Let_def SI_MIN_def)

lemma standard_information_v3:
  "standard_information_parse c = Ok si \<Longrightarrow>
   (si_usn si \<noteq> None \<longleftrightarrow> 72 \<le> length c) \<and> (si_security_id si \<noteq> None \<longleftrightarrow> 72 \<le> length c)"
  by (auto simp: standard_information_parse_def Let_def SI_V3_def split: if_splits)

end
