(* ===== verification/Utf8.thy ===== *)
theory Utf8
  imports Utf16
begin

text \<open>
  UTF-8 as the standard library encodes it: the bytes behind \<open>str::as_bytes\<close> and
  \<open>String::into_bytes\<close>. \<open>utf8_next\<close> takes one character off the front of an encoding; it
  is only used to show that two well-formed strings with the same bytes are equal.
\<close>

text \<open>\<open>str::as_bytes\<close>.\<close>

definition utf8_char :: "nat \<Rightarrow> nat list" where
  "utf8_char c =
     (if c < 0x80 then [c]
      else if c < 0x800 then [0xC0 + c div 0x40, 0x80 + c mod 0x40]
      else if c < 0x10000 then [0xE0 + c div 0x1000, 0x80 + c div 0x40 mod 0x40, 0x80 + c mod 0x40]
      else [0xF0 + c div 0x40000, 0x80 + c div 0x1000 mod 0x40, 0x80 + c div 0x40 mod 0x40,
            0x80 + c mod 0x40])"

definition utf8 :: "ustring \<Rightarrow> bytes" where
  "utf8 s = map word_of_nat (concat (map utf8_char s))"

text \<open>UTF-8 writes an ASCII character as itself and no other character with ASCII bytes.\<close>

lemma utf8_char_bytes:
  assumes "scalar c"
  shows "list_all (\<lambda>n. n < 256) (utf8_char c)" "42 \<in> set (utf8_char c) \<longleftrightarrow> c = 42"
proof -
  have "c < 0x110000"
    using assms by (auto simp: scalar_def)
  then have "c div 0x40000 < 16" "c < 0x10000 \<Longrightarrow> c div 0x1000 < 32" "c < 0x800 \<Longrightarrow> c div 0x40 < 64"
    "d mod 0x40 < (0x80 :: nat)" for d
    by linarith+
  then show "list_all (\<lambda>n. n < 256) (utf8_char c)" "42 \<in> set (utf8_char c) \<longleftrightarrow> c = 42"
    by (auto simp: utf8_char_def)
qed

lemma utf8_star:
  assumes "list_all scalar s"
  shows "42 \<in> set (utf8 s) \<longleftrightarrow> 42 \<in> set s"
proof -
  have eq: "word_of_nat n = (42 :: u8) \<longleftrightarrow> n = 42" if "n < 256" for n
    using unat_u8_of_nat [OF that] by auto
  have "list_all (\<lambda>n. n < 256) (concat (map utf8_char s)) \<and>
      (42 \<in> set (concat (map utf8_char s)) \<longleftrightarrow> 42 \<in> set s)"
    using assms by (induction s) (auto simp: utf8_char_bytes)
  moreover from this have "42 \<in> set (utf8 s) \<longleftrightarrow> 42 \<in> set (concat (map utf8_char s))"
    unfolding utf8_def list_all_iff set_map image_iff using eq by (metis of_nat_numeral)
  ultimately show ?thesis by blast
qed

section \<open>Bytes determine the string\<close>

fun utf8_next :: "nat list \<Rightarrow> nat \<times> nat list" where
  "utf8_next [] = (0, [])"
| "utf8_next (a # r) =
     (if a < 0x80 then (a, r)
      else if a < 0xE0 then ((a - 0xC0) * 0x40 + (r ! 0 - 0x80), drop 1 r)
      else if a < 0xF0 then ((a - 0xE0) * 0x1000 + (r ! 0 - 0x80) * 0x40 + (r ! 1 - 0x80), drop 2 r)
      else ((a - 0xF0) * 0x40000 + (r ! 0 - 0x80) * 0x1000 + (r ! 1 - 0x80) * 0x40 + (r ! 2 - 0x80),
            drop 3 r))"

lemma base64_digits:
  fixes c :: nat
  shows "c div 0x40 * 0x40 + c mod 0x40 = c"
    "c div 0x1000 * 0x1000 + c div 0x40 mod 0x40 * 0x40 + c mod 0x40 = c"
    "c div 0x40000 * 0x40000 + c div 0x1000 mod 0x40 * 0x1000 + c div 0x40 mod 0x40 * 0x40 + c mod 0x40 = c"
proof -
  have d: "c div 0x1000 = c div 0x40 div 0x40" "c div 0x40000 = c div 0x1000 div 0x40"
    by (simp_all add: div_mult2_eq [symmetric])
  show 1: "c div 0x40 * 0x40 + c mod 0x40 = c" by simp
  have 2: "c div 0x1000 * 0x40 + c div 0x40 mod 0x40 = c div 0x40"
    "c div 0x40000 * 0x40 + c div 0x1000 mod 0x40 = c div 0x1000"
    using div_mult_mod_eq [of "c div 0x40" "0x40"] div_mult_mod_eq [of "c div 0x1000" "0x40"]
    by (simp_all add: d)
  then show "c div 0x1000 * 0x1000 + c div 0x40 mod 0x40 * 0x40 + c mod 0x40 = c"
    "c div 0x40000 * 0x40000 + c div 0x1000 mod 0x40 * 0x1000 + c div 0x40 mod 0x40 * 0x40 + c mod 0x40 = c"
    using 1 by linarith+
qed

lemma utf8_next_char:
  assumes "scalar c"
  shows "utf8_next (utf8_char c @ r) = (c, r)"
proof -
  have "c < 0x110000"
    using assms by (auto simp: scalar_def)
  then have "c < 0x800 \<Longrightarrow> c div 0x40 < 0x20" "c < 0x10000 \<Longrightarrow> c div 0x1000 < 0x10" "c div 0x40000 < 0x10"
    by linarith+
  then show ?thesis
    by (auto simp: utf8_char_def base64_digits numeral_3_eq_3 numeral_2_eq_2 simp del: mult_Suc mult_Suc_right)
qed

lemma utf8_char_nonempty [simp]: "utf8_char c \<noteq> []"
  by (simp add: utf8_char_def)

lemma utf8_codes_inject:
  assumes "list_all scalar s" "list_all scalar t"
    and "concat (map utf8_char s) = concat (map utf8_char t)"
  shows "s = t"
  using assms
proof (induction s arbitrary: t)
  case Nil
  then show ?case by (cases t) auto
next
  case (Cons c s)
  have "t \<noteq> []"
  proof
    assume "t = []"
    with Cons.prems(3) show False by simp
  qed
  then obtain d t' where t: "t = d # t'"
    by (meson list.exhaust)
  have sc: "scalar c" "scalar d" "list_all scalar s" "list_all scalar t'"
    using Cons.prems(1,2) t by simp_all
  have "utf8_char c @ concat (map utf8_char s) = utf8_char d @ concat (map utf8_char t')"
    using Cons.prems(3) t by simp
  then have "utf8_next (utf8_char c @ concat (map utf8_char s)) = utf8_next (utf8_char d @ concat (map utf8_char t'))"
    by (rule arg_cong)
  then have "c = d" "concat (map utf8_char s) = concat (map utf8_char t')"
    by (simp_all only: utf8_next_char sc prod.inject)
  then show ?case
    using Cons.IH [OF sc(3,4)] t by simp
qed

lemma utf8_inject:
  assumes "list_all scalar s" "list_all scalar t"
  shows "utf8 s = utf8 t \<longleftrightarrow> s = t"
proof
  have small: "list_all (\<lambda>n. n < 256) (concat (map utf8_char u))" if "list_all scalar u" for u
    using that by (induction u) (auto simp: utf8_char_bytes)
  have un: "map unat (utf8 u) = concat (map utf8_char u)" if "list_all scalar u" for u
    using small [OF that] by (auto simp: utf8_def list_all_iff unat_u8_of_nat intro!: map_idI)
  assume "utf8 s = utf8 t"
  then have "concat (map utf8_char s) = concat (map utf8_char t)"
    using un assms by metis
  then show "s = t"
    by (rule utf8_codes_inject [OF assms])
qed simp

section \<open>Characters in a byte string\<close>

text \<open>The bytes as numbers. A byte outside the range of continuation bytes begins a character.\<close>

abbreviation codes :: "ustring \<Rightarrow> nat list" where
  "codes s \<equiv> concat (map utf8_char s)"

lemma codes_small: "list_all scalar s \<Longrightarrow> list_all (\<lambda>n. n < 256) (codes s)"
  by (induction s) (auto simp: utf8_char_bytes)

lemma codes_ascii: "list_all (\<lambda>c. c < 0x80) s \<Longrightarrow> codes s = s"
  by (induction s) (auto simp: utf8_char_def)

definition continuation :: "nat \<Rightarrow> bool" where
  "continuation n \<longleftrightarrow> 0x80 \<le> n \<and> n < 0xC0"

lemma utf8_char_shape:
  assumes "scalar c"
  shows "\<exists>b bs. utf8_char c = b # bs \<and> \<not> continuation b \<and> list_all continuation bs \<and> (b < 0x80 \<longleftrightarrow> c < 0x80)"
proof -
  have "c < 0x110000"
    using assms by (auto simp: scalar_def)
  moreover have "d mod 0x40 < (0x40 :: nat)" for d
    by simp
  ultimately show ?thesis
    by (auto simp: utf8_char_def continuation_def)
qed

lemma utf8_char_other:
  assumes "scalar c" "n < 0x80" "c \<noteq> n"
  shows "n \<notin> set (utf8_char c)"
  using assms(2,3) by (auto simp: utf8_char_def)

lemma codes_prefix:
  assumes "scalar c" "list_all scalar t" "codes t = utf8_char c @ r"
  shows "\<exists>t'. t = c # t' \<and> codes t' = r"
proof (cases t)
  case Nil
  with assms(3) show ?thesis
    by (auto simp: utf8_char_def split: if_splits)
next
  case (Cons d t')
  have "utf8_next (utf8_char c @ r) = utf8_next (utf8_char d @ codes t')"
    using assms(3) Cons by simp
  then show ?thesis
    using assms(1,2) Cons by (simp add: utf8_next_char)
qed

lemma codes_boundary:
  assumes "list_all scalar t" "k < length (codes t)" "\<not> continuation (codes t ! k)"
  shows "\<exists>j. drop k (codes t) = codes (drop j t)"
  using assms
proof (induction t arbitrary: k)
  case (Cons c t)
  obtain b bs where c: "utf8_char c = b # bs" "list_all continuation bs"
    using utf8_char_shape [of c] Cons.prems(1) by auto
  show ?case
  proof (cases "k < length (utf8_char c)")
    case True
    have "k = 0"
    proof (rule ccontr)
      assume "k \<noteq> 0"
      then have "codes (c # t) ! k \<in> set bs"
        using True c(1) by (cases k) (auto simp: nth_append)
      with c(2) Cons.prems(3) show False
        by (auto simp: list_all_iff)
    qed
    then show ?thesis
      by (auto intro: exI [of _ 0])
  next
    case False
    then have "\<exists>j. drop (k - length (utf8_char c)) (codes t) = codes (drop j t)"
      using Cons.prems by (intro Cons.IH) (auto simp: nth_append)
    then obtain j where "drop (k - length (utf8_char c)) (codes t) = codes (drop j t)"
      by blast
    then show ?thesis
      using False by (intro exI [of _ "Suc j"]) simp
  qed
qed simp

end
