(* ===== verification/Vfs_Node.thy ===== *)
theory Vfs_Node
  imports Fs Standard_Information Utf8
begin

text \<open>
  \<open>core/src/vfs.rs\<close>, the part that looks at one record or one bitmap: the classification of
  special nodes, symlink targets, node metadata, the choice among several names, and the
  runs of free clusters. The trait the file implements and its types belong to an external
  crate. A struct the sources build is a record with the fields they fill in; an enum has the
  variants they name, and a variant they only print (with \<open>{:?}\<close>) is a constructor that
  carries the printed text. The text of a decode error is the rendering of the error it was
  made from, so \<open>detail\<close> keeps that error.
\<close>

section \<open>Constants\<close>

definition FN_FLAG_DIRECTORY :: u32 where
  "FN_FLAG_DIRECTORY = 0x10000000"

definition ATTR_REPARSE_POINT :: u32 where
  "ATTR_REPARSE_POINT = 0xC0"

definition REPARSE_TAG_SYMLINK :: u32 where
  "REPARSE_TAG_SYMLINK = 0xA000000C"

definition REPARSE_TAG_MOUNT_POINT :: u32 where
  "REPARSE_TAG_MOUNT_POINT = 0xA0000003"

definition REPARSE_TAG_LX_SYMLINK :: u32 where
  "REPARSE_TAG_LX_SYMLINK = 0xA000001D"

definition REPARSE_TAG_AF_UNIX :: u32 where
  "REPARSE_TAG_AF_UNIX = 0x80000023"

definition REPARSE_TAG_LX_FIFO :: u32 where
  "REPARSE_TAG_LX_FIFO = 0x80000024"

definition REPARSE_TAG_LX_CHR :: u32 where
  "REPARSE_TAG_LX_CHR = 0x80000025"

definition REPARSE_TAG_LX_BLK :: u32 where
  "REPARSE_TAG_LX_BLK = 0x80000026"

definition NTFS_3G_SYMLINK_MAGIC :: bytes where
  "NTFS_3G_SYMLINK_MAGIC = map of_char ''IntxLNK''"

definition NTFS_3G_CHR_MAGIC :: bytes where
  "NTFS_3G_CHR_MAGIC = map of_char ''IntxCHR''"

definition NTFS_3G_BLK_MAGIC :: bytes where
  "NTFS_3G_BLK_MAGIC = map of_char ''IntxBLK''"

section \<open>Types\<close>

datatype node_kind = Symlink | CharDevice | BlockDevice | Fifo | Socket | Dir | File

datatype file_id = NtfsRef u64 u16 | OtherId ustring

datatype stream_id = DefaultStream | Named u16 | OtherStream ustring

datatype detail = Shown ntfs_error | Text ustring

datatype vfs_error =
    Unsupported string ustring
  | VfsIo string io_error
  | Decode string u64 detail bytes

datatype 'a vres = VOk 'a | VErr vfs_error | VPanic

datatype stream_kind = NtfsData | NtfsAds

datatype residency_kind = ResidentIn u32 | NonResidentData

datatype allocation = Allocated | Deleted

datatype run_alloc = RunAllocated | RunUnallocated

datatype time_source = Si

datatype time_resolution = WinFileTime

record time_stamp =
  unix_nanos :: int
  ts_source :: time_source
  ts_resolution :: time_resolution

record macb_times =
  born :: "time_stamp option"
  modified :: "time_stamp option"
  changed :: "time_stamp option"
  accessed :: "time_stamp option"

record stream_info =
  st_id :: stream_id
  st_name :: "bytes option"
  st_size :: u64
  st_residency :: residency_kind
  st_kind :: stream_kind

record fs_meta =
  ino :: u64
  m_kind :: node_kind
  m_allocated :: allocation
  m_size :: u64
  nlink :: u32
  m_uid :: "u32 option"
  m_gid :: "u32 option"
  m_mode :: "u32 option"
  m_times :: macb_times
  m_streams :: "stream_info list"
  m_residency :: residency_kind
  link_target :: "bytes option"

text \<open>\<open>None\<close> is the value \<open>RunFlags::default()\<close> leaves in the field.\<close>

record run_flags =
  rf_sparse :: "bool option"

record byte_run =
  image_offset :: u64
  run_bytes :: u64
  br_flags :: run_flags

record run_info =
  ri_run :: byte_run
  ri_alloc :: run_alloc

definition default_flags :: run_flags where
  "default_flags = \<lparr>rf_sparse = None\<rparr>"

section \<open>Errors\<close>

definition v_then :: "'a vres \<Rightarrow> ('a \<Rightarrow> 'b vres) \<Rightarrow> 'b vres" where
  "v_then m f = (case m of VOk x \<Rightarrow> f x | VErr e \<Rightarrow> VErr e | VPanic \<Rightarrow> VPanic)"

definition map_err :: "ntfs_error \<Rightarrow> vfs_error" where
  "map_err e =
     (case e of
        Io s \<Rightarrow> VfsIo ''ntfs read'' s
      | _ \<Rightarrow> Decode ''ntfs'' 0 (Shown e) [])"

text \<open>\<open>r.map_err(map_err)\<close>.\<close>

definition to_vfs :: "'a res \<Rightarrow> 'a vres" where
  "to_vfs r = (case r of Ok x \<Rightarrow> VOk x | Err e \<Rightarrow> VErr (map_err e) | Panic \<Rightarrow> VPanic)"

text \<open>\<open>r.ok()\<close> where a panic of the computation is still a panic.\<close>

definition res_try :: "'a res \<Rightarrow> 'a option res" where
  "res_try r = (case r of Ok x \<Rightarrow> Ok (Some x) | Err _ \<Rightarrow> Ok None | Panic \<Rightarrow> Panic)"

lemma v_then_simps [simp]:
  "v_then (VOk x) f = f x"
  "v_then (VErr e) f = VErr e"
  "v_then VPanic f = VPanic"
  by (simp_all add: v_then_def)

lemma v_then_VOk_iff: "v_then m f = VOk y \<longleftrightarrow> (\<exists>x. m = VOk x \<and> f x = VOk y)"
  by (cases m) auto

lemma v_then_VPanic_iff: "v_then m f = VPanic \<longleftrightarrow> m = VPanic \<or> (\<exists>x. m = VOk x \<and> f x = VPanic)"
  by (cases m) auto

lemma v_then_weak_cong: "m = m' \<Longrightarrow> v_then m f = v_then m' f"
  by simp

lemma to_vfs_simps [simp]:
  "to_vfs (Ok x) = VOk x"
  "to_vfs (Err e) = VErr (map_err e)"
  "to_vfs Panic = VPanic"
  by (simp_all add: to_vfs_def)

lemma to_vfs_iff [simp]: "to_vfs r = VOk x \<longleftrightarrow> r = Ok x" "to_vfs r = VPanic \<longleftrightarrow> r = Panic"
  by (cases r; simp)+

lemma res_try_simps [simp]:
  "res_try (Ok x) = Ok (Some x)"
  "res_try (Err e) = Ok None"
  "res_try Panic = Panic"
  by (simp_all add: res_try_def)

lemma res_try_iff [simp]: "res_try r = Panic \<longleftrightarrow> r = Panic" "res_try r = Ok (Some x) \<longleftrightarrow> r = Ok x"
  by (cases r; simp)+

section \<open>Symlink targets\<close>

definition utf16le :: "bytes \<Rightarrow> u16 list" where
  "utf16le bs = u16_units bs"

definition decode_reparse_buffer :: "bytes \<Rightarrow> ustring option res" where
  "decode_reparse_buffer content =
     (if length content < 8 then Ok None
      else and_then (slice content 0 4) (\<lambda>t.
      let tag = from_le_bytes t in
      if tag \<noteq> REPARSE_TAG_SYMLINK \<and> tag \<noteq> REPARSE_TAG_MOUNT_POINT then Ok None
      else and_then (slice content 4 6) (\<lambda>l.
      let data_len = unat (from_le_bytes l :: u16) in
      case get_range content 8 (8 + data_len) of
        None \<Rightarrow> Ok None
      | Some data \<Rightarrow>
          let path_base = (if tag = REPARSE_TAG_SYMLINK then 12 else 8) in
          if length data < path_base then Ok None
          else and_then (slice data 0 2) (\<lambda>so.
          and_then (slice data 2 4) (\<lambda>sl.
          let sub_off = unat (from_le_bytes so :: u16); sub_len = unat (from_le_bytes sl :: u16) in
          Ok (map_option (\<lambda>path. decode_utf16_lossy (utf16le path))
            (get_range data (path_base + sub_off) (path_base + sub_off + sub_len))))))))"

definition starts_with :: "bytes \<Rightarrow> bytes \<Rightarrow> bool" where
  "starts_with data magic \<longleftrightarrow> length magic \<le> length data \<and> take (length magic) data = magic"

definition decode_ntfs3g_symlink :: "bytes \<Rightarrow> ustring option res" where
  "decode_ntfs3g_symlink data =
     (if 8 \<le> length data \<and> starts_with data NTFS_3G_SYMLINK_MAGIC then
        and_then (slice data 8 (length data)) (\<lambda>p. Ok (Some (decode_utf16_lossy (utf16le p))))
      else Ok None)"

text \<open>The two lookups the next functions share: the reparse value and the unnamed resident data.\<close>

definition reparse_content :: "bytes \<Rightarrow> attribute list \<Rightarrow> bytes option" where
  "reparse_content rec attrs =
     Option.bind (find (\<lambda>a. type_code a = ATTR_REPARSE_POINT) attrs) (\<lambda>a. resident_content a rec)"

definition unnamed_data :: "nomicon \<Rightarrow> attribute list \<Rightarrow> attribute option" where
  "unnamed_data N attrs = find (\<lambda>a. type_code a = T_DATA (attr_ty N) \<and> attr_name a = None) attrs"

definition reparse_target :: "nomicon \<Rightarrow> bytes \<Rightarrow> attribute list \<Rightarrow> ustring option res" where
  "reparse_target N rec attrs =
     (case reparse_content rec attrs of
        Some content \<Rightarrow> decode_reparse_buffer content
      | None \<Rightarrow>
          (case Option.bind (unnamed_data N attrs) (\<lambda>a. resident_content a rec) of
             None \<Rightarrow> Ok None
           | Some data \<Rightarrow> decode_ntfs3g_symlink data))"

section \<open>Node kinds\<close>

definition kind_of_reparse_tag :: "u32 \<Rightarrow> node_kind option" where
  "kind_of_reparse_tag tag =
     (if tag = REPARSE_TAG_SYMLINK \<or> tag = REPARSE_TAG_MOUNT_POINT \<or> tag = REPARSE_TAG_LX_SYMLINK
      then Some Symlink
      else if tag = REPARSE_TAG_LX_CHR then Some CharDevice
      else if tag = REPARSE_TAG_LX_BLK then Some BlockDevice
      else if tag = REPARSE_TAG_LX_FIFO then Some Fifo
      else if tag = REPARSE_TAG_AF_UNIX then Some Socket
      else None)"

definition special_kind :: "nomicon \<Rightarrow> bytes \<Rightarrow> attribute list \<Rightarrow> node_kind option res" where
  "special_kind N rec attrs =
     (case reparse_content rec attrs of
        Some content \<Rightarrow>
          if 4 \<le> length content then
            and_then (slice content 0 4) (\<lambda>t. Ok (kind_of_reparse_tag (from_le_bytes t)))
          else Ok None
      | None \<Rightarrow>
          (case Option.bind (unnamed_data N attrs) (\<lambda>a. resident_content a rec) of
             None \<Rightarrow> Ok None
           | Some data \<Rightarrow>
               if length data < 8 then Ok None
               else if starts_with data NTFS_3G_SYMLINK_MAGIC then Ok (Some Symlink)
               else if starts_with data NTFS_3G_CHR_MAGIC then Ok (Some CharDevice)
               else if starts_with data NTFS_3G_BLK_MAGIC then Ok (Some BlockDevice)
               else Ok None))"

definition vfs_entry_of :: "file_id \<Rightarrow> u64 vres" where
  "vfs_entry_of i =
     (case i of
        NtfsRef entry _ \<Rightarrow> VOk entry
      | OtherId shown \<Rightarrow> VErr (Unsupported ''ntfs file-id'' shown))"

text \<open>The printed form of \<open>StreamId::Named\<close> is \<open>Named(i)\<close>, as \<open>derive(Debug)\<close> writes it.\<close>

definition stream_name :: "stream_id \<Rightarrow> ustring option vres" where
  "stream_name s =
     (case s of
        DefaultStream \<Rightarrow> VOk None
      | Named i \<Rightarrow> VErr (Unsupported ''ntfs stream'' (lit ''Named('' @ dec (unat i) @ lit '')''))
      | OtherStream shown \<Rightarrow> VErr (Unsupported ''ntfs stream'' shown))"

section \<open>Metadata\<close>

definition no_times :: macb_times where
  "no_times = \<lparr>born = None, modified = None, changed = None, accessed = None\<rparr>"

definition si_stamp :: "filetime \<Rightarrow> time_stamp" where
  "si_stamp ft = \<lparr>unix_nanos = to_unix_nanos ft, ts_source = Si, ts_resolution = WinFileTime\<rparr>"

definition record_times :: "nomicon \<Rightarrow> bytes \<Rightarrow> attribute list \<Rightarrow> macb_times" where
  "record_times N rec attrs =
     (case Option.bind (find (\<lambda>a. type_code a = T_STANDARD_INFORMATION (attr_ty N)) attrs)
             (\<lambda>a. resident_content a rec) of
        None \<Rightarrow> no_times
      | Some content \<Rightarrow>
          (case standard_information_parse content of
             Ok si \<Rightarrow> \<lparr>born = Some (si_stamp (si_created si)), modified = Some (si_stamp (si_modified si)),
                       changed = Some (si_stamp (si_mft_modified si)),
                       accessed = Some (si_stamp (si_accessed si))\<rparr>
           | _ \<Rightarrow> no_times))"

definition body_extent :: "attribute_body \<Rightarrow> u64 \<times> residency_kind" where
  "body_extent b =
     (case b of
        Resident _ cl \<Rightarrow> (ucast cl, ResidentIn cl)
      | NonResident _ _ _ _ _ rs _ \<Rightarrow> (rs, NonResidentData))"

definition build_meta :: "nomicon \<Rightarrow> u64 \<Rightarrow> bytes \<Rightarrow> fs_meta vres" where
  "build_meta N entry rec =
     v_then (to_vfs (header_parse N rec)) (\<lambda>h.
     v_then (to_vfs (parse_attributes N rec (unat (first_attribute_offset h)))) (\<lambda>attrs.
     let (sz, res) = (case unnamed_data N attrs of
           Some a \<Rightarrow> body_extent (attr_body a)
         | None \<Rightarrow> (0, ResidentIn 0)) in
     v_then (to_vfs (special_kind N rec attrs)) (\<lambda>k.
     VOk \<lparr>ino = entry,
         m_kind = (case k of Some kd \<Rightarrow> kd | None \<Rightarrow> if is_directory N h then Dir else File),
         m_allocated = (if is_in_use N h then Allocated else Deleted),
         m_size = sz, nlink = ucast (hard_link_count h),
         m_uid = None, m_gid = None, m_mode = None,
         m_times = record_times N rec attrs, m_streams = [], m_residency = res, link_target = None\<rparr>)))"

section \<open>Names\<close>

definition namespace_rank :: "nomicon \<Rightarrow> u8 \<Rightarrow> u8" where
  "namespace_rank N ns =
     (if ns = NS_WIN32_AND_DOS_CODE N then 3
      else if ns = NS_WIN32_CODE N then 2
      else if ns = NS_POSIX_CODE N then 1
      else 0)"

text \<open>\<open>Iterator::max_by_key\<close>: the last of the elements with the greatest key.\<close>

definition max_by_key :: "('a \<Rightarrow> 'k::linorder) \<Rightarrow> 'a list \<Rightarrow> 'a option" where
  "max_by_key key xs =
     (case xs of [] \<Rightarrow> None | y # ys \<Rightarrow> Some (foldl (\<lambda>b z. if key b \<le> key z then z else b) y ys))"

definition record_names :: "nomicon \<Rightarrow> bytes \<Rightarrow> attribute list \<Rightarrow> file_name list" where
  "record_names N rec attrs =
     List.map_filter (\<lambda>c. res_ok (file_name_parse c)) (List.map_filter (\<lambda>a. resident_content a rec)
       (filter (\<lambda>a. type_code a = T_FILE_NAME (attr_ty N)) attrs))"

definition vfs_best_file_name :: "nomicon \<Rightarrow> bytes \<Rightarrow> file_name option res" where
  "vfs_best_file_name N rec =
     and_then (res_try (record_attributes N rec)) (\<lambda>attrs.
     Ok (Option.bind attrs (\<lambda>as. max_by_key (\<lambda>f. namespace_rank N (namespace f)) (record_names N rec as))))"

section \<open>Free clusters\<close>

definition cluster_allocated :: "bytes \<Rightarrow> u64 \<Rightarrow> bool" where
  "cluster_allocated bitmap c =
     (let byte_idx = unat (c div 8); b = unat (c mod 8) in
      if byte_idx < length bitmap then drop_bit b (bitmap ! byte_idx) AND 1 = 1 else True)"

fun free_loop :: "bytes \<Rightarrow> u64 list \<Rightarrow> u64 option \<Rightarrow> (u64 \<times> u64) list \<Rightarrow> u64 option \<times> (u64 \<times> u64) list" where
  "free_loop bitmap [] run_start runs = (run_start, runs)"
| "free_loop bitmap (c # cs) run_start runs =
     (if cluster_allocated bitmap c then
        case run_start of
          Some start \<Rightarrow> free_loop bitmap cs None (runs @ [(start, c - start)])
        | None \<Rightarrow> free_loop bitmap cs None runs
      else free_loop bitmap cs (case run_start of None \<Rightarrow> Some c | Some start \<Rightarrow> Some start) runs)"

definition free_runs :: "bytes \<Rightarrow> u64 \<Rightarrow> (u64 \<times> u64) list" where
  "free_runs bitmap clusters =
     (case free_loop bitmap (map word_of_nat [0..<unat clusters]) None [] of
        (Some start, runs) \<Rightarrow> runs @ [(start, clusters - start)]
      | (None, runs) \<Rightarrow> runs)"

definition unallocated_runs :: "bytes \<Rightarrow> u64 \<Rightarrow> u64 \<Rightarrow> u64 \<Rightarrow> run_info list" where
  "unallocated_runs bitmap csize clusters base_offset =
     map (\<lambda>(start, len).
       \<lparr>ri_run = \<lparr>image_offset = saturating_add base_offset (saturating_mul start csize),
                 run_bytes = saturating_mul len csize, br_flags = default_flags\<rparr>,
        ri_alloc = RunUnallocated\<rparr>)
     (free_runs bitmap clusters)"

section \<open>Panics\<close>

lemma decode_reparse_buffer_no_panic [simp]: "decode_reparse_buffer content \<noteq> Panic"
  by (auto simp: decode_reparse_buffer_def Let_def res_inversions get_range_Some_iff
      split: if_splits option.splits)

lemma decode_ntfs3g_symlink_no_panic [simp]: "decode_ntfs3g_symlink data \<noteq> Panic"
  by (auto simp: decode_ntfs3g_symlink_def res_inversions)

lemma reparse_target_no_panic [simp]: "reparse_target N rec attrs \<noteq> Panic"
  by (auto simp: reparse_target_def split: option.splits)

lemma special_kind_no_panic [simp]: "special_kind N rec attrs \<noteq> Panic"
  by (auto simp: special_kind_def res_inversions split: option.splits)

lemma special_kind_Ok: "\<exists>k. special_kind N rec attrs = Ok k"
  by (auto simp: special_kind_def split: option.splits)

lemma build_meta_no_panic: "record_attributes N rec \<noteq> Panic \<Longrightarrow> build_meta N entry rec \<noteq> VPanic"
  by (auto simp: build_meta_def record_attributes_def v_then_VPanic_iff and_then_Panic_iff
      split: prod.splits)

lemma vfs_best_file_name_no_panic: "record_attributes N rec \<noteq> Panic \<Longrightarrow> vfs_best_file_name N rec \<noteq> Panic"
  by (auto simp: vfs_best_file_name_def and_then_Panic_iff)

section \<open>Symlinks\<close>

text \<open>
  What a writer stores: the header with the tag, the data length and a reserved field, the
  offset and length of the substitute name in the path buffer, those of the print name, the
  flags of a symlink, and the path buffer with the substitute name between \<open>pre\<close> and \<open>post\<close>.
\<close>

definition reparse_bytes :: "u32 \<Rightarrow> bytes \<Rightarrow> bytes \<Rightarrow> bytes \<Rightarrow> ustring \<Rightarrow> bytes \<Rightarrow> bytes" where
  "reparse_bytes tag print flags pre target post =
     (let sub = concat (map (\<lambda>u. le_bytes 2 (unat u)) (encode_utf16 target));
          data = le_bytes 2 (length pre) @ le_bytes 2 (length sub) @ print @
            (if tag = REPARSE_TAG_SYMLINK then flags else []) @ pre @ sub @ post
      in le_bytes 4 (unat tag) @ le_bytes 2 (length data) @ [0, 0] @ data)"

definition reparse_fits :: "bytes \<Rightarrow> bytes \<Rightarrow> bytes \<Rightarrow> ustring \<Rightarrow> bytes \<Rightarrow> bool" where
  "reparse_fits print flags pre target post \<longleftrightarrow>
     length print = 4 \<and> length flags = 4 \<and> list_all scalar target \<and>
     length pre + 2 * length (encode_utf16 target) + length post + 12 < 65536"

lemma from_le_bytes_u16_of_nat: "n < 65536 \<Longrightarrow> unat (from_le_bytes (le_bytes 2 n) :: u16) = n"
  by (simp add: from_le_bytes_def le_nat_le_bytes unat_of_nat)

lemma from_le_bytes_u32: "from_le_bytes (le_bytes 4 (unat v)) = (v :: u32)"
  by (simp add: from_le_bytes_def le_nat_le_bytes)

lemma decode_reparse_bytes:
  assumes "reparse_fits print flags pre target post"
    and "tag = REPARSE_TAG_SYMLINK \<or> tag = REPARSE_TAG_MOUNT_POINT"
  shows "decode_reparse_buffer (reparse_bytes tag print flags pre target post @ rest) = Ok (Some target)"
proof -
  let ?sub = "concat (map (\<lambda>u. le_bytes 2 (unat u)) (encode_utf16 target))"
  let ?fl = "if tag = REPARSE_TAG_SYMLINK then flags else []"
  define data where "data = le_bytes 2 (length pre) @ le_bytes 2 (length ?sub) @ print @ ?fl @ pre @ ?sub @ post"
  define base where "base = (if tag = REPARSE_TAG_SYMLINK then 12 else 8 :: nat)"
  have fit: "length print = 4" "length flags = 4" "length ?sub = 2 * length (encode_utf16 target)"
    "length pre + length ?sub + length post + 12 < 65536"
    using assms(1) by (simp_all add: reparse_fits_def length_units_bytes)
  then have len: "length data = base + length pre + length ?sub + length post" "length data < 65536"
    by (simp_all add: data_def base_def)
  define content where "content = reparse_bytes tag print flags pre target post @ rest"
  have content: "content = le_bytes 4 (unat tag) @ le_bytes 2 (length data) @ [0, 0] @ data @ rest"
    by (simp add: content_def reparse_bytes_def data_def Let_def)
  have c: "take 4 content = le_bytes 4 (unat tag)" "take 2 (drop 4 content) = le_bytes 2 (length data)"
    "take (length data) (drop 8 content) = data" "8 + length data \<le> length content"
    unfolding content by simp_all
  have d: "take 2 data = le_bytes 2 (length pre)" "take 2 (drop 2 data) = le_bytes 2 (length ?sub)"
    "take (length ?sub) (drop (base + length pre) data) = ?sub"
    using fit unfolding data_def base_def by simp_all
  have s: "slice data 0 2 = Ok (le_bytes 2 (length pre))" "slice data 2 4 = Ok (le_bytes 2 (length ?sub))"
    using d len(1) by (simp_all add: base_def slice_def get_range_def)
  have "decode_utf16_lossy (utf16le ?sub) = target"
    using assms(1) by (simp add: utf16le_def u16_units_le_bytes reparse_fits_def list_all_iff decode_encode_utf16)
  then have "decode_reparse_buffer content = Ok (Some target)"
    using assms(2) c d(3) len fit s
    by (simp add: decode_reparse_buffer_def Let_def from_le_bytes_u32 from_le_bytes_u16_of_nat
        get_range_def flip: base_def)
  then show ?thesis
    by (simp add: content_def)
qed

lemma decode_reparse_tag:
  assumes "decode_reparse_buffer content = Ok (Some t)"
  shows "4 \<le> length content" "kind_of_reparse_tag (from_le_bytes (take 4 content)) = Some Symlink"
  using assms
  by (auto simp: decode_reparse_buffer_def kind_of_reparse_tag_def Let_def res_inversions
      split: if_splits option.splits)

lemma reparse_target_symlink:
  assumes "reparse_target N rec attrs = Ok (Some t)"
  shows "special_kind N rec attrs = Ok (Some Symlink)"
  using assms decode_reparse_tag
  by (auto simp: reparse_target_def special_kind_def decode_ntfs3g_symlink_def res_inversions
      split: option.splits if_splits)

text \<open>A WSL symlink is classified as one, but its target is not decoded.\<close>

lemma wsl_symlink_no_target:
  assumes "reparse_content rec attrs = Some content" "8 \<le> length content"
    and "from_le_bytes (take 4 content) = REPARSE_TAG_LX_SYMLINK"
  shows "special_kind N rec attrs = Ok (Some Symlink)" "reparse_target N rec attrs = Ok None"
  using assms
  by (simp_all add: special_kind_def reparse_target_def kind_of_reparse_tag_def decode_reparse_buffer_def
      REPARSE_TAG_LX_SYMLINK_def REPARSE_TAG_SYMLINK_def REPARSE_TAG_MOUNT_POINT_def)

text \<open>
  Only the record itself is looked at: without an unnamed \<open>$DATA\<close> of its own, as when that
  attribute has moved to an extension record, a node has size 0 and counts as resident. And
  an identity is reduced to its record number.
\<close>

lemma meta_without_data:
  assumes "record_attributes N rec = Ok attrs" "unnamed_data N attrs = None" "build_meta N entry rec = VOk m"
  shows "m_size m = 0" "m_residency m = ResidentIn 0"
  using assms by (auto simp: record_attributes_def build_meta_def and_then_Ok_iff v_then_VOk_iff)

lemma sequence_ignored: "vfs_entry_of (NtfsRef e q) = vfs_entry_of (NtfsRef e q')"
  by (simp add: vfs_entry_of_def)

section \<open>Names\<close>

lemma max_by_key_foldl:
  fixes key :: "'a \<Rightarrow> 'k::linorder"
  defines "pick \<equiv> \<lambda>b z. if key b \<le> key z then z else b"
  shows "foldl pick y ys \<in> insert y (set ys) \<and> list_all (\<lambda>z. key z \<le> key (foldl pick y ys)) (y # ys)"
proof (induction ys arbitrary: y)
  case (Cons z zs)
  show ?case
  proof (cases "key y \<le> key z")
    case True
    then show ?thesis
      using Cons.IH [of z] by (auto simp: pick_def)
  next
    case False
    then show ?thesis
      using Cons.IH [of y] by (auto simp: pick_def)
  qed
qed simp

lemma max_by_key_Some:
  assumes "max_by_key key xs = Some x"
  shows "x \<in> set xs" "y \<in> set xs \<Longrightarrow> key y \<le> key x"
  using assms max_by_key_foldl [of key "hd xs" "tl xs"]
  by (auto simp: max_by_key_def list_all_iff split: list.splits)

lemma max_by_key_None [simp]: "max_by_key key xs = None \<longleftrightarrow> xs = []"
  by (simp add: max_by_key_def split: list.splits)

section \<open>Free clusters\<close>

text \<open>Cluster \<open>c\<close> is free: the bitmap has its byte, and its bit there, lowest first, is clear.\<close>

definition cluster_free :: "bytes \<Rightarrow> nat \<Rightarrow> bool" where
  "cluster_free bitmap c \<longleftrightarrow> c div 8 < length bitmap \<and> \<not> bit (bitmap ! (c div 8)) (c mod 8)"

definition in_runs :: "(u64 \<times> u64) list \<Rightarrow> nat \<Rightarrow> bool" where
  "in_runs runs c \<longleftrightarrow> list_ex (\<lambda>(s, l). unat s \<le> c \<and> c < unat s + unat l) runs"

text \<open>A gap of at least one cluster between two runs, which makes each of them maximal.\<close>

definition runs_apart :: "(u64 \<times> u64) list \<Rightarrow> bool" where
  "runs_apart runs \<longleftrightarrow> sorted_wrt (\<lambda>(s, l) (s', l'). unat s + unat l < unat s') runs"

definition runs_below :: "nat \<Rightarrow> (u64 \<times> u64) list \<Rightarrow> bool" where
  "runs_below k runs \<longleftrightarrow> list_all (\<lambda>(s, l). l \<noteq> 0 \<and> unat s + unat l \<le> k) runs"

lemma cluster_allocated_iff:
  "k < 2 ^ 64 \<Longrightarrow> cluster_allocated bitmap (word_of_nat k) \<longleftrightarrow> \<not> cluster_free bitmap k"
  by (auto simp: cluster_allocated_def cluster_free_def Let_def unat_div unat_mod_distrib unat_of_nat
      and_one_eq bit_iff_odd_drop_bit odd_iff_mod_2_eq_one split: if_splits)

definition free_inv :: "bytes \<Rightarrow> nat \<Rightarrow> u64 option \<Rightarrow> (u64 \<times> u64) list \<Rightarrow> bool" where
  "free_inv bitmap k st runs \<longleftrightarrow> runs_apart runs \<and>
     (case st of
        None \<Rightarrow> runs_below (k - 1) runs \<and> (\<forall>c<k. cluster_free bitmap c \<longleftrightarrow> in_runs runs c)
      | Some s \<Rightarrow> unat s < k \<and> runs_below (unat s - 1) runs \<and> (runs = [] \<or> 0 < unat s) \<and>
          (\<forall>c<k. cluster_free bitmap c \<longleftrightarrow> in_runs runs c \<or> unat s \<le> c))"

lemma runs_apart_snoc:
  "runs_apart (runs @ [(s, l)]) \<longleftrightarrow> runs_apart runs \<and> list_all (\<lambda>(s', l'). unat s' + unat l' < unat s) runs"
  by (auto simp: runs_apart_def sorted_wrt_append list_all_iff)

lemma runs_apart_Nil [simp]: "runs_apart []"
  by (simp add: runs_apart_def)

lemma in_runs_snoc [simp]:
  "in_runs (runs @ [(s, l)]) c \<longleftrightarrow> in_runs runs c \<or> unat s \<le> c \<and> c < unat s + unat l"
  by (auto simp: in_runs_def)

lemma runs_below_snoc [simp]:
  "runs_below k (runs @ [(s, l)]) \<longleftrightarrow> runs_below k runs \<and> l \<noteq> 0 \<and> unat s + unat l \<le> k"
  by (auto simp: runs_below_def)

lemma runs_below_0: "runs_below 0 runs \<longleftrightarrow> runs = []"
  by (cases runs) (auto simp: runs_below_def unat_eq_0)

lemma runs_below_mono: "runs_below j runs \<Longrightarrow> j \<le> k \<Longrightarrow> runs_below k runs"
  by (auto simp: runs_below_def list_all_iff)

lemma runs_below_not_in: "runs_below k runs \<Longrightarrow> k \<le> c \<Longrightarrow> \<not> in_runs runs c"
  by (fastforce simp: runs_below_def in_runs_def list_all_iff list_ex_iff)

lemma runs_below_apart:
  "runs_below (k - 1) runs \<Longrightarrow> runs = [] \<or> 0 < k \<Longrightarrow> list_all (\<lambda>(s, l). unat s + unat l < k) runs"
  by (auto simp: runs_below_def list_all_iff)

text \<open>Closing the open run at cluster \<open>k\<close>.\<close>

lemma free_inv_close:
  assumes "free_inv bitmap k (Some s) runs" "unat e = k"
  shows "runs_apart (runs @ [(s, e - s)])" "runs_below k (runs @ [(s, e - s)])"
    "\<forall>c<k. cluster_free bitmap c \<longleftrightarrow> in_runs (runs @ [(s, e - s)]) c"
proof -
  have s: "unat s < k" "runs_below (unat s - 1) runs" "runs = [] \<or> 0 < unat s" "runs_apart runs"
    and c: "\<forall>c<k. cluster_free bitmap c \<longleftrightarrow> in_runs runs c \<or> unat s \<le> c"
    using assms(1) by (simp_all add: free_inv_def)
  have "s \<le> e"
    using s(1) assms(2) by (simp add: word_le_nat_alt)
  then have l: "unat (e - s) = k - unat s" "e - s \<noteq> 0"
    using s(1) assms(2) by (auto simp: unat_sub_if_size word_le_nat_alt)
  show "runs_apart (runs @ [(s, e - s)])"
    using s runs_below_apart [OF s(2,3)] by (simp add: runs_apart_snoc)
  show "runs_below k (runs @ [(s, e - s)])"
    using s l runs_below_mono [OF s(2)] by simp
  show "\<forall>c<k. cluster_free bitmap c \<longleftrightarrow> in_runs (runs @ [(s, e - s)]) c"
    using c l s(1) by simp
qed

lemma all_less_Suc: "(\<forall>c<Suc k. P c) \<longleftrightarrow> (\<forall>c<k. P c) \<and> P k"
  using less_Suc_eq by auto

lemma free_loop_inv:
  assumes "free_inv bitmap k st runs" "k \<le> n" "n < 2 ^ 64"
  shows "case free_loop bitmap (map word_of_nat [k..<n]) st runs of (st', runs') \<Rightarrow> free_inv bitmap n st' runs'"
  using assms
proof (induction "n - k" arbitrary: k st runs)
  case (Suc d)
  let ?k = "word_of_nat k :: u64"
  have k: "k < n" "[k..<n] = k # [Suc k..<n]" "unat ?k = k" "d = n - Suc k"
    using Suc by (auto simp: upt_conv_Cons unat_of_nat)
  note IH = Suc.hyps(1) [OF k(4), rule_format]
  show ?case
  proof (cases "cluster_free bitmap k")
    case True
    have "free_inv bitmap (Suc k) (case st of None \<Rightarrow> Some ?k | Some s \<Rightarrow> Some s) runs"
    proof (cases st)
      case None
      with Suc.prems(1) show ?thesis
        using True k(3) runs_below_0 [of runs] by (cases "k = 0") (simp_all add: free_inv_def all_less_Suc)
    next
      case (Some s)
      with Suc.prems(1) show ?thesis
        using True by (simp add: free_inv_def all_less_Suc)
    qed
    then show ?thesis
      using IH [of "case st of None \<Rightarrow> Some ?k | Some s \<Rightarrow> Some s" runs] Suc.prems k True
        cluster_allocated_iff [of k bitmap] by simp
  next
    case False
    define st' runs' where "st' = (None :: u64 option)"
      and "runs' = (case st of None \<Rightarrow> runs | Some s \<Rightarrow> runs @ [(s, ?k - s)])"
    have "free_inv bitmap (Suc k) st' runs'"
    proof (cases st)
      case None
      then show ?thesis
        using Suc.prems(1) False runs_below_not_in [of "k - 1" runs k] runs_below_mono [of "k - 1" runs k]
        by (simp add: free_inv_def st'_def runs'_def all_less_Suc)
    next
      case (Some s)
      then show ?thesis
        using free_inv_close [of bitmap k s runs ?k] Suc.prems(1) k(3) False
          runs_below_not_in [of k "runs @ [(s, ?k - s)]" k]
        by (simp add: free_inv_def [of _ "Suc k"] st'_def runs'_def all_less_Suc del: in_runs_snoc runs_below_snoc)
    qed
    then show ?thesis
      using IH [of st' runs'] Suc.prems k False cluster_allocated_iff [of k bitmap]
      by (simp add: st'_def runs'_def split: option.splits)
  qed
qed simp

lemma free_runs_inv:
  "(\<forall>c. in_runs (free_runs bitmap clusters) c \<longleftrightarrow> c < unat clusters \<and> cluster_free bitmap c) \<and>
   runs_below (unat clusters) (free_runs bitmap clusters) \<and> runs_apart (free_runs bitmap clusters)"
proof -
  obtain st runs where l: "free_loop bitmap (map word_of_nat [0..<unat clusters]) None [] = (st, runs)"
    by (cases "free_loop bitmap (map word_of_nat [0..<unat clusters]) None []")
  have "free_inv bitmap 0 None []"
    by (simp add: free_inv_def runs_apart_def runs_below_def)
  then have inv: "free_inv bitmap (unat clusters) st runs"
    using free_loop_inv [of bitmap 0 None "[]" "unat clusters"] l unat_u64_less [of clusters] by simp
  have "runs_apart (free_runs bitmap clusters) \<and> runs_below (unat clusters) (free_runs bitmap clusters) \<and>
    (\<forall>c<unat clusters. cluster_free bitmap c \<longleftrightarrow> in_runs (free_runs bitmap clusters) c)"
  proof (cases st)
    case None
    then show ?thesis
      using inv l runs_below_mono [of "unat clusters - 1" runs "unat clusters"]
      by (simp add: free_runs_def free_inv_def)
  next
    case (Some s)
    then have "free_runs bitmap clusters = runs @ [(s, clusters - s)]"
      using l by (simp add: free_runs_def)
    then show ?thesis
      using free_inv_close [of bitmap "unat clusters" s runs clusters] inv Some by metis
  qed
  moreover from this have "\<not> in_runs (free_runs bitmap clusters) c" if "unat clusters \<le> c" for c
    using runs_below_not_in that by blast
  ultimately show ?thesis
    by (meson not_le)
qed

section \<open>Properties\<close>

text \<open>
  Claim C22. A written symlink or junction is read back: whatever the print name, the flags and
  the bytes around the substitute name in the path buffer, the decoder returns the
  substitute name, although the path buffer of a symlink starts four bytes later.
\<close>

theorem reparse_target_roundtrip:
  assumes "reparse_fits print flags pre target post"
  shows "decode_reparse_buffer (reparse_bytes REPARSE_TAG_SYMLINK print flags pre target post @ rest) =
      Ok (Some target) \<and>
    decode_reparse_buffer (reparse_bytes REPARSE_TAG_MOUNT_POINT print flags pre target post @ rest) =
      Ok (Some target)"
  using decode_reparse_bytes [OF assms] by simp

theorem reparse_target_roundtrip_witness:
  "decode_reparse_buffer (reparse_bytes REPARSE_TAG_SYMLINK [0, 0, 2, 0] [1, 0, 0, 0] [66, 0] [65, 0x1F600] [] @ [7]) =
     Ok (Some [65, 0x1F600]) \<and>
   decode_reparse_buffer (reparse_bytes REPARSE_TAG_MOUNT_POINT [0, 0, 2, 0] [1, 0, 0, 0] [66, 0] [65, 0x1F600] [] @ [7]) =
     Ok (Some [65, 0x1F600])"
  by (rule reparse_target_roundtrip)
    (simp add: reparse_fits_def scalar_def encode_utf16_def encode_char_def)

end
