(* ===== verification/Vfs.thy ===== *)
theory Vfs
  imports Vfs_Node
begin

text \<open>
  \<open>core/src/vfs.rs\<close>, the operations of the adapter: each translates the identity it is given,
  reads through the volume reader of \<open>Fs\<close> and maps every error to the adapter's error type.
  A stream the sources return (\<open>DirStream\<close>, \<open>ExtentStream\<close>, \<open>DeletedStream\<close>) is built from
  a vector whose elements are all \<open>Ok\<close>; it is the list of the values in them.
\<close>

section \<open>Composition\<close>

type_synonym ('r, 'a) vio = "'r \<Rightarrow> 'a vres \<times> 'r"

definition v_lift :: "'a vres \<Rightarrow> ('r, 'a) vio" where
  "v_lift m = (\<lambda>rd. (m, rd))"

definition v_bind :: "('r, 'a) vio \<Rightarrow> ('a \<Rightarrow> ('r, 'b) vio) \<Rightarrow> ('r, 'b) vio" where
  "v_bind m f = (\<lambda>rd.
     case m rd of
       (VOk x, rd') \<Rightarrow> f x rd'
     | (VErr e, rd') \<Rightarrow> (VErr e, rd')
     | (VPanic, rd') \<Rightarrow> (VPanic, rd'))"

text \<open>\<open>m.map_err(map_err)?\<close> and \<open>m.ok()\<close> for a reading operation.\<close>

definition v_io :: "('r, 'a) io \<Rightarrow> ('r, 'a) vio" where
  "v_io m = (\<lambda>rd. case m rd of (r, rd') \<Rightarrow> (to_vfs r, rd'))"

definition io_try :: "('r, 'a) io \<Rightarrow> ('r, 'a option) io" where
  "io_try m = (\<lambda>rd. case m rd of (r, rd') \<Rightarrow> (res_try r, rd'))"

lemma v_lift_simps [simp]: "v_lift m rd = (m, rd)"
  by (simp add: v_lift_def)

lemma v_bind_lift [simp]:
  "v_bind (v_lift (VOk x)) f = f x"
  "v_bind (v_lift (VErr e)) f = v_lift (VErr e)"
  "v_bind (v_lift VPanic) f = v_lift VPanic"
  by (simp_all add: v_bind_def v_lift_def)

lemma v_bind_VOk:
  "v_bind m f rd = (VOk y, rd') \<longleftrightarrow> (\<exists>x rd1. m rd = (VOk x, rd1) \<and> f x rd1 = (VOk y, rd'))"
  by (auto simp: v_bind_def split: prod.splits vres.splits)

lemma v_bind_fst_VOk:
  "fst (v_bind m f rd) = VOk y \<longleftrightarrow> (\<exists>x rd1. m rd = (VOk x, rd1) \<and> fst (f x rd1) = VOk y)"
  by (auto simp: v_bind_def split: prod.splits vres.splits)

lemma v_bind_step: "m rd = (VOk x, rd1) \<Longrightarrow> v_bind m f rd = f x rd1"
  by (simp add: v_bind_def)

lemma v_io_VOk [simp]: "v_io m rd = (VOk x, rd1) \<longleftrightarrow> m rd = (Ok x, rd1)"
  by (auto simp: v_io_def split: prod.splits)

lemma v_io_lift [simp]: "v_io (io_lift r) = v_lift (to_vfs r)"
  by (rule ext) (simp add: v_io_def)

section \<open>Shape of the volume\<close>

record sector_sizes =
  logical :: u32
  physical :: u32
  cluster_or_block :: u32

definition vfs_sector_sizes :: "ntfs_fs \<Rightarrow> sector_sizes" where
  "vfs_sector_sizes fs =
     \<lparr>logical = ucast (bytes_per_sector (fs_boot fs)), physical = ucast (bytes_per_sector (fs_boot fs)),
      cluster_or_block = ucast (cluster_size (fs_boot fs))\<rparr>"

definition vfs_root :: "nomicon \<Rightarrow> 'r host \<Rightarrow> ntfs_fs \<Rightarrow> ('r, file_id) io" where
  "vfs_root N H fs =
     io_bind (io_try (read_record N H fs (ROOT_RECORD N))) (\<lambda>rec.
     io_lift (Ok (NtfsRef (ROOT_RECORD N)
       (case Option.bind rec (\<lambda>r. res_ok (header_parse N r)) of
          None \<Rightarrow> 0
        | Some h \<Rightarrow> sequence_number h))))"

definition label_of :: "nomicon \<Rightarrow> bytes \<Rightarrow> attribute list \<Rightarrow> ustring option" where
  "label_of N rec attrs =
     (case Option.bind (find (\<lambda>a. type_code a = T_VOLUME_NAME (attr_ty N)) attrs)
             (\<lambda>a. resident_content a rec) of
        None \<Rightarrow> None
      | Some content \<Rightarrow>
          let label = decode_utf16_lossy (u16_units content) in
          if label = [] then None else Some label)"

definition volume_label :: "nomicon \<Rightarrow> 'r host \<Rightarrow> ntfs_fs \<Rightarrow> ('r, ustring option) io" where
  "volume_label N H fs =
     io_bind (io_try (read_record N H fs (VOLUME_RECORD N))) (\<lambda>r.
     case r of
       None \<Rightarrow> io_lift (Ok None)
     | Some rec \<Rightarrow>
         io_lift (and_then (res_try (record_attributes N rec)) (\<lambda>attrs.
           Ok (Option.bind attrs (label_of N rec)))))"

definition mft_record_count :: "nomicon \<Rightarrow> 'r host \<Rightarrow> ntfs_fs \<Rightarrow> ('r, u64) vio" where
  "mft_record_count N H fs =
     v_bind (v_io (read_record N H fs (MFT_RECORD N))) (\<lambda>rec0.
     v_bind (v_lift (build_meta N (MFT_RECORD N) rec0)) (\<lambda>meta.
     let rec_size = mft_record_size (fs_boot fs) in
     if rec_size = 0 then v_lift (VOk 0) else v_lift (VOk (m_size meta div rec_size))))"

section \<open>Directories\<close>

definition special_kind_of_record :: "nomicon \<Rightarrow> 'r host \<Rightarrow> ntfs_fs \<Rightarrow> u64 \<Rightarrow> ('r, node_kind option) io" where
  "special_kind_of_record N H fs entry =
     io_bind (io_try (read_record N H fs entry)) (\<lambda>r.
     case r of
       None \<Rightarrow> io_lift (Ok None)
     | Some rec \<Rightarrow>
         io_lift (and_then (res_try (record_attributes N rec)) (\<lambda>attrs.
           case attrs of None \<Rightarrow> Ok None | Some as \<Rightarrow> special_kind N rec as)))"

record dir_entry =
  de_name :: bytes
  de_id :: file_id
  de_kind :: node_kind

definition ref_id :: "file_reference \<Rightarrow> file_id" where
  "ref_id r = NtfsRef (fr_record_number r) (fr_sequence r)"

fun dir_loop :: "nomicon \<Rightarrow> 'r host \<Rightarrow> ntfs_fs \<Rightarrow> index_entry list \<Rightarrow> ('r, dir_entry list) vio" where
  "dir_loop N H fs [] = v_lift (VOk [])"
| "dir_loop N H fs (e # es) =
     (case ie_file_name e of
        None \<Rightarrow> dir_loop N H fs es
      | Some fnm \<Rightarrow>
          v_bind (v_io (special_kind_of_record N H fs (fr_record_number (ie_file_reference e)))) (\<lambda>k.
          v_bind (dir_loop N H fs es) (\<lambda>ds.
          v_lift (VOk (\<lparr>de_name = utf8 (fn_name fnm), de_id = ref_id (ie_file_reference e),
            de_kind = (case k of
                Some kd \<Rightarrow> kd
              | None \<Rightarrow> if fn_flags fnm AND FN_FLAG_DIRECTORY \<noteq> 0 then Dir else File)\<rparr> # ds)))))"

definition dir_records ::
  "nomicon \<Rightarrow> 'r host \<Rightarrow> (bytes \<Rightarrow> bytes option) \<Rightarrow> ntfs_fs \<Rightarrow> file_id \<Rightarrow> ('r, index_entry list) vio" where
  "dir_records N H lz fs dir =
     v_bind (v_lift (vfs_entry_of dir)) (\<lambda>entry.
     v_bind (v_io (read_record N H fs entry)) (\<lambda>rec.
     v_io (directory_entries N H lz fs rec)))"

definition read_dir ::
  "nomicon \<Rightarrow> 'r host \<Rightarrow> (bytes \<Rightarrow> bytes option) \<Rightarrow> ntfs_fs \<Rightarrow> file_id \<Rightarrow> ('r, dir_entry list) vio" where
  "read_dir N H lz fs dir = v_bind (dir_records N H lz fs dir) (dir_loop N H fs)"

fun lookup_loop :: "bytes \<Rightarrow> index_entry list \<Rightarrow> file_id option" where
  "lookup_loop name [] = None"
| "lookup_loop name (e # es) =
     (case ie_file_name e of
        Some fnm \<Rightarrow>
          if utf8 (fn_name fnm) = name then Some (ref_id (ie_file_reference e)) else lookup_loop name es
      | None \<Rightarrow> lookup_loop name es)"

definition vfs_lookup ::
  "nomicon \<Rightarrow> 'r host \<Rightarrow> (bytes \<Rightarrow> bytes option) \<Rightarrow> ntfs_fs \<Rightarrow> file_id \<Rightarrow> bytes \<Rightarrow> ('r, file_id option) vio" where
  "vfs_lookup N H lz fs dir name =
     v_bind (dir_records N H lz fs dir) (\<lambda>entries. v_lift (VOk (lookup_loop name entries)))"

section \<open>One record\<close>

text \<open>The attributes of the record an identity names, with the record itself.\<close>

definition node_attributes ::
  "nomicon \<Rightarrow> 'r host \<Rightarrow> ntfs_fs \<Rightarrow> u64 \<Rightarrow> ('r, bytes \<times> attribute list) vio" where
  "node_attributes N H fs entry =
     v_bind (v_io (read_record N H fs entry)) (\<lambda>rec.
     v_bind (v_lift (to_vfs (record_attributes N rec))) (\<lambda>attrs. v_lift (VOk (rec, attrs))))"

definition vfs_meta :: "nomicon \<Rightarrow> 'r host \<Rightarrow> ntfs_fs \<Rightarrow> file_id \<Rightarrow> ('r, fs_meta) vio" where
  "vfs_meta N H fs node =
     v_bind (v_lift (vfs_entry_of node)) (\<lambda>entry.
     v_bind (v_io (read_record N H fs entry)) (\<lambda>rec.
     v_lift (build_meta N entry rec)))"

record hard_link =
  hl_parent :: file_id
  hl_name :: bytes

fun links_loop :: "nomicon \<Rightarrow> bytes \<Rightarrow> attribute list \<Rightarrow> hard_link list vres" where
  "links_loop N rec [] = VOk []"
| "links_loop N rec (a # as) =
     (if type_code a \<noteq> T_FILE_NAME (attr_ty N) then links_loop N rec as
      else case resident_content a rec of
        None \<Rightarrow> links_loop N rec as
      | Some content \<Rightarrow>
          v_then (to_vfs (file_name_parse content)) (\<lambda>f.
          if is_dos_namespace N f then links_loop N rec as
          else v_then (links_loop N rec as) (\<lambda>ls.
            VOk (\<lparr>hl_parent = ref_id (parent f), hl_name = utf8 (fn_name f)\<rparr> # ls))))"

definition hardlinks :: "nomicon \<Rightarrow> 'r host \<Rightarrow> ntfs_fs \<Rightarrow> file_id \<Rightarrow> ('r, hard_link list) vio" where
  "hardlinks N H fs node =
     v_bind (v_lift (vfs_entry_of node)) (\<lambda>entry.
     v_bind (node_attributes N H fs entry) (\<lambda>(rec, attrs).
     v_lift (links_loop N rec attrs)))"

fun streams_loop :: "attribute list \<Rightarrow> u16 \<Rightarrow> stream_info list" where
  "streams_loop [] named = []"
| "streams_loop (a # as) named =
     (let (sz, res) = body_extent (attr_body a) in
      case attr_name a of
        None \<Rightarrow> \<lparr>st_id = DefaultStream, st_name = None, st_size = sz, st_residency = res,
                 st_kind = NtfsData\<rparr> # streams_loop as named
      | Some n \<Rightarrow> \<lparr>st_id = Named named, st_name = Some (utf8 n), st_size = sz, st_residency = res,
                 st_kind = NtfsAds\<rparr> # streams_loop as (saturating_add named 1))"

definition data_attrs :: "nomicon \<Rightarrow> attribute list \<Rightarrow> attribute list" where
  "data_attrs N attrs = filter (\<lambda>a. type_code a = T_DATA (attr_ty N)) attrs"

definition data_streams :: "nomicon \<Rightarrow> 'r host \<Rightarrow> ntfs_fs \<Rightarrow> file_id \<Rightarrow> ('r, stream_info list) vio" where
  "data_streams N H fs node =
     v_bind (v_lift (vfs_entry_of node)) (\<lambda>entry.
     v_bind (node_attributes N H fs entry) (\<lambda>(rec, attrs).
     v_lift (VOk (streams_loop (data_attrs N attrs) 0))))"

definition read_link :: "nomicon \<Rightarrow> 'r host \<Rightarrow> ntfs_fs \<Rightarrow> file_id \<Rightarrow> nat \<Rightarrow> ('r, bytes) vio" where
  "read_link N H fs node cap =
     v_bind (v_lift (vfs_entry_of node)) (\<lambda>entry.
     v_bind (node_attributes N H fs entry) (\<lambda>(rec, attrs).
     v_bind (v_lift (to_vfs (reparse_target N rec attrs))) (\<lambda>target.
     v_lift (VOk (take cap (utf8 (case target of None \<Rightarrow> [] | Some t \<Rightarrow> t)))))))"

section \<open>Data\<close>

definition extent_of :: "u64 \<Rightarrow> run \<Rightarrow> run_info" where
  "extent_of cs r =
     \<lparr>ri_run = \<lparr>image_offset = saturating_mul (case lcn r of None \<Rightarrow> 0 | Some l \<Rightarrow> l) cs,
               run_bytes = saturating_mul (run_length r) cs,
               br_flags = \<lparr>rf_sparse = Some (lcn r = None)\<rparr>\<rparr>,
      ri_alloc = RunAllocated\<rparr>"

definition extents ::
  "nomicon \<Rightarrow> 'r host \<Rightarrow> (bytes \<Rightarrow> bytes option) \<Rightarrow> ntfs_fs \<Rightarrow> file_id \<Rightarrow> stream_id \<Rightarrow> ('r, run_info list) vio" where
  "extents N H lz fs node strm =
     v_bind (v_lift (vfs_entry_of node)) (\<lambda>entry.
     v_bind (v_lift (stream_name strm)) (\<lambda>name.
     v_bind (v_io (runs_by_record N H lz fs entry name)) (\<lambda>runs.
     v_lift (VOk (map (extent_of (cluster_size (fs_boot fs))) runs)))))"

text \<open>\<open>u64::saturating_sub\<close>.\<close>

definition saturating_sub :: "u64 \<Rightarrow> u64 \<Rightarrow> u64" where
  "saturating_sub a b = (if b \<le> a then a - b else 0)"

fun slack_loop :: "u64 \<Rightarrow> u64 \<Rightarrow> run list \<Rightarrow> u64 \<Rightarrow> byte_run option" where
  "slack_loop cs rsize [] consumed = None"
| "slack_loop cs rsize (r # rs) consumed =
     (let len = saturating_mul (run_length r) cs in
      if saturating_add consumed len > rsize then
        case lcn r of
          None \<Rightarrow> None
        | Some l \<Rightarrow>
            let into = saturating_sub rsize consumed in
            Some \<lparr>image_offset = saturating_add (saturating_mul l cs) into,
                  run_bytes = saturating_sub len into, br_flags = default_flags\<rparr>
      else slack_loop cs rsize rs (saturating_add consumed len))"

definition slack ::
  "nomicon \<Rightarrow> 'r host \<Rightarrow> (bytes \<Rightarrow> bytes option) \<Rightarrow> ntfs_fs \<Rightarrow> file_id \<Rightarrow> stream_id \<Rightarrow> ('r, byte_run option) vio" where
  "slack N H lz fs node strm =
     v_bind (v_lift (vfs_entry_of node)) (\<lambda>entry.
     v_bind (v_lift (stream_name strm)) (\<lambda>name.
     v_bind (node_attributes N H fs entry) (\<lambda>(rec, attrs).
     case find (\<lambda>a. type_code a = T_DATA (attr_ty N) \<and> attr_name a = name) attrs of
       None \<Rightarrow> v_lift (VOk None)
     | Some a \<Rightarrow>
         (case attr_body a of
            Resident _ _ \<Rightarrow> v_lift (VOk None)
          | NonResident _ _ _ _ _ rsize _ \<Rightarrow>
              v_bind (v_io (runs_by_record N H lz fs entry name)) (\<lambda>runs.
              v_lift (VOk (slack_loop (cluster_size (fs_boot fs)) rsize runs 0)))))))"

text \<open>
  \<open>read_at\<close>: the stream an identity names, the capped read and the copy into the caller's
  buffer, which is returned next to the count.
\<close>

definition named_streams :: "nomicon \<Rightarrow> attribute list \<Rightarrow> ustring list" where
  "named_streams N attrs = List.map_filter attr_name (data_attrs N attrs)"

definition resolve_stream :: "nomicon \<Rightarrow> 'r host \<Rightarrow> ntfs_fs \<Rightarrow> u64 \<Rightarrow> stream_id \<Rightarrow> ('r, ustring option) vio" where
  "resolve_stream N H fs entry strm =
     (case strm of
        Named i \<Rightarrow>
          v_bind (node_attributes N H fs entry) (\<lambda>(rec, attrs).
          if unat i < length (named_streams N attrs) then v_lift (VOk (Some (named_streams N attrs ! unat i)))
          else v_lift (VErr (Unsupported ''ntfs stream index''
            (lit ''named stream '' @ dec (unat i) @ lit '' of record '' @ dec (unat entry)))))
      | _ \<Rightarrow> v_lift (stream_name strm))"

definition copy_window :: "bytes \<Rightarrow> nat \<Rightarrow> bytes \<Rightarrow> (nat \<times> bytes) res" where
  "copy_window data start buf =
     (if length data \<le> start then Ok (0, buf)
      else let n = min (length buf) (length data - start) in
      and_then (slice data start (start + n)) (\<lambda>part. Ok (n, part @ drop n buf)))"

definition read_at ::
  "nomicon \<Rightarrow> 'r host \<Rightarrow> (bytes \<Rightarrow> bytes option) \<Rightarrow> ntfs_fs \<Rightarrow> file_id \<Rightarrow> stream_id \<Rightarrow> u64 \<Rightarrow> bytes \<Rightarrow> ('r, nat \<times> bytes) vio" where
  "read_at N H lz fs node strm off buf =
     v_bind (v_lift (vfs_entry_of node)) (\<lambda>entry.
     v_bind (resolve_stream N H fs entry strm) (\<lambda>name.
     let cap = saturating_add off (word_of_nat (length buf)) in
     v_bind (v_io (read_data_by_record N H lz fs entry name cap)) (\<lambda>data.
     v_lift (to_vfs (copy_window data (unat off) buf)))))"

section \<open>Deleted records and free space\<close>

record deleted_node =
  dn_id :: file_id
  dn_name :: bytes
  dn_parent :: "file_id option"
  dn_meta :: fs_meta

text \<open>One turn of the loop of \<open>deleted_nodes\<close>, on the record it has read.\<close>

definition deleted_of :: "nomicon \<Rightarrow> u64 \<Rightarrow> bytes \<Rightarrow> deleted_node option vres" where
  "deleted_of N entry rec =
     (case header_parse N rec of
        Panic \<Rightarrow> VPanic
      | Err _ \<Rightarrow> VOk None
      | Ok h \<Rightarrow>
          if is_in_use N h then VOk None
          else v_then (to_vfs (vfs_best_file_name N rec)) (\<lambda>f.
          case f of
            None \<Rightarrow> VOk None
          | Some fnm \<Rightarrow>
              (case build_meta N entry rec of
                 VPanic \<Rightarrow> VPanic
               | VErr _ \<Rightarrow> VOk None
               | VOk meta \<Rightarrow>
                   VOk (Some \<lparr>dn_id = NtfsRef entry (sequence_number h), dn_name = utf8 (fn_name fnm),
                     dn_parent = (if fr_record_number (parent fnm) = 0 then None else Some (ref_id (parent fnm))),
                     dn_meta = meta\<rparr>))))"

fun deleted_loop :: "nomicon \<Rightarrow> 'r host \<Rightarrow> ntfs_fs \<Rightarrow> u64 list \<Rightarrow> ('r, deleted_node list) vio" where
  "deleted_loop N H fs [] = v_lift (VOk [])"
| "deleted_loop N H fs (entry # es) =
     v_bind (v_io (io_try (read_record N H fs entry))) (\<lambda>r.
     v_bind (v_lift (case r of None \<Rightarrow> VOk None | Some rec \<Rightarrow> deleted_of N entry rec)) (\<lambda>d.
     v_bind (deleted_loop N H fs es) (\<lambda>ds.
     v_lift (VOk (case d of None \<Rightarrow> ds | Some n \<Rightarrow> n # ds)))))"

definition deleted_nodes :: "nomicon \<Rightarrow> 'r host \<Rightarrow> ntfs_fs \<Rightarrow> ('r, deleted_node list) vio" where
  "deleted_nodes N H fs =
     v_bind (mft_record_count N H fs) (\<lambda>cnt.
     deleted_loop N H fs (map word_of_nat [0..<unat cnt]))"

definition volume_clusters :: "ntfs_fs \<Rightarrow> u64" where
  "volume_clusters fs =
     (if sectors_per_cluster (fs_boot fs) = 0 then 0
      else total_sectors (fs_boot fs) div ucast (sectors_per_cluster (fs_boot fs)))"

definition unallocated :: "nomicon \<Rightarrow> 'r host \<Rightarrow> (bytes \<Rightarrow> bytes option) \<Rightarrow> ntfs_fs \<Rightarrow> ('r, run_info list) vio" where
  "unallocated N H lz fs =
     v_bind (v_io (read_data_by_record N H lz fs (BITMAP_RECORD N) None (- 1))) (\<lambda>bitmap.
     let clusters = volume_clusters fs; needed = (unat clusters + 7) div 8 in
     if length bitmap < needed then
       v_lift (VErr (Decode ''ntfs $Bitmap'' 0 (Text (lit ''$Bitmap is '' @ dec (length bitmap) @
         lit '' bytes but '' @ dec (unat clusters) @ lit '' clusters need '' @ dec needed)) []))
     else v_lift (VOk (unallocated_runs bitmap (cluster_size (fs_boot fs)) clusters 0)))"

section \<open>Directories\<close>

lemma dir_loop_lookup:
  assumes "dir_loop N H fs es rd = (VOk ds, rd')"
  shows "lookup_loop name es = map_option de_id (find (\<lambda>d. de_name d = name) ds)"
  using assms
proof (induction es arbitrary: rd ds rd')
  case (Cons e es)
  show ?case
  proof (cases "ie_file_name e")
    case None
    with Cons show ?thesis by simp
  next
    case (Some fnm)
    with Cons.prems obtain rd1 rd2 d ds' where "dir_loop N H fs es rd1 = (VOk ds', rd2)"
      "ds = d # ds'" "de_name d = utf8 (fn_name fnm)" "de_id d = ref_id (ie_file_reference e)"
      by (auto simp: v_bind_VOk)
    with Cons.IH Some show ?thesis by simp
  qed
qed simp

section \<open>Streams\<close>

lemma record_attributes_count: "record_attributes N rec = Ok attrs \<Longrightarrow> length attrs \<le> 4096"
  using attributes_loop_wf
  by (fastforce simp: record_attributes_def parse_attributes_def MAX_ATTRIBUTES_def and_then_Ok_iff)

lemma data_attrs_length: "length (data_attrs N attrs) \<le> length attrs"
  by (simp add: data_attrs_def)

text \<open>The counter of named streams stays below its saturation, so it numbers them.\<close>

lemma streams_loop_named:
  assumes "s \<in> set (streams_loop as (word_of_nat k))" "st_id s = Named i" "k + length as < 65536"
  shows "\<exists>j < length (List.map_filter attr_name as). unat i = k + j \<and>
    st_name s = Some (utf8 (List.map_filter attr_name as ! j))"
  using assms
proof (induction as arbitrary: k)
  case (Cons a as)
  obtain sz res where b: "body_extent (attr_body a) = (sz, res)"
    by (cases "body_extent (attr_body a)")
  show ?case
  proof (cases "attr_name a")
    case None
    then have "s \<in> set (streams_loop as (word_of_nat k))"
      using Cons.prems(1,2) b by auto
    then show ?thesis
      using Cons.IH [of k] Cons.prems(2,3) None by (simp add: List.map_filter_simps)
  next
    case (Some n)
    have lt: "k < 65535"
      using Cons.prems(3) by simp
    have k: "unat (word_of_nat k :: u16) = k"
      using lt by (simp add: unat_of_nat)
    have k1: "saturating_add (word_of_nat k) 1 = (word_of_nat (Suc k) :: u16)"
      using lt by (simp add: saturating_add_def k)
    show ?thesis
    proof (cases "s \<in> set (streams_loop as (word_of_nat (Suc k)))")
      case True
      moreover have "Suc k + length as < 65536"
        using Cons.prems(3) by simp
      ultimately obtain j where "j < length (List.map_filter attr_name as)"
        "unat i = Suc k + j" "st_name s = Some (utf8 (List.map_filter attr_name as ! j))"
        using Cons.IH [OF _ Cons.prems(2)] by blast
      with Some show ?thesis
        by (intro exI [of _ "Suc j"]) (simp add: List.map_filter_simps)
    next
      case False
      then have "s = \<lparr>st_id = Named (word_of_nat k), st_name = Some (utf8 n), st_size = sz,
          st_residency = res, st_kind = NtfsAds\<rparr>"
        using Cons.prems(1) Some b k1 by simp
      with Cons.prems(2) Some k show ?thesis
        by (intro exI [of _ 0]) (auto simp: List.map_filter_simps)
    qed
  qed
qed simp

lemma streams_loop_unnamed:
  "s \<in> set (streams_loop as k) \<Longrightarrow>
   (case st_id s of DefaultStream \<Rightarrow> st_name s = None | Named _ \<Rightarrow> True | OtherStream _ \<Rightarrow> False)"
  by (induction as arbitrary: k) (auto simp: Let_def split: prod.splits option.splits)

lemma node_attributes_VOk:
  "node_attributes N H fs entry rd = (VOk (rec, attrs), rd1) \<longleftrightarrow>
   read_record N H fs entry rd = (Ok rec, rd1) \<and> record_attributes N rec = Ok attrs"
  by (auto simp: node_attributes_def v_bind_VOk)

context medium
begin

lemma read_record_again:
  assumes "good rd" "read_record N H fs n rd = (r, rd1)"
  shows "good rd1" "disk rd1 = disk rd"
    "good rd' \<Longrightarrow> disk rd' = disk rd \<Longrightarrow> \<exists>rd2. read_record N H fs n rd' = (r, rd2) \<and> good rd2 \<and> disk rd2 = disk rd"
proof -
  show "good rd1" "disk rd1 = disk rd"
    using content_onlyE(1,2) [OF read_record_content assms(1), of N fs n] assms(2) by simp_all
  assume g: "good rd'" "disk rd' = disk rd"
  have "fst (read_record N H fs n rd') = r"
    using content_onlyE(3) [OF read_record_content assms(1) g] assms(2) by simp
  moreover have "good (snd (read_record N H fs n rd'))" "disk (snd (read_record N H fs n rd')) = disk rd"
    using content_onlyE(1,2) [OF read_record_content g(1)] g(2) by simp_all
  ultimately show "\<exists>rd2. read_record N H fs n rd' = (r, rd2) \<and> good rd2 \<and> disk rd2 = disk rd"
    by (metis prod.collapse)
qed

lemma resolve_stream_good:
  assumes "good rd" "resolve_stream N H fs entry strm rd = (VOk name, rd1)"
  shows "good rd1" "disk rd1 = disk rd"
  using assms read_record_again(1,2) [OF assms(1)]
  by (auto simp: resolve_stream_def v_bind_VOk node_attributes_VOk split: stream_id.splits if_splits)

lemma read_at_spec:
  assumes "good rd" "fst (resolve_stream N H fs e strm rd) = VOk name"
    and "fst (read_data_by_record N H lz fs e name (- 1) rd) = Ok full"
    and "fst (read_at N H lz fs (NtfsRef e q) strm off buf rd) = VOk (n, out)" "length buf < 2 ^ 64"
  shows "n = min (length buf) (length full - unat off) \<and> out = take n (drop (unat off) full) @ drop n buf"
proof -
  let ?cap = "saturating_add off (word_of_nat (length buf))"
  obtain rd1 where r: "resolve_stream N H fs e strm rd = (VOk name, rd1)"
    using assms(2) by (metis eq_fst_iff)
  note g = resolve_stream_good [OF assms(1) r]
  obtain rd2 where full: "read_data_by_record N H lz fs e name (- 1) rd1 = (Ok full, rd2)"
    using content_onlyE(3) [OF read_data_by_record_content assms(1) g, of N lz fs e name "- 1"] assms(3)
    by (metis eq_fst_iff)
  from assms(4) r obtain data rd3 where
    part: "read_data_by_record N H lz fs e name ?cap rd1 = (Ok data, rd3)"
    and copy: "copy_window data (unat off) buf = Ok (n, out)"
    by (auto simp: read_at_def vfs_entry_of_def v_bind_fst_VOk Let_def)
  have data: "data = take (unat ?cap) full" "full = take (2 ^ 64 - 1) full"
    using read_data_by_record_cap [OF g(1) part full] read_data_by_record_cap [OF g(1) full full]
    by (simp_all add: unsigned_minus_1_eq_mask mask_eq_exp_minus_1)
  have cap: "unat ?cap = min (unat off + length buf) (2 ^ 64 - 1)"
    using assms(5) by (simp add: saturating_add_unat unat_of_nat)
  have "length full \<le> 2 ^ 64 - 1"
    using data(2) by (metis length_take min.cobounded2)
  then have d: "data = take (unat off + length buf) full"
    using data(1) unfolding cap by (cases "unat off + length buf \<le> 2 ^ 64 - 1") (simp_all add: min_def)
  show ?thesis
  proof (cases "length data \<le> unat off")
    case True
    then have "length full \<le> unat off \<or> buf = []"
      unfolding d by (cases buf) (auto simp: min_def split: if_splits)
    with True copy show ?thesis
      by (auto simp: copy_window_def)
  next
    case False
    then have len: "length data - unat off = min (length full - unat off) (length buf)" "unat off < length full"
      unfolding d by auto
    define m where "m = min (length buf) (length full - unat off)"
    have "take m (drop (unat off) data) = take m (drop (unat off) full)"
      unfolding d m_def by (simp add: drop_take min_def)
    moreover have "min (length buf) (length data - unat off) = m"
      unfolding len(1) m_def by (simp add: min_def)
    moreover have "unat off + m \<le> length data"
      using len False unfolding m_def by linarith
    ultimately show ?thesis
      using copy False by (auto simp: copy_window_def Let_def m_def [symmetric])
  qed
qed

end

section \<open>Extents and slack\<close>

text \<open>What an extent says of the image, and the run that holds byte \<open>p\<close> of a stream.\<close>

definition extent_content :: "bytes \<Rightarrow> run_info \<Rightarrow> bytes" where
  "extent_content d e =
     (let r = ri_run e in
      if rf_sparse (br_flags r) = Some True then replicate (unat (run_bytes r)) 0
      else take (unat (run_bytes r)) (drop (unat (image_offset r)) d))"

fun run_holding :: "nat \<Rightarrow> run list \<Rightarrow> nat \<Rightarrow> (run \<times> nat) option" where
  "run_holding cs [] p = None"
| "run_holding cs (r # rs) p =
     (if p < unat (run_length r) * cs then Some (r, p)
      else run_holding cs rs (p - unat (run_length r) * cs))"

lemma run_on_disk_fits:
  assumes "run_on_disk d (unat cs) r" "lcn r = Some l" "length d < 2 ^ 64"
  shows "unat l * unat cs + unat (run_length r) * unat cs \<le> length d" "unat l * unat cs < 2 ^ 64"
    "unat (run_length r) * unat cs < 2 ^ 64"
  using assms by (simp_all add: run_on_disk_def algebra_simps)

lemma unat_max_u64: "unat (- 1 :: u64) = 2 ^ 64 - 1"
  by (simp add: unsigned_minus_1_eq_mask mask_eq_exp_minus_1)

text \<open>
  Offsets that saturate lie past the end of a disk as much as those they stand for, so no run has to
  lie on the disk.
\<close>

lemma extent_content_run:
  assumes "length d < 2 ^ 64" "unat (run_length r) * unat cs < 2 ^ 64"
  shows "extent_content d (extent_of cs r) = run_content d (unat cs) r"
proof (cases "lcn r")
  case (Some l)
  have "drop (unat (saturating_mul l cs)) d = drop (unat l * unat cs) d"
  proof (cases "unat l * unat cs < 2 ^ 64")
    case False
    then have "length d \<le> unat (saturating_mul l cs)" "length d \<le> unat l * unat cs"
      using assms(1) by (simp_all add: saturating_mul_def unat_max_u64)
    then show ?thesis
      by simp
  qed (simp add: saturating_mul_unat)
  then show ?thesis
    using Some assms(2) by (simp add: extent_content_def extent_of_def run_content_def Let_def saturating_mul_unat)
qed (use assms(2) in \<open>simp add: extent_content_def extent_of_def run_content_def Let_def saturating_mul_unat\<close>)

lemma extents_stream:
  assumes "length d < 2 ^ 64" "allocated_bytes (unat cs) runs < 2 ^ 64"
  shows "concat (map (extent_content d) (map (extent_of cs) runs)) = stream d (unat cs) runs"
    "(\<Sum>x\<leftarrow>map (extent_of cs) runs. unat (run_bytes (ri_run x))) = allocated_bytes (unat cs) runs"
proof -
  have small: "unat (run_length r) * unat cs < 2 ^ 64" if "r \<in> set runs" for r
  proof -
    have "unat (run_length r) * unat cs \<le> allocated_bytes (unat cs) runs"
      unfolding allocated_bytes_def using that by (intro member_le_sum_list) auto
    then show ?thesis
      using assms(2) by (rule le_less_trans)
  qed
  show "concat (map (extent_content d) (map (extent_of cs) runs)) = stream d (unat cs) runs"
    using small by (simp add: stream_def extent_content_run [OF assms(1)] o_def cong: map_cong)
  show "(\<Sum>x\<leftarrow>map (extent_of cs) runs. unat (run_bytes (ri_run x))) = allocated_bytes (unat cs) runs"
    using small by (simp add: allocated_bytes_def extent_of_def o_def saturating_mul_unat cong: map_cong)
qed

lemma saturating_sub_unat: "unat (saturating_sub a b) = unat a - unat b"
  by (auto simp: saturating_sub_def word_le_nat_alt unat_sub_if_size)

lemma slack_loop_holding:
  assumes "list_all (run_on_disk d (unat cs)) runs" "length d < 2 ^ 64"
    and "unat consumed + allocated_bytes (unat cs) runs < 2 ^ 64" "consumed \<le> rsize"
  shows "case slack_loop cs rsize runs consumed of
      None \<Rightarrow> (case run_holding (unat cs) runs (unat rsize - unat consumed) of
                None \<Rightarrow> True | Some (r, p) \<Rightarrow> lcn r = None)
    | Some b \<Rightarrow> (case run_holding (unat cs) runs (unat rsize - unat consumed) of
                None \<Rightarrow> False
              | Some (r, p) \<Rightarrow> (case lcn r of
                    None \<Rightarrow> False
                  | Some l \<Rightarrow> unat (image_offset b) = unat l * unat cs + p \<and>
                      unat (run_bytes b) = unat (run_length r) * unat cs - p))"
  using assms
proof (induction runs arbitrary: consumed)
  case (Cons r rs)
  define len where "len = unat (run_length r) * unat cs"
  have al: "len + allocated_bytes (unat cs) rs = allocated_bytes (unat cs) (r # rs)"
    by (simp add: allocated_Cons len_def)
  then have lt: "len < 2 ^ 64" "unat consumed + len < 2 ^ 64"
    using Cons.prems(3) by linarith+
  have l: "unat (saturating_mul (run_length r) cs) = len"
    using lt(1) unfolding len_def by (simp add: saturating_mul_unat)
  have s: "unat (saturating_add consumed (saturating_mul (run_length r) cs)) = unat consumed + len"
    using lt(2) l by (simp add: saturating_add_unat)
  have le: "unat consumed \<le> unat rsize"
    using Cons.prems(4) by (simp add: word_le_nat_alt)
  show ?case
  proof (cases "rsize < saturating_add consumed (saturating_mul (run_length r) cs)")
    case True
    then have p: "unat rsize - unat consumed < len"
      using s le by (simp add: word_less_nat_alt)
    show ?thesis
    proof (cases "lcn r")
      case None
      with True p show ?thesis by (simp add: len_def)
    next
      case (Some c)
      have on: "unat c * unat cs + len \<le> length d" "unat (saturating_mul c cs) = unat c * unat cs"
        using run_on_disk_fits [of d cs r c] Cons.prems(1,2) Some by (simp_all add: len_def saturating_mul_unat)
      have "unat c * unat cs + (unat rsize - unat consumed) < 2 ^ 64"
        using on(1) p Cons.prems(2) by linarith
      then have "unat (saturating_add (saturating_mul c cs) (saturating_sub rsize consumed)) =
          unat c * unat cs + (unat rsize - unat consumed)"
        by (simp add: saturating_add_unat saturating_sub_unat on(2))
      moreover have "unat (saturating_sub (saturating_mul (run_length r) cs) (saturating_sub rsize consumed)) =
          len - (unat rsize - unat consumed)"
        by (simp only: saturating_sub_unat l)
      ultimately show ?thesis
        using True p Some by (simp add: Let_def len_def)
    qed
  next
    case False
    let ?c = "saturating_add consumed (saturating_mul (run_length r) cs)"
    have ge: "unat consumed + len \<le> unat rsize" "?c \<le> rsize"
      using False s by (simp_all add: not_less word_le_nat_alt)
    have "unat ?c + allocated_bytes (unat cs) rs < 2 ^ 64"
      using s al Cons.prems(3) by linarith
    moreover have "unat rsize - unat ?c = unat rsize - unat consumed - len" "\<not> unat rsize - unat consumed < len"
      using s ge(1) by linarith+
    ultimately have "run_holding (unat cs) (r # rs) (unat rsize - unat consumed) =
        run_holding (unat cs) rs (unat rsize - unat ?c)"
      "unat ?c + allocated_bytes (unat cs) rs < 2 ^ 64"
      by (simp_all add: len_def)
    moreover have "slack_loop cs rsize (r # rs) consumed = slack_loop cs rsize rs ?c"
      using False by (simp add: Let_def)
    ultimately show ?thesis
      using Cons.IH [OF _ Cons.prems(2) _ ge(2)] Cons.prems(1) by (simp only: list.pred_inject)
  qed
qed simp

lemma run_holding_stream:
  assumes "list_all (run_on_disk d cs) runs"
  shows "case run_holding cs runs p of
      None \<Rightarrow> length (stream d cs runs) \<le> p
    | Some (r, q) \<Rightarrow> r \<in> set runs \<and> q < unat (run_length r) * cs \<and>
        take (unat (run_length r) * cs - q) (drop p (stream d cs runs)) = drop q (run_content d cs r)"
  using assms
proof (induction runs arbitrary: p)
  case (Cons r rs)
  have len: "length (run_content d cs r) = unat (run_length r) * cs"
    using Cons.prems by (simp add: length_run_content_on_disk)
  have st: "stream d cs (r # rs) = run_content d cs r @ stream d cs rs"
    by (simp add: stream_def)
  show ?case
  proof (cases "p < unat (run_length r) * cs")
    case True
    then show ?thesis
      by (simp add: st len)
  next
    case False
    then show ?thesis
      using Cons.IH [of "p - unat (run_length r) * cs"] Cons.prems
      by (auto simp: st len split: option.splits)
  qed
qed (simp add: stream_def)

text \<open>
  The slack of a stream of \<open>rsize\<close> bytes: the part of the run holding its end that lies past
  it, or nothing when the runs end there or that run is sparse.
\<close>

definition slack_ok :: "bytes \<Rightarrow> nat \<Rightarrow> run list \<Rightarrow> nat \<Rightarrow> byte_run option \<Rightarrow> bool" where
  "slack_ok d cs runs rsize sl \<longleftrightarrow>
     (case sl of
        None \<Rightarrow> (case run_holding cs runs rsize of
            None \<Rightarrow> length (stream d cs runs) \<le> rsize
          | Some (r, p) \<Rightarrow> lcn r = None)
      | Some b \<Rightarrow> (case run_holding cs runs rsize of
            None \<Rightarrow> False
          | Some (r, p) \<Rightarrow> unat (run_bytes b) = unat (run_length r) * cs - p \<and> 0 < unat (run_bytes b) \<and>
              take (unat (run_bytes b)) (drop (unat (image_offset b)) d) =
              take (unat (run_bytes b)) (drop rsize (stream d cs runs))))"

lemma slack_loop_ok:
  assumes "list_all (run_on_disk d (unat cs)) runs" "length d < 2 ^ 64" "allocated_bytes (unat cs) runs < 2 ^ 64"
  shows "slack_ok d (unat cs) runs (unat rsize) (slack_loop cs rsize runs 0)"
proof (cases "run_holding (unat cs) runs (unat rsize)")
  case None
  then show ?thesis
    using run_holding_stream [OF assms(1), of "unat rsize"] slack_loop_holding [OF assms(1,2), of 0 rsize] assms(3)
    by (auto simp: slack_ok_def split: option.splits)
next
  case (Some rp)
  obtain r p where rp: "rp = (r, p)"
    by (cases rp)
  have h: "p < unat (run_length r) * unat cs"
    "take (unat (run_length r) * unat cs - p) (drop (unat rsize) (stream d (unat cs) runs)) =
      drop p (run_content d (unat cs) r)"
    using run_holding_stream [OF assms(1), of "unat rsize"] Some rp by auto
  have l: "case slack_loop cs rsize runs 0 of
      None \<Rightarrow> lcn r = None
    | Some b \<Rightarrow> (case lcn r of None \<Rightarrow> False | Some l \<Rightarrow> unat (image_offset b) = unat l * unat cs + p \<and>
        unat (run_bytes b) = unat (run_length r) * unat cs - p)"
    using slack_loop_holding [OF assms(1,2), of 0 rsize] assms(3) Some rp by (simp split: option.splits)
  show ?thesis
  proof (cases "slack_loop cs rsize runs 0")
    case (Some b)
    with l obtain c where c: "lcn r = Some c" "unat (image_offset b) = unat c * unat cs + p"
      "unat (run_bytes b) = unat (run_length r) * unat cs - p"
      by (auto split: option.splits)
    then have "drop p (run_content d (unat cs) r) =
        take (unat (run_bytes b)) (drop (unat (image_offset b)) d)"
      by (simp add: run_content_def drop_take add.commute)
    with Some c h \<open>run_holding (unat cs) runs (unat rsize) = Some rp\<close> rp show ?thesis
      by (simp add: slack_ok_def)
  qed (use l Some rp in \<open>simp add: slack_ok_def\<close>)
qed

section \<open>Free space\<close>

definition byte_in :: "run_info list \<Rightarrow> nat \<Rightarrow> bool" where
  "byte_in rs p \<longleftrightarrow> list_ex (\<lambda>e. unat (image_offset (ri_run e)) \<le> p \<and>
     p < unat (image_offset (ri_run e)) + unat (run_bytes (ri_run e))) rs"

lemma free_runs_spec:
  "in_runs (free_runs bitmap clusters) c \<longleftrightarrow> c < unat clusters \<and> cluster_free bitmap c"
  "runs_below (unat clusters) (free_runs bitmap clusters)"
  "runs_apart (free_runs bitmap clusters)"
  using free_runs_inv by blast+

lemma cluster_range:
  fixes s l p cs :: nat
  assumes "0 < cs"
  shows "s * cs \<le> p \<and> p < s * cs + l * cs \<longleftrightarrow> s \<le> p div cs \<and> p div cs < s + l"
  using assms by (simp add: less_eq_div_iff_mult_less_eq div_less_iff_less_mult distrib_right)

lemma unallocated_runs_bytes:
  assumes "unat clusters * unat cs < 2 ^ 64" "0 < unat cs"
  shows "byte_in (unallocated_runs bitmap cs clusters 0) p \<longleftrightarrow>
    p < unat clusters * unat cs \<and> cluster_free bitmap (p div unat cs)"
proof -
  have one: "unat (saturating_add 0 (saturating_mul s cs)) = unat s * unat cs \<and>
      unat (saturating_mul l cs) = unat l * unat cs"
    if "(s, l) \<in> set (free_runs bitmap clusters)" for s l
  proof -
    have "unat s + unat l \<le> unat clusters"
      using that free_runs_spec(2) [of clusters bitmap] by (auto simp: runs_below_def list_all_iff)
    then have "unat s * unat cs \<le> unat clusters * unat cs" "unat l * unat cs \<le> unat clusters * unat cs"
      by (simp_all add: mult_le_mono1)
    then have "unat s * unat cs < 2 ^ 64" "unat l * unat cs < 2 ^ 64"
      using assms(1) by linarith+
    then show ?thesis
      by (simp add: saturating_mul_unat saturating_add_unat)
  qed
  have "byte_in (unallocated_runs bitmap cs clusters 0) p \<longleftrightarrow>
      (\<exists>(s, l) \<in> set (free_runs bitmap clusters). unat s * unat cs \<le> p \<and> p < unat s * unat cs + unat l * unat cs)"
  proof -
    have "byte_in (unallocated_runs bitmap cs clusters 0) p \<longleftrightarrow>
        (\<exists>(s, l) \<in> set (free_runs bitmap clusters). unat (saturating_add 0 (saturating_mul s cs)) \<le> p \<and>
          p < unat (saturating_add 0 (saturating_mul s cs)) + unat (saturating_mul l cs))"
      by (simp add: byte_in_def unallocated_runs_def list_ex_iff case_prod_unfold)
    also have "\<dots> \<longleftrightarrow>
        (\<exists>(s, l) \<in> set (free_runs bitmap clusters). unat s * unat cs \<le> p \<and> p < unat s * unat cs + unat l * unat cs)"
      using one by (intro bex_cong refl) auto
    finally show ?thesis .
  qed
  also have "\<dots> \<longleftrightarrow> in_runs (free_runs bitmap clusters) (p div unat cs)"
    by (simp add: in_runs_def list_ex_iff cluster_range [OF assms(2)])
  finally show ?thesis
    using assms(2) by (simp add: free_runs_spec(1) div_less_iff_less_mult)
qed

section \<open>Deleted records\<close>

text \<open>
  A record that can be recovered: it parses, is not in use and carries a readable name. Its
  name is one of those, and none of them is of a better namespace.
\<close>

definition recoverable :: "nomicon \<Rightarrow> bytes \<Rightarrow> bool" where
  "recoverable N rec \<longleftrightarrow>
     (case header_parse N rec of
        Ok h \<Rightarrow> \<not> is_in_use N h \<and>
          (case record_attributes N rec of
             Ok attrs \<Rightarrow> record_names N rec attrs \<noteq> []
           | _ \<Rightarrow> False)
      | _ \<Rightarrow> False)"

definition recovered :: "nomicon \<Rightarrow> u64 \<Rightarrow> bytes \<Rightarrow> deleted_node \<Rightarrow> bool" where
  "recovered N entry rec n \<longleftrightarrow>
     build_meta N entry rec = VOk (dn_meta n) \<and> m_allocated (dn_meta n) = Deleted \<and>
     (\<exists>h attrs f. header_parse N rec = Ok h \<and> record_attributes N rec = Ok attrs \<and>
        dn_id n = NtfsRef entry (sequence_number h) \<and> f \<in> set (record_names N rec attrs) \<and>
        dn_name n = utf8 (fn_name f) \<and>
        dn_parent n = (if fr_record_number (parent f) = 0 then None
          else Some (NtfsRef (fr_record_number (parent f)) (fr_sequence (parent f)))) \<and>
        (\<forall>g \<in> set (record_names N rec attrs).
           namespace_rank N (namespace g) \<le> namespace_rank N (namespace f)))"

lemma build_meta_VOk:
  assumes "header_parse N rec = Ok h" "record_attributes N rec = Ok attrs"
  shows "\<exists>m. build_meta N entry rec = VOk m \<and> (m_allocated m = Allocated \<longleftrightarrow> is_in_use N h)"
  using assms special_kind_Ok [of N rec attrs]
  by (auto simp: build_meta_def record_attributes_def split: prod.splits)

lemma deleted_of_spec:
  assumes "record_attributes N rec \<noteq> Panic"
  shows "\<exists>d. deleted_of N entry rec = VOk d \<and> (d \<noteq> None \<longleftrightarrow> recoverable N rec) \<and>
    (\<forall>n. d = Some n \<longrightarrow> recovered N entry rec n)"
proof (cases "header_parse N rec")
  case (Ok h)
  show ?thesis
  proof (cases "is_in_use N h")
    case True
    with Ok show ?thesis by (simp add: deleted_of_def recoverable_def)
  next
    case free: False
    show ?thesis
    proof (cases "record_attributes N rec")
      case attrs: (Ok attrs)
      let ?best = "max_by_key (\<lambda>f. namespace_rank N (namespace f)) (record_names N rec attrs)"
      have b: "vfs_best_file_name N rec = Ok ?best"
        by (simp add: vfs_best_file_name_def attrs)
      obtain m where m: "build_meta N entry rec = VOk m" "m_allocated m \<noteq> Allocated"
        using build_meta_VOk [OF Ok attrs] free by blast
      then have "m_allocated m = Deleted"
        by (cases "m_allocated m") auto
      with m Ok free attrs b show ?thesis
        using max_by_key_Some [of "\<lambda>f. namespace_rank N (namespace f)" "record_names N rec attrs"]
        by (cases ?best) (auto simp: deleted_of_def recoverable_def recovered_def ref_id_def)
    qed (use assms Ok free in \<open>simp_all add: deleted_of_def recoverable_def vfs_best_file_name_def\<close>)
  qed
qed (simp_all add: deleted_of_def recoverable_def)

context medium
begin

lemma deleted_loop_spec:
  assumes "good rd0" "good rd" "disk rd = disk rd0"
    and np: "\<And>e. fst (read_record N H fs e rd0) \<noteq> Panic"
      "\<And>e rec. fst (read_record N H fs e rd0) = Ok rec \<Longrightarrow> record_attributes N rec \<noteq> Panic"
  shows "\<exists>ds. fst (deleted_loop N H fs es rd) = VOk ds \<and>
    list_all2 (\<lambda>e n. \<exists>rec. fst (read_record N H fs e rd0) = Ok rec \<and> recovered N e rec n)
      (filter (\<lambda>e. \<exists>rec. fst (read_record N H fs e rd0) = Ok rec \<and> recoverable N rec) es) ds"
  using assms(2,3)
proof (induction es arbitrary: rd)
  case (Cons e es)
  let ?r = "fst (read_record N H fs e rd0)"
  obtain rd1 where rd1: "read_record N H fs e rd = (?r, rd1)" "good rd1" "disk rd1 = disk rd0"
    using read_record_again(3) [OF assms(1) surjective_pairing Cons.prems] by metis
  obtain ds where ds: "fst (deleted_loop N H fs es rd1) = VOk ds"
    "list_all2 (\<lambda>e n. \<exists>rec. fst (read_record N H fs e rd0) = Ok rec \<and> recovered N e rec n)
      (filter (\<lambda>e. \<exists>rec. fst (read_record N H fs e rd0) = Ok rec \<and> recoverable N rec) es) ds"
    using Cons.IH [OF rd1(2,3)] by blast
  then obtain rd2 where l: "deleted_loop N H fs es rd1 = (VOk ds, rd2)"
    by (metis eq_fst_iff)
  show ?case
  proof (cases ?r)
    case (Ok rec)
    obtain d where d: "deleted_of N e rec = VOk d" "d \<noteq> None \<longleftrightarrow> recoverable N rec"
      "\<forall>n. d = Some n \<longrightarrow> recovered N e rec n"
      using deleted_of_spec [OF np(2) [OF Ok]] by blast
    then show ?thesis
      using rd1(1) Ok l ds by (cases d) (auto simp: v_bind_def v_io_def io_try_def)
  next
    case (Err x)
    then show ?thesis
      using rd1(1) l ds by (auto simp: v_bind_def v_io_def io_try_def)
  qed (use np(1) in blast)
qed simp

end

section \<open>The bytes of the extents\<close>

text \<open>The \<open>$DATA\<close> attributes that make up a stream, each with its record, over all records of the file.\<close>

definition stream_attributes ::
  "nomicon \<Rightarrow> 'r host \<Rightarrow> (bytes \<Rightarrow> bytes option) \<Rightarrow> ntfs_fs \<Rightarrow> u64 \<Rightarrow> ustring option \<Rightarrow> 'r \<Rightarrow>
   (bytes \<times> attribute) list \<Rightarrow> bool" where
  "stream_attributes N H lz fs e name rd found \<longleftrightarrow>
     (\<exists>rec rd1 records rd2. read_record N H fs e rd = (Ok rec, rd1) \<and>
        gather_records N H lz fs e rec rd1 = (Ok records, rd2) \<and> data_attributes N name records = Ok found)"

lemma extents_runs:
  "stream_name strm = VOk name \<Longrightarrow> fst (runs_by_record N H lz fs e name rd) = Ok runs \<Longrightarrow>
   fst (extents N H lz fs (NtfsRef e q) strm rd) = VOk (map (extent_of (cluster_size (fs_boot fs))) runs)"
  by (cases "runs_by_record N H lz fs e name rd") (simp add: extents_def vfs_entry_of_def v_bind_def v_io_def)

context medium
begin

lemma stream_attributes_runs:
  assumes "good rd" "stream_attributes N H lz fs e name rd found" "found \<noteq> []"
  shows "fst (runs_by_record N H lz fs e name rd) =
    concat_runlists (sort_key frag_vcn (filter (\<lambda>f. \<not> is_resident (snd f)) found))"
  using assms by (auto simp: stream_attributes_def runs_by_record_def io_bind_def)

lemma uncompressed_value:
  assumes "good rd" "stream_attributes N H lz fs e name rd found" "found \<noteq> []"
    and "list_all (\<lambda>f. \<not> is_resident (snd f) \<and> \<not> is_compressed N (snd f)) found \<and>
      fst (read_data_by_record N H lz fs e name (- 1) rd) = Ok full"
  shows "\<exists>runs. fst (runs_by_record N H lz fs e name rd) = Ok runs \<and>
    full = take (unat (frag_size (hd (sort_key frag_vcn found)))) (stream (disk rd) (unat (cluster_size (fs_boot fs))) runs) \<and>
    length full = min (unat (frag_size (hd (sort_key frag_vcn found)))) (allocated_bytes (unat (cluster_size (fs_boot fs))) runs) \<and>
    allocated_bytes (unat (cluster_size (fs_boot fs))) runs < 2 ^ 64"
proof -
  let ?cs = "cluster_size (fs_boot fs)" and ?f = "hd (sort_key frag_vcn found)"
  have parts: "filter (\<lambda>f. is_resident (snd f)) found = []" "filter (\<lambda>f. \<not> is_resident (snd f)) found = found"
    using assms(4) by (auto simp: list_all_iff filter_empty_conv filter_id_conv)
  have "sort_key frag_vcn found \<noteq> []"
    using assms(3) by (metis length_0_conv length_sort)
  then have "?f \<in> set found"
    by (metis hd_in_set set_sort)
  then have plain: "\<not> is_compressed N (snd ?f)"
    using assms(4) by (auto simp: list_all_iff)
  obtain rec rd1 records rd2 where r: "read_record N H fs e rd = (Ok rec, rd1)"
    "gather_records N H lz fs e rec rd1 = (Ok records, rd2)" "data_attributes N name records = Ok found"
    using assms(2) unfolding stream_attributes_def by blast
  have g: "good rd2" "disk rd2 = disk rd"
    using content_onlyE(1,2) [OF read_record_content assms(1), of N fs e] r(1)
      content_onlyE(1,2) [OF gather_records_content, of rd1 N lz fs e rec] r(2) by simp_all
  obtain rd3 runs where runs: "concat_runlists (sort_key frag_vcn found) = Ok runs"
    and rd3: "read_runs_capped H rd2 runs ?cs (frag_size ?f) (- 1) = (Ok full, rd3)"
  proof -
    obtain rd3 where "read_data_by_record N H lz fs e name (- 1) rd = (Ok full, rd3)"
      using assms(4) by (metis eq_fst_iff)
    then show ?thesis
      using r parts assms(3) plain that
      by (auto simp: read_data_by_record_def Let_def io_bind_Ok read_nonresident_capped_def)
  qed
  have "fst (runs_by_record N H lz fs e name rd) = Ok runs"
    using stream_attributes_runs [OF assms(1-3)] parts(2) runs by simp
  moreover have "allocated_bytes (unat ?cs) runs < 2 ^ 64"
    using rd3 by (auto simp: read_runs_capped_def allocated_loop_Ok split: res.splits)
  moreover have "unat (frag_size ?f) \<le> unat (- 1 :: u64)"
    using word_order.extremum [of "frag_size ?f"] by (simp add: word_le_nat_alt)
  ultimately show ?thesis
    using read_runs_capped_sound [OF g(1) rd3] g(2)
    by (auto simp: min_absorb1)
qed

end

text \<open>The length a record states for its unnamed data; none is no data.\<close>

definition data_size :: "nomicon \<Rightarrow> attribute list \<Rightarrow> nat" where
  "data_size N attrs =
     (case find (\<lambda>a. type_code a = T_DATA (attr_ty N) \<and> attr_name a = None) attrs of
        None \<Rightarrow> 0
      | Some a \<Rightarrow> (case attr_body a of Resident _ n \<Rightarrow> unat n | NonResident _ _ _ _ _ n _ \<Rightarrow> unat n))"

text \<open>The \<open>$MFT\<close> lies on the disk and its records have a size a boot sector can state.\<close>

definition mft_on_disk :: "bytes \<Rightarrow> ntfs_fs \<Rightarrow> bool" where
  "mft_on_disk d fs \<longleftrightarrow> length d < 2 ^ 64 \<and>
     list_all (run_on_disk d (unat (cluster_size (fs_boot fs)))) (fs_mft_runs fs) \<and>
     allocated_bytes (unat (cluster_size (fs_boot fs))) (fs_mft_runs fs) < 2 ^ 64 \<and>
     0 < unat (mft_record_size (fs_boot fs)) \<and> unat (mft_record_size (fs_boot fs)) < 2 ^ 63"

lemma record_attributes_total:
  assumes "attr_in_header N" "length rec < 2 ^ 63"
  shows "record_attributes N rec \<noteq> Panic"
proof -
  have "parse_attributes N rec (unat (first_attribute_offset h)) \<noteq> Panic" for h :: mft_record_header
    using assms unat_u16_less [of "first_attribute_offset h"] by (intro parse_attributes_no_panic) simp_all
  then show ?thesis
    by (simp add: record_attributes_def and_then_Panic_iff)
qed

context medium
begin

lemma runs_by_record_content [intro]: "content_only (runs_by_record N H lz fs n strm)"
  unfolding runs_by_record_def
  by (intro content_only_bind content_only_lift content_only_if read_record_content gather_records_content)

lemma read_record_total:
  assumes "good rd" "mft_on_disk (disk rd) fs" "mem_reserve H (unat (mft_record_size (fs_boot fs)))"
  shows "fst (read_record N H fs n rd) \<noteq> Panic"
    "fst (read_record N H fs n rd) = Ok rec \<Longrightarrow> length rec < 2 ^ 63"
proof -
  let ?rs = "unat (mft_record_size (fs_boot fs))"
  let ?mft = "stream (disk rd) (unat (cluster_size (fs_boot fs))) (fs_mft_runs fs)"
  have nz: "mft_record_size (fs_boot fs) \<noteq> 0"
    using assms(2) by (auto simp: mft_on_disk_def)
  obtain rd' where r: "(unat n * ?rs + ?rs \<le> length ?mft \<longrightarrow> read_record N H fs n rd =
        (fixup N (take ?rs (drop (unat n * ?rs) ?mft)) (unat (bytes_per_sector (fs_boot fs))), rd')) \<and>
     (length ?mft < unat n * ?rs + ?rs \<longrightarrow> (\<exists>m. read_record N H fs n rd = (Err (BadRunlist m), rd')))"
    using read_record_slice [of rd fs n N] assms nz unfolding mft_on_disk_def Let_def by blast
  then show "fst (read_record N H fs n rd) \<noteq> Panic"
    by (cases "unat n * ?rs + ?rs \<le> length ?mft") auto
  assume ok: "fst (read_record N H fs n rd) = Ok rec"
  then have "unat n * ?rs + ?rs \<le> length ?mft"
    using r by (cases "unat n * ?rs + ?rs \<le> length ?mft") auto
  with r ok have "fixup N (take ?rs (drop (unat n * ?rs) ?mft)) (unat (bytes_per_sector (fs_boot fs))) = Ok rec"
    by simp
  then have "length rec \<le> ?rs"
    by (auto dest!: fixup_length)
  then show "length rec < 2 ^ 63"
    using assms(2) by (simp add: mft_on_disk_def)
qed

lemma deleted_nodes_spec:
  assumes "good rd" "mft_on_disk (disk rd) fs" "mem_reserve H (unat (mft_record_size (fs_boot fs)))"
    and "attr_in_header N" "fst (mft_record_count N H fs rd) = VOk cnt"
  shows "\<exists>ds. fst (deleted_nodes N H fs rd) = VOk ds \<and>
    list_all2 (\<lambda>e n. \<exists>rec. fst (read_record N H fs e rd) = Ok rec \<and> recovered N e rec n)
      (filter (\<lambda>e. \<exists>rec. fst (read_record N H fs e rd) = Ok rec \<and> recoverable N rec)
        (map word_of_nat [0..<unat cnt])) ds"
proof -
  obtain rd1 where c: "mft_record_count N H fs rd = (VOk cnt, rd1)"
    using assms(5) by (metis eq_fst_iff)
  then have "good rd1" "disk rd1 = disk rd"
    using read_record_again(1,2) [OF assms(1)]
    by (auto simp: mft_record_count_def v_bind_VOk Let_def split: if_splits)
  then show ?thesis
    using deleted_loop_spec [OF assms(1), of rd1 N fs "map word_of_nat [0..<unat cnt]"] c
      read_record_total [OF assms(1-3)] record_attributes_total [OF assms(4)]
    by (simp add: deleted_nodes_def v_bind_def)
qed

lemma mft_record_count_cases:
  assumes "good rd" "mft_on_disk (disk rd) fs" "mem_reserve H (unat (mft_record_size (fs_boot fs)))" "attr_in_header N"
  shows "case Option.bind (res_ok (fst (read_record N H fs (MFT_RECORD N) rd))) (\<lambda>rec. res_ok (record_attributes N rec)) of
      Some attrs \<Rightarrow> \<exists>cnt. fst (mft_record_count N H fs rd) = VOk cnt \<and>
        unat cnt = data_size N attrs div unat (mft_record_size (fs_boot fs))
    | None \<Rightarrow> \<exists>e. fst (mft_record_count N H fs rd) = VErr e"
proof (cases "fst (read_record N H fs (MFT_RECORD N) rd)")
  case (Ok rec)
  obtain rd1 where r: "read_record N H fs (MFT_RECORD N) rd = (Ok rec, rd1)"
    using Ok by (metis eq_fst_iff)
  show ?thesis
  proof (cases "record_attributes N rec")
    case attrs: (Ok attrs)
    then obtain h where h: "header_parse N rec = Ok h"
      "parse_attributes N rec (unat (first_attribute_offset h)) = Ok attrs"
      by (auto simp: record_attributes_def and_then_Ok_iff)
    obtain k where k: "special_kind N rec attrs = Ok k"
      using special_kind_Ok by blast
    obtain sz res where sz: "(case unnamed_data N attrs of Some a \<Rightarrow> body_extent (attr_body a) | None \<Rightarrow> (0, ResidentIn 0)) = (sz, res)"
      by fastforce
    then have "unat sz = data_size N attrs"
      unfolding data_size_def unnamed_data_def [symmetric]
      by (auto simp: body_extent_def unat_ucast_up split: option.splits attribute_body.splits)
    with h k sz obtain m where m: "build_meta N (MFT_RECORD N) rec = VOk m" "unat (m_size m) = data_size N attrs"
      by (simp add: build_meta_def)
    show ?thesis
      using r m assms(2) attrs
      by (auto simp: mft_record_count_def v_bind_def v_io_def Let_def mft_on_disk_def unat_div)
  next
    case (Err e)
    then have "\<exists>x. build_meta N (MFT_RECORD N) rec = VErr x"
      by (auto simp: record_attributes_def build_meta_def and_then_Err_iff)
    then show ?thesis
      using r Err by (auto simp: mft_record_count_def v_bind_def v_io_def)
  next
    case Panic
    then show ?thesis
      using record_attributes_total [OF assms(4) read_record_total(2) [OF assms(1-3) Ok]] by blast
  qed
next
  case (Err e)
  then show ?thesis
    by (cases "read_record N H fs (MFT_RECORD N) rd") (auto simp: mft_record_count_def v_bind_def v_io_def)
next
  case Panic
  then show ?thesis
    using read_record_total(1) [OF assms(1-3)] by blast
qed

lemma listed_stream:
  assumes "good rd" "good rd'" "disk rd' = disk rd"
    and "fst (data_streams N H fs (NtfsRef e q) rd) = VOk ss" "s \<in> set ss"
  shows "\<exists>name. fst (resolve_stream N H fs e (st_id s) rd') = VOk name \<and> st_name s = map_option utf8 name"
proof -
  obtain rec attrs rd1 where r: "read_record N H fs e rd = (Ok rec, rd1)" "record_attributes N rec = Ok attrs"
    and ss: "ss = streams_loop (data_attrs N attrs) 0"
    using assms(4) by (auto simp: data_streams_def vfs_entry_of_def v_bind_fst_VOk node_attributes_VOk)
  obtain rd2 where "read_record N H fs e rd' = (Ok rec, rd2)"
    using read_record_again(3) [OF assms(1) r(1) assms(2,3)] by blast
  with r(2) have n: "node_attributes N H fs e rd' = (VOk (rec, attrs), rd2)"
    by (simp add: node_attributes_VOk)
  have few: "0 + length (data_attrs N attrs) < 65536"
    using record_attributes_count [OF r(2)] data_attrs_length [of N attrs] by simp
  show ?thesis
  proof (cases "st_id s")
    case (Named i)
    have "s \<in> set (streams_loop (data_attrs N attrs) (word_of_nat 0))"
      using assms(5) ss by simp
    with streams_loop_named [OF _ Named few] n Named show ?thesis
      by (auto simp: resolve_stream_def v_bind_def named_streams_def)
  qed (use assms(5) streams_loop_unnamed [of s "data_attrs N attrs" 0] ss in
        \<open>auto simp: resolve_stream_def stream_name_def\<close>)
qed

lemma slack_runs:
  assumes "good rd" "stream_name strm = VOk name" "fst (node_attributes N H fs e rd) = VOk (rec, attrs)"
    and "find (\<lambda>a. type_code a = T_DATA (attr_ty N) \<and> attr_name a = name) attrs = Some a" "\<not> is_resident a"
    and "fst (runs_by_record N H lz fs e name rd) = Ok runs"
  shows "fst (slack N H lz fs (NtfsRef e q) strm rd) =
    VOk (slack_loop (cluster_size (fs_boot fs)) (real_size (attr_body a)) runs 0)"
proof -
  obtain rd1 where n: "node_attributes N H fs e rd = (VOk (rec, attrs), rd1)"
    using assms(3) by (metis eq_fst_iff)
  then have "good rd1" "disk rd1 = disk rd"
    using read_record_again(1,2) [OF assms(1)] by (auto simp: node_attributes_VOk)
  then obtain rd2 where "runs_by_record N H lz fs e name rd1 = (Ok runs, rd2)"
    using content_onlyE(3) [OF runs_by_record_content assms(1)] assms(6) by (metis eq_fst_iff)
  with n assms(2,4,5) show ?thesis
    by (cases "attr_body a") (simp_all add: slack_def vfs_entry_of_def v_bind_def is_resident_def v_io_def)
qed

end

section \<open>A volume of one deleted record\<close>

text \<open>
  The record is not in use; it has a name \<open>a\<close>, a stream of 600 bytes in two clusters of 512
  and an alternate stream \<open>b\<close>. The second cluster follows the record on the disk.
\<close>

definition lost_record :: bytes where
  "lost_record = [70, 73, 76, 69, 48, 0, 2, 0, 0, 0, 0, 0, 0, 0, 0, 0, 4, 0, 1, 0, 56, 0, 0, 0,
     12, 1, 0, 0, 0, 2, 0, 0, 0, 0, 0, 0, 0, 0, 0, 0, 3, 0, 0, 0, 0, 0, 0, 0, 7, 0, 0, 0, 0, 0, 0, 0,
     0x30, 0, 0, 0, 96, 0, 0, 0, 0, 0, 0, 0, 0, 0, 1, 0, 68, 0, 0, 0, 24, 0, 0, 0,
     5, 0, 0, 0, 0, 0, 5, 0, 0, 0, 0, 0, 0, 0, 0, 0, 0, 0, 0, 0, 0, 0, 0, 0, 0, 0, 0, 0, 0, 0, 0, 0,
     0, 0, 0, 0, 0, 0, 0, 0, 0, 0, 0, 0, 0, 0, 0, 0, 0, 0, 0, 0, 0, 0, 0, 0, 0, 0, 0, 0, 0, 0, 0, 0,
     1, 1, 97, 0, 0, 0, 0, 0,
     0x80, 0, 0, 0, 72, 0, 0, 0, 1, 0, 0, 0, 0, 0, 2, 0, 0, 0, 0, 0, 0, 0, 0, 0, 1, 0, 0, 0, 0, 0, 0, 0,
     64, 0, 0, 0, 0, 0, 0, 0, 0, 4, 0, 0, 0, 0, 0, 0, 88, 2, 0, 0, 0, 0, 0, 0, 88, 2, 0, 0, 0, 0, 0, 0,
     0x11, 2, 0, 0, 0, 0, 0, 0,
     0x80, 0, 0, 0, 40, 0, 0, 0, 0, 1, 24, 0, 0, 0, 3, 0, 4, 0, 0, 0, 32, 0, 0, 0,
     98, 0, 0, 0, 0, 0, 0, 0, 1, 2, 3, 4, 0, 0, 0, 0,
     0xFF, 0xFF, 0xFF, 0xFF] @ replicate 242 0 @ [7, 0]"

definition lost_fixed :: bytes where
  "lost_fixed = lost_record[510 := 0]"

definition lost_fs :: ntfs_fs where
  "lost_fs = \<lparr>fs_boot = \<lparr>bytes_per_sector = 512, sectors_per_cluster = 1, total_sectors = 2,
     mft_lcn = 0, mftmirr_lcn = 0, mft_record_size = 512, index_record_size = 512, volume_serial = 0\<rparr>,
     fs_mft_runs = [\<lparr>run_length = 2, lcn = Some 0\<rparr>]\<rparr>"

definition lost_disk :: cursor where
  "lost_disk = \<lparr>cur_bytes = lost_record @ replicate 512 9, cur_pos = 0\<rparr>"

definition lost_name_attr :: attribute where
  "lost_name_attr = \<lparr>type_code = 0x30, attr_length = 96, non_resident = False, attr_name = None,
     attr_flags = 0, attribute_id = 1, attr_offset = 56, attr_body = Resident 24 68\<rparr>"

definition lost_data_attr :: attribute where
  "lost_data_attr = \<lparr>type_code = 0x80, attr_length = 72, non_resident = True, attr_name = None,
     attr_flags = 0, attribute_id = 2, attr_offset = 152, attr_body = NonResident 0 1 64 0 1024 600 600\<rparr>"

definition lost_ads_attr :: attribute where
  "lost_ads_attr = \<lparr>type_code = 0x80, attr_length = 40, non_resident = False, attr_name = Some [98],
     attr_flags = 0, attribute_id = 3, attr_offset = 224, attr_body = Resident 32 4\<rparr>"

lemma length_lost: "length lost_record = 512" "length lost_fixed = 512"
  by (simp_all add: lost_record_def lost_fixed_def)

lemma lost_fixup: "fixup ntfs_layout lost_record 512 = Ok lost_fixed"
  by (simp add: fixup_def apply_fixup_def HEADER_LEN_def lost_record_def lost_fixed_def layout_defs le_u16_def
      get_range_def from_le_bytes_def usize_checked_add_def usize_checked_mul_def fixup_sector_def
      numeral_eq_Suc [of num.One] nth_append list_update_append cong: and_then_weak_cong)

lemma lost_attributes: "record_attributes ntfs_layout lost_fixed = Ok [lost_name_attr, lost_data_attr, lost_ads_attr]"
  by (simp add: record_attributes_def header_parse_def HEADER_LEN_def lost_record_def lost_fixed_def
      lost_name_attr_def lost_data_attr_def lost_ads_attr_def
      parse_attributes_def MAX_ATTRIBUTES_def attributes_loop_numeral parse_one_def parse_attr_name_def
      parse_attr_body_def layout_defs HEADER_MIN_def RESIDENT_MIN_def NONRESIDENT_MIN_def le_read_defs get_range_def
      from_le_bytes_def usize_checked_add_def usize_checked_mul_def idx_def arr_def slice_def
      is_high_def is_low_def cong: and_then_weak_cong)

lemma lost_header:
  "\<exists>h. header_parse ntfs_layout lost_fixed = Ok h \<and> \<not> is_in_use ntfs_layout h \<and> sequence_number h = 4"
  by (simp add: header_parse_def HEADER_LEN_def lost_record_def lost_fixed_def layout_defs le_read_defs
      get_range_def from_le_bytes_def arr_def Let_def is_in_use_def)

lemma lost_geometry:
  "cluster_size (fs_boot lost_fs) = 512" "cursor_good lost_disk"
  "cur_bytes lost_disk = lost_record @ replicate 512 9"
  "stream (lost_record @ replicate 512 9) 512 [\<lparr>run_length = 2, lcn = Some 0\<rparr>] = lost_record @ replicate 512 9"
  "fs_mft_runs lost_fs = [\<lparr>run_length = 2, lcn = Some 0\<rparr>]"
  "list_all (run_on_disk (lost_record @ replicate 512 9) 512) [\<lparr>run_length = 2, lcn = Some 0\<rparr>]"
  "allocated_bytes 512 [\<lparr>run_length = 2, lcn = Some 0\<rparr>] = 1024"
  "mft_record_size (fs_boot lost_fs) = 512" "bytes_per_sector (fs_boot lost_fs) = 512"
  "mem_reserve cursor_host n"
  by (simp_all add: cursor_host_def lost_fs_def cluster_size_def lost_disk_def cursor_good_def stream_def
      run_content_def run_on_disk_def allocated_bytes_def length_lost)

lemma lost_read_record:
  "\<exists>rd. read_record ntfs_layout cursor_host lost_fs 0 lost_disk = (Ok lost_fixed, rd) \<and>
     cursor_good rd \<and> cur_bytes rd = cur_bytes lost_disk"
  using disk_cursor.read_record_slice [of lost_disk lost_fs 0 ntfs_layout] lost_fixup lost_geometry(6)
  by (auto simp: Let_def lost_geometry length_lost)

lemma lost_node:
  "\<exists>rd. node_attributes ntfs_layout cursor_host lost_fs 0 lost_disk =
     (VOk (lost_fixed, [lost_name_attr, lost_data_attr, lost_ads_attr]), rd)"
  using lost_read_record lost_attributes by (auto simp: node_attributes_VOk)

lemmas lost_attr_defs = lost_name_attr_def lost_data_attr_def lost_ads_attr_def

lemma lost_kinds:
  "data_attrs ntfs_layout [lost_name_attr, lost_data_attr, lost_ads_attr] = [lost_data_attr, lost_ads_attr]"
  "unnamed_data ntfs_layout [lost_name_attr, lost_data_attr, lost_ads_attr] = Some lost_data_attr"
  "named_streams ntfs_layout [lost_name_attr, lost_data_attr, lost_ads_attr] = [[98]]"
  by (simp_all add: data_attrs_def unnamed_data_def named_streams_def lost_attr_defs layout_defs List.map_filter_simps)

lemma lost_gather:
  "\<exists>rd. read_record ntfs_layout cursor_host lost_fs 0 lost_disk = (Ok lost_fixed, rd) \<and>
     gather_records ntfs_layout cursor_host lz lost_fs 0 lost_fixed rd = (Ok [lost_fixed], rd)"
proof -
  have "find (\<lambda>a. type_code a = T_ATTRIBUTE_LIST (attr_ty ntfs_layout))
      [lost_name_attr, lost_data_attr, lost_ads_attr] = None"
    by (simp add: lost_attr_defs layout_defs)
  then show ?thesis
    using lost_read_record by (auto simp: gather_records_def lost_attributes)
qed

lemma lost_ads_data:
  "\<exists>rd. read_data_by_record ntfs_layout cursor_host lz lost_fs 0 (Some [98]) cap lost_disk =
     (Ok (take (unat cap) [1, 2, 3, 4]), rd)"
proof -
  have c: "resident_content lost_ads_attr lost_fixed = Some [1, 2, 3, 4]"
    by (simp add: resident_content_def lost_ads_attr_def lost_fixed_def lost_record_def usize_checked_add_def get_range_def)
  have d: "data_attributes ntfs_layout (Some [98]) [lost_fixed] = Ok [(lost_fixed, lost_ads_attr)]"
    by (simp add: lost_attributes) (simp add: lost_attr_defs layout_defs)
  have b: "is_resident lost_ads_attr" "attr_body lost_ads_attr = Resident 32 4"
    by (simp_all add: is_resident_def lost_ads_attr_def)
  obtain rd where "read_record ntfs_layout cursor_host lost_fs 0 lost_disk = (Ok lost_fixed, rd)"
    "gather_records ntfs_layout cursor_host lz lost_fs 0 lost_fixed rd = (Ok [lost_fixed], rd)"
    using lost_gather by blast
  then show ?thesis
    unfolding read_data_by_record_def
    by (simp add: io_bind_def d b c read_attribute_value_def Let_def del: data_attributes.simps)
qed

lemma lost_found:
  "data_attributes ntfs_layout None [lost_fixed] = Ok [(lost_fixed, lost_data_attr)]" "\<not> is_resident lost_data_attr"
  by (simp add: lost_attributes) (simp_all add: lost_attr_defs layout_defs is_resident_def)

lemma lost_runlist: "attribute_runlist lost_fixed lost_data_attr = Ok [\<lparr>run_length = 2, lcn = Some 0\<rparr>]"
proof -
  let ?c = "\<lparr>len_width = 1, off_width = 1, crun = \<lparr>run_length = 2, lcn = Some 0\<rparr>\<rparr>"
  have "encode_runs 0 [?c] = [17, 2, 0, 0]" "encs_ok 0 [?c]"
    by (simp_all add: encode_run_def enc_ok_def run_ok_def lcn_delta_def)
  then have r: "runlist_decode [17, 2, 0, 0, 0, 0, 0, 0] = Ok [\<lparr>run_length = 2, lcn = Some 0\<rparr>]"
    using decode_loop_encoded [of 0 "[?c]" MAX_RUNS "[]" "[0, 0, 0, 0]"]
    by (simp add: runlist_decode_def MAX_RUNS_def)
  then show ?thesis
    by (simp add: attribute_runlist_def lost_data_attr_def lost_fixed_def lost_record_def
        usize_checked_add_def get_range_def)
qed

lemma lost_runs:
  "\<exists>rd. runs_by_record ntfs_layout cursor_host lz lost_fs 0 None lost_disk =
     (Ok [\<lparr>run_length = 2, lcn = Some 0\<rparr>], rd)"
  using lost_gather [of lz] unfolding runs_by_record_def
  by (auto simp: io_bind_def lost_found lost_runlist simp del: data_attributes.simps)

lemma lost_data:
  "\<exists>full. fst (read_data_by_record ntfs_layout cursor_host lz lost_fs 0 None (- 1) lost_disk) = Ok full \<and> length full = 600"
proof -
  let ?r = "[\<lparr>run_length = 2, lcn = Some 0\<rparr>]"
  obtain rd where rd: "read_record ntfs_layout cursor_host lost_fs 0 lost_disk = (Ok lost_fixed, rd)"
    "gather_records ntfs_layout cursor_host lz lost_fs 0 lost_fixed rd = (Ok [lost_fixed], rd)"
    using lost_gather by blast
  have g: "cursor_good rd" "cur_bytes rd = lost_record @ replicate 512 9"
    using disk_cursor.read_record_again(1,2) [OF lost_geometry(2) rd(1)] lost_geometry(3) by simp_all
  obtain rd' where "read_runs_capped cursor_host rd ?r 512 600 (- 1) =
      (Ok (take (min (unat (600 :: u64)) (unat (- 1 :: u64))) (stream (cur_bytes rd) (unat (512 :: u64)) ?r)), rd')"
    using disk_cursor.read_runs_capped_complete [OF g(1), of 512 ?r 600 "- 1"] lost_geometry(6,7,10)
      disk_cursor.read_runs_capped_sound [OF g(1), of ?r 512 600 "- 1"] g(2) length_lost by (auto simp: length_lost unat_max_u64)
  then have "read_nonresident_capped ntfs_layout cursor_host lz rd ?r 512 600 lost_data_attr (- 1) =
      (Ok (take 600 (lost_record @ replicate 512 9)), rd')"
    using g(2) lost_geometry(4)
    by (simp add: read_nonresident_capped_def is_compressed_def lost_data_attr_def unat_max_u64)
  moreover have "frag_size (lost_fixed, lost_data_attr) = 600"
    by (simp add: frag_size_def lost_data_attr_def)
  ultimately show ?thesis
    using rd lost_found lost_runlist
    by (simp add: read_data_by_record_def Let_def io_bind_def lost_geometry(1) length_lost del: data_attributes.simps)
qed

lemma lost_recoverable: "recoverable ntfs_layout lost_fixed"
proof -
  have "66 \<le> length c \<and> 66 + 2 * unat (c ! 64) \<le> length c"
    if "resident_content lost_name_attr lost_fixed = Some c" for c
    using that by (auto simp: resident_content_def lost_name_attr_def lost_fixed_def lost_record_def
        usize_checked_add_def get_range_def)
  moreover obtain c where c: "resident_content lost_name_attr lost_fixed = Some c"
    by (simp add: resident_content_def lost_name_attr_def usize_checked_add_def get_range_def length_lost)
  ultimately obtain f where f: "file_name_parse c = Ok f"
    using file_name_parse_Ok_iff [of c] by blast
  have "filter (\<lambda>a. type_code a = T_FILE_NAME (attr_ty ntfs_layout))
      [lost_name_attr, lost_data_attr, lost_ads_attr] = [lost_name_attr]"
    by (simp add: lost_attr_defs layout_defs)
  then have "record_names ntfs_layout lost_fixed [lost_name_attr, lost_data_attr, lost_ads_attr] = [f]"
    using c f by (simp add: record_names_def List.map_filter_simps)
  then show ?thesis
    using lost_header by (auto simp: recoverable_def lost_attributes)
qed

lemma lost_meta: "\<exists>m. build_meta ntfs_layout 0 lost_fixed = VOk m \<and> m_size m = 600"
proof -
  obtain h where h: "header_parse ntfs_layout lost_fixed = Ok h"
    using lost_header by blast
  then have a: "parse_attributes ntfs_layout lost_fixed (unat (first_attribute_offset h)) =
      Ok [lost_name_attr, lost_data_attr, lost_ads_attr]"
    using lost_attributes by (simp add: record_attributes_def)
  obtain k where "special_kind ntfs_layout lost_fixed [lost_name_attr, lost_data_attr, lost_ads_attr] = Ok k"
    using special_kind_Ok by blast
  moreover have "body_extent (attr_body lost_data_attr) = (600, NonResidentData)"
    by (simp add: lost_data_attr_def body_extent_def)
  ultimately show ?thesis
    by (simp add: build_meta_def h a lost_kinds(2))
qed

text \<open>A volume whose records are all the same, so that its bitmap is the data of that record.\<close>

definition bitmap_fs :: ntfs_fs where
  "bitmap_fs = \<lparr>fs_boot = (fs_boot tiny_fs)\<lparr>total_sectors := 12\<rparr>,
     fs_mft_runs = replicate 7 \<lparr>run_length = 1, lcn = Some 0\<rparr>\<rparr>"

lemma bitmap_geometry:
  "cluster_size (fs_boot bitmap_fs) = 96" "mft_record_size (fs_boot bitmap_fs) = 96"
  "bytes_per_sector (fs_boot bitmap_fs) = 96"
  "list_all (run_on_disk tiny_record 96) (fs_mft_runs bitmap_fs)"
  "allocated_bytes 96 (fs_mft_runs bitmap_fs) = 672"
  "stream tiny_record 96 (fs_mft_runs bitmap_fs) = concat (replicate 7 tiny_record)"
  by (simp_all add: bitmap_fs_def tiny_fs_def cluster_size_def list_all_iff run_on_disk_def tiny_geometry(9)
      allocated_bytes_def sum_list_replicate stream_def run_content_def)

lemma bitmap_read_data:
  "\<exists>rd. read_data_by_record ntfs_layout cursor_host lz bitmap_fs (BITMAP_RECORD ntfs_layout) None (- 1) tiny_disk =
     (Ok [1, 2, 3, 4], rd)"
proof -
  have "concat (replicate 7 tiny_record) = concat (replicate 6 tiny_record) @ tiny_record"
    using replicate_add [of 6 1 tiny_record] by simp
  then have six: "take 96 (drop 576 (concat (replicate 7 tiny_record))) = tiny_record"
    by (simp add: tiny_geometry(9) length_concat sum_list_replicate)
  obtain rd where r: "read_record ntfs_layout cursor_host bitmap_fs 6 tiny_disk = (Ok (tiny_record[94 := 0]), rd)"
    using disk_cursor.read_record_slice [of tiny_disk bitmap_fs 6 ntfs_layout] tiny_fixup six bitmap_geometry(4)
    by (auto simp: Let_def bitmap_geometry tiny_geometry length_concat sum_list_replicate)
  have "resident_content tiny_data (tiny_record[94 := 0]) = Some [1, 2, 3, 4]"
    by (simp add: resident_content_def tiny_data_def tiny_record_def usize_checked_add_def get_range_def)
  moreover have "type_code tiny_data = 0x80" "attr_name tiny_data = None" "attr_body tiny_data = Resident 24 4"
    "T_DATA (attr_ty ntfs_layout) = 0x80" "T_ATTRIBUTE_LIST (attr_ty ntfs_layout) = 0x20" "BITMAP_RECORD ntfs_layout = 6"
    by (simp_all add: tiny_data_def layout_defs)
  ultimately show ?thesis
    by (simp add: read_data_by_record_def io_bind_def r gather_records_def tiny_attributes is_resident_def
        read_attribute_value_def unsigned_minus_1_eq_mask mask_eq_exp_minus_1)
qed

section \<open>Properties\<close>

lemma special_kind_of_record_not_Err: "fst (special_kind_of_record N H fs n rd) \<noteq> Err y"
proof (cases "read_record N H fs n rd")
  case (Pair r rd1)
  show ?thesis
  proof (cases r)
    case (Ok rec)
    have "special_kind N rec as \<noteq> Err y" for as
      using special_kind_Ok [of N rec as] by auto
    with Pair Ok show ?thesis
      by (cases "record_attributes N rec") (simp_all add: special_kind_of_record_def io_bind_def io_try_def)
  qed (use Pair in \<open>simp_all add: special_kind_of_record_def io_bind_def io_try_def\<close>)
qed

lemma dir_loop_not_VErr: "fst (dir_loop N H fs es rd) \<noteq> VErr x"
proof (induction es arbitrary: rd)
  case (Cons e es)
  show ?case
  proof (cases "ie_file_name e")
    case None
    with Cons show ?thesis by simp
  next
    case (Some f)
    obtain k rd1 where k: "special_kind_of_record N H fs (fr_record_number (ie_file_reference e)) rd = (k, rd1)"
      by (cases "special_kind_of_record N H fs (fr_record_number (ie_file_reference e)) rd")
    obtain l rd2 where l: "dir_loop N H fs es rd1 = (l, rd2)"
      by (cases "dir_loop N H fs es rd1")
    have "k \<noteq> Err y" for y
      using special_kind_of_record_not_Err [of N H fs _ rd y] k by (metis fst_conv)
    moreover have "l \<noteq> VErr x"
      using Cons.IH [of rd1] l by simp
    ultimately show ?thesis
      using Some k l by (cases k; cases l) (simp_all add: v_bind_def v_io_def)
  qed
qed simp

text \<open>
  Listing and lookup agree: looking up a name, as bytes, gives the identity of the
  first listed entry with that name, nothing when no entry has it, and the error of the
  listing when there is one.
\<close>

theorem lookup_finds_listed:
  "case fst (read_dir N H lz fs dir rd) of
     VOk ds \<Rightarrow> fst (vfs_lookup N H lz fs dir name rd) = VOk (map_option de_id (find (\<lambda>d. de_name d = name) ds))
   | VErr x \<Rightarrow> fst (vfs_lookup N H lz fs dir name rd) = VErr x
   | VPanic \<Rightarrow> True"
proof (cases "dir_records N H lz fs dir rd")
  case (Pair r rd1)
  show ?thesis
  proof (cases r)
    case (VOk es)
    obtain r2 rd2 where l: "dir_loop N H fs es rd1 = (r2, rd2)"
      by (cases "dir_loop N H fs es rd1")
    then show ?thesis
      using Pair VOk dir_loop_lookup [of N H fs es rd1 _ rd2 name] dir_loop_not_VErr [of N H fs es rd1]
      by (cases r2) (auto simp: read_dir_def vfs_lookup_def v_bind_def)
  qed (use Pair in \<open>simp_all add: read_dir_def vfs_lookup_def v_bind_def\<close>)
qed

text \<open>
  Claim C16. A positioned read is a window of the stream, whatever the cap it hands down: over a
  fault-free source the count is what is left of the stream or the size of the buffer,
  the buffer starts with the bytes at the offset, and its rest is untouched.
\<close>

theorem read_at_window:
  assumes "medium H good disk at" "good rd" "fst (resolve_stream N H fs e strm rd) = VOk name"
    and "fst (read_data_by_record N H lz fs e name (- 1) rd) = Ok full"
    and "fst (read_at N H lz fs (NtfsRef e q) strm off buf rd) = VOk (n, out)" "length buf < 2 ^ 64"
  shows "n = min (length buf) (length full - unat off) \<and> out = take n (drop (unat off) full) @ drop n buf"
  by (rule medium.read_at_spec [OF assms])

theorem read_at_window_witness:
  "fst (read_at ntfs_layout cursor_host (\<lambda>_. None) lost_fs (NtfsRef 0 4) (Named 0) 1 [8, 8] lost_disk) =
     VOk (2, [2, 3])"
proof -
  let ?L = "\<lambda>_. None :: bytes option"
  obtain rd1 where n: "node_attributes ntfs_layout cursor_host lost_fs 0 lost_disk =
      (VOk (lost_fixed, [lost_name_attr, lost_data_attr, lost_ads_attr]), rd1)"
    using lost_node by blast
  then have r: "resolve_stream ntfs_layout cursor_host lost_fs 0 (Named 0) lost_disk = (VOk (Some [98]), rd1)"
    by (simp add: resolve_stream_def v_bind_def lost_kinds)
  have full: "fst (read_data_by_record ntfs_layout cursor_host ?L lost_fs 0 (Some [98]) (- 1) lost_disk) = Ok [1, 2, 3, 4]"
    using lost_ads_data [of ?L "- 1"] by (auto simp: unsigned_minus_1_eq_mask mask_eq_exp_minus_1)
  have g: "cursor_good rd1" "cur_bytes rd1 = cur_bytes lost_disk"
    using disk_cursor.resolve_stream_good [OF lost_geometry(2) r] by simp_all
  have "fst (read_data_by_record ntfs_layout cursor_host ?L lost_fs 0 (Some [98]) 3 rd1) = Ok [1, 2, 3]"
    using disk_cursor.content_onlyE(3) [OF disk_cursor.read_data_by_record_content lost_geometry(2) g]
      lost_ads_data [of ?L 3] by auto
  then obtain rd2 where "read_data_by_record ntfs_layout cursor_host ?L lost_fs 0 (Some [98]) 3 rd1 = (Ok [1, 2, 3], rd2)"
    by (metis eq_fst_iff)
  then have ok: "\<exists>n out. fst (read_at ntfs_layout cursor_host ?L lost_fs (NtfsRef 0 4) (Named 0) 1 [8, 8] lost_disk) = VOk (n, out)"
    using r by (simp add: read_at_def vfs_entry_of_def v_bind_def v_io_def saturating_add_def copy_window_def)
  then obtain n out where e: "fst (read_at ntfs_layout cursor_host ?L lost_fs (NtfsRef 0 4) (Named 0) 1 [8, 8] lost_disk) = VOk (n, out)"
    by blast
  have "n = min 2 (length [1, 2, 3, 4 :: u8] - unat (1 :: u64)) \<and> out = take n (drop (unat (1 :: u64)) [1, 2, 3, 4]) @ drop n [8, 8]"
    using read_at_window [OF disk_cursor.medium_axioms lost_geometry(2) _ full e] r by simp
  with e show ?thesis by simp
qed

text \<open>
  Claim C21. Every stream that is listed can be read under its identity: the identity of a listed
  alternate stream resolves to the stream of the listed name, the counter that numbers
  them never saturates, and the unnamed stream resolves to the file's contents.
\<close>

theorem listed_stream_readable:
  assumes "medium H good disk at" "good rd" "good rd'" "disk rd' = disk rd"
    and "fst (data_streams N H fs (NtfsRef e q) rd) = VOk ss" "s \<in> set ss"
  shows "\<exists>name. fst (resolve_stream N H fs e (st_id s) rd') = VOk name \<and> st_name s = map_option utf8 name"
  by (rule medium.listed_stream [OF assms])

theorem listed_stream_readable_witness:
  "\<exists>ss s. fst (data_streams ntfs_layout cursor_host lost_fs (NtfsRef 0 4) lost_disk) = VOk ss \<and> s \<in> set ss \<and>
     st_id s = Named 0 \<and> st_name s = Some [98] \<and>
     (\<exists>name. fst (resolve_stream ntfs_layout cursor_host lost_fs 0 (st_id s) lost_disk) = VOk name \<and>
        st_name s = map_option utf8 name)"
proof -
  obtain rd1 where "node_attributes ntfs_layout cursor_host lost_fs 0 lost_disk =
      (VOk (lost_fixed, [lost_name_attr, lost_data_attr, lost_ads_attr]), rd1)"
    using lost_node by blast
  then have d: "fst (data_streams ntfs_layout cursor_host lost_fs (NtfsRef 0 4) lost_disk) =
      VOk (streams_loop [lost_data_attr, lost_ads_attr] 0)"
    by (simp add: data_streams_def vfs_entry_of_def v_bind_def lost_kinds)
  define s where "s = last (streams_loop [lost_data_attr, lost_ads_attr] 0)"
  have s: "s \<in> set (streams_loop [lost_data_attr, lost_ads_attr] 0)" "st_id s = Named 0" "st_name s = Some [98]"
    by (simp_all add: s_def lost_data_attr_def lost_ads_attr_def body_extent_def utf8_def utf8_char_def)
  show ?thesis
    using listed_stream_readable [OF disk_cursor.medium_axioms lost_geometry(2) lost_geometry(2) refl d s(1)] d s
    by blast
qed

text \<open>
  Claim C17. The extents of a stream are where its bytes are. A resident stream has none. For a
  non-resident stream that is not compressed, and whose whole value can be read over a fault-free
  source, the image bytes the extents name, with zeros for the sparse ones, start with exactly that
  value: it is as long as its first fragment states, or as all the extents together when they are
  shorter; what is behind it is the rest of the last clusters. (A compressed stream is excluded: its
  extents hold its compressed form.)
\<close>

theorem extents_cover_stream:
  assumes "medium H good disk at" "good rd" "length (disk rd) < 2 ^ 64" "stream_name strm = VOk name"
    and "stream_attributes N H lz fs e name rd found" "found \<noteq> []"
  shows "(list_all (\<lambda>f. is_resident (snd f)) found \<longrightarrow> fst (extents N H lz fs (NtfsRef e q) strm rd) = VOk []) \<and>
    (\<forall>full. list_all (\<lambda>f. \<not> is_resident (snd f) \<and> \<not> is_compressed N (snd f)) found \<and>
       fst (read_data_by_record N H lz fs e name (- 1) rd) = Ok full \<longrightarrow>
       (\<exists>es. fst (extents N H lz fs (NtfsRef e q) strm rd) = VOk es \<and>
          full = take (length full) (concat (map (extent_content (disk rd)) es)) \<and>
          length full = min (unat (frag_size (hd (sort_key frag_vcn found)))) (\<Sum>x\<leftarrow>es. unat (run_bytes (ri_run x)))))"
proof (intro conjI allI impI)
  assume "list_all (\<lambda>f. is_resident (snd f)) found"
  then have "fst (runs_by_record N H lz fs e name rd) = Ok []"
    using medium.stream_attributes_runs [OF assms(1,2,5,6)] by (simp add: list_all_iff filter_False)
  then show "fst (extents N H lz fs (NtfsRef e q) strm rd) = VOk []"
    using extents_runs [OF assms(4), of N H lz fs e rd "[]"] by simp
next
  fix full
  assume "list_all (\<lambda>f. \<not> is_resident (snd f) \<and> \<not> is_compressed N (snd f)) found \<and>
       fst (read_data_by_record N H lz fs e name (- 1) rd) = Ok full"
  then obtain runs where runs: "fst (runs_by_record N H lz fs e name rd) = Ok runs"
    and full: "full = take (unat (frag_size (hd (sort_key frag_vcn found)))) (stream (disk rd) (unat (cluster_size (fs_boot fs))) runs)"
      "length full = min (unat (frag_size (hd (sort_key frag_vcn found)))) (allocated_bytes (unat (cluster_size (fs_boot fs))) runs)"
    and small: "allocated_bytes (unat (cluster_size (fs_boot fs))) runs < 2 ^ 64"
    using medium.uncompressed_value [OF assms(1,2,5,6)] by blast
  have "fst (extents N H lz fs (NtfsRef e q) strm rd) = VOk (map (extent_of (cluster_size (fs_boot fs))) runs)"
    using extents_runs [OF assms(4) runs] .
  moreover have "full = take (length full) (stream (disk rd) (unat (cluster_size (fs_boot fs))) runs)"
    by (subst (1 2) full(1)) (simp add: min_def)
  ultimately show "\<exists>es. fst (extents N H lz fs (NtfsRef e q) strm rd) = VOk es \<and>
      full = take (length full) (concat (map (extent_content (disk rd)) es)) \<and>
      length full = min (unat (frag_size (hd (sort_key frag_vcn found)))) (\<Sum>x\<leftarrow>es. unat (run_bytes (ri_run x)))"
    using full(2) extents_stream [OF assms(3) small]
    by (intro exI [of _ "map (extent_of (cluster_size (fs_boot fs))) runs"]) simp
qed

theorem extents_cover_stream_witness:
  "\<exists>es full. fst (read_data_by_record ntfs_layout cursor_host (\<lambda>_. None) lost_fs 0 None (- 1) lost_disk) = Ok full \<and>
     fst (extents ntfs_layout cursor_host (\<lambda>_. None) lost_fs (NtfsRef 0 4) DefaultStream lost_disk) = VOk es \<and>
     length full = 600 \<and> full = take 600 (concat (map (extent_content (lost_record @ replicate 512 9)) es))"
proof -
  let ?L = "\<lambda>_. None :: bytes option"
  obtain full where full: "fst (read_data_by_record ntfs_layout cursor_host ?L lost_fs 0 None (- 1) lost_disk) = Ok full"
    "length full = 600"
    using lost_data [of ?L] by blast
  have a: "stream_attributes ntfs_layout cursor_host ?L lost_fs 0 None lost_disk [(lost_fixed, lost_data_attr)]"
    using lost_gather [of ?L] lost_found unfolding stream_attributes_def by blast
  have "\<not> is_compressed ntfs_layout lost_data_attr" "frag_size (lost_fixed, lost_data_attr) = 600"
    by (simp_all add: is_compressed_def lost_data_attr_def frag_size_def)
  then show ?thesis
    using extents_cover_stream [OF disk_cursor.medium_axioms lost_geometry(2) _ _ a, of DefaultStream 4] full lost_found(2)
    by (auto simp: stream_name_def lost_geometry length_lost)
qed

text \<open>
  Claim C18. The slack of a non-resident stream is the part of the run holding its end that lies
  past the end: its bytes in the image are the bytes of the stream's clusters right after
  the last byte of data, up to the end of that run. Nothing is reported exactly when the
  clusters end with the data or that run is sparse.
\<close>

theorem slack_after_eof:
  assumes "medium H good disk at" "good rd" "stream_name strm = VOk name"
    and "fst (node_attributes N H fs e rd) = VOk (rec, attrs)"
    and "find (\<lambda>a. type_code a = T_DATA (attr_ty N) \<and> attr_name a = name) attrs = Some a" "\<not> is_resident a"
    and "fst (runs_by_record N H lz fs e name rd) = Ok runs"
    and "list_all (run_on_disk d (unat (cluster_size (fs_boot fs)))) runs" "length d < 2 ^ 64"
    and "allocated_bytes (unat (cluster_size (fs_boot fs))) runs < 2 ^ 64"
  shows "\<exists>sl. fst (slack N H lz fs (NtfsRef e q) strm rd) = VOk sl \<and>
    slack_ok d (unat (cluster_size (fs_boot fs))) runs (unat (real_size (attr_body a))) sl"
  using medium.slack_runs [OF assms(1-7)] slack_loop_ok [OF assms(8-10)] by blast

theorem slack_after_eof_witness:
  "\<exists>b. fst (slack ntfs_layout cursor_host (\<lambda>_. None) lost_fs (NtfsRef 0 4) DefaultStream lost_disk) = VOk (Some b) \<and>
     unat (run_bytes b) = 424"
proof -
  obtain rd1 where n: "fst (node_attributes ntfs_layout cursor_host lost_fs 0 lost_disk) =
      VOk (lost_fixed, [lost_name_attr, lost_data_attr, lost_ads_attr])"
    using lost_node by fastforce
  have r: "fst (runs_by_record ntfs_layout cursor_host (\<lambda>_. None) lost_fs 0 None lost_disk) =
      Ok [\<lparr>run_length = 2, lcn = Some 0\<rparr>]"
    using lost_runs [of "\<lambda>_. None"] by fastforce
  have f: "find (\<lambda>a. type_code a = T_DATA (attr_ty ntfs_layout) \<and> attr_name a = None)
      [lost_name_attr, lost_data_attr, lost_ads_attr] = Some lost_data_attr"
    using lost_kinds(2) by (simp add: unnamed_data_def)
  have a: "\<not> is_resident lost_data_attr" "real_size (attr_body lost_data_attr) = 600"
    by (simp_all add: is_resident_def lost_data_attr_def)
  have g: "list_all (run_on_disk (lost_record @ replicate 512 9) (unat (cluster_size (fs_boot lost_fs))))
      [\<lparr>run_length = 2, lcn = Some 0\<rparr>]" "length (lost_record @ replicate 512 (9 :: u8)) < 2 ^ 64"
    "allocated_bytes (unat (cluster_size (fs_boot lost_fs))) [\<lparr>run_length = 2, lcn = Some 0\<rparr>] < 2 ^ 64"
    using lost_geometry(1,6,7) by (simp_all add: length_lost)
  have "stream_name DefaultStream = VOk None"
    by (simp add: stream_name_def)
  from slack_after_eof [OF disk_cursor.medium_axioms lost_geometry(2) this n f a(1) r g, of 4]
  obtain sl where "fst (slack ntfs_layout cursor_host (\<lambda>_. None) lost_fs (NtfsRef 0 4) DefaultStream lost_disk) = VOk sl"
    "slack_ok (lost_record @ replicate 512 9) 512 [\<lparr>run_length = 2, lcn = Some 0\<rparr>] 600 sl"
    by (auto simp: a(2) lost_geometry(1))
  then show ?thesis
    by (auto simp: slack_ok_def split: option.splits)
qed

text \<open>
  Claim C20. The listing of deleted files is sound and complete. Over a fault-free source and a table
  that lies on the disk, it fails exactly when record 0, which states how long the table is, cannot be
  read and parsed. Otherwise no damaged record fails it: it has one node, in record order, for exactly
  those records of the table (its stated length over the record size) that can be read, are not in
  use and carry a readable name. Each node has the identity of the record, is marked deleted, and
  takes its name and its parent from one name of the record that no other name of it beats, a parent
  of record number 0 being none.
\<close>

theorem deleted_nodes_exact:
  assumes "medium H good disk at" "good rd" "mft_on_disk (disk rd) fs"
    and "mem_reserve H (unat (mft_record_size (fs_boot fs)))" "attr_in_header N"
  shows "case Option.bind (res_ok (fst (read_record N H fs (MFT_RECORD N) rd))) (\<lambda>rec. res_ok (record_attributes N rec)) of
      None \<Rightarrow> \<exists>e. fst (deleted_nodes N H fs rd) = VErr e
    | Some attrs \<Rightarrow> \<exists>ds. fst (deleted_nodes N H fs rd) = VOk ds \<and>
        list_all2 (\<lambda>e n. \<exists>rec. fst (read_record N H fs e rd) = Ok rec \<and> recovered N e rec n)
          (filter (\<lambda>e. \<exists>rec. fst (read_record N H fs e rd) = Ok rec \<and> recoverable N rec)
            (map word_of_nat [0..<data_size N attrs div unat (mft_record_size (fs_boot fs))])) ds"
  using medium.mft_record_count_cases [OF assms] medium.deleted_nodes_spec [OF assms]
  by (auto simp: deleted_nodes_def v_bind_def split: option.splits prod.splits)

theorem deleted_nodes_exact_witness:
  "\<exists>n. fst (deleted_nodes ntfs_layout cursor_host lost_fs lost_disk) = VOk [n] \<and>
     recovered ntfs_layout 0 lost_fixed n"
proof -
  obtain rd where r: "read_record ntfs_layout cursor_host lost_fs 0 lost_disk = (Ok lost_fixed, rd)"
    using lost_read_record by blast
  have z: "MFT_RECORD ntfs_layout = 0"
    by (simp add: layout_defs)
  have sz: "data_size ntfs_layout [lost_name_attr, lost_data_attr, lost_ads_attr] = 600"
    using lost_kinds(2) by (simp add: data_size_def unnamed_data_def) (simp add: lost_data_attr_def)
  have on: "mft_on_disk (cur_bytes lost_disk) lost_fs"
    using lost_geometry(6) by (simp add: mft_on_disk_def lost_geometry length_lost)
  have "attr_in_header ntfs_layout"
    by (simp add: documented_attr)
  from deleted_nodes_exact [OF disk_cursor.medium_axioms lost_geometry(2) on _ this] show ?thesis
    using r lost_recoverable by (auto simp: z sz lost_attributes lost_geometry list_all2_Cons1)
qed

text \<open>
  Claim C19. Free space is reported exactly: when the allocation bitmap covers the volume, a byte
  lies in a reported extent exactly when it lies in the volume in a cluster whose bit is
  clear; a bitmap too short for the volume is an error and never an empty report.
\<close>

theorem unallocated_exact:
  assumes "fst (read_data_by_record N H lz fs (BITMAP_RECORD N) None (- 1) rd) = Ok bitmap"
    and "unat (volume_clusters fs) * unat (cluster_size (fs_boot fs)) < 2 ^ 64" "0 < unat (cluster_size (fs_boot fs))"
  shows "if unat (volume_clusters fs) \<le> 8 * length bitmap
    then \<exists>rs. fst (unallocated N H lz fs rd) = VOk rs \<and>
      (\<forall>p. byte_in rs p \<longleftrightarrow> p < unat (volume_clusters fs) * unat (cluster_size (fs_boot fs)) \<and>
        cluster_free bitmap (p div unat (cluster_size (fs_boot fs))))
    else \<exists>l k t. fst (unallocated N H lz fs rd) = VErr (Decode l k t [])"
proof -
  obtain rd1 where r: "read_data_by_record N H lz fs (BITMAP_RECORD N) None (- 1) rd = (Ok bitmap, rd1)"
    using assms(1) by (metis eq_fst_iff)
  have "length bitmap < (unat (volume_clusters fs) + 7) div 8 \<longleftrightarrow> \<not> unat (volume_clusters fs) \<le> 8 * length bitmap"
    by linarith
  then show ?thesis
    using r unallocated_runs_bytes [OF assms(2,3), of bitmap]
    by (auto simp: unallocated_def v_bind_def v_io_def Let_def)
qed

theorem unallocated_exact_witness:
  "\<exists>rs. fst (unallocated ntfs_layout cursor_host (\<lambda>_. None) bitmap_fs tiny_disk) = VOk rs \<and>
     byte_in rs 96 \<and> \<not> byte_in rs 95 \<and> byte_in rs 1151 \<and> \<not> byte_in rs 1152"
proof -
  obtain rd where r: "read_data_by_record ntfs_layout cursor_host (\<lambda>_. None) bitmap_fs (BITMAP_RECORD ntfs_layout) None (- 1) tiny_disk =
      (Ok [1, 2, 3, 4], rd)"
    using bitmap_read_data by blast
  show ?thesis
    using unallocated_exact [of ntfs_layout cursor_host "\<lambda>_. None" bitmap_fs tiny_disk "[1, 2, 3, 4]"] r
    by (auto simp: bitmap_fs_def tiny_fs_def volume_clusters_def cluster_size_def cluster_free_def bit_simps)
qed

end
