(* ===== verification/Drive.thy ===== *)
theory Drive
  imports Reader_Monad
begin

text \<open>
  Sources that may fail. The locale \<open>drive\<close> asks less of a source than \<open>medium\<close>: it may fail at
  any time and return any bytes, but it does not panic and a read returns no more than was
  asked for. \<open>yields m P\<close> says that an operation keeps the source usable and ends in a value
  with \<open>P\<close> or in an error.
\<close>

section \<open>The interface\<close>

definition res_yields :: "'a res \<Rightarrow> ('a \<Rightarrow> bool) \<Rightarrow> bool" where
  "res_yields r P \<longleftrightarrow> (case r of Ok x \<Rightarrow> P x | Err _ \<Rightarrow> True | Panic \<Rightarrow> False)"

lemma res_yields_simps [simp]:
  "res_yields (Ok x) P \<longleftrightarrow> P x" "res_yields (Err e) P" "\<not> res_yields Panic P"
  by (simp_all add: res_yields_def)

lemma res_yieldsI: "r \<noteq> Panic \<Longrightarrow> (\<And>x. r = Ok x \<Longrightarrow> P x) \<Longrightarrow> res_yields r P"
  by (cases r) auto

lemma res_yields_ok_or [simp]: "res_yields (ok_or x e) P \<longleftrightarrow> (\<forall>y. x = Some y \<longrightarrow> P y)"
  by (cases x) auto

locale drive =
  fixes H :: "'r host" and good :: "'r \<Rightarrow> bool"
  assumes seek_drive: "good r \<Longrightarrow> io_seek H r (SeekStart p) = (x, r') \<Longrightarrow> good r' \<and> x \<noteq> Panic"
    and read_drive: "good r \<Longrightarrow> io_read H r n = (y, r') \<Longrightarrow>
      good r' \<and> res_yields y (\<lambda>bs. length bs \<le> n)"
begin

definition yields :: "('r, 'a) io \<Rightarrow> ('a \<Rightarrow> bool) \<Rightarrow> bool" where
  "yields m P \<longleftrightarrow> (\<forall>rd. good rd \<longrightarrow> good (snd (m rd)) \<and> res_yields (fst (m rd)) P)"

lemma yields_lift [simp]: "res_yields m P \<Longrightarrow> yields (io_lift m) P"
  by (simp add: yields_def)

lemma yieldsD:
  assumes "yields m P" "good rd" "m rd = (x, rd')"
  shows "good rd'" "res_yields x P"
  using assms unfolding yields_def by (metis fst_conv snd_conv)+

lemma yields_no_panic: "yields m P \<Longrightarrow> good rd \<Longrightarrow> fst (m rd) \<noteq> Panic"
  by (auto simp: yields_def)

lemma yields_bind_reached:
  assumes "yields m P" "\<And>x rd rd'. P x \<Longrightarrow> m rd = (Ok x, rd') \<Longrightarrow> yields (f x) Q"
  shows "yields (io_bind m f) Q"
  unfolding yields_def
proof (intro allI impI)
  fix rd
  assume g: "good rd"
  obtain x rd1 where m: "m rd = (x, rd1)"
    by (cases "m rd")
  note d = yieldsD [OF assms(1) g m]
  show "good (snd (io_bind m f rd)) \<and> res_yields (fst (io_bind m f rd)) Q"
  proof (cases x)
    case (Ok y)
    then show ?thesis
      using m d assms(2) [of y] by (simp add: io_bind_def yields_def)
  qed (use m d in \<open>simp_all add: io_bind_def\<close>)
qed

lemma yields_bind: "yields m P \<Longrightarrow> (\<And>x. P x \<Longrightarrow> yields (f x) Q) \<Longrightarrow> yields (io_bind m f) Q"
  by (rule yields_bind_reached)

lemma yields_weaken: "yields m P \<Longrightarrow> (\<And>x. P x \<Longrightarrow> Q x) \<Longrightarrow> yields m Q"
  unfolding yields_def res_yields_def by (auto split: res.splits)

lemma yields_lift_bind: "res_yields m P \<Longrightarrow> (\<And>x. P x \<Longrightarrow> yields (f x) Q) \<Longrightarrow> yields (io_bind (io_lift m) f) Q"
  by (rule yields_bind [OF yields_lift])

lemma read_exact_yields: "yields (\<lambda>rd. read_exact H rd n) (\<lambda>bs. length bs = n)"
proof (induction n rule: less_induct)
  case (less n)
  show ?case
    unfolding yields_def
  proof (intro allI impI)
    fix rd
    assume g: "good rd"
    obtain x r1 where rd: "io_read H rd n = (x, r1)"
      by (cases "io_read H rd n")
    note d = read_drive [OF g rd]
    show "good (snd (read_exact H rd n)) \<and> res_yields (fst (read_exact H rd n)) (\<lambda>bs. length bs = n)"
    proof (cases "n = 0")
      case True
      with g show ?thesis by (simp add: read_exact.simps)
    next
      case nz: False
      show ?thesis
      proof (cases x)
        case (Ok bs)
        show ?thesis
        proof (cases "bs = []")
          case True
          with Ok nz rd d show ?thesis
            by (simp add: read_exact.simps [of H rd n])
        next
          case ne: False
          have le: "length bs \<le> n" "n - length bs < n"
            using d Ok ne nz by auto
          obtain y r2 where y: "read_exact H r1 (n - length bs) = (y, r2)"
            by (cases "read_exact H r1 (n - length bs)")
          have "good r2" "res_yields y (\<lambda>cs. length cs = n - length bs)"
            using yieldsD [OF less.IH [OF le(2)] _ y] d by simp_all
          then show ?thesis
            using nz rd Ok ne le y by (cases y) (simp_all add: read_exact.simps [of H rd n])
        qed
      qed (use nz rd d in \<open>simp_all add: read_exact.simps [of H rd n]\<close>)
    qed
  qed
qed

lemma seek_yields: "yields (\<lambda>rd. io_seek H rd (SeekStart off)) (\<lambda>_. True)"
  unfolding yields_def
proof (intro allI impI)
  fix rd
  assume "good rd"
  then show "good (snd (io_seek H rd (SeekStart off))) \<and> res_yields (fst (io_seek H rd (SeekStart off))) (\<lambda>_. True)"
    using seek_drive [of rd off] by (cases "io_seek H rd (SeekStart off)") (auto intro!: res_yieldsI)
qed

lemma seek_read_yields: "yields (\<lambda>rd. seek_read H rd off n) (\<lambda>bs. length bs = n)"
proof -
  have "(\<lambda>rd. seek_read H rd off n) = io_bind (\<lambda>rd. io_seek H rd (SeekStart off)) (\<lambda>_ rd. read_exact H rd n)"
    by (rule ext) (auto simp: seek_read_def io_bind_def split: prod.splits res.splits)
  then show ?thesis
    by (simp only:) (rule yields_bind [OF seek_yields read_exact_yields])
qed

lemma yields_and:
  assumes "yields m P" "\<And>rd x. good rd \<Longrightarrow> fst (m rd) = Ok x \<Longrightarrow> Q x"
  shows "yields m (\<lambda>x. P x \<and> Q x)"
  using assms unfolding yields_def res_yields_def by (force split: res.splits)

end

section \<open>Which sources are drives\<close>

text \<open>Every fault-free source is one, also when its content is pinned down, and so is a window over a drive.\<close>

sublocale medium \<subseteq> drive H good
proof
  show "good r' \<and> x \<noteq> Panic" if "good r" "io_seek H r (SeekStart p) = (x, r')" for r p x r'
    using seek_start [OF that(1), of p] that(2) by auto
  show "good r' \<and> res_yields y (\<lambda>bs. length bs \<le> n)" if "good r" "io_read H r n = (y, r')" for r n y r'
    using read_some [OF that(1), of n] that(2) by auto
qed

lemma medium_fixed_drive:
  assumes "medium H good disk at"
  shows "drive H (\<lambda>r. good r \<and> disk r = d)"
proof
  show "(good r' \<and> disk r' = d) \<and> x \<noteq> Panic"
    if "good r \<and> disk r = d" "io_seek H r (SeekStart p) = (x, r')" for r p x r'
    using medium.seek_start [OF assms, of r p] that by auto
  show "(good r' \<and> disk r' = d) \<and> res_yields y (\<lambda>bs. length bs \<le> n)"
    if "good r \<and> disk r = d" "io_read H r n = (y, r')" for r n y r'
    using medium.read_some [OF assms, of r n] that by auto
qed

interpretation fixed_cursor: drive cursor_host "\<lambda>c. cursor_good c \<and> cur_bytes c = d" for d
  by (rule medium_fixed_drive [OF disk_cursor.medium_axioms])

lemma offset_host_drive:
  assumes "drive H good"
  shows "drive (offset_host H) (\<lambda>s. good (or_inner s))"
proof
  show "good (or_inner s') \<and> x \<noteq> Panic"
    if "good (or_inner s)" "io_seek (offset_host H) s (SeekStart p) = (x, s')" for s p x s'
    using that by (auto simp: offset_host_def offset_seek_def Let_def split: if_splits)
  show "good (or_inner s') \<and> res_yields y (\<lambda>bs. length bs \<le> n)"
    if g: "good (or_inner s)" and e: "io_read (offset_host H) s n = (y, s')" for s n y s'
  proof -
    let ?cap = "min (unat (or_len s) - unat (or_pos s)) n"
    have seek: "good r1 \<and> x \<noteq> Panic" if "io_seek H (or_inner s) (SeekStart ab) = (x, r1)" for ab x r1
      using drive.seek_drive [OF assms g that] .
    have read: "good r2 \<and> res_yields z (\<lambda>bs. length bs \<le> ?cap)" if "good r1" "io_read H r1 ?cap = (z, r2)" for r1 z r2
      using drive.read_drive [OF assms that] .
    have pos: "unat (or_pos s) + length bs < 2 ^ 64"
      if "length bs \<le> ?cap" "unat (or_len s) - unat (or_pos s) \<noteq> 0" for bs :: bytes
    proof (rule le_less_trans)
      show "unat (or_pos s) + length bs \<le> unat (or_len s)"
        using that by auto
    qed simp
    show ?thesis
    proof (cases "unat (or_len s) - unat (or_pos s) = 0 \<or> checked_add (or_base s) (or_pos s) = None")
      case True
      then show ?thesis
        using e g by (auto simp: offset_host_def offset_read_def Let_def split: if_splits)
    next
      case False
      then obtain ab where ab: "checked_add (or_base s) (or_pos s) = Some ab"
        by auto
      obtain x r1 where x: "io_seek H (or_inner s) (SeekStart ab) = (x, r1)"
        by (cases "io_seek H (or_inner s) (SeekStart ab)")
      obtain z r2 where z: "io_read H r1 ?cap = (z, r2)"
        by (cases "io_read H r1 ?cap")
      show ?thesis
        using e False ab x z seek [OF x] read [OF _ z] pos
        by (cases x; cases z) (auto simp: offset_host_def offset_read_def Let_def)
    qed
  qed
qed

end
