(* ===== verification/Fs_Safety.thy ===== *)
theory Fs_Safety
  imports Vfs Drive
begin

text \<open>
  No operation of the volume reader panics, whatever the volume says and whenever the source
  fails. The one exception is a compressed attribute with an absurd compression unit, for
  which the sources allocate a whole unit without asking (\<open>plausible_unit\<close>);
  \<open>absurd_unit_panics\<close> shows the panic.
\<close>

section \<open>Conditions and helpers\<close>

text \<open>Gathering a unit never holds more than the bytes of the clusters it has seen.\<close>

definition unit_inv :: "u64 \<Rightarrow> u64 \<Rightarrow> unit_acc \<Rightarrow> bool" where
  "unit_inv cs uc a \<longleftrightarrow> got a \<le> uc \<and> length (real_bytes a) \<le> unat (got a) * unat cs"

text \<open>A compression unit that fits a vector.\<close>

definition plausible_unit :: "nomicon \<Rightarrow> u64 \<Rightarrow> attribute \<Rightarrow> bool" where
  "plausible_unit N cs a \<longleftrightarrow>
     is_compressed N a \<and> compression_unit a \<noteq> 0 \<longrightarrow> 2 ^ unat (compression_unit a) * unat cs < (2::nat) ^ 63"

text \<open>A record all of whose attributes have such units.\<close>

definition sound_record :: "nomicon \<Rightarrow> u64 \<Rightarrow> bytes \<Rightarrow> bool" where
  "sound_record N cs rec \<longleftrightarrow>
     (case record_attributes N rec of Ok attrs \<Rightarrow> list_all (plausible_unit N cs) attrs | _ \<Rightarrow> True)"

lemma allocated_loop_no_panic: "allocated_loop runs cs a \<noteq> Panic"
  by (induction runs arbitrary: a) (auto simp: res_inversions)

lemma checked_shl_one_unat: "checked_shl_one n = Some uc \<Longrightarrow> unat uc = 2 ^ n"
  by (auto simp: checked_shl_one_def push_bit_eq_mult unat_2p split: if_splits)

lemma attribute_runlist_no_panic: "attribute_runlist rec a \<noteq> Panic"
  by (auto simp: attribute_runlist_def Let_def res_inversions runlist_decode_def decode_loop_no_panic
      split: attribute_body.splits)

text \<open>
  What is asked of a volume: the constants fit the headers, the geometry is one a boot sector
  can state, and no record of the file table has an absurd compression unit.
\<close>

definition safe_volume :: "nomicon \<Rightarrow> 'r host \<Rightarrow> ('r \<Rightarrow> bool) \<Rightarrow> ntfs_fs \<Rightarrow> bool" where
  "safe_volume N H good fs \<longleftrightarrow> attr_in_header N \<and> geometry_ok (fs_boot fs) \<and>
     (\<forall>rd n rec. good rd \<longrightarrow> fst (read_record N H fs n rd) = Ok rec \<longrightarrow>
        sound_record N (cluster_size (fs_boot fs)) rec)"

definition rec_ok :: "nomicon \<Rightarrow> ntfs_fs \<Rightarrow> bytes \<Rightarrow> bool" where
  "rec_ok N fs rec \<longleftrightarrow> length rec < 2 ^ 63 \<and> sound_record N (cluster_size (fs_boot fs)) rec"

lemma safe_volumeD:
  assumes "safe_volume N H good fs"
  shows "attr_in_header N" "2 \<le> unat (cluster_size (fs_boot fs))" "unat (mft_record_size (fs_boot fs)) < 2 ^ 63"
    "4 \<le> unat (index_record_size (fs_boot fs))"
  using assms cluster_size_bounds(1) [of "fs_boot fs"]
  by (auto simp: safe_volume_def geometry_ok_def record_size_ok_def)

lemma index_blocks_no_panic: "4 \<le> irs \<Longrightarrow> index_blocks N n off data irs ss \<noteq> Panic"
  by (induction n arbitrary: off) (auto simp: res_inversions Let_def)

lemma attribute_list_parse_no_panic: "attribute_list_parse content \<noteq> Panic"
  unfolding attribute_list_parse_def by (rule attr_list.walk_no_panic)

lemma record_attributes_yields:
  assumes "attr_in_header N" "rec_ok N fs rec"
  shows "res_yields (record_attributes N rec) (list_all (plausible_unit N (cluster_size (fs_boot fs))))"
  using assms record_attributes_total [of N rec]
  by (intro res_yieldsI) (simp_all add: rec_ok_def sound_record_def)

lemma find_list_all: "list_all P xs \<Longrightarrow> find Q xs = Some x \<Longrightarrow> P x"
  by (auto simp: list_all_iff find_Some_iff)

lemma data_attributes_yields:
  assumes "attr_in_header N" "list_all (rec_ok N fs) recs"
  shows "res_yields (data_attributes N strm recs)
    (list_all (\<lambda>f. plausible_unit N (cluster_size (fs_boot fs)) (snd f)))"
  using assms(2)
proof (induction recs)
  case (Cons r rs)
  then show ?case
    using record_attributes_yields [OF assms(1), of fs r]
    by (cases "record_attributes N r"; cases "data_attributes N strm rs") (auto simp: list_all_iff)
qed simp

lemma concat_runlists_no_panic: "concat_runlists fs \<noteq> Panic"
  by (induction fs rule: concat_runlists.induct) (auto simp: res_inversions attribute_runlist_no_panic)

lemma ext_fragments_no_panic: "ext_fragments N ext attrs \<noteq> Panic"
  by (induction attrs) (auto simp: res_inversions attribute_runlist_no_panic split: attribute_body.splits)

lemma mft_data_runs_loop_no_panic: "mft_data_runs_loop N rec attrs \<noteq> Panic"
  by (induction attrs)
     (auto simp: res_inversions runlist_decode_def decode_loop_no_panic split: attribute_body.splits)

text \<open>The same of the table record a boot sector points at, for the time before the volume is open.\<close>

definition safe_boot :: "nomicon \<Rightarrow> 'r host \<Rightarrow> ('r \<Rightarrow> bool) \<Rightarrow> bool" where
  "safe_boot N H good \<longleftrightarrow> attr_in_header N \<and> boot_in_bpb N \<and>
     (\<forall>rd rd' sector b raw rec0.
        good rd \<and> fst (seek_read H rd 0 512) = Ok sector \<and> boot_parse N sector = Ok b \<and>
        good rd' \<and> fst (seek_read H rd' (mft_byte_offset b) (unat (mft_record_size b))) = Ok raw \<and>
        fixup N raw (unat (bytes_per_sector b)) = Ok rec0 \<longrightarrow> sound_record N (cluster_size b) rec0)"

section \<open>Attribute values\<close>

context drive
begin

lemma runs_loop_yields: "yields (\<lambda>rd. runs_loop H rd cs runs remaining out) (\<lambda>_. True)"
proof (induction runs arbitrary: remaining out)
  case Nil
  then show ?case
    using yields_lift [of "Ok out" "\<lambda>_. True"] by (simp add: io_lift_def)
next
  case (Cons r rs)
  show ?case
  proof (cases "remaining = 0")
    case False
    show ?thesis
    proof (cases "lcn r")
      case None
      with Cons False show ?thesis
        unfolding runs_loop_bind by (simp add: Let_def)
    next
      case (Some l)
      have "yields (io_bind (\<lambda>rd. seek_read H rd off n) (\<lambda>bs rd. runs_loop H rd cs rs remaining' (out @ bs))) (\<lambda>_. True)"
        for off n remaining'
        by (rule yields_bind [OF seek_read_yields Cons])
      with Some False show ?thesis
        unfolding runs_loop_bind by (simp add: Let_def yields_lift_bind [where P = "\<lambda>_. True"])
    qed
  qed (unfold runs_loop_bind, simp)
qed

lemma read_runs_capped_yields: "yields (\<lambda>rd. read_runs_capped H rd runs cs rsize cap) (\<lambda>_. True)"
  unfolding read_runs_capped_bind
  by (rule yields_lift_bind [where P = "\<lambda>_. True"])
     (auto simp: Let_def allocated_loop_no_panic runs_loop_yields intro!: res_yieldsI)

lemma gather_step_yields:
  assumes "unit_inv cs uc a" "got a < uc" "unat uc * unat cs < 2 ^ 63" "2 \<le> unat cs"
  shows "yields (\<lambda>rd. gather_step H rd cs uc l avail rest a) (\<lambda>(q', a'). unit_inv cs uc a')"
proof -
  define tk where "tk = min (uc - got a) avail"
  have got: "unat (got a + tk) = unat (got a) + unat tk" "unat (got a) + unat tk \<le> unat uc"
    unfolding tk_def by (rule unat_take_add [OF assms(2)])+
  have "(unat (got a) + unat tk) * unat cs \<le> unat uc * unat cs"
    using got(2) by (rule mult_le_mono1)
  then have bytes: "unat (got a) * unat cs + unat tk * unat cs < 2 ^ 63"
    using assms(3) by (simp add: add_mult_distrib)
  then have tkcs: "unat (tk * cs) = unat tk * unat cs"
    by (simp add: unat_word_ariths)
  have len: "length (real_bytes a) \<le> unat (got a) * unat cs"
    using assms(1) by (simp add: unit_inv_def)
  have vec: "seek_read_vec H rd off (length (real_bytes a)) (unat (tk * cs)) = seek_read H rd off (unat (tk * cs))"
    for rd off
    using bytes len tkcs by (intro seek_read_vec_small) linarith
  have inv: "unit_inv cs uc (b\<lparr>got := got a + tk\<rparr>)"
    if "length (real_bytes b) \<le> unat (got a) * unat cs + unat tk * unat cs" for b
    using that got by (simp add: unit_inv_def word_le_nat_alt add_mult_distrib)
  show ?thesis
  proof (cases l)
    case None
    then show ?thesis
      unfolding gather_step_bind tk_def [symmetric] using inv [of a] len by (simp add: Let_def)
  next
    case (Some c)
    have add: "checked_add c tk = Some (c + tk)" if "checked_mul c cs = Some off" for off
    proof -
      have "unat c * unat cs < 2 ^ 64"
        using that by (simp add: checked_simps)
      then have "unat c * 2 < 2 ^ 64" "unat tk * 2 < 2 ^ 63"
        using assms(4) bytes mult_le_mono2 [OF assms(4), of "unat c"] mult_le_mono2 [OF assms(4), of "unat tk"]
        by linarith+
      then show ?thesis
        by (simp add: checked_add_def)
    qed
    have "yields (io_bind (\<lambda>rd. seek_read H rd off (unat (tk * cs))) (\<lambda>bs.
          io_lift (Ok (if avail - tk = 0 then rest else (Some (c + tk), avail - tk) # rest,
            a\<lparr>real_bytes := real_bytes a @ bs, real_clusters := real_clusters a + tk, got := got a + tk\<rparr>))))
        (\<lambda>(q', a'). unit_inv cs uc a')" for off
      by (rule yields_bind [OF seek_read_yields])
         (use inv [of "a\<lparr>real_bytes := real_bytes a @ bs, real_clusters := real_clusters a + tk\<rparr>" for bs]
            len tkcs in simp)
    then show ?thesis
      unfolding gather_step_bind tk_def [symmetric] Some
      by (simp add: Let_def) (rule yields_lift_bind [where P = "\<lambda>off. checked_mul c cs = Some off"];
          simp add: add vec)
  qed
qed

lemma gather_unit_yields:
  assumes "unit_inv cs uc a" "unat uc * unat cs < 2 ^ 63" "2 \<le> unat cs"
  shows "yields (\<lambda>rd. gather_unit H rd cs uc q a) (\<lambda>_. True)"
  using assms(1)
proof (induction "length q + (unat uc - unat (got a))" arbitrary: q a rule: less_induct)
  case less
  show ?case
  proof (cases q)
    case Nil
    then show ?thesis
      using yields_lift [of "Ok ([], a)" "\<lambda>_. True"] by (simp add: io_lift_def)
  next
    case (Cons r rest)
    obtain l avail where r: "r = (l, avail)"
      by (cases r)
    have "yields (io_bind (\<lambda>rd. gather_step H rd cs uc l avail rest a) (\<lambda>(q', a') rd.
           gather_unit H rd cs uc q' a')) (\<lambda>_. True)" if lt: "got a < uc"
    proof (rule yields_bind_reached [OF gather_step_yields [OF less.prems lt assms(2,3)]])
      fix x rd rd'
      assume "case x of (q', a') \<Rightarrow> unit_inv cs uc a'" "gather_step H rd cs uc l avail rest a = (Ok x, rd')"
      then show "yields (case x of (q', a') \<Rightarrow> \<lambda>rd. gather_unit H rd cs uc q' a') (\<lambda>_. True)"
        using lt by (cases x) (auto simp: Cons dest!: gather_step_decreases intro!: less.hyps)
    qed
    then show ?thesis
      unfolding Cons r gather_unit_bind by simp
  qed
qed

lemma compressed_loop_yields:
  assumes "unat uc * unat cs < 2 ^ 63" "2 \<le> unat cs"
  shows "yields (\<lambda>rd. compressed_loop H lz rd cs uc ub target q out) (\<lambda>_. True)"
proof (induction "queue_clusters q" arbitrary: q out rule: less_induct)
  case less
  let ?a = "\<lparr>real_bytes = [], real_clusters = 0, got = 0\<rparr>"
  have "unit_inv cs uc ?a"
    by (simp add: unit_inv_def)
  note g = gather_unit_yields [OF this assms]
  have "yields (io_bind (\<lambda>rd. gather_unit H rd cs uc q ?a)
      (\<lambda>(q', a). unit_turn H lz cs uc ub target out q' a)) (\<lambda>_. True)"
  proof (rule yields_bind_reached [OF g])
    fix x rd rd1
    assume 1: "gather_unit H rd cs uc q ?a = (Ok x, rd1)"
    obtain q' a where x: "x = (q', a)"
      by (cases x)
    show "yields (case x of (q', a) \<Rightarrow> unit_turn H lz cs uc ub target out q' a) (\<lambda>_. True)"
    proof (cases "got a = 0")
      case False
      then have "yields (\<lambda>rd. compressed_loop H lz rd cs uc ub target q' out') (\<lambda>_. True)" for out'
        using 1 x by (intro less.hyps gather_unit_fresh [of H rd cs uc q "[]" 0 q' a rd1]) simp_all
      then show ?thesis
        unfolding x prod.case unit_turn_def by (simp split: option.splits)
    qed (simp add: x unit_turn_def)
  qed
  then show ?case
    unfolding compressed_loop_bind by simp
qed

lemma read_nonresident_yields:
  assumes "plausible_unit N cs a" "2 \<le> unat cs"
  shows "yields (\<lambda>rd. read_nonresident_capped N H lz rd runs cs rsize a cap) (\<lambda>_. True)"
proof (cases "is_compressed N a \<and> compression_unit a \<noteq> 0")
  case True
  show ?thesis
  proof (cases "checked_shl_one (unat (compression_unit a))")
    case None
    with True show ?thesis
      unfolding read_nonresident_capped_bind by simp
  next
    case (Some uc)
    then have "unat uc * unat cs < 2 ^ 63"
      using assms(1) True by (simp add: plausible_unit_def checked_shl_one_unat)
    then have "yields (\<lambda>rd. compressed_loop H lz rd cs uc ub target q out) (\<lambda>_. True)" for ub target q out
      using compressed_loop_yields assms(2) by blast
    then have "yields (\<lambda>rd. read_compressed_runs_capped H lz rd runs cs rsize uc cap) (\<lambda>_. True)"
      unfolding read_compressed_bind
      by (auto intro!: yields_lift_bind [where P = "\<lambda>_. True"] yields_bind [where P = "\<lambda>_. True"])
    with True Some show ?thesis
      unfolding read_nonresident_capped_bind by simp
  qed
next
  case False
  then show ?thesis
    unfolding read_nonresident_capped_bind using read_runs_capped_yields by auto
qed

lemma read_attribute_value_yields:
  assumes "plausible_unit N cs a" "2 \<le> unat cs"
  shows "yields (\<lambda>rd. read_attribute_value N H lz rd rec a cs) (\<lambda>_. True)"
  unfolding read_attribute_value_bind
  using read_nonresident_yields [OF assms]
  by (cases "attr_body a")
     (auto simp: attribute_runlist_no_panic intro!: yields_lift_bind [where P = "\<lambda>_. True"] res_yieldsI)

section \<open>Records\<close>

lemma virtual_part_yields: "yields (virtual_part H r cs within tk) (\<lambda>bs. length bs = unat tk)"
proof (cases "lcn r")
  case None
  then show ?thesis
    by (simp add: virtual_part_def)
next
  case (Some l)
  then show ?thesis
    by (auto simp: virtual_part_def intro!: yields_lift_bind [where P = "\<lambda>_. True"] seek_read_yields)
qed

text \<open>The read position never falls behind the run at hand, so the offset into it exists.\<close>

lemma virtual_loop_yields:
  assumes "base \<le> pos \<or> want = 0"
  shows "yields (virtual_loop H runs cs want pos base out)
    (\<lambda>(out', want'). length out' + unat want' = length out + unat want)"
  using assms
proof (induction runs arbitrary: want pos base out)
  case (Cons r rs)
  show ?case
  proof (cases "want = 0")
    case nz: False
    then have bp: "base \<le> pos"
      using Cons.prems by simp
    have "yields (if pos < run_end then
        if pos < base then io_lift Panic
        else let within = pos - base; tk = min (run_bytes - within) want in
        io_bind (virtual_part H r cs within tk) (\<lambda>bs.
        virtual_loop H rs cs (want - tk) (pos + tk) run_end (out @ bs))
      else virtual_loop H rs cs want pos run_end out)
      (\<lambda>(out', want'). length out' + unat want' = length out + unat want)"
      if e: "checked_add base run_bytes = Some run_end" for run_bytes run_end
    proof (cases "pos < run_end")
      case True
      define tk where "tk = min (run_bytes - (pos - base)) want"
      note v = virtual_take(2-5) [OF e True bp, of want, folded tk_def]
      have "yields (io_bind (virtual_part H r cs (pos - base) tk) (\<lambda>bs.
          virtual_loop H rs cs (want - tk) (pos + tk) run_end (out @ bs)))
        (\<lambda>(out', want'). length out' + unat want' = length out + unat want)"
        by (rule yields_bind [OF virtual_part_yields], rule yields_weaken [OF Cons.IH [OF v(4)]])
           (use v(1,3) in auto)
      then show ?thesis
        using True bp by (simp add: Let_def tk_def not_less [symmetric])
    next
      case False
      then have "run_end \<le> pos \<or> want = 0"
        by (simp add: not_less)
      then show ?thesis
        unfolding if_not_P [OF False] by (rule Cons.IH)
    qed
    note step = this
    show ?thesis
      unfolding virtual_loop.simps if_not_P [OF nz]
      apply (rule yields_lift_bind [where P = "\<lambda>_. True"])
       apply simp
      subgoal for run_bytes
        by (rule yields_lift_bind [where P = "\<lambda>run_end. checked_add base run_bytes = Some run_end"])
           (simp, rule step)
      done
  next
    case True
    show ?thesis
      unfolding True virtual_loop_done by (rule yields_lift) simp
  qed
qed simp

lemma read_virtual_yields: "yields (read_virtual H runs cs off len) (\<lambda>bs. length bs = unat len)"
proof (cases "mem_reserve H (unat len)")
  case True
  have "yields (io_bind (virtual_loop H runs cs len off 0 []) (\<lambda>(out, want).
      if want > 0 then io_lift (Err (BadRunlist ''read past end of runs'')) else io_lift (Ok out)))
    (\<lambda>bs. length bs = unat len)"
    by (rule yields_bind [OF virtual_loop_yields]) (auto simp: word_neq_0_conv [symmetric])
  with True show ?thesis
    by (simp add: read_virtual_def)
qed (simp add: read_virtual_def)

lemma fixup_yields: "res_yields (fixup N buf ss) (\<lambda>b. length b = length buf)"
  by (rule res_yieldsI) (auto dest: fixup_length)

lemma read_record_yields: "yields (read_record N H fs n) (\<lambda>rec. length rec = unat (mft_record_size (fs_boot fs)))"
proof -
  have "yields (io_lift (fixup N buf ss)) (\<lambda>rec. length rec = unat (mft_record_size (fs_boot fs)))"
    if "length buf = unat (mft_record_size (fs_boot fs))" for buf ss
    using fixup_yields [of N buf ss] that by simp
  then show ?thesis
    unfolding read_record_def Let_def
    by (auto intro!: yields_lift_bind [where P = "\<lambda>_. True"] yields_bind [OF read_virtual_yields])
qed

lemma read_record_ok: "safe_volume N H good fs \<Longrightarrow> yields (read_record N H fs n) (rec_ok N fs)"
  using yields_and [OF read_record_yields, of N fs n "sound_record N (cluster_size (fs_boot fs))"]
    safe_volumeD(3) [of N H good fs]
  by (auto simp: safe_volume_def rec_ok_def elim!: yields_weaken)

section \<open>Directories and streams\<close>

lemma directory_entries_yields:
  assumes safe: "safe_volume N H good fs" and rec: "rec_ok N fs rec"
  shows "yields (directory_entries N H lz fs rec) (\<lambda>_. True)"
proof -
  note D = safe_volumeD [OF safe]
  have blocks: "yields (io_bind (\<lambda>rd. read_attribute_value N H lz rd rec alloc (cluster_size (fs_boot fs))) (\<lambda>data.
      let irs = unat (index_record_size (fs_boot fs)) in
      io_bind (io_lift (index_blocks N (length data div irs) 0 data irs
        (unat (bytes_per_sector (fs_boot fs))))) (\<lambda>more. io_lift (Ok (out @ more))))) (\<lambda>_. True)"
    if "plausible_unit N (cluster_size (fs_boot fs)) alloc" for alloc out
    using index_blocks_no_panic [OF D(4)]
    by (intro yields_bind [OF read_attribute_value_yields [OF that D(2)]])
       (auto simp: Let_def intro!: yields_lift_bind [where P = "\<lambda>_. True"] res_yieldsI)
  show ?thesis
    unfolding directory_entries_def
    apply (rule yields_lift_bind [OF record_attributes_yields [OF D(1) rec]])
    apply (rule yields_lift_bind [where P = "\<lambda>_. True"], simp)
    apply (rule yields_lift_bind [where P = "\<lambda>_. True"], simp)
    apply (rule yields_lift_bind [where P = "\<lambda>_. True"])
     apply (rule res_yieldsI; simp)
    subgoal for attrs root_attr content root
      using blocks find_list_all [of "plausible_unit N (cluster_size (fs_boot fs))" attrs]
      by (auto simp: Let_def split: option.splits)
    done
qed

lemma resolve_from_yields:
  assumes "safe_volume N H good fs"
  shows "yields (resolve_from N H lz fs n cs) (\<lambda>_. True)"
proof (induction cs arbitrary: n)
  case (Cons c cs)
  have "yields (io_bind (directory_entries N H lz fs rec) (\<lambda>entries.
      io_bind (io_lift (ok_or (find_child c entries) (NotFound c))) (\<lambda>next. resolve_from N H lz fs next cs)))
      (\<lambda>_. True)" if "rec_ok N fs rec" for rec
    by (intro yields_bind [OF directory_entries_yields [OF assms that]] yields_lift_bind [where P = "\<lambda>_. True"] Cons)
       simp
  then show ?case
    unfolding resolve_from.simps by (rule yields_bind [OF read_record_ok [OF assms]])
qed simp

lemma gather_loop_yields:
  assumes "safe_volume N H good fs" "list_all (rec_ok N fs) records"
  shows "yields (gather_loop N H fs es seen records) (list_all (rec_ok N fs))"
  using assms(2)
proof (induction es arbitrary: seen records)
  case (Cons e es)
  have "yields (io_bind (read_record N H fs rn) (\<lambda>r. gather_loop N H fs es seen' (records @ [r])))
      (list_all (rec_ok N fs))" for rn seen'
    by (rule yields_bind [OF read_record_ok [OF assms(1)]]) (use Cons in simp)
  with Cons show ?case
    by (simp add: Let_def)
qed simp

lemma gather_records_yields:
  assumes safe: "safe_volume N H good fs" and rec: "rec_ok N fs rec"
  shows "yields (gather_records N H lz fs n rec) (list_all (rec_ok N fs))"
proof -
  note D = safe_volumeD [OF safe]
  have lst: "yields (io_bind (\<lambda>rd. read_attribute_value N H lz rd rec al (cluster_size (fs_boot fs))) (\<lambda>content.
      io_bind (io_lift (attribute_list_parse content)) (\<lambda>entries.
      gather_loop N H fs entries [n] [rec]))) (list_all (rec_ok N fs))"
    if "plausible_unit N (cluster_size (fs_boot fs)) al" for al
    using rec attribute_list_parse_no_panic
    by (intro yields_bind [OF read_attribute_value_yields [OF that D(2)]]
        yields_lift_bind [where P = "\<lambda>_. True"] gather_loop_yields [OF safe]) (auto intro!: res_yieldsI)
  show ?thesis
    unfolding gather_records_def
    apply (rule yields_lift_bind [OF record_attributes_yields [OF D(1) rec]])
    subgoal for attrs
      using lst find_list_all [of _ attrs] rec by (auto split: option.splits)
    done
qed

lemma data_attributes_safe:
  assumes "safe_volume N H good fs" "list_all (rec_ok N fs) recs"
  shows "res_yields (data_attributes N strm recs)
    (list_all (\<lambda>f. plausible_unit N (cluster_size (fs_boot fs)) (snd f)))"
  using data_attributes_yields [OF safe_volumeD(1) [OF assms(1)] assms(2)] .

lemma runs_by_record_yields:
  assumes "safe_volume N H good fs"
  shows "yields (runs_by_record N H lz fs n strm) (\<lambda>_. True)"
  unfolding runs_by_record_def
  apply (rule yields_bind [OF read_record_ok [OF assms]])
  apply (rule yields_bind [OF gather_records_yields [OF assms]], assumption)
  apply (rule yields_lift_bind [OF data_attributes_safe [OF assms]], assumption)
  by (auto simp: concat_runlists_no_panic intro!: yields_lift res_yieldsI)

lemma data_tail_yields:
  assumes safe: "safe_volume N H good fs" and recs: "list_all (rec_ok N fs) records"
  shows "yields (data_tail N H lz fs n strm cap records) (\<lambda>_. True)"
proof -
  note D = safe_volumeD [OF safe]
  have resident: "yields (case last (filter (\<lambda>f. is_resident (snd f)) found) of (r, a) \<Rightarrow>
      io_bind (\<lambda>rd. read_attribute_value N H lz rd r a (cluster_size (fs_boot fs))) (\<lambda>v.
      io_lift (Ok (if length v > unat cap then take (unat cap) v else v)))) (\<lambda>_. True)"
    if p: "list_all (\<lambda>f. plausible_unit N (cluster_size (fs_boot fs)) (snd f)) found"
      and ne: "filter (\<lambda>f. is_resident (snd f)) found \<noteq> []" for found
  proof -
    have "plausible_unit N (cluster_size (fs_boot fs)) (snd (last (filter (\<lambda>f. is_resident (snd f)) found)))"
      using last_in_set [OF ne] p by (auto simp: list_all_iff)
    then show ?thesis
      by (auto split: prod.split intro!: yields_bind [OF read_attribute_value_yields [OF _ D(2)]])
  qed
  have plain: "yields (io_bind (io_lift (concat_runlists fr)) (\<lambda>runs rd.
      read_nonresident_capped N H lz rd runs (cluster_size (fs_boot fs)) sz (snd (hd fr)) cap)) (\<lambda>_. True)"
    if "plausible_unit N (cluster_size (fs_boot fs)) (snd (hd fr))" for fr sz
    by (rule yields_lift_bind [where P = "\<lambda>_. True"])
       (auto simp: concat_runlists_no_panic intro!: res_yieldsI read_nonresident_yields [OF that D(2)])
  have frag: "plausible_unit N (cluster_size (fs_boot fs)) (snd (hd (sort_key frag_vcn (filter Q found))))"
    if p: "list_all (\<lambda>f. plausible_unit N (cluster_size (fs_boot fs)) (snd f)) found"
      and ne: "filter Q found \<noteq> []" for found Q
  proof -
    have "sort_key frag_vcn (filter Q found) \<noteq> []"
      using ne by (metis set_empty set_sort)
    then show ?thesis
      using p list.set_sel(1) by (fastforce simp: list_all_iff)
  qed
  show ?thesis
    unfolding data_tail_def Let_def
    apply (rule yields_lift_bind [OF data_attributes_safe [OF safe recs]])
    subgoal for found
      using resident [of found] plain [OF frag [of found "\<lambda>f. \<not> is_resident (snd f)"]] by auto
    done
qed

lemma read_data_by_record_yields:
  assumes "safe_volume N H good fs"
  shows "yields (read_data_by_record N H lz fs n strm cap) (\<lambda>_. True)"
  unfolding read_data_by_record_tail
  by (intro yields_bind [OF read_record_ok [OF assms]] yields_bind [OF gather_records_yields [OF assms]]
      data_tail_yields [OF assms])

lemma read_data_stream_yields:
  assumes "safe_volume N H good fs"
  shows "yields (read_data_stream N H lz fs path strm cap) (\<lambda>_. True)"
  unfolding read_data_stream_def resolve_path_def
  by (intro yields_bind [OF resolve_from_yields [OF assms]] read_data_by_record_yields [OF assms])

section \<open>Opening\<close>

lemma bootstrap_loop_yields:
  assumes "attr_in_header N" "unat (mft_record_size b) < 2 ^ 63"
  shows "yields (bootstrap_loop N H b runs exts seen frags) (\<lambda>_. True)"
proof (induction exts arbitrary: seen frags)
  case (Cons x exts)
  obtain v rn where x: "x = (v, rn)"
    by (cases x)
  have parse: "yields (io_bind (io_lift (fixup N raw ss)) (\<lambda>ext.
      io_bind (io_lift (record_attributes N ext)) (\<lambda>attrs.
      io_bind (io_lift (ext_fragments N ext attrs)) (\<lambda>fs.
      bootstrap_loop N H b runs exts (rn # seen) (frags @ fs))))) (\<lambda>_. True)"
    if "length raw = unat (mft_record_size b)" for raw ss
  proof (rule yields_lift_bind [OF fixup_yields])
    fix ext :: bytes
    assume "length ext = length raw"
    then have "record_attributes N ext \<noteq> Panic"
      using that assms by (intro record_attributes_total) simp_all
    then show "yields (io_bind (io_lift (record_attributes N ext)) (\<lambda>attrs.
      io_bind (io_lift (ext_fragments N ext attrs)) (\<lambda>fs.
      bootstrap_loop N H b runs exts (rn # seen) (frags @ fs)))) (\<lambda>_. True)"
      using ext_fragments_no_panic [of N ext]
      by (intro yields_lift_bind [where P = "\<lambda>_. True"] Cons) (auto intro!: res_yieldsI)
  qed
  show ?case
    unfolding x bootstrap_loop.simps
    using Cons by (auto intro!: yields_lift_bind [where P = "\<lambda>_. True"] yields_bind [OF read_virtual_yields] parse)
qed simp

lemma bootstrap_mft_runs_yields:
  assumes N: "attr_in_header N" and b: "geometry_ok b"
    and rec0: "length rec0 = unat (mft_record_size b)" "sound_record N (cluster_size b) rec0"
  shows "yields (bootstrap_mft_runs N H lz rec0 b) (\<lambda>_. True)"
proof -
  have len: "unat (mft_record_size b) < 2 ^ 63" and cs: "2 \<le> unat (cluster_size b)"
    using b cluster_size_bounds(1) [OF b] by (auto simp: geometry_ok_def record_size_ok_def)
  have "record_attributes N rec0 \<noteq> Panic"
    using record_attributes_total [OF N] rec0(1) len by simp
  then have attrs: "res_yields (record_attributes N rec0) (list_all (plausible_unit N (cluster_size b)))"
    and runs: "mft_data_runs N rec0 \<noteq> Panic"
    using rec0(2) mft_data_runs_loop_no_panic [of N rec0]
    by (auto simp: sound_record_def mft_data_runs_def record_attributes_def and_then_Panic_iff intro!: res_yieldsI)
  have lst: "yields (io_bind (\<lambda>rd. read_attribute_value N H lz rd rec0 al (cluster_size b)) (\<lambda>content.
      io_bind (io_lift (attribute_list_parse content)) (\<lambda>entries.
      io_bind (bootstrap_loop N H b r (f entries) [] []) (\<lambda>frags. io_lift (Ok (g frags)))))) (\<lambda>_. True)"
    if "plausible_unit N (cluster_size b) al" for al r f and g :: "_ \<Rightarrow> run list"
    using attribute_list_parse_no_panic
    by (intro yields_bind [OF read_attribute_value_yields [OF that cs]] yields_lift_bind [where P = "\<lambda>_. True"]
        yields_bind [OF bootstrap_loop_yields [OF N len]]) (auto intro!: res_yieldsI)
  show ?thesis
    unfolding bootstrap_mft_runs_def Let_def
    apply (rule yields_lift_bind [where P = "\<lambda>_. True"])
     apply (rule res_yieldsI [OF runs], simp)
    apply (rule yields_lift_bind [OF attrs])
    subgoal for runs attrs
      using lst find_list_all [of "plausible_unit N (cluster_size b)" attrs] by (auto split: option.splits)
    done
qed

lemma open_fs_yields:
  assumes "safe_boot N H good"
  shows "yields (open_fs N H lz) (\<lambda>fs. geometry_ok (fs_boot fs))"
  unfolding open_fs_def
proof (rule yields_bind [OF yields_and [OF seek_read_yields, where Q = "\<lambda>bs. \<exists>rd. good rd \<and> fst (seek_read H rd 0 512) = Ok bs"]])
  fix sector :: bytes
  assume s: "length sector = 512 \<and> (\<exists>rd. good rd \<and> fst (seek_read H rd 0 512) = Ok sector)"
  have p: "res_yields (boot_parse N sector) (\<lambda>b. geometry_ok b \<and> boot_parse N sector = Ok b)"
    using assms boot_parse_no_panic [of N sector]
    by (intro res_yieldsI) (auto simp: safe_boot_def intro: boot_parse_geometry)
  have "yields (io_bind (\<lambda>rd. seek_read H rd (mft_byte_offset b) (unat (mft_record_size b))) (\<lambda>raw.
      io_bind (io_lift (fixup N raw (unat (bytes_per_sector b)))) (\<lambda>rec0.
      io_bind (bootstrap_mft_runs N H lz rec0 b) (\<lambda>runs.
      io_lift (Ok \<lparr>fs_boot = b, fs_mft_runs = runs\<rparr>))))) (\<lambda>fs. geometry_ok (fs_boot fs))"
    if b: "geometry_ok b \<and> boot_parse N sector = Ok b" for b
  proof (rule yields_bind [OF yields_and [OF seek_read_yields,
        where Q = "\<lambda>raw. \<exists>rd. good rd \<and> fst (seek_read H rd (mft_byte_offset b) (unat (mft_record_size b))) = Ok raw"]])
    fix raw :: bytes
    assume r: "length raw = unat (mft_record_size b) \<and>
      (\<exists>rd. good rd \<and> fst (seek_read H rd (mft_byte_offset b) (unat (mft_record_size b))) = Ok raw)"
    then have "res_yields (fixup N raw (unat (bytes_per_sector b)))
        (\<lambda>rec0. length rec0 = unat (mft_record_size b) \<and> sound_record N (cluster_size b) rec0)"
      using assms s b by (intro res_yieldsI) (auto simp: safe_boot_def dest: fixup_length)
    then show "yields (io_bind (io_lift (fixup N raw (unat (bytes_per_sector b)))) (\<lambda>rec0.
      io_bind (bootstrap_mft_runs N H lz rec0 b) (\<lambda>runs.
      io_lift (Ok \<lparr>fs_boot = b, fs_mft_runs = runs\<rparr>)))) (\<lambda>fs. geometry_ok (fs_boot fs))"
      using assms b
      by (elim yields_lift_bind) (auto simp: safe_boot_def intro!: yields_bind [OF bootstrap_mft_runs_yields])
  qed blast
  with p show "yields (io_bind (io_lift (boot_parse N sector)) (\<lambda>b.
      io_bind (\<lambda>rd. seek_read H rd (mft_byte_offset b) (unat (mft_record_size b))) (\<lambda>raw.
      io_bind (io_lift (fixup N raw (unat (bytes_per_sector b)))) (\<lambda>rec0.
      io_bind (bootstrap_mft_runs N H lz rec0 b) (\<lambda>runs.
      io_lift (Ok \<lparr>fs_boot = b, fs_mft_runs = runs\<rparr>)))))) (\<lambda>fs. geometry_ok (fs_boot fs))"
    by (rule yields_lift_bind)
qed blast

end

section \<open>A concrete volume\<close>

lemma lost_records:
  assumes "cursor_good c" "cur_bytes c = cur_bytes lost_disk"
    "fst (read_record ntfs_layout cursor_host lost_fs n c) = Ok rec"
  shows "rec = lost_fixed"
proof -
  obtain c' where c: "(unat n * 512 + 512 \<le> 1024 \<longrightarrow> read_record ntfs_layout cursor_host lost_fs n c =
        (fixup ntfs_layout (take 512 (drop (unat n * 512) (lost_record @ replicate 512 9))) 512, c')) \<and>
     (1024 < unat n * 512 + 512 \<longrightarrow> (\<exists>m. read_record ntfs_layout cursor_host lost_fs n c = (Err (BadRunlist m), c')))"
    using disk_cursor.read_record_slice [of c lost_fs n ntfs_layout] assms(1,2) lost_geometry(6)
    by (auto simp: Let_def lost_geometry length_lost)
  consider "unat n = 0" | "unat n = 1" | "2 \<le> unat n"
    by linarith
  then show ?thesis
  proof cases
    case 1
    with c assms(3) show ?thesis
      by (simp add: lost_fixup length_lost)
  next
    case 2
    have "fixup ntfs_layout (replicate 512 9) 512 \<noteq> Ok rec"
      by (simp add: fixup_def apply_fixup_def HEADER_LEN_def layout_defs le_u16_def get_range_def from_le_bytes_def
          usize_checked_add_def usize_checked_mul_def fixup_sector_def)
    with 2 c assms(3) show ?thesis
      by (simp add: length_lost)
  next
    case 3
    then have "1024 < unat n * 512 + 512"
      by linarith
    with c assms(3) show ?thesis
      by auto
  qed
qed

lemma lost_safe: "safe_volume ntfs_layout cursor_host (\<lambda>c. cursor_good c \<and> cur_bytes c = cur_bytes lost_disk) lost_fs"
proof -
  have "\<not> is_compressed ntfs_layout a" if "a \<in> {lost_name_attr, lost_data_attr, lost_ads_attr}" for a
    using that by (auto simp: is_compressed_def lost_attr_defs)
  then have "sound_record ntfs_layout (cluster_size (fs_boot lost_fs)) lost_fixed"
    by (simp add: sound_record_def lost_attributes plausible_unit_def)
  moreover have "geometry_ok (fs_boot lost_fs)"
  proof -
    have "\<exists>k. 8 \<le> k \<and> k \<le> 12 \<and> (512::nat) = 2 ^ k" "\<exists>j < 8. (1::nat) = 2 ^ j"
      by (auto intro: exI [of _ 9] exI [of _ 0])
    then show ?thesis
      by (simp add: geometry_ok_def record_size_ok_def lost_fs_def)
  qed
  ultimately show ?thesis
    using lost_records by (auto simp: safe_volume_def documented_attr)
qed

section \<open>Properties\<close>

text \<open>
  Claim C12. Whatever the records, directories, run lists and streams of a volume hold, and
  whether the source answers or fails in the middle, no operation of the reader panics, as long
  as no record carries an absurd compression unit: reading a record, listing a directory,
  resolving a path, reading a stream by record or by path and asking for its runs all end in a
  value or in an error.
\<close>

theorem reader_never_panics:
  assumes "drive H good" "safe_volume N H good fs" "good rd"
  shows "fst (read_record N H fs n rd) \<noteq> Panic \<and>
    (\<forall>rec rd'. read_record N H fs n rd = (Ok rec, rd') \<longrightarrow> fst (directory_entries N H lz fs rec rd') \<noteq> Panic) \<and>
    fst (resolve_path N H lz fs path rd) \<noteq> Panic \<and>
    fst (read_data_by_record N H lz fs n strm cap rd) \<noteq> Panic \<and>
    fst (read_data_stream N H lz fs path strm cap rd) \<noteq> Panic \<and>
    fst (runs_by_record N H lz fs n strm rd) \<noteq> Panic"
proof -
  note D = drive.yields_no_panic [OF assms(1) _ assms(3)]
  have "fst (directory_entries N H lz fs rec rd') \<noteq> Panic" if "read_record N H fs n rd = (Ok rec, rd')" for rec rd'
    using drive.yieldsD [OF assms(1) drive.read_record_ok [OF assms(1,2)] assms(3) that]
      drive.yields_no_panic [OF assms(1) drive.directory_entries_yields [OF assms(1,2)]] by simp
  then show ?thesis
    unfolding resolve_path_def
    using D [OF drive.read_record_ok [OF assms(1,2)]] D [OF drive.resolve_from_yields [OF assms(1,2)]]
      D [OF drive.read_data_by_record_yields [OF assms(1,2)]] D [OF drive.read_data_stream_yields [OF assms(1,2)]]
      D [OF drive.runs_by_record_yields [OF assms(1,2)]] by blast
qed

theorem reader_never_panics_witness:
  "\<exists>rec. fst (read_record ntfs_layout cursor_host lost_fs 0 lost_disk) = Ok rec \<and>
    fst (read_data_stream ntfs_layout cursor_host (\<lambda>_. None) lost_fs [47, 97] None 4 lost_disk) \<noteq> Panic"
  using reader_never_panics [OF fixed_cursor.drive_axioms lost_safe, of lost_disk 0 "\<lambda>_. None" "[47, 97]" None 4]
    lost_geometry(2) lost_read_record by auto

lemma checked_shl_one_cases:
  "checked_shl_one n = (if n < 64 then Some (2 ^ n) else None)"
  by (simp add: checked_shl_one_def push_bit_eq_mult)

text \<open>
  Claim C14. The exception is real. Let a compressed attribute claim \<open>2 ^ 63\<close> bytes or more for its
  first run within its first compression unit. Over any source whose seek to that run succeeds, reading
  the attribute, be it for a value of one byte, panics with the source standing where the seek left it,
  so no byte has been read: the sources size the buffer of a unit by what the record claims. Only a
  unit of \<open>2 ^ 64\<close> bytes or more is refused with an error, and then without touching the source.
\<close>

theorem absurd_unit_panics:
  assumes comp: "is_compressed N a" "compression_unit a \<noteq> 0"
    and r: "lcn r = Some l" "unat l * unat cs < 2 ^ 64"
      "2 ^ 63 \<le> min (2 ^ unat (compression_unit a)) (unat (run_length r)) * unat cs"
    and sk: "io_seek H rd (SeekStart (l * cs)) = (Ok p, rd')"
    and sz: "0 < rsize" "rsize \<le> MAX_VALUE_BYTES" "0 < cap"
  shows "if 2 ^ unat (compression_unit a) * unat cs < 2 ^ 64
    then read_nonresident_capped N H lz rd (r # rs) cs rsize a cap = (Panic, rd')
    else \<exists>e. read_nonresident_capped N H lz rd (r # rs) cs rsize a cap = (Err e, rd)"
proof -
  define n where "n = unat (compression_unit a)"
  define uc :: u64 where "uc = 2 ^ n"
  have start: "read_nonresident_capped N H lz rd (r # rs) cs rsize a cap =
      (if n < 64 then read_compressed_runs_capped H lz rd (r # rs) cs rsize uc cap
       else (Err (BadAttribute (attr_offset a) ''implausible compression unit''), rd))"
    using comp by (simp add: read_nonresident_capped_def Let_def checked_shl_one_cases n_def uc_def)
  have cs: "0 < unat cs"
    using r(3) by (cases "unat cs = 0") auto
  have uc: "unat uc = 2 ^ n" if "n < 64"
    using that by (simp add: uc_def unat_2p)
  show ?thesis
  proof (cases "2 ^ n * unat cs < (2::nat) ^ 64")
    case True
    have "(2::nat) ^ n * 1 \<le> 2 ^ n * unat cs"
      using cs by (intro mult_le_mono2) simp
    then have "(2::nat) ^ n < 2 ^ 64"
      using True by linarith
    then have lt: "n < 64"
      by (rule power_less_imp_less_exp [rotated]) simp
    have ucs: "checked_mul uc cs = Some (uc * cs)"
      using True uc [OF lt] by (simp add: checked_mul_def)
    define tk where "tk = min uc (run_length r)"
    have tk: "unat tk = min (2 ^ n) (unat (run_length r))"
      using uc [OF lt] by (simp add: tk_def unat_min)
    have "unat tk * unat cs \<le> 2 ^ n * unat cs"
      unfolding tk by (intro mult_le_mono1) simp
    then have "unat tk * unat cs < 2 ^ 64"
      using True by (rule le_less_trans)
    then have big: "unat (tk * cs) = unat tk * unat cs"
      by (simp add: unat_word_ariths)
    have "seek_read_vec H rd (l * cs) 0 (unat (tk * cs)) = (Panic, rd')"
      using sk r(3) tk big by (simp add: seek_read_vec_def n_def)
    moreover have "0 < uc"
      using uc [OF lt] by (simp add: word_less_nat_alt)
    moreover have "checked_mul l cs = Some (l * cs)"
      using r(2) by (simp add: checked_mul_def)
    ultimately have "gather_unit H rd cs uc (map (\<lambda>r. (lcn r, run_length r)) (r # rs))
        \<lparr>real_bytes = [], real_clusters = 0, got = 0\<rparr> = (Panic, rd')"
      using r(1) by (simp add: gather_step_def Let_def tk_def)
    moreover have "0 < unat (min rsize cap)"
      using sz by (simp add: unat_min word_less_nat_alt)
    ultimately have "compressed_loop H lz rd cs uc (uc * cs) (unat (min rsize cap))
        (map (\<lambda>r. (lcn r, run_length r)) (r # rs)) [] = (Panic, rd')"
      by (subst compressed_loop.simps) simp
    then have "read_compressed_runs_capped H lz rd (r # rs) cs rsize uc cap = (Panic, rd')"
      unfolding read_compressed_runs_capped_def Let_def using sz(2) by (simp add: ucs not_less)
    then show ?thesis
      using True lt unfolding start n_def by simp
  next
    case False
    have "checked_mul uc cs = None" if "n < 64"
      using False uc [OF that] by (simp add: checked_mul_def)
    then have "\<exists>e. read_nonresident_capped N H lz rd (r # rs) cs rsize a cap = (Err e, rd)"
      using sz(2) unfolding start read_compressed_runs_capped_def Let_def by (simp add: not_less)
    then show ?thesis
      using False unfolding n_def by simp
  qed
qed

text \<open>An attribute with such a unit: \<open>2 ^ 51\<close> clusters of 4096 bytes, for a value of one byte.\<close>

definition bomb_attr :: attribute where
  "bomb_attr = \<lparr>type_code = 0x80, attr_length = 88, non_resident = True, attr_name = None,
     attr_flags = 1, attribute_id = 2, attr_offset = 56, attr_body = NonResident 0 0 72 51 0 1 1\<rparr>"

theorem absurd_unit_panics_witness:
  "read_nonresident_capped ntfs_layout cursor_host (\<lambda>_. None) lost_disk
     [\<lparr>run_length = 2 ^ 51, lcn = Some 0\<rparr>] 4096 1 bomb_attr 1 = (Panic, lost_disk)"
proof -
  have "io_seek cursor_host lost_disk (SeekStart (0 * 4096)) = (Ok 0, lost_disk)"
    by (simp add: cursor_host_def cursor_seek_def lost_disk_def)
  from absurd_unit_panics [OF _ _ _ _ _ this, of ntfs_layout bomb_attr "\<lparr>run_length = 2 ^ 51, lcn = Some 0\<rparr>" 1 1
      "\<lambda>_. None" "[]"]
  show ?thesis
    by (simp add: bomb_attr_def is_compressed_def compression_unit_def layout_defs MAX_VALUE_BYTES_def)
qed

end
