(* ===== verification/Vfs_Safety.thy ===== *)
theory Vfs_Safety
  imports Fs_Safety
begin

text \<open>
  The adapter of \<open>core/src/vfs.rs\<close> over a drive that may fail: what \<open>Fs_Safety\<close> shows of the
  reader, carried through every operation of the adapter.
\<close>

definition vres_yields :: "'a vres \<Rightarrow> ('a \<Rightarrow> bool) \<Rightarrow> bool" where
  "vres_yields r P \<longleftrightarrow> (case r of VOk x \<Rightarrow> P x | VErr _ \<Rightarrow> True | VPanic \<Rightarrow> False)"

lemma vres_yields_simps [simp]:
  "vres_yields (VOk x) P \<longleftrightarrow> P x" "vres_yields (VErr e) P" "\<not> vres_yields VPanic P"
  by (simp_all add: vres_yields_def)

lemma vres_yields_to_vfs [simp]: "vres_yields (to_vfs r) P \<longleftrightarrow> res_yields r P"
  by (cases r) simp_all

lemma res_yields_try [simp]: "res_yields (res_try r) (\<lambda>x. \<forall>y. x = Some y \<longrightarrow> P y) \<longleftrightarrow> res_yields r P"
  by (cases r) simp_all

lemma vres_yields_any: "vres_yields r (\<lambda>_. True) \<longleftrightarrow> r \<noteq> VPanic"
  by (cases r) simp_all

lemma vfs_entry_of_any [simp]: "vfs_entry_of node \<noteq> VPanic"
  by (cases node) (simp_all add: vfs_entry_of_def)

lemma stream_name_any [simp]: "stream_name strm \<noteq> VPanic"
  by (cases strm) (simp_all add: stream_name_def)

lemma links_loop_any: "links_loop N rec attrs \<noteq> VPanic"
  by (induction attrs) (auto simp: v_then_VPanic_iff split: option.splits)

lemma copy_window_any: "copy_window data start buf \<noteq> Panic"
  by (auto simp: copy_window_def Let_def res_inversions)

lemma deleted_of_any: "record_attributes N rec \<noteq> Panic \<Longrightarrow> deleted_of N entry rec \<noteq> VPanic"
  by (auto simp: deleted_of_def v_then_VPanic_iff build_meta_no_panic vfs_best_file_name_no_panic
      split: res.splits option.splits vres.splits)

context drive
begin

definition vyields :: "('r, 'a) vio \<Rightarrow> ('a \<Rightarrow> bool) \<Rightarrow> bool" where
  "vyields m P \<longleftrightarrow> (\<forall>rd. good rd \<longrightarrow> good (snd (m rd)) \<and> vres_yields (fst (m rd)) P)"

lemma vyields_lift: "vres_yields m P \<Longrightarrow> vyields (v_lift m) P"
  by (simp add: vyields_def)

lemma vyields_io: "yields m P \<Longrightarrow> vyields (v_io m) P"
  unfolding yields_def vyields_def v_io_def by (simp add: case_prod_beta)

lemma yields_try: "yields m P \<Longrightarrow> yields (io_try m) (\<lambda>x. \<forall>y. x = Some y \<longrightarrow> P y)"
  unfolding yields_def io_try_def by (simp add: case_prod_beta)

lemma vyields_bind:
  assumes "vyields m P" "\<And>x. P x \<Longrightarrow> vyields (f x) Q"
  shows "vyields (v_bind m f) Q"
  unfolding vyields_def
proof (intro allI impI)
  fix rd
  assume g: "good rd"
  obtain x rd1 where m: "m rd = (x, rd1)"
    by (cases "m rd")
  have d: "good rd1" "vres_yields x P"
    using assms(1) g m unfolding vyields_def by (metis fst_conv snd_conv)+
  show "good (snd (v_bind m f rd)) \<and> vres_yields (fst (v_bind m f rd)) Q"
    using d m assms(2) by (cases x) (simp_all add: v_bind_def vyields_def)
qed

lemma vyields_lift_bind:
  "vres_yields m P \<Longrightarrow> (\<And>x. P x \<Longrightarrow> vyields (f x) Q) \<Longrightarrow> vyields (v_bind (v_lift m) f) Q"
  by (rule vyields_bind [OF vyields_lift])

lemmas vyields_any = vyields_lift [where P = "\<lambda>_. True", unfolded vres_yields_any]
  vyields_lift_bind [where P = "\<lambda>_. True", unfolded vres_yields_any]

lemma vfs_root_yields: "yields (vfs_root N H fs) (\<lambda>_. True)"
  unfolding vfs_root_def by (rule yields_bind [OF yields_try [OF read_record_yields]]) simp

lemma attributes_try_yields:
  assumes "safe_volume N H good fs" "rec_ok N fs rec" "\<And>x. f x \<noteq> Panic"
  shows "yields (io_lift (and_then (res_try (record_attributes N rec)) f)) (\<lambda>_. True)"
  using record_attributes_yields [OF safe_volumeD(1) [OF assms(1)] assms(2)] assms(3)
  by (cases "record_attributes N rec") (auto intro!: yields_lift res_yieldsI)

lemma volume_label_yields:
  assumes "safe_volume N H good fs"
  shows "yields (volume_label N H fs) (\<lambda>_. True)"
  unfolding volume_label_def
  by (rule yields_bind [OF yields_try [OF read_record_ok [OF assms]]])
     (auto split: option.split option.split_asm intro!: attributes_try_yields [OF assms])

lemma special_kind_of_record_yields:
  assumes "safe_volume N H good fs"
  shows "yields (special_kind_of_record N H fs n) (\<lambda>_. True)"
  unfolding special_kind_of_record_def
  by (rule yields_bind [OF yields_try [OF read_record_ok [OF assms]]])
     (auto split: option.split option.split_asm intro!: attributes_try_yields [OF assms])

lemma dir_loop_yields:
  assumes "safe_volume N H good fs"
  shows "vyields (dir_loop N H fs es) (\<lambda>_. True)"
  by (induction es)
     (auto simp del: v_lift_simps split: option.split
       intro!: vyields_any vyields_bind [OF vyields_io [OF special_kind_of_record_yields [OF assms]]]
         vyields_bind [where P = "\<lambda>_. True"])

lemma dir_records_yields:
  assumes "safe_volume N H good fs"
  shows "vyields (dir_records N H lz fs dir) (\<lambda>_. True)"
  unfolding dir_records_def
  by (auto intro!: vyields_any vyields_bind [OF vyields_io [OF read_record_ok [OF assms]]]
      vyields_io directory_entries_yields [OF assms])

lemma node_attributes_yields:
  assumes "safe_volume N H good fs"
  shows "vyields (node_attributes N H fs entry) (\<lambda>_. True)"
  unfolding node_attributes_def
  by (rule vyields_bind [OF vyields_io [OF read_record_ok [OF assms]]])
     (auto intro!: vyields_lift vyields_lift_bind record_attributes_yields safe_volumeD(1) [OF assms])

lemma rec_ok_attributes: "safe_volume N H good fs \<Longrightarrow> rec_ok N fs rec \<Longrightarrow> record_attributes N rec \<noteq> Panic"
  using record_attributes_yields [OF safe_volumeD(1)] by force

lemma mft_record_count_yields:
  assumes "safe_volume N H good fs"
  shows "vyields (mft_record_count N H fs) (\<lambda>_. True)"
  unfolding mft_record_count_def
  by (rule vyields_bind [OF vyields_io [OF read_record_ok [OF assms]]])
     (auto simp: Let_def intro!: vyields_any build_meta_no_panic rec_ok_attributes [OF assms])

lemma deleted_loop_yields:
  assumes "safe_volume N H good fs"
  shows "vyields (deleted_loop N H fs es) (\<lambda>_. True)"
proof (induction es)
  case (Cons e es)
  have "vyields (v_bind (deleted_loop N H fs es) (\<lambda>ds. v_lift (VOk (case d of None \<Rightarrow> ds | Some n \<Rightarrow> n # ds)))) (\<lambda>_. True)"
    for d
    by (rule vyields_bind [OF Cons]) (simp add: vyields_any)
  then show ?case
    unfolding deleted_loop.simps
    by (intro vyields_bind [OF vyields_io [OF yields_try [OF read_record_ok [OF assms]]]] vyields_any)
       (auto split: option.split dest: deleted_of_any [OF rec_ok_attributes [OF assms]])
qed (simp add: vyields_any del: v_lift_simps)

lemma adapter_yields:
  assumes "safe_volume N H good fs"
  shows "vyields (read_dir N H lz fs node) (\<lambda>_. True)"
    "vyields (vfs_lookup N H lz fs node name) (\<lambda>_. True)"
    "vyields (vfs_meta N H fs node) (\<lambda>_. True)"
    "vyields (hardlinks N H fs node) (\<lambda>_. True)"
    "vyields (data_streams N H fs node) (\<lambda>_. True)"
    "vyields (read_link N H fs node m) (\<lambda>_. True)"
    "vyields (extents N H lz fs node strm) (\<lambda>_. True)"
    "vyields (slack N H lz fs node strm) (\<lambda>_. True)"
    "vyields (read_at N H lz fs node strm off buf) (\<lambda>_. True)"
    "vyields (deleted_nodes N H fs) (\<lambda>_. True)"
    "vyields (unallocated N H lz fs) (\<lambda>_. True)"
proof -
  note node = vyields_bind [OF node_attributes_yields [OF assms]]
  note runs = vyields_bind [OF vyields_io [OF runs_by_record_yields [OF assms]]]
  note data = vyields_bind [OF vyields_io [OF read_data_by_record_yields [OF assms]]]
  note steps = vyields_any node runs data
  have name: "vyields (resolve_stream N H fs entry strm) (\<lambda>_. True)" for entry
    unfolding resolve_stream_def
    by (cases strm) (auto simp del: v_lift_simps intro!: steps)
  show "vyields (read_dir N H lz fs node) (\<lambda>_. True)"
    unfolding read_dir_def
    by (intro vyields_bind [OF dir_records_yields [OF assms]] dir_loop_yields [OF assms])
  show "vyields (vfs_lookup N H lz fs node name) (\<lambda>_. True)"
    unfolding vfs_lookup_def
    by (intro vyields_bind [OF dir_records_yields [OF assms]] vyields_any) simp
  show "vyields (vfs_meta N H fs node) (\<lambda>_. True)"
    unfolding vfs_meta_def
    by (intro vyields_any vyields_bind [OF vyields_io [OF read_record_ok [OF assms]]])
       (auto intro!: build_meta_no_panic rec_ok_attributes [OF assms])
  show "vyields (hardlinks N H fs node) (\<lambda>_. True)"
    unfolding hardlinks_def by (auto simp: links_loop_any simp del: v_lift_simps intro!: steps)
  show "vyields (data_streams N H fs node) (\<lambda>_. True)"
    unfolding data_streams_def by (auto simp del: v_lift_simps intro!: steps)
  show "vyields (read_link N H fs node m) (\<lambda>_. True)"
    unfolding read_link_def by (auto simp del: v_lift_simps intro!: steps)
  show "vyields (extents N H lz fs node strm) (\<lambda>_. True)"
    unfolding extents_def by (auto simp del: v_lift_simps intro!: steps)
  show "vyields (slack N H lz fs node strm) (\<lambda>_. True)"
    unfolding slack_def
    by (auto simp del: v_lift_simps intro!: steps split: option.split attribute_body.split)
  show "vyields (read_at N H lz fs node strm off buf) (\<lambda>_. True)"
    unfolding read_at_def Let_def
    by (auto simp: copy_window_any simp del: v_lift_simps intro!: steps vyields_bind [OF name])
  show "vyields (deleted_nodes N H fs) (\<lambda>_. True)"
    unfolding deleted_nodes_def
    by (intro vyields_bind [OF mft_record_count_yields [OF assms]] deleted_loop_yields [OF assms])
  show "vyields (unallocated N H lz fs) (\<lambda>_. True)"
    unfolding unallocated_def Let_def by (auto simp del: v_lift_simps intro!: steps)
qed

end

lemma vyields_no_panic:
  "drive H good \<Longrightarrow> drive.vyields good m P \<Longrightarrow> good rd \<Longrightarrow> fst (m rd) \<noteq> VPanic"
  using drive.vyields_def [of H good m P] by force

text \<open>
  Claim C15. No operation of the adapter panics on a volume, under the conditions of the reader:
  listing, lookup, metadata, hard links, streams, links, extents, slack, positioned reads, deleted
  files and free space, for any identity, stream, offset and buffer.
\<close>

theorem adapter_never_panics:
  assumes d: "drive H good" and safe: "safe_volume N H good fs" and rd: "good rd"
  shows "fst (vfs_root N H fs rd) \<noteq> Panic \<and> fst (volume_label N H fs rd) \<noteq> Panic \<and>
    fst (read_dir N H lz fs node rd) \<noteq> VPanic \<and>
    fst (vfs_lookup N H lz fs node name rd) \<noteq> VPanic \<and>
    fst (vfs_meta N H fs node rd) \<noteq> VPanic \<and>
    fst (hardlinks N H fs node rd) \<noteq> VPanic \<and>
    fst (data_streams N H fs node rd) \<noteq> VPanic \<and>
    fst (read_link N H fs node m rd) \<noteq> VPanic \<and>
    fst (extents N H lz fs node strm rd) \<noteq> VPanic \<and>
    fst (slack N H lz fs node strm rd) \<noteq> VPanic \<and>
    fst (read_at N H lz fs node strm off buf rd) \<noteq> VPanic \<and>
    fst (deleted_nodes N H fs rd) \<noteq> VPanic \<and>
    fst (unallocated N H lz fs rd) \<noteq> VPanic"
proof -
  have io: "fst (vfs_root N H fs rd) \<noteq> Panic" "fst (volume_label N H fs rd) \<noteq> Panic"
    using drive.yields_no_panic [OF d drive.vfs_root_yields [OF d] rd]
      drive.yields_no_panic [OF d drive.volume_label_yields [OF d safe] rd] .
  show ?thesis
    by (intro conjI; (rule io | rule vyields_no_panic [OF d _ rd], rule drive.adapter_yields [OF d safe]))
qed

theorem adapter_never_panics_witness:
  "fst (deleted_nodes ntfs_layout cursor_host lost_fs lost_disk) \<noteq> VPanic"
  using adapter_never_panics [OF fixed_cursor.drive_axioms lost_safe, of lost_disk] lost_geometry(2) by simp

end
