(* ===== verification/Fs_Open.thy ===== *)
theory Fs_Open
  imports Vfs_Safety
begin

text \<open>
  Opening a volume (\<open>NtfsFs::open\<close> of \<open>core/src/fs.rs\<close>): what an opened volume is, and that its
  table starts with the record the boot sector points at.
\<close>

section \<open>What opening reads\<close>

text \<open>A list without its repetitions, each element at its first place.\<close>

definition first_places :: "'a list \<Rightarrow> 'a list" where
  "first_places xs = rev (remdups (rev xs))"

lemma remdups_snoc: "remdups (xs @ [x]) = filter (\<lambda>y. y \<noteq> x) (remdups xs) @ [x]"
  by (induction xs) auto

lemma first_places_Cons: "first_places (x # xs) = x # filter (\<lambda>y. y \<noteq> x) (first_places xs)"
  by (simp add: first_places_def remdups_snoc rev_filter)

text \<open>An entry of the list that continues the unnamed data in another record.\<close>

definition continues_data :: "nomicon \<Rightarrow> attribute_list_entry \<Rightarrow> bool" where
  "continues_data N e \<longleftrightarrow> ale_type_code e = T_DATA (attr_ty N) \<and> ale_name e = None \<and> ale_start_vcn e \<noteq> 0"

text \<open>
  The fragments an extension record adds: it is record \<open>rn\<close> of the table that consists of the runs of
  record 0 alone.
\<close>

definition fragments_of ::
  "nomicon \<Rightarrow> 'r host \<Rightarrow> boot_sector \<Rightarrow> run list \<Rightarrow> 'r \<Rightarrow> u64 \<Rightarrow> (u64 \<times> run list) list \<Rightarrow> bool" where
  "fragments_of N H b own rd rn fs \<longleftrightarrow>
     (\<exists>e attrs. fst (read_record N H \<lparr>fs_boot = b, fs_mft_runs = own\<rparr> rn rd) = Ok e \<and>
        record_attributes N e = Ok attrs \<and> ext_fragments N e attrs = Ok fs)"

text \<open>
  The runs that follow those of record 0: none without an attribute list; otherwise the fragments of
  the records the list names as continuing the unnamed data, each record once, by their first cluster.
\<close>

definition extension_runs ::
  "nomicon \<Rightarrow> 'r host \<Rightarrow> (bytes \<Rightarrow> bytes option) \<Rightarrow> boot_sector \<Rightarrow> bytes \<Rightarrow> run list \<Rightarrow> attribute list \<Rightarrow> 'r \<Rightarrow>
   run list \<Rightarrow> bool" where
  "extension_runs N H lz b rec0 own attrs rd tl_runs \<longleftrightarrow>
     (case find (\<lambda>a. type_code a = T_ATTRIBUTE_LIST (attr_ty N)) attrs of
        None \<Rightarrow> tl_runs = []
      | Some al \<Rightarrow> \<exists>content entries frs.
          fst (read_attribute_value N H lz rd rec0 al (cluster_size b)) = Ok content \<and>
          attribute_list_parse content = Ok entries \<and>
          list_all2 (fragments_of N H b own rd)
            (first_places (map snd (sort_key fst
              (map (\<lambda>e. (ale_start_vcn e, fr_record_number (base_reference e))) (filter (continues_data N) entries))))) frs \<and>
          tl_runs = concat (map snd (sort_key fst (concat frs))))"

context medium
begin

lemma seek_read_Ok:
  assumes "good rd" "seek_read H rd off n = (Ok bs, rd')"
  shows "bs = take n (drop (unat off) (disk rd))" "n = 0 \<or> unat off + n \<le> length (disk rd)" "good rd'" "disk rd' = disk rd"
proof -
  obtain r where "seek_read H rd off n =
      ((if n = 0 \<or> unat off + n \<le> length (disk rd) then Ok (take n (drop (unat off) (disk rd)))
        else Err (Io UnexpectedEof)), r)" "good r" "disk r = disk rd"
    using seek_read_cases [OF assms(1)] by blast
  then show "bs = take n (drop (unat off) (disk rd))" "n = 0 \<or> unat off + n \<le> length (disk rd)" "good rd'"
    "disk rd' = disk rd"
    using assms(2) by (auto split: if_splits)
qed

lemma read_record_bootstrap:
  "read_record N H \<lparr>fs_boot = b, fs_mft_runs = own\<rparr> rn =
     io_bind (io_lift (ok_or (checked_mul rn (mft_record_size b)) (BadRunlist ''record offset overflow''))) (\<lambda>virt.
     io_bind (read_virtual H own (cluster_size b) virt (mft_record_size b)) (\<lambda>raw.
     io_lift (fixup N raw (unat (bytes_per_sector b)))))"
  by (simp add: read_record_def Let_def)

text \<open>Each record of the list is read once, at its first place; its fragments are appended.\<close>

lemma bootstrap_loop_fragments:
  assumes "good rd0" "good rd" "disk rd = disk rd0"
    and "bootstrap_loop N H b own exts seen frags rd = (Ok out, rd')"
  shows "\<exists>frs. list_all2 (fragments_of N H b own rd0) (filter (\<lambda>rn. rn \<notin> set seen) (first_places (map snd exts))) frs \<and>
    out = frags @ concat frs"
  using assms(2-4)
proof (induction exts arbitrary: seen frags rd)
  case (Cons x exts)
  obtain vcn rn where x: "x = (vcn, rn)"
    by fastforce
  have visits: "filter (\<lambda>n. n \<notin> set seen) (first_places (map snd (x # exts))) =
      (if rn \<in> set seen then [] else [rn]) @ filter (\<lambda>n. n \<notin> set (rn # seen)) (first_places (map snd exts))"
    by (auto simp: x first_places_Cons intro: filter_cong)
  show ?case
  proof (cases "rn \<in> set seen")
    case True
    then have "set (rn # seen) = set seen"
      by auto
    then show ?thesis
      using Cons.IH [OF Cons.prems(1,2)] Cons.prems(3) True unfolding visits by (simp add: x)
  next
    case False
    let ?R = "read_record N H \<lparr>fs_boot = b, fs_mft_runs = own\<rparr> rn"
    from False Cons.prems(3) obtain e rd1 attrs fs where
      e: "?R rd = (Ok e, rd1)" "record_attributes N e = Ok attrs" "ext_fragments N e attrs = Ok fs"
      and rest: "bootstrap_loop N H b own exts (rn # seen) (frags @ fs) rd1 = (Ok out, rd')"
      unfolding read_record_bootstrap by (auto simp: x io_bind_Ok)
    have rd1: "good rd1" "disk rd1 = disk rd0"
      using content_onlyE(1,2) [OF read_record_content Cons.prems(1), of N _ rn] Cons.prems(2) e(1) by (metis snd_conv)+
    have "fst (?R rd0) = Ok e"
      using content_onlyE(3) [OF read_record_content assms(1) Cons.prems(1,2), of N _ rn] e(1) by (metis fst_conv)
    then have here: "fragments_of N H b own rd0 rn fs"
      using e(2,3) by (auto simp: fragments_of_def)
    obtain frs where "list_all2 (fragments_of N H b own rd0) (filter (\<lambda>n. n \<notin> set (rn # seen)) (first_places (map snd exts))) frs"
      "out = (frags @ fs) @ concat frs"
      using Cons.IH [OF rd1 rest] by blast
    with here False show ?thesis
      unfolding visits by (intro exI [of _ "fs # frs"]) simp
  qed
qed (simp add: first_places_def)

lemma bootstrap_mft_runs_Ok:
  assumes "good rd0" "good rd" "disk rd = disk rd0" "bootstrap_mft_runs N H lz rec0 b rd = (Ok runs, rd')"
  shows "\<exists>own attrs tl_runs. mft_data_runs N rec0 = Ok own \<and> record_attributes N rec0 = Ok attrs \<and> runs = own @ tl_runs \<and>
    extension_runs N H lz b rec0 own attrs rd0 tl_runs"
proof -
  from assms(4) obtain own attrs where own: "mft_data_runs N rec0 = Ok own" "record_attributes N rec0 = Ok attrs"
    unfolding bootstrap_mft_runs_def by (auto simp: io_bind_Ok)
  show ?thesis
  proof (cases "find (\<lambda>a. type_code a = T_ATTRIBUTE_LIST (attr_ty N)) attrs")
    case None
    then have "runs = own @ []"
      using assms(4) own unfolding bootstrap_mft_runs_def by (auto simp: io_bind_Ok)
    moreover have "extension_runs N H lz b rec0 own attrs rd0 []"
      using None by (simp add: extension_runs_def)
    ultimately show ?thesis
      using own by blast
  next
    case (Some al)
    define exts where "exts entries = sort_key fst (map (\<lambda>e. (ale_start_vcn e, fr_record_number (base_reference e)))
        (filter (continues_data N) entries))" for entries
    from assms(4) obtain content rd1 entries frags where
      c: "read_attribute_value N H lz rd rec0 al (cluster_size b) = (Ok content, rd1)"
        "attribute_list_parse content = Ok entries"
      and l: "bootstrap_loop N H b own (exts entries) [] [] rd1 = (Ok frags, rd')"
      and runs: "runs = own @ concat (map snd (sort_key fst frags))"
      unfolding bootstrap_mft_runs_def Let_def exts_def continues_data_def by (auto simp: io_bind_Ok own Some)
    have rd1: "good rd1" "disk rd1 = disk rd0"
      using content_onlyE(1,2) [OF read_attribute_value_content assms(2), of N lz rec0 al "cluster_size b"] c(1) assms(3) by simp_all
    have "fst (read_attribute_value N H lz rd0 rec0 al (cluster_size b)) = Ok content"
      using content_onlyE(3) [OF read_attribute_value_content assms(1,2,3), of N lz rec0 al "cluster_size b"] c(1) by simp
    moreover obtain frs where "list_all2 (fragments_of N H b own rd0) (first_places (map snd (exts entries))) frs"
      "frags = concat frs"
      using bootstrap_loop_fragments [OF assms(1) rd1 l] by auto
    ultimately have "extension_runs N H lz b rec0 own attrs rd0 (concat (map snd (sort_key fst frags)))"
      using Some c(2) unfolding extension_runs_def exts_def by auto
    then show ?thesis
      using own runs by blast
  qed
qed

text \<open>
  The loop over the extension records reads through the fragment of record 0 alone: it succeeds only
  when every extension record lies inside that fragment, however many fragments came before.
\<close>

lemma bootstrap_loop_first_fragment:
  assumes "good rd" "length (disk rd) < 2 ^ 64" "list_all (run_on_disk (disk rd) (unat (cluster_size b))) own"
    and "allocated_bytes (unat (cluster_size b)) own < 2 ^ 64"
    and "mem_reserve H (unat (mft_record_size b))" "mft_record_size b \<noteq> 0"
    and "bootstrap_loop N H b own exts seen frags rd = (Ok fs, rd')"
  shows "\<forall>(vcn, rn) \<in> set exts. rn \<in> set seen \<or>
    unat rn * unat (mft_record_size b) + unat (mft_record_size b) \<le> allocated_bytes (unat (cluster_size b)) own"
  using assms(1-3,7)
proof (induction exts arbitrary: seen frags rd)
  case (Cons x exts)
  obtain vcn rn where x: "x = (vcn, rn)"
    by fastforce
  show ?case
  proof (cases "rn \<in> set seen")
    case True
    then show ?thesis
      using Cons.IH [OF Cons.prems(1-3)] Cons.prems(4) by (simp add: x)
  next
    case False
    with Cons.prems(4) obtain virt raw rd1 fs' where virt: "checked_mul rn (mft_record_size b) = Some virt"
      and raw: "read_virtual H own (cluster_size b) virt (mft_record_size b) rd = (Ok raw, rd1)"
      and rest: "bootstrap_loop N H b own exts (rn # seen) (frags @ fs') rd1 = (Ok fs, rd')"
      by (auto simp: x io_bind_Ok ok_or_def split: option.splits)
    have v: "unat virt = unat rn * unat (mft_record_size b)"
      using virt by (auto simp: checked_mul_def unat_word_ariths split: if_splits)
    have here: "unat virt + unat (mft_record_size b) \<le> allocated_bytes (unat (cluster_size b)) own"
      and rd1: "good rd1" "disk rd1 = disk rd"
      using read_virtual_slice [OF Cons.prems(1-3) assms(4,5), of virt] raw assms(6) by (auto split: if_splits)
    show ?thesis
      using Cons.IH [OF rd1(1) _ _ rest] Cons.prems(2,3) here rd1(2) by (auto simp: x v)
  qed
qed simp

lemma open_fs_Ok:
  assumes "good rd" "open_fs N H lz rd = (Ok fs, rd')"
  obtains rec0 own attrs tl_runs where
    "512 \<le> length (disk rd)" "boot_parse N (take 512 (disk rd)) = Ok (fs_boot fs)"
    "unat (mft_byte_offset (fs_boot fs)) + unat (mft_record_size (fs_boot fs)) \<le> length (disk rd)"
    "fixup N (take (unat (mft_record_size (fs_boot fs))) (drop (unat (mft_byte_offset (fs_boot fs))) (disk rd)))
       (unat (bytes_per_sector (fs_boot fs))) = Ok rec0"
    "mft_data_runs N rec0 = Ok own" "record_attributes N rec0 = Ok attrs" "fs_mft_runs fs = own @ tl_runs"
    "extension_runs N H lz (fs_boot fs) rec0 own attrs rd tl_runs"
proof -
  from assms(2) obtain sector rd1 b raw rd2 rec0 runs rd3 where
    1: "seek_read H rd 0 512 = (Ok sector, rd1)" and b: "boot_parse N sector = Ok b"
    and 2: "seek_read H rd1 (mft_byte_offset b) (unat (mft_record_size b)) = (Ok raw, rd2)"
    and f: "fixup N raw (unat (bytes_per_sector b)) = Ok rec0"
    and 3: "bootstrap_mft_runs N H lz rec0 b rd2 = (Ok runs, rd3)"
    and fs: "fs = \<lparr>fs_boot = b, fs_mft_runs = runs\<rparr>"
    unfolding open_fs_def by (auto simp: io_bind_Ok)
  note s1 = seek_read_Ok [OF assms(1) 1]
  note s2 = seek_read_Ok [OF s1(3) 2]
  have "unat (mft_record_size b) \<noteq> 0"
    using boot_parse_geometry [OF b] by (auto simp: geometry_ok_def record_size_ok_def)
  then show thesis
    using bootstrap_mft_runs_Ok [OF assms(1) s2(3) _ 3] s1 s2 b f fs by (auto intro: that)
qed

text \<open>The first record of a table whose first run starts where the boot sector says.\<close>

lemma read_record_zero:
  assumes "good rd" "fs_mft_runs fs = r # rs" "lcn r = Some (mft_lcn (fs_boot fs))"
    and size: "unat (mft_record_size (fs_boot fs)) \<le> unat (run_length r) * unat (cluster_size (fs_boot fs))"
      "unat (run_length r) * unat (cluster_size (fs_boot fs)) < 2 ^ 64"
      "unat (mft_lcn (fs_boot fs)) * unat (cluster_size (fs_boot fs)) < 2 ^ 64"
    and mem: "mem_reserve H (unat (mft_record_size (fs_boot fs)))"
    and on: "0 < unat (mft_record_size (fs_boot fs))"
      "unat (mft_byte_offset (fs_boot fs)) + unat (mft_record_size (fs_boot fs)) \<le> length (disk rd)"
  shows "fst (read_record N H fs 0 rd) =
    fixup N (take (unat (mft_record_size (fs_boot fs))) (drop (unat (mft_byte_offset (fs_boot fs))) (disk rd)))
      (unat (bytes_per_sector (fs_boot fs)))"
proof -
  let ?b = "fs_boot fs"
  let ?rs = "mft_record_size ?b" and ?cs = "cluster_size ?b"
  have len: "checked_mul (run_length r) ?cs = Some (run_length r * ?cs)" "unat (run_length r * ?cs) = unat (run_length r) * unat ?cs"
    and off: "checked_mul (mft_lcn ?b) ?cs = Some (mft_lcn ?b * ?cs)" "mft_byte_offset ?b = mft_lcn ?b * ?cs"
    using size(2,3) by (simp_all add: checked_mul_def unat_word_ariths mft_byte_offset_def saturating_mul_def)
  have rs: "min (run_length r * ?cs) ?rs = ?rs" "0 < run_length r * ?cs" "?rs \<noteq> 0"
  proof -
    have "unat ?rs \<le> unat (run_length r * ?cs)"
      using size(1) len(2) by (simp only:)
    then show "min (run_length r * ?cs) ?rs = ?rs" "0 < run_length r * ?cs" "?rs \<noteq> 0"
      using on(1) by (auto simp: min_def word_le_nat_alt word_less_nat_alt word_unat_eq_iff)
  qed
  obtain rd' where sr: "seek_read H rd (mft_lcn ?b * ?cs) (unat ?rs) =
      (Ok (take (unat ?rs) (drop (unat (mft_byte_offset ?b)) (disk rd))), rd')"
    using seek_read_in [OF assms(1), of "mft_byte_offset ?b" "unat ?rs"] on off by auto
  have "virtual_loop H (r # rs) ?cs ?rs 0 0 [] rd =
      (Ok (take (unat ?rs) (drop (unat (mft_byte_offset ?b)) (disk rd)), 0), rd')"
    using sr rs off assms(3)
    by (simp add: len checked_add_def Let_def virtual_part_def io_bind_def virtual_loop_done)
  then have "read_virtual H (fs_mft_runs fs) ?cs 0 ?rs rd =
      (Ok (take (unat ?rs) (drop (unat (mft_byte_offset ?b)) (disk rd))), rd')"
    using mem assms(2) by (simp add: read_virtual_def io_bind_def)
  then show ?thesis
    by (simp add: read_record_def Let_def io_bind_def checked_mul_def)
qed

end

section \<open>A bootable volume\<close>

text \<open>A boot sector of one-sector clusters, and at cluster one a table of that single record.\<close>

definition boot_image :: bytes where
  "boot_image = [0xEB, 0x52, 0x90, 78, 84, 70, 83, 32, 32, 32, 32, 0, 2, 1,
     0, 0, 0, 0, 0, 0, 0, 0, 0, 0, 0, 0, 0, 0, 0, 0, 0, 0, 0, 0, 0, 0, 0, 0, 0, 0,
     2, 0, 0, 0, 0, 0, 0, 0, 1, 0, 0, 0, 0, 0, 0, 0, 1, 0, 0, 0, 0, 0, 0, 0, 1, 0, 0, 0, 1, 0, 0, 0,
     0, 0, 0, 0, 0, 0, 0, 0] @ replicate 432 0"

definition boot_record :: bytes where
  "boot_record = lost_record[217 := 1, 218 := 1]"

definition boot_disk :: cursor where
  "boot_disk = \<lparr>cur_bytes = boot_image @ boot_record, cur_pos = 0\<rparr>"

definition boot_fs :: ntfs_fs where
  "boot_fs = \<lparr>fs_boot = \<lparr>bytes_per_sector = 512, sectors_per_cluster = 1, total_sectors = 2, mft_lcn = 1,
     mftmirr_lcn = 1, mft_record_size = 512, index_record_size = 512, volume_serial = 0\<rparr>,
     fs_mft_runs = [\<lparr>run_length = 1, lcn = Some 1\<rparr>]\<rparr>"

lemma boot_lengths: "length boot_image = 512" "length boot_record = 512"
  by (simp_all add: boot_image_def boot_record_def length_lost)

lemma boot_image_parse: "boot_parse ntfs_layout boot_image = Ok (fs_boot boot_fs)"
  by (simp add: boot_parse_def BOOT_MIN_LEN_def boot_image_def boot_fs_def layout_defs le_read_defs arr_def idx_def
      get_range_def from_le_bytes_def is_power_of_two_def record_size_def MIN_RECORD_SIZE_def MAX_RECORD_SIZE_def
      checked_mul_def Let_def upt_rec cong: and_then_weak_cong)

lemma boot_record_fixup: "fixup ntfs_layout boot_record 512 = Ok (boot_record[510 := 0])"
  by (simp add: fixup_def apply_fixup_def HEADER_LEN_def boot_record_def lost_record_def layout_defs le_u16_def
      get_range_def from_le_bytes_def usize_checked_add_def usize_checked_mul_def fixup_sector_def
      numeral_eq_Suc [of num.One] nth_append list_update_append cong: and_then_weak_cong)

lemma boot_record_attributes:
  "record_attributes ntfs_layout (boot_record[510 := 0]) = Ok [lost_name_attr, lost_data_attr, lost_ads_attr]"
  by (simp add: record_attributes_def header_parse_def HEADER_LEN_def lost_record_def boot_record_def
      lost_name_attr_def lost_data_attr_def lost_ads_attr_def
      parse_attributes_def MAX_ATTRIBUTES_def attributes_loop_numeral parse_one_def parse_attr_name_def
      parse_attr_body_def layout_defs HEADER_MIN_def RESIDENT_MIN_def NONRESIDENT_MIN_def le_read_defs get_range_def
      from_le_bytes_def usize_checked_add_def usize_checked_mul_def idx_def arr_def slice_def
      is_high_def is_low_def cong: and_then_weak_cong)

lemma boot_record_runs:
  "mft_data_runs ntfs_layout (boot_record[510 := 0]) = Ok [\<lparr>run_length = 1, lcn = Some 1\<rparr>]"
proof -
  let ?c = "\<lparr>len_width = 1, off_width = 1, crun = \<lparr>run_length = 1, lcn = Some 1\<rparr>\<rparr>"
  have "encode_runs 0 [?c] = [17, 1, 1, 0]" "encs_ok 0 [?c]"
    by (simp_all add: encode_run_def enc_ok_def run_ok_def lcn_delta_def)
  then have "runlist_decode [17, 1, 1, 0, 0, 0, 0, 0] = Ok [\<lparr>run_length = 1, lcn = Some 1\<rparr>]"
    using decode_loop_encoded [of 0 "[?c]" MAX_RUNS "[]" "[0, 0, 0, 0]"]
    by (simp add: runlist_decode_def MAX_RUNS_def)
  moreover have "get_range (boot_record[510 := 0]) 216 224 = Some [17, 1, 1, 0, 0, 0, 0, 0]"
    by (simp add: get_range_def boot_record_def lost_record_def)
  ultimately have "mft_data_runs_loop ntfs_layout (boot_record[510 := 0]) [lost_name_attr, lost_data_attr, lost_ads_attr] =
      Ok [\<lparr>run_length = 1, lcn = Some 1\<rparr>]"
    by (simp add: lost_attr_defs layout_defs)
  then show ?thesis
    using boot_record_attributes by (auto simp: mft_data_runs_def record_attributes_def and_then_Ok_iff)
qed

lemma boot_disk_facts:
  "cursor_good boot_disk" "cur_bytes boot_disk = boot_image @ boot_record"
  "mft_byte_offset (fs_boot boot_fs) = 512" "mft_record_size (fs_boot boot_fs) = 512"
  "bytes_per_sector (fs_boot boot_fs) = 512" "cluster_size (fs_boot boot_fs) = 512"
  by (simp_all add: boot_disk_def cursor_good_def boot_lengths boot_fs_def mft_byte_offset_def saturating_mul_def
      cluster_size_def)

lemma boot_disk_reads:
  assumes "cursor_good c \<and> cur_bytes c = cur_bytes boot_disk"
  shows "\<exists>c'. seek_read cursor_host c 0 512 = (Ok boot_image, c') \<and> cursor_good c' \<and> cur_bytes c' = cur_bytes boot_disk"
    "\<exists>c'. seek_read cursor_host c 512 512 = (Ok boot_record, c') \<and> cursor_good c' \<and> cur_bytes c' = cur_bytes boot_disk"
  using disk_cursor.seek_read_in [of c 0 512] disk_cursor.seek_read_in [of c 512 512] assms
  by (auto simp: boot_disk_facts boot_lengths)

lemma boot_disk_opens: "\<exists>c. open_fs ntfs_layout cursor_host lz boot_disk = (Ok boot_fs, c)"
proof -
  obtain c1 where c1: "seek_read cursor_host boot_disk 0 512 = (Ok boot_image, c1)" "cursor_good c1 \<and> cur_bytes c1 = cur_bytes boot_disk"
    using boot_disk_reads(1) [of boot_disk] boot_disk_facts(1) by blast
  obtain c2 where c2: "seek_read cursor_host c1 512 512 = (Ok boot_record, c2)"
    using boot_disk_reads(2) [OF c1(2)] by blast
  have "find (\<lambda>a. type_code a = T_ATTRIBUTE_LIST (attr_ty ntfs_layout)) [lost_name_attr, lost_data_attr, lost_ads_attr] = None"
    by (simp add: lost_attr_defs layout_defs)
  then have "bootstrap_mft_runs ntfs_layout cursor_host lz (boot_record[510 := 0]) (fs_boot boot_fs) c2 =
      (Ok (fs_mft_runs boot_fs), c2)"
    by (simp add: bootstrap_mft_runs_def boot_record_runs boot_record_attributes boot_fs_def)
  then show ?thesis
    using c1(1) c2 by (simp add: open_fs_def io_bind_def boot_image_parse boot_disk_facts boot_record_fixup)
qed

lemma boot_disk_safe: "safe_boot ntfs_layout cursor_host (\<lambda>c. cursor_good c \<and> cur_bytes c = cur_bytes boot_disk)"
proof -
  have "\<not> is_compressed ntfs_layout a" if "a \<in> {lost_name_attr, lost_data_attr, lost_ads_attr}" for a
    using that by (auto simp: is_compressed_def lost_attr_defs)
  then have "sound_record ntfs_layout (cluster_size (fs_boot boot_fs)) (boot_record[510 := 0])"
    by (simp add: sound_record_def boot_record_attributes plausible_unit_def)
  then show ?thesis
    unfolding safe_boot_def using documented_attr documented_boot boot_disk_reads
    by (fastforce simp: boot_image_parse boot_disk_facts boot_record_fixup)
qed

section \<open>Properties\<close>

text \<open>The table begins where the boot sector says it does, with a run that holds its first record.\<close>

definition mft_starts :: "ntfs_fs \<Rightarrow> bool" where
  "mft_starts fs \<longleftrightarrow>
     (case fs_mft_runs fs of
        [] \<Rightarrow> False
      | r # _ \<Rightarrow> lcn r = Some (mft_lcn (fs_boot fs)) \<and>
          unat (mft_lcn (fs_boot fs)) * unat (cluster_size (fs_boot fs)) < 2 ^ 64 \<and>
          unat (run_length r) * unat (cluster_size (fs_boot fs)) < 2 ^ 64 \<and>
          unat (mft_record_size (fs_boot fs)) \<le> unat (run_length r) * unat (cluster_size (fs_boot fs)))"

text \<open>
  Claim C13. Over a fault-free source, and provided the record the boot sector points at has no
  compressed attribute with an absurd compression unit, opening a volume does not panic. A volume
  that opened has the geometry its first sector states, within the ranges every later computation
  relies on. Its table has the runs of the unnamed data of that record; behind them, when the record
  has an attribute list, the fragments found in the extension records the list names for the
  unnamed data past its start, each record read once through the record's own runs, in the order of
  their first clusters; and nothing else. When the table's first run starts where the boot sector says
  and holds a record, and there is memory for a record, record zero reads back as that record, from
  wherever the source stands.
\<close>

theorem open_fs_correct:
  assumes m: "medium H good disk at" and g: "good rd"
    and safe: "safe_boot N H (\<lambda>r. good r \<and> disk r = disk rd)"
  shows "fst (open_fs N H lz rd) \<noteq> Panic \<and>
    (\<forall>fs rd'. open_fs N H lz rd = (Ok fs, rd') \<longrightarrow>
      boot_parse N (take 512 (disk rd)) = Ok (fs_boot fs) \<and> geometry_ok (fs_boot fs) \<and>
      (\<exists>rec0 own attrs tl_runs.
        fixup N (take (unat (mft_record_size (fs_boot fs))) (drop (unat (mft_byte_offset (fs_boot fs))) (disk rd)))
          (unat (bytes_per_sector (fs_boot fs))) = Ok rec0 \<and>
        mft_data_runs N rec0 = Ok own \<and> record_attributes N rec0 = Ok attrs \<and> fs_mft_runs fs = own @ tl_runs \<and>
        extension_runs N H lz (fs_boot fs) rec0 own attrs rd tl_runs \<and>
        (mft_starts fs \<and> mem_reserve H (unat (mft_record_size (fs_boot fs))) \<longrightarrow>
          (\<forall>r. good r \<and> disk r = disk rd \<longrightarrow> fst (read_record N H fs 0 r) = Ok rec0))))"
proof (intro conjI allI impI)
  show "fst (open_fs N H lz rd) \<noteq> Panic"
    using drive.yields_no_panic [OF medium_fixed_drive [OF m] drive.open_fs_yields [OF medium_fixed_drive [OF m] safe]] g
    by simp
  fix fs rd'
  assume "open_fs N H lz rd = (Ok fs, rd')"
  then obtain rec0 own attrs tl_runs where
    o: "boot_parse N (take 512 (disk rd)) = Ok (fs_boot fs)"
    "unat (mft_byte_offset (fs_boot fs)) + unat (mft_record_size (fs_boot fs)) \<le> length (disk rd)"
    "fixup N (take (unat (mft_record_size (fs_boot fs))) (drop (unat (mft_byte_offset (fs_boot fs))) (disk rd)))
       (unat (bytes_per_sector (fs_boot fs))) = Ok rec0"
    "mft_data_runs N rec0 = Ok own" "record_attributes N rec0 = Ok attrs" "fs_mft_runs fs = own @ tl_runs"
    "extension_runs N H lz (fs_boot fs) rec0 own attrs rd tl_runs"
    by (rule medium.open_fs_Ok [OF m g]) (rule that; assumption)
  show "boot_parse N (take 512 (disk rd)) = Ok (fs_boot fs)" "geometry_ok (fs_boot fs)"
    using o(1) boot_parse_geometry [OF o(1)] .
  then have pos: "0 < unat (mft_record_size (fs_boot fs))"
    by (auto simp: geometry_ok_def record_size_ok_def)
  have "fst (read_record N H fs 0 r) = Ok rec0"
    if "mft_starts fs \<and> mem_reserve H (unat (mft_record_size (fs_boot fs)))" "good r \<and> disk r = disk rd" for r
    using medium.read_record_zero [OF m, of r fs _ _ N] that pos o(2,3)
    by (cases "fs_mft_runs fs") (auto simp: mft_starts_def)
  with o show "\<exists>rec0 own attrs tl_runs.
        fixup N (take (unat (mft_record_size (fs_boot fs))) (drop (unat (mft_byte_offset (fs_boot fs))) (disk rd)))
          (unat (bytes_per_sector (fs_boot fs))) = Ok rec0 \<and>
        mft_data_runs N rec0 = Ok own \<and> record_attributes N rec0 = Ok attrs \<and> fs_mft_runs fs = own @ tl_runs \<and>
        extension_runs N H lz (fs_boot fs) rec0 own attrs rd tl_runs \<and>
        (mft_starts fs \<and> mem_reserve H (unat (mft_record_size (fs_boot fs))) \<longrightarrow>
          (\<forall>r. good r \<and> disk r = disk rd \<longrightarrow> fst (read_record N H fs 0 r) = Ok rec0))"
    by (intro exI conjI impI allI) (assumption | simp)+
qed

theorem open_fs_correct_witness:
  "\<exists>fs c rec0. open_fs ntfs_layout cursor_host (\<lambda>_. None) boot_disk = (Ok fs, c) \<and> mft_starts fs \<and>
     fst (read_record ntfs_layout cursor_host fs 0 boot_disk) = Ok rec0"
proof -
  obtain c where c: "open_fs ntfs_layout cursor_host (\<lambda>_. None) boot_disk = (Ok boot_fs, c)"
    using boot_disk_opens by blast
  have "mft_starts boot_fs" "mem_reserve cursor_host n" for n
    by (simp_all add: mft_starts_def boot_disk_facts lost_geometry(10)) (simp_all add: boot_fs_def cluster_size_def)
  then show ?thesis
    using open_fs_correct [OF disk_cursor.medium_axioms boot_disk_facts(1) boot_disk_safe, of "\<lambda>_. None"] c
      boot_disk_facts(1) by blast
qed

end
