(* ===== verification/Usn_Record.thy ===== *)
theory Usn_Record
  imports File_Name
begin

text \<open>
  \<open>core/src/usn/record.rs\<close>: the change-journal records and the bulk parser of
  \<open>$UsnJrnl:$J\<close>. The \<open>chrono\<close> crate is the parameter \<open>chrono\<close> (its \<open>from_timestamp\<close> and the
  default value), the type of timestamps a type variable. The readers of this file index
  the slice directly, so here they can panic. The locale \<open>record_decoder\<close> is the contract
  between the two record parsers and the loops that call them.
\<close>

section \<open>Records\<close>

definition USN_V2_MIN_SIZE :: nat where
  "USN_V2_MIN_SIZE = 0x3C"

definition USN_V3_MIN_SIZE :: nat where
  "USN_V3_MIN_SIZE = 0x4C"

definition USN_V4_MIN_SIZE :: nat where
  "USN_V4_MIN_SIZE = 0x38"

definition USN_MAX_RECORD_SIZE :: nat where
  "USN_MAX_RECORD_SIZE = 65536"

lemmas usn_sizes = USN_V2_MIN_SIZE_def USN_V3_MIN_SIZE_def USN_V4_MIN_SIZE_def USN_MAX_RECORD_SIZE_def

record 'dt chrono =
  from_timestamp :: "int \<Rightarrow> int \<Rightarrow> 'dt option"
  dt_default :: 'dt

record 'dt usn_record =
  mft_entry :: u64
  mft_sequence :: u16
  parent_mft_entry :: u64
  parent_mft_sequence :: u16
  usn :: int
  timestamp :: 'dt
  reason :: u32
  filename :: ustring
  file_attributes :: u32
  source_info :: u32
  security_id :: u32
  major_version :: u16

section \<open>Reads\<close>

definition read_u16_le :: "bytes \<Rightarrow> nat \<Rightarrow> u16 res" where
  "read_u16_le data off = and_then (slice data off (off + 2)) (\<lambda>b. Ok (from_le_bytes b))"

definition read_u32_le :: "bytes \<Rightarrow> nat \<Rightarrow> u32 res" where
  "read_u32_le data off = and_then (slice data off (off + 4)) (\<lambda>b. Ok (from_le_bytes b))"

definition read_u64_le :: "bytes \<Rightarrow> nat \<Rightarrow> u64 res" where
  "read_u64_le data off = and_then (slice data off (off + 8)) (\<lambda>b. Ok (from_le_bytes b))"

definition read_i64_le :: "bytes \<Rightarrow> nat \<Rightarrow> int res" where
  "read_i64_le data off =
     and_then (slice data off (off + 8)) (\<lambda>b. Ok (sint (from_le_bytes b :: u64)))"

definition read_u128_le :: "bytes \<Rightarrow> nat \<Rightarrow> u128 res" where
  "read_u128_le data off = and_then (slice data off (off + 16)) (\<lambda>b. Ok (from_le_bytes b))"

definition filetime_to_datetime :: "'dt chrono \<Rightarrow> int \<Rightarrow> 'dt option" where
  "filetime_to_datetime C ft =
     (if ft \<le> 0 then None
      else let unix_100ns = ft - 116444736000000000 in
      if unix_100ns < 0 then None
      else from_timestamp C (unix_100ns div 10000000) (unix_100ns mod 10000000 * 100))"

definition usn_timestamp :: "'dt chrono \<Rightarrow> int \<Rightarrow> 'dt" where
  "usn_timestamp C raw =
     (case filetime_to_datetime C raw of
        Some t \<Rightarrow> t
      | None \<Rightarrow> (case from_timestamp C 0 0 of Some t \<Rightarrow> t | None \<Rightarrow> dt_default C))"

definition usn_filename :: "bytes \<Rightarrow> nat \<Rightarrow> nat \<Rightarrow> ustring res" where
  "usn_filename data off len =
     (if off + len \<le> length data \<and> len \<ge> 2
      then and_then (slice data off (off + len)) (\<lambda>b. Ok (decode_utf16_lossy (u16_units b)))
      else Ok [])"

section \<open>The two record parsers\<close>

definition parse_usn_record_v2 :: "'dt chrono \<Rightarrow> bytes \<Rightarrow> 'dt usn_record res" where
  "parse_usn_record_v2 C data =
     (if length data < USN_V2_MIN_SIZE
      then Err (Usn (lit ''Data too short for USN_RECORD_V2: '' @ dec (length data) @ lit '' < '' @
             dec USN_V2_MIN_SIZE))
      else and_then (read_u32_le data 0x00) (\<lambda>rl. let record_len = unat rl in
      if \<not> (USN_V2_MIN_SIZE \<le> record_len \<and> record_len \<le> USN_MAX_RECORD_SIZE)
      then Err (Usn (lit ''Invalid V2 record length: '' @ dec record_len))
      else if record_len > length data
      then Err (Usn (lit ''V2 record length '' @ dec record_len @ lit '' exceeds available data '' @
             dec (length data)))
      else and_then (read_u64_le data 0x08) (\<lambda>file_ref.
      and_then (read_u64_le data 0x10) (\<lambda>parent_ref.
      and_then (read_i64_le data 0x18) (\<lambda>u.
      and_then (read_i64_le data 0x20) (\<lambda>ts.
      and_then (read_u32_le data 0x28) (\<lambda>rs.
      and_then (read_u32_le data 0x2C) (\<lambda>si.
      and_then (read_u32_le data 0x30) (\<lambda>sid.
      and_then (read_u32_le data 0x34) (\<lambda>fa.
      and_then (read_u16_le data 0x38) (\<lambda>fl.
      and_then (read_u16_le data 0x3A) (\<lambda>fo.
      and_then (usn_filename data (unat fo) (unat fl)) (\<lambda>fname.
      Ok \<lparr>mft_entry = file_ref AND 0x0000FFFFFFFFFFFF,
          mft_sequence = ucast (drop_bit 48 file_ref AND 0xFFFF),
          parent_mft_entry = parent_ref AND 0x0000FFFFFFFFFFFF,
          parent_mft_sequence = ucast (drop_bit 48 parent_ref AND 0xFFFF),
          usn = u, timestamp = usn_timestamp C ts, reason = rs, filename = fname,
          file_attributes = fa, source_info = si, security_id = sid,
          major_version = 2\<rparr>)))))))))))))"

definition parse_usn_record_v3 :: "'dt chrono \<Rightarrow> bytes \<Rightarrow> 'dt usn_record res" where
  "parse_usn_record_v3 C data =
     (if length data < USN_V3_MIN_SIZE
      then Err (Usn (lit ''Data too short for USN_RECORD_V3: '' @ dec (length data) @ lit '' < '' @
             dec USN_V3_MIN_SIZE))
      else and_then (read_u32_le data 0x00) (\<lambda>rl. let record_len = unat rl in
      if \<not> (USN_V3_MIN_SIZE \<le> record_len \<and> record_len \<le> USN_MAX_RECORD_SIZE)
      then Err (Usn (lit ''Invalid V3 record length: '' @ dec record_len))
      else and_then (read_u128_le data 0x08) (\<lambda>file_ref.
      and_then (read_u128_le data 0x18) (\<lambda>parent_ref.
      and_then (read_i64_le data 0x28) (\<lambda>u.
      and_then (read_i64_le data 0x30) (\<lambda>ts.
      and_then (read_u32_le data 0x38) (\<lambda>rs.
      and_then (read_u32_le data 0x3C) (\<lambda>si.
      and_then (read_u32_le data 0x40) (\<lambda>sid.
      and_then (read_u32_le data 0x44) (\<lambda>fa.
      and_then (read_u16_le data 0x48) (\<lambda>fl.
      and_then (read_u16_le data 0x4A) (\<lambda>fo.
      and_then (usn_filename data (unat fo) (unat fl)) (\<lambda>fname.
      Ok \<lparr>mft_entry = ucast (file_ref AND 0xFFFFFFFFFFFF), mft_sequence = 0,
          parent_mft_entry = ucast (parent_ref AND 0xFFFFFFFFFFFF), parent_mft_sequence = 0,
          usn = u, timestamp = usn_timestamp C ts, reason = rs, filename = fname,
          file_attributes = fa, source_info = si, security_id = sid,
          major_version = 3\<rparr>)))))))))))))"

section \<open>The bulk parser\<close>

text \<open>\<open>(n + 7) & !7\<close>.\<close>

definition align8 :: "nat \<Rightarrow> nat" where
  "align8 n = (n + 7) div 8 * 8"

text \<open>The inner scan for a word that is not zero; \<open>None\<close> when the data ends first.\<close>

function scan_nonzero :: "bytes \<Rightarrow> nat \<Rightarrow> nat option" where
  "scan_nonzero data off =
     (if \<not> off + 8 \<le> length data then None
      else if take 8 (drop off data) \<noteq> replicate 8 0 then Some off
      else scan_nonzero data (off + 8))"
  by pat_completeness auto

termination scan_nonzero
  by (relation "measure (\<lambda>(data, off). length data - off)") auto

declare scan_nonzero.simps [simp del]

text \<open>
  One iteration of the outer loop: stop, or the next offset with the record parsed there.
  \<open>usn_dispatch\<close> is the \<open>match\<close> on the version, \<open>usn_at\<close> what follows the zero scan.
\<close>

definition usn_keep :: "nat \<Rightarrow> 'a res \<Rightarrow> ('a option \<times> nat) option res" where
  "usn_keep next r =
     (case r of
        Ok x \<Rightarrow> Ok (Some (Some x, next))
      | Err _ \<Rightarrow> Ok (Some (None, next))
      | Panic \<Rightarrow> Panic)"

definition usn_dispatch ::
  "'dt chrono \<Rightarrow> bytes \<Rightarrow> nat \<Rightarrow> nat \<Rightarrow> u16 \<Rightarrow> ('dt usn_record option \<times> nat) option res" where
  "usn_dispatch C data off record_len mv =
     (let next = off + align8 record_len in
      if mv = 2 then
        if record_len < USN_V2_MIN_SIZE then Ok (Some (None, off + 8))
        else and_then (slice data off (off + record_len)) (\<lambda>s. usn_keep next (parse_usn_record_v2 C s))
      else if mv = 3 then
        if record_len < USN_V3_MIN_SIZE then Ok (Some (None, off + 8))
        else and_then (slice data off (off + record_len)) (\<lambda>s. usn_keep next (parse_usn_record_v3 C s))
      else if mv = 4 then Ok (Some (None, next))
      else Ok (Some (None, off + 8)))"

definition usn_at :: "'dt chrono \<Rightarrow> bytes \<Rightarrow> nat \<Rightarrow> ('dt usn_record option \<times> nat) option res" where
  "usn_at C data off =
     and_then (read_u32_le data off) (\<lambda>rl. let record_len = unat rl in
     if \<not> (USN_V4_MIN_SIZE \<le> record_len \<and> record_len \<le> USN_MAX_RECORD_SIZE) then Ok (Some (None, off + 8))
     else if off + record_len > length data then Ok None
     else and_then (read_u16_le data (off + 4)) (usn_dispatch C data off record_len))"

definition usn_step :: "'dt chrono \<Rightarrow> bytes \<Rightarrow> nat \<Rightarrow> ('dt usn_record option \<times> nat) option res" where
  "usn_step C data off =
     (if \<not> off + 8 \<le> length data then Ok None
      else and_then (slice data off (off + 4)) (\<lambda>w.
      case (if w = [0, 0, 0, 0] then scan_nonzero data off else Some off) of
        None \<Rightarrow> Ok None
      | Some off' \<Rightarrow> usn_at C data off'))"

lemma scan_nonzero_ge: "scan_nonzero data off = Some o' \<Longrightarrow> off \<le> o' \<and> o' + 8 \<le> length data"
proof (induction data off rule: scan_nonzero.induct)
  case (1 data off)
  then show ?case
    by (subst (asm) (2) scan_nonzero.simps) (auto split: if_splits)
qed

lemma align8_ge: "n \<le> align8 n" "align8 n < n + 8" "8 dvd align8 n"
  by (simp_all add: align8_def)

lemma usn_keep_Ok: "usn_keep next r = Ok (Some (x, off')) \<Longrightarrow> off' = next"
  by (auto simp: usn_keep_def split: res.splits)

lemma usn_dispatch_progress:
  "usn_dispatch C data off n mv = Ok (Some (r, off')) \<Longrightarrow> 56 \<le> n \<Longrightarrow> off + 8 \<le> off'"
  using align8_ge(1) [of n]
  by (auto simp: usn_dispatch_def Let_def res_inversions split: if_splits dest!: usn_keep_Ok)

lemma usn_at_progress: "usn_at C data off = Ok (Some (r, off')) \<Longrightarrow> off + 8 \<le> off'"
  by (auto simp: usn_at_def Let_def res_inversions usn_sizes split: if_splits dest!: usn_dispatch_progress)

lemma usn_step_progress: "usn_step C data off = Ok (Some (r, off')) \<Longrightarrow> off < off'"
  by (auto simp: usn_step_def res_inversions split: if_splits option.splits
      dest!: usn_at_progress scan_nonzero_ge)

function usn_loop :: "'dt chrono \<Rightarrow> bytes \<Rightarrow> nat \<Rightarrow> 'dt usn_record list res" where
  "usn_loop C data off =
     and_then (usn_step C data off) (\<lambda>s.
       case s of
         None \<Rightarrow> Ok []
       | Some (r, off') \<Rightarrow>
           and_then (usn_loop C data off') (\<lambda>rs.
           Ok (case r of None \<Rightarrow> rs | Some x \<Rightarrow> x # rs)))"
  by pat_completeness auto

lemma usn_step_in: "usn_step C data off = Ok (Some x) \<Longrightarrow> off + 8 \<le> length data"
  by (auto simp: usn_step_def split: if_splits)

termination usn_loop
proof (relation "measure (\<lambda>(C, data, off). length data - off)", goal_cases)
  case (2 C data off s x r off')
  then have "usn_step C data off = Ok (Some (r, off'))"
    by simp
  from usn_step_progress [OF this] usn_step_in [OF this] show ?case
    by simp
qed simp

declare usn_loop.simps [simp del]

definition parse_usn_journal :: "'dt chrono \<Rightarrow> bytes \<Rightarrow> 'dt usn_record list res" where
  "parse_usn_journal C data = usn_loop C data 0"

section \<open>The contract of the record parsers\<close>

text \<open>
  A slice that a loop hands to a record parser carries its own length in its first word.
  On such a slice the parser returns a record; on no slice does it panic.
\<close>

locale record_decoder =
  fixes parse :: "bytes \<Rightarrow> 'a res" and min_size :: nat
  assumes accepts: "\<lbrakk>min_size \<le> length s; length s \<le> 65536; unat (le_u32 s 0) = length s\<rbrakk> \<Longrightarrow>
      \<exists>r. parse s = Ok r"
    and total: "parse s \<noteq> Panic"
    and min_ge: "56 \<le> min_size"
begin

lemma keep_total: "usn_keep n (parse s) \<noteq> Panic"
  using total [of s] by (auto simp: usn_keep_def split: res.splits)

text \<open>The pre-checks of the loops are enough: the record is never dropped.\<close>

lemma keep_accepts:
  assumes "min_size \<le> n" "n \<le> 65536" "off + n \<le> length data" "unat (le_u32 data off) = n"
  shows "\<exists>r. usn_keep next (parse (take n (drop off data))) = Ok (Some (Some r, next))"
proof -
  have "unat (le_u32 (take n (drop off data)) 0) = n"
    using assms min_ge by (simp add: le_u32_def get_range_def min_absorb1)
  then obtain r where "parse (take n (drop off data)) = Ok r"
    using accepts [of "take n (drop off data)"] assms by auto
  then show ?thesis
    by (simp add: usn_keep_def)
qed

end

lemma reads_in:
  "off + 2 \<le> length data \<Longrightarrow> read_u16_le data off = Ok (le_u16 data off)"
  "off + 4 \<le> length data \<Longrightarrow> read_u32_le data off = Ok (le_u32 data off)"
  "off + 8 \<le> length data \<Longrightarrow> read_u64_le data off = Ok (le_u64 data off)"
  "off + 8 \<le> length data \<Longrightarrow> read_i64_le data off = Ok (sint (le_u64 data off))"
  by (simp_all add: read_u16_le_def read_u32_le_def read_u64_le_def read_i64_le_def le_read_defs
      get_range_def)

lemma read_u128_in: "off + 16 \<le> length data \<Longrightarrow> read_u128_le data off = Ok (from_le_bytes (take 16 (drop off data)))"
  by (simp add: read_u128_le_def)

lemma usn_filename_no_panic [simp]: "usn_filename data off n \<noteq> Panic"
  by (auto simp: usn_filename_def res_inversions)

lemma usn_filename_not_Err [simp]: "usn_filename data off n \<noteq> Err e"
  by (auto simp: usn_filename_def res_inversions)

lemma usn_filename_total: "\<exists>s. usn_filename data off n = Ok s"
  by (cases "usn_filename data off n") auto

lemma parse_usn_record_v2_in:
  assumes "60 \<le> unat (le_u32 s 0)" "unat (le_u32 s 0) \<le> 65536" "unat (le_u32 s 0) \<le> length s"
  shows "parse_usn_record_v2 C s =
    and_then (usn_filename s (unat (le_u16 s 0x3A)) (unat (le_u16 s 0x38))) (\<lambda>fname.
      Ok \<lparr>mft_entry = le_u64 s 8 AND 0x0000FFFFFFFFFFFF,
          mft_sequence = ucast (drop_bit 48 (le_u64 s 8) AND 0xFFFF),
          parent_mft_entry = le_u64 s 16 AND 0x0000FFFFFFFFFFFF,
          parent_mft_sequence = ucast (drop_bit 48 (le_u64 s 16) AND 0xFFFF),
          usn = sint (le_u64 s 24), timestamp = usn_timestamp C (sint (le_u64 s 32)),
          reason = le_u32 s 40, filename = fname, file_attributes = le_u32 s 52,
          source_info = le_u32 s 44, security_id = le_u32 s 48, major_version = 2\<rparr>)"
  using assms by (simp add: parse_usn_record_v2_def usn_sizes reads_in)

lemma parse_usn_record_v3_in:
  assumes "76 \<le> length s" "76 \<le> unat (le_u32 s 0)" "unat (le_u32 s 0) \<le> 65536"
  shows "parse_usn_record_v3 C s =
    and_then (usn_filename s (unat (le_u16 s 0x4A)) (unat (le_u16 s 0x48))) (\<lambda>fname.
      Ok \<lparr>mft_entry = ucast ((from_le_bytes (take 16 (drop 8 s)) :: u128) AND 0xFFFFFFFFFFFF),
          mft_sequence = 0,
          parent_mft_entry = ucast ((from_le_bytes (take 16 (drop 24 s)) :: u128) AND 0xFFFFFFFFFFFF),
          parent_mft_sequence = 0,
          usn = sint (le_u64 s 40), timestamp = usn_timestamp C (sint (le_u64 s 48)),
          reason = le_u32 s 56, filename = fname, file_attributes = le_u32 s 68,
          source_info = le_u32 s 60, security_id = le_u32 s 64, major_version = 3\<rparr>)"
  using assms by (simp add: parse_usn_record_v3_def usn_sizes reads_in read_u128_in)

interpretation v2: record_decoder "parse_usn_record_v2 C" 60 for C :: "'dt chrono"
proof
  show "\<exists>r. parse_usn_record_v2 C s = Ok r"
    if "60 \<le> length s" "length s \<le> 65536" "unat (le_u32 s 0) = length s" for s
    using that usn_filename_total [of s "unat (le_u16 s 0x3A)" "unat (le_u16 s 0x38)"]
    by (auto simp: parse_usn_record_v2_in)
  show "parse_usn_record_v2 C s \<noteq> Panic" for s
  proof (cases "60 \<le> length s")
    case True
    then show ?thesis
      by (auto simp: parse_usn_record_v2_def usn_sizes reads_in res_inversions Let_def split: if_splits)
  qed (simp add: parse_usn_record_v2_def usn_sizes)
qed simp

interpretation v3: record_decoder "parse_usn_record_v3 C" 76 for C :: "'dt chrono"
proof
  show "\<exists>r. parse_usn_record_v3 C s = Ok r"
    if "76 \<le> length s" "length s \<le> 65536" "unat (le_u32 s 0) = length s" for s
    using that usn_filename_total [of s "unat (le_u16 s 0x4A)" "unat (le_u16 s 0x48)"]
    by (auto simp: parse_usn_record_v3_in)
  show "parse_usn_record_v3 C s \<noteq> Panic" for s
  proof (cases "76 \<le> length s")
    case True
    then show ?thesis
      by (auto simp: parse_usn_record_v3_def usn_sizes reads_in read_u128_in res_inversions Let_def
          split: if_splits)
  qed (simp add: parse_usn_record_v3_def usn_sizes)
qed simp

section \<open>The loop returns\<close>

lemma usn_dispatch_no_panic: "off + n \<le> length data \<Longrightarrow> usn_dispatch C data off n mv \<noteq> Panic"
  by (auto simp: usn_dispatch_def Let_def res_inversions v2.keep_total v3.keep_total)

lemma usn_at_no_panic: "off + 8 \<le> length data \<Longrightarrow> usn_at C data off \<noteq> Panic"
  by (auto simp: usn_at_def Let_def reads_in usn_dispatch_no_panic)

lemma usn_keep_not_Err: "usn_keep n r \<noteq> Err e"
  by (simp add: usn_keep_def split: res.splits)

lemma usn_at_not_Err: "off + 8 \<le> length data \<Longrightarrow> usn_at C data off \<noteq> Err e"
  by (auto simp: usn_at_def Let_def reads_in usn_dispatch_def res_inversions usn_keep_not_Err)

lemma usn_step_total: "\<exists>s. usn_step C data off = Ok s"
proof (cases "off + 8 \<le> length data")
  case True
  have at: "\<exists>s. usn_at C data o' = Ok s" if "o' + 8 \<le> length data" for o'
    using usn_at_no_panic [OF that, of C] usn_at_not_Err [OF that, of C]
    by (cases "usn_at C data o'") auto
  show ?thesis
  proof (cases "if take 4 (drop off data) = [0, 0, 0, 0] then scan_nonzero data off else Some off")
    case None
    with True show ?thesis by (simp add: usn_step_def)
  next
    case (Some o')
    then have "o' + 8 \<le> length data"
      using True scan_nonzero_ge by (auto split: if_splits)
    from at [OF this] True Some show ?thesis
      by (simp add: usn_step_def)
  qed
qed (simp add: usn_step_def)

lemma usn_loop_total: "\<exists>rs. usn_loop C data off = Ok rs"
proof (induction C data off rule: usn_loop.induct)
  case (1 C data off)
  obtain s where s: "usn_step C data off = Ok s"
    using usn_step_total by blast
  show ?case
  proof (cases s)
    case None
    then show ?thesis
      using s by (subst usn_loop.simps) simp
  next
    case (Some x)
    obtain r off' where x: "x = (r, off')"
      by (cases x)
    from "1.IH" [OF s Some x [symmetric]] s Some x show ?thesis
      by (subst usn_loop.simps) auto
  qed
qed

section \<open>What the journal holds\<close>

text \<open>
  A journal as the filesystem leaves it: runs of zero words, and records whose first word
  is their length, each padded to a multiple of eight bytes.
\<close>

datatype journal_item = Gap nat | Rec bytes bytes

fun item_bytes :: "journal_item \<Rightarrow> bytes" where
  "item_bytes (Gap n) = replicate (8 * n) 0"
| "item_bytes (Rec s pad) = s @ pad"

fun item_ok :: "journal_item \<Rightarrow> bool" where
  "item_ok (Gap n) = True"
| "item_ok (Rec s pad) \<longleftrightarrow> unat (le_u32 s 0) = length s \<and> length s \<le> 65536 \<and>
     length (s @ pad) = align8 (length s) \<and>
     (le_u16 s 4 = 2 \<and> 60 \<le> length s \<or> le_u16 s 4 = 3 \<and> 76 \<le> length s)"

fun item_records :: "'dt chrono \<Rightarrow> journal_item \<Rightarrow> 'dt usn_record list" where
  "item_records C (Gap n) = []"
| "item_records C (Rec s pad) =
     (case (if le_u16 s 4 = 2 then parse_usn_record_v2 C s else parse_usn_record_v3 C s) of
        Ok r \<Rightarrow> [r] | _ \<Rightarrow> [])"

lemma zero_word:
  assumes "off + 8 \<le> length data" "take 8 (drop off data) = replicate 8 0"
  shows "usn_step C data off = usn_step C data (off + 8)"
proof -
  have z4: "take 4 (drop off data) = [0, 0, 0, 0]"
  proof -
    have "take 4 (take 8 (drop off data)) = [0, 0, 0, 0]"
      unfolding assms(2) by (simp add: numeral_eq_Suc)
    then show ?thesis by simp
  qed
  have sc: "scan_nonzero data off = scan_nonzero data (off + 8)"
    using assms by (subst scan_nonzero.simps) simp
  show ?thesis
  proof (cases "off + 16 \<le> length data")
    case False
    then show ?thesis
      using assms(1) z4 by (simp add: usn_step_def sc scan_nonzero.simps [of data "off + 8"])
  next
    case True
    have "scan_nonzero data (off + 8) = Some (off + 8)" if "take 4 (drop (off + 8) data) \<noteq> [0, 0, 0, 0]"
    proof -
      have "take 8 (drop (off + 8) data) \<noteq> replicate 8 0"
      proof
        assume "take 8 (drop (off + 8) data) = replicate 8 0"
        then have "take 4 (take 8 (drop (off + 8) data)) = take 4 (replicate 8 0)"
          by simp
        with that show False
          by (simp add: numeral_eq_Suc)
      qed
      with True show ?thesis
        by (subst scan_nonzero.simps) simp
    qed
    then show ?thesis
      using True assms(1) z4 sc by (auto simp: usn_step_def)
  qed
qed

lemma usn_loop_gap:
  "usn_loop C (pre @ replicate (8 * n) 0 @ post) (length pre) =
   usn_loop C (pre @ replicate (8 * n) 0 @ post) (length pre + 8 * n)"
proof (induction n arbitrary: pre)
  case 0
  then show ?case by simp
next
  case (Suc n)
  let ?d = "pre @ replicate (8 * Suc n) 0 @ post"
  have split: "?d = (pre @ replicate 8 0) @ replicate (8 * n) 0 @ post"
    by (simp add: replicate_add)
  have "take 8 (drop (length pre) ?d) = replicate 8 0"
    by (simp add: replicate_add)
  then have "usn_step C ?d (length pre) = usn_step C ?d (length pre + 8)"
    by (intro zero_word) simp_all
  then have "usn_loop C ?d (length pre) = usn_loop C ?d (length pre + 8)"
    by (subst (1 2) usn_loop.simps) simp
  also have "\<dots> = usn_loop C ?d (length pre + 8 * Suc n)"
    using Suc.IH [of "pre @ replicate 8 0"] unfolding split by (simp add: algebra_simps)
  finally show ?case .
qed

lemma usn_loop_record:
  fixes pre post :: bytes
  assumes "item_ok (Rec s pad)"
  shows "usn_loop C (pre @ item_bytes (Rec s pad) @ post) (length pre) =
    and_then (usn_loop C (pre @ item_bytes (Rec s pad) @ post) (length pre + length (item_bytes (Rec s pad)))) (\<lambda>rs.
    Ok (item_records C (Rec s pad) @ rs))"
proof -
  let ?d = "pre @ s @ pad @ post"
  have len: "60 \<le> length s"
    using assms by auto
  have u32: "le_u32 ?d (length pre) = le_u32 s 0" and u16: "le_u16 ?d (length pre + 4) = le_u16 s 4"
    using len by (simp_all add: le_u32_def le_u16_def get_range_def)
  have nz: "take 4 (drop (length pre) ?d) \<noteq> [0, 0, 0, 0]"
  proof
    assume "take 4 (drop (length pre) ?d) = [0, 0, 0, 0]"
    then have "le_u32 ?d (length pre) = 0"
      using len by (simp add: le_u32_def get_range_def from_le_bytes_def)
    with assms u32 len show False by simp
  qed
  have sl: "take (length s) (drop (length pre) ?d) = s"
    by simp
  have al: "length s + length pad = align8 (length s)"
    using assms by simp
  obtain r where r: "usn_dispatch C ?d (length pre) (length s) (le_u16 s 4) =
      Ok (Some (Some r, length pre + align8 (length s)))" "item_records C (Rec s pad) = [r]"
  proof (cases "le_u16 s 4 = 2")
    case True
    obtain r where "parse_usn_record_v2 C s = Ok r"
      using v2.accepts [of s C] assms len by auto
    with True len that show ?thesis
      by (simp add: usn_dispatch_def usn_keep_def usn_sizes)
  next
    case False
    then have v: "le_u16 s 4 = 3" "76 \<le> length s"
      using assms by auto
    obtain r where "parse_usn_record_v3 C s = Ok r"
      using v3.accepts [of s C] assms v by auto
    with v that show ?thesis
      by (simp add: usn_dispatch_def usn_keep_def usn_sizes)
  qed
  have "usn_step C ?d (length pre) = Ok (Some (Some r, length pre + align8 (length s)))"
    using len nz u32 u16 r assms by (simp add: usn_step_def usn_at_def reads_in usn_sizes)
  then show ?thesis
    using r(2) al by (subst usn_loop.simps) (simp add: add.assoc)
qed

lemma usn_loop_items:
  assumes "list_all item_ok items"
  shows "usn_loop C (pre @ concat (map item_bytes items)) (length pre) =
    Ok (concat (map (item_records C) items))"
  using assms
proof (induction items arbitrary: pre)
  case Nil
  then show ?case
    by (subst usn_loop.simps) (simp add: usn_step_def)
next
  case (Cons i items)
  let ?post = "concat (map item_bytes items)"
  have ih: "usn_loop C (pre @ item_bytes i @ ?post) (length pre + length (item_bytes i)) =
      Ok (concat (map (item_records C) items))"
    using Cons.IH [of "pre @ item_bytes i"] Cons.prems by simp
  show ?case
  proof (cases i)
    case (Gap n)
    with ih show ?thesis
      using usn_loop_gap [of C pre n ?post] by simp
  next
    case (Rec s pad)
    with ih Cons.prems show ?thesis
      using usn_loop_record [of s pad C pre ?post] by simp
  qed
qed

section \<open>The on-disk form of a V2 record\<close>

record usn_fields =
  uf_file_ref :: file_reference
  uf_parent_ref :: file_reference
  uf_usn :: u64
  uf_ticks :: u64
  uf_reason :: u32
  uf_source :: u32
  uf_security :: u32
  uf_attributes :: u32
  uf_name :: ustring

definition v2_bytes :: "usn_fields \<Rightarrow> bytes" where
  "v2_bytes f =
     (let name = concat (map (\<lambda>u. le_bytes 2 (unat u)) (encode_utf16 (uf_name f))) in
      le_bytes 4 (60 + length name) @ le_bytes 2 2 @ le_bytes 2 0 @
      le_bytes 8 (unat (file_reference_raw (uf_file_ref f))) @
      le_bytes 8 (unat (file_reference_raw (uf_parent_ref f))) @
      le_bytes 8 (unat (uf_usn f)) @ le_bytes 8 (unat (uf_ticks f)) @
      le_bytes 4 (unat (uf_reason f)) @ le_bytes 4 (unat (uf_source f)) @
      le_bytes 4 (unat (uf_security f)) @ le_bytes 4 (unat (uf_attributes f)) @
      le_bytes 2 (length name) @ le_bytes 2 60 @ name)"

definition v2_ok :: "usn_fields \<Rightarrow> bool" where
  "v2_ok f \<longleftrightarrow> unat (fr_record_number (uf_file_ref f)) < 2 ^ 48 \<and>
     unat (fr_record_number (uf_parent_ref f)) < 2 ^ 48 \<and>
     list_all scalar (uf_name f) \<and> length (encode_utf16 (uf_name f)) < 30000"

definition v2_record :: "'dt chrono \<Rightarrow> usn_fields \<Rightarrow> 'dt usn_record" where
  "v2_record C f =
     \<lparr>mft_entry = fr_record_number (uf_file_ref f), mft_sequence = fr_sequence (uf_file_ref f),
      parent_mft_entry = fr_record_number (uf_parent_ref f),
      parent_mft_sequence = fr_sequence (uf_parent_ref f),
      usn = sint (uf_usn f), timestamp = usn_timestamp C (sint (uf_ticks f)),
      reason = uf_reason f, filename = uf_name f, file_attributes = uf_attributes f,
      source_info = uf_source f, security_id = uf_security f, major_version = 2\<rparr>"

lemma length_v2_bytes: "length (v2_bytes f) = 60 + 2 * length (encode_utf16 (uf_name f))"
  by (simp add: v2_bytes_def Let_def length_units_bytes)

lemma v2_header:
  assumes "v2_ok f"
  shows "unat (le_u32 (v2_bytes f) 0) = length (v2_bytes f)" "le_u16 (v2_bytes f) 4 = 2"
proof -
  have "60 + 2 * length (encode_utf16 (uf_name f)) < 4294967296"
    using assms by (simp add: v2_ok_def)
  then show "unat (le_u32 (v2_bytes f) 0) = length (v2_bytes f)"
    by (simp add: length_v2_bytes) (simp add: v2_bytes_def Let_def le_u32_def get_range_def
        from_le_bytes_def le_nat_le_bytes unat_of_nat length_units_bytes del: of_nat_add of_nat_mult)
  show "le_u16 (v2_bytes f) 4 = 2"
    by (simp add: v2_bytes_def Let_def le_u16_def get_range_def from_le_bytes_def le_nat_le_bytes)
qed

lemma v2_reads:
  assumes "v2_ok f"
  shows "le_u64 (v2_bytes f) 8 = file_reference_raw (uf_file_ref f)"
    "le_u64 (v2_bytes f) 16 = file_reference_raw (uf_parent_ref f)"
    "le_u64 (v2_bytes f) 24 = uf_usn f" "le_u64 (v2_bytes f) 32 = uf_ticks f"
    "le_u32 (v2_bytes f) 40 = uf_reason f" "le_u32 (v2_bytes f) 44 = uf_source f"
    "le_u32 (v2_bytes f) 48 = uf_security f" "le_u32 (v2_bytes f) 52 = uf_attributes f"
    "unat (le_u16 (v2_bytes f) 56) = 2 * length (encode_utf16 (uf_name f))"
    "unat (le_u16 (v2_bytes f) 58) = 60"
    "drop 60 (v2_bytes f) = concat (map (\<lambda>u. le_bytes 2 (unat u)) (encode_utf16 (uf_name f)))"
proof -
  show "le_u64 (v2_bytes f) 8 = file_reference_raw (uf_file_ref f)"
    "le_u64 (v2_bytes f) 16 = file_reference_raw (uf_parent_ref f)"
    "le_u64 (v2_bytes f) 24 = uf_usn f" "le_u64 (v2_bytes f) 32 = uf_ticks f"
    by (simp_all add: v2_bytes_def Let_def le_u64_def get_range_def from_le_bytes_le_bytes8)
  show "le_u32 (v2_bytes f) 40 = uf_reason f" "le_u32 (v2_bytes f) 44 = uf_source f"
    "le_u32 (v2_bytes f) 48 = uf_security f" "le_u32 (v2_bytes f) 52 = uf_attributes f"
    by (simp_all add: v2_bytes_def Let_def le_u32_def get_range_def from_le_bytes_le_bytes4)
  show "drop 60 (v2_bytes f) = concat (map (\<lambda>u. le_bytes 2 (unat u)) (encode_utf16 (uf_name f)))"
    by (simp add: v2_bytes_def Let_def)
  show "unat (le_u16 (v2_bytes f) 58) = 60"
    by (simp add: v2_bytes_def Let_def le_u16_def get_range_def from_le_bytes_def le_nat_le_bytes)
  have "2 * length (encode_utf16 (uf_name f)) < 65536"
    using assms by (simp add: v2_ok_def)
  then show "unat (le_u16 (v2_bytes f) 56) = 2 * length (encode_utf16 (uf_name f))"
    by (simp add: v2_bytes_def Let_def le_u16_def get_range_def from_le_bytes_def le_nat_le_bytes
        unat_of_nat length_units_bytes del: of_nat_mult)
qed

lemma reference_fields:
  assumes "unat (fr_record_number r) < 2 ^ 48"
  shows "file_reference_raw r AND 0x0000FFFFFFFFFFFF = fr_record_number r"
    "ucast (drop_bit 48 (file_reference_raw r) AND 0xFFFF) = fr_sequence r"
proof -
  have rt: "file_reference_from_u64 (file_reference_raw r) = r"
    using assms by (rule file_reference_roundtrip')
  have rec: "fr_record_number (file_reference_from_u64 w) = w AND 0x0000FFFFFFFFFFFF"
    and sq: "fr_sequence (file_reference_from_u64 w) = ucast (drop_bit 48 w)" for w
    by (simp_all add: file_reference_from_u64_def)
  show "file_reference_raw r AND 0x0000FFFFFFFFFFFF = fr_record_number r"
    using rec [of "file_reference_raw r"] rt by simp
  have "(0xFFFF :: u64) = mask 16"
    by (simp add: mask_eq_exp_minus_1)
  then have "ucast (w AND 0xFFFF) = (ucast w :: u16)" for w :: u64
    by (simp only: flip: take_bit_eq_mask) (rule bit_word_eqI, simp add: bit_simps)
  then show "ucast (drop_bit 48 (file_reference_raw r) AND 0xFFFF) = fr_sequence r"
    using sq [of "file_reference_raw r"] rt by simp
qed

lemma parse_v2_bytes:
  assumes "v2_ok f"
  shows "parse_usn_record_v2 C (v2_bytes f) = Ok (v2_record C f)"
proof -
  let ?n = "length (encode_utf16 (uf_name f))"
  have len: "unat (le_u32 (v2_bytes f) 0) = 60 + 2 * ?n" "length (v2_bytes f) = 60 + 2 * ?n" "?n < 30000"
    using v2_header(1) [OF assms] assms by (auto simp: length_v2_bytes v2_ok_def)
  have nm: "usn_filename (v2_bytes f) 60 (2 * ?n) = Ok (uf_name f)"
  proof (cases "?n = 0")
    case True
    then have "uf_name f = []"
      by (cases "uf_name f") (auto simp: encode_utf16_def encode_char_def Let_def split: if_splits)
    with True show ?thesis by (simp add: usn_filename_def)
  next
    case False
    have "decode_utf16_lossy (encode_utf16 (uf_name f)) = uf_name f"
      using assms by (intro decode_encode_utf16) (auto simp: v2_ok_def list_all_iff)
    with False len show ?thesis
      by (simp add: usn_filename_def v2_reads(11) [OF assms] length_units_bytes u16_units_le_bytes
          Suc_le_eq)
  qed
  show ?thesis
    using len nm assms
    by (simp add: parse_usn_record_v2_in v2_reads [OF assms] v2_record_def reference_fields v2_ok_def)
qed

section \<open>Properties\<close>

definition sample_chrono :: "(int \<times> int) chrono" where
  "sample_chrono = \<lparr>from_timestamp = (\<lambda>s n. Some (s, n)), dt_default = (0, 0)\<rparr>"

definition sample_usn :: usn_fields where
  "sample_usn = \<lparr>uf_file_ref = \<lparr>fr_record_number = 100, fr_sequence = 3\<rparr>,
     uf_parent_ref = \<lparr>fr_record_number = 5, fr_sequence = 5\<rparr>, uf_usn = 100,
     uf_ticks = 133500480000000000, uf_reason = 0x100, uf_source = 0, uf_security = 0,
     uf_attributes = 0x20, uf_name = [97, 0x1F600]\<rparr>"

lemma sample_usn_ok: "v2_ok sample_usn" "length (v2_bytes sample_usn) = 66"
  by (simp_all add: sample_usn_def v2_ok_def scalar_def encode_utf16_def encode_char_def length_v2_bytes)

text \<open>
  Claim C23. Reading a change-journal record inverts writing it: the parser returns the two
  48/16-bit references, the sequence number, the time, the flags and the name exactly as
  stored, for every name of Unicode scalar values.
\<close>

theorem parse_usn_record_v2_roundtrip:
  assumes "v2_ok f"
  shows "parse_usn_record_v2 C (v2_bytes f) = Ok (v2_record C f)"
  by (rule parse_v2_bytes [OF assms])

theorem parse_usn_record_v2_roundtrip_witness:
  "parse_usn_record_v2 sample_chrono (v2_bytes sample_usn) = Ok (v2_record sample_chrono sample_usn)"
  by (rule parse_usn_record_v2_roundtrip [OF sample_usn_ok(1)])

text \<open>
  Claim C24. The bulk parser recovers a journal: whatever zero-filled gaps lie between them, the
  records of a sequence of padded V2 and V3 records come back in order, none lost, none
  invented.
\<close>

theorem parse_usn_journal_complete:
  assumes "list_all item_ok items"
  shows "parse_usn_journal C (concat (map item_bytes items)) = Ok (concat (map (item_records C) items))"
  using usn_loop_items [OF assms, of C "[]"] by (simp add: parse_usn_journal_def)

theorem parse_usn_journal_complete_witness:
  "parse_usn_journal sample_chrono
     (concat (map item_bytes [Gap 3, Rec (v2_bytes sample_usn) (replicate 6 0), Gap 1])) =
   Ok [v2_record sample_chrono sample_usn]"
proof -
  have "list_all item_ok [Gap 3, Rec (v2_bytes sample_usn) (replicate 6 0), Gap 1]"
    using v2_header [OF sample_usn_ok(1)] sample_usn_ok(2) by (simp add: align8_def)
  then show ?thesis
    using parse_usn_journal_complete
      [of "[Gap 3, Rec (v2_bytes sample_usn) (replicate 6 0), Gap 1]" sample_chrono]
      v2_header(2) [OF sample_usn_ok(1)] by (simp add: parse_v2_bytes [OF sample_usn_ok(1)])
qed

text \<open>
  The bulk parser is total: on every byte string it returns a list of records, and no
  record parser panics on any slice.
\<close>

theorem parse_usn_journal_total:
  "(\<exists>rs. parse_usn_journal C data = Ok rs) \<and> parse_usn_record_v2 C s \<noteq> Panic \<and>
   parse_usn_record_v3 C s \<noteq> Panic"
  using usn_loop_total [of C data 0] by (simp add: parse_usn_journal_def v2.total v3.total)

end
