(* ===== verification/Greedy_Scan.thy ===== *)
theory Greedy_Scan
  imports Prelude
begin

text \<open>
  A scan for records in raw data, as the journal carver and the log extractor run it: it moves over
  the eight-byte boundaries, takes the first record it meets, jumps behind it and goes on.
  \<open>greedy\<close> says of a list of records what such a scan must return, without following it; it
  determines the list (\<open>greedy_unique\<close>). The locale states what a loop has to do at each boundary.
\<close>

section \<open>What a scan returns\<close>

text \<open>
  \<open>at o x\<close>: a record \<open>x\<close> lies at \<open>o\<close>; \<open>room o\<close> is the room it takes. The reported ones are records on a
  boundary, in order and disjoint, and every record on a boundary is reported or lies inside a reported one.
\<close>

definition greedy :: "(nat \<Rightarrow> 'a \<Rightarrow> bool) \<Rightarrow> (nat \<Rightarrow> nat) \<Rightarrow> nat \<Rightarrow> (nat \<times> 'a) list \<Rightarrow> bool" where
  "greedy at room start xs \<longleftrightarrow>
     sorted_wrt (\<lambda>(p, _) (q, _). p + room p \<le> q) xs \<and>
     (\<forall>(p, x) \<in> set xs. start \<le> p \<and> 8 dvd p \<and> at p x) \<and>
     (\<forall>p x. start \<le> p \<and> 8 dvd p \<and> at p x \<longrightarrow> (\<exists>(q, y) \<in> set xs. q \<le> p \<and> p < q + room q))"

lemma greedyD:
  assumes "greedy at room start xs"
  shows "sorted_wrt (\<lambda>(p, _) (q, _). p + room p \<le> q) xs"
    "(p, x) \<in> set xs \<Longrightarrow> start \<le> p \<and> 8 dvd p \<and> at p x"
    "start \<le> p \<Longrightarrow> 8 dvd p \<Longrightarrow> at p x \<Longrightarrow> \<exists>q y. (q, y) \<in> set xs \<and> q \<le> p \<and> p < q + room q"
  using assms unfolding greedy_def by blast+

lemma greedy_Nil: "greedy at room start [] \<longleftrightarrow> (\<forall>p x. start \<le> p \<and> 8 dvd p \<longrightarrow> \<not> at p x)"
  by (auto simp: greedy_def)

lemma greedy_hit:
  assumes "greedy at room (p + room p) xs" "at p x" "8 dvd p" "0 < room p"
  shows "greedy at room p ((p, x) # xs)"
proof -
  have "\<exists>(r, z) \<in> set ((p, x) # xs). r \<le> q \<and> q < r + room r" if "p \<le> q" "8 dvd q" "at q y" for q y
    using assms that by (cases "q < p + room p") (auto simp: greedy_def not_less)
  moreover have "\<forall>(q, y) \<in> set xs. p + room p \<le> q \<and> 8 dvd q \<and> at q y" "sorted_wrt (\<lambda>(p, _) (q, _). p + room p \<le> q) xs"
    using assms(1) by (auto simp: greedy_def)
  ultimately show ?thesis
    using assms(2,3) unfolding greedy_def by auto
qed

lemma greedy_miss:
  assumes "greedy at room (p + 8) xs" "\<And>x. \<not> at p x" "8 dvd p"
  shows "greedy at room p xs"
proof -
  have "p + 8 \<le> q" if "p \<le> q" "8 dvd q" "at q y" for q y
  proof -
    have "p \<noteq> q"
      using assms(2) that(3) by blast
    with that(1,2) assms(3) show ?thesis
      by (auto elim!: dvdE)
  qed
  then show ?thesis
    using assms(1) unfolding greedy_def by fastforce
qed

text \<open>There is at most one such list.\<close>

lemma greedy_tl:
  assumes "greedy at room start ((p, x) # xs)"
  shows "greedy at room (p + room p) xs"
  unfolding greedy_def
proof (intro conjI ballI allI impI)
  note D = greedyD [OF assms]
  show "sorted_wrt (\<lambda>(p, _) (q, _). p + room p \<le> q) xs"
    using D(1) by simp
  show "case z of (q, y) \<Rightarrow> p + room p \<le> q \<and> 8 dvd q \<and> at q y" if "z \<in> set xs" for z
    using D(1) D(2) [of "fst z" "snd z"] that by (auto simp: case_prod_unfold)
  show "\<exists>(r, z) \<in> set xs. r \<le> q \<and> q < r + room r" if "p + room p \<le> q \<and> 8 dvd q \<and> at q y" for q y
    using D(3) [of q y] D(2) [of p x] that by fastforce
qed

lemma greedy_unique:
  assumes "greedy at room start xs" "greedy at room start ys"
    and "\<And>p x y. at p x \<Longrightarrow> at p y \<Longrightarrow> x = y" "\<And>p x. at p x \<Longrightarrow> 0 < room p"
  shows "xs = ys"
  using assms(1,2)
proof (induction xs arbitrary: "start" ys)
  case Nil
  then show ?case
    by (cases ys) (auto simp: greedy_def)
next
  case (Cons a xs)
  obtain p x where a: "a = (p, x)" by fastforce
  have at_p: "start \<le> p" "8 dvd p" "at p x"
    using Cons.prems(1) by (auto simp: greedy_def a)
  have "ys \<noteq> []"
    using Cons.prems(2) at_p by (auto simp: greedy_Nil)
  then obtain q y zs where ys: "ys = (q, y) # zs"
    by (cases ys) auto
  have at_q: "start \<le> q" "8 dvd q" "at q y"
    using Cons.prems(2) by (auto simp: greedy_def ys)
  have first: "r \<le> s" if g: "greedy at room start ((r, z) # us)" and s: "start \<le> s" "8 dvd s" "at s w" for r z us s w
  proof -
    obtain t v where t: "(t, v) \<in> set ((r, z) # us)" "t \<le> s"
      using greedyD(3) [OF g s] by blast
    moreover have "r \<le> t"
      using greedyD(1) [OF g] t(1) by auto
    ultimately show ?thesis by simp
  qed
  have "p = q"
    using first [OF Cons.prems(1) [unfolded a] at_q] first [OF Cons.prems(2) [unfolded ys] at_p] by simp
  moreover from this have "x = y"
    using assms(3) at_p(3) at_q(3) by blast
  ultimately show ?case
    using Cons.IH greedy_tl Cons.prems a ys by metis
qed

section \<open>Loops that scan\<close>

text \<open>
  \<open>scan off xs\<close>: the loop, from \<open>off\<close> on, returns \<open>xs\<close>. It stops only where no record can follow, takes
  a record it meets and jumps behind it, and otherwise moves to the next boundary.
\<close>

locale scanner =
  fixes at :: "nat \<Rightarrow> 'a \<Rightarrow> bool" and room :: "nat \<Rightarrow> nat" and limit :: nat
    and scan :: "nat \<Rightarrow> (nat \<times> 'a) list \<Rightarrow> bool"
  assumes at_limit: "at p x \<Longrightarrow> p < limit"
    and at_room: "at p x \<Longrightarrow> 8 dvd room p \<and> 0 < room p"
    and scan_end: "scan p xs \<Longrightarrow> limit \<le> p \<Longrightarrow> xs = []"
    and scan_hit: "scan p xs \<Longrightarrow> at p x \<Longrightarrow> \<exists>ys. xs = (p, x) # ys \<and> scan (p + room p) ys"
    and scan_miss: "scan p xs \<Longrightarrow> p < limit \<Longrightarrow> (\<And>x. \<not> at p x) \<Longrightarrow> scan (p + 8) xs"
begin

lemma scan_greedy: "scan p xs \<Longrightarrow> 8 dvd p \<Longrightarrow> greedy at room p xs"
proof (induction "limit - p" arbitrary: p xs rule: less_induct)
  case less
  consider (stop) "limit \<le> p" | (hit) x where "at p x" | (miss) "p < limit" "\<And>x. \<not> at p x"
    by force
  then show ?case
  proof cases
    case stop
    have "\<not> at q x" if "p \<le> q" for q x
      using at_limit [of q x] that stop by auto
    then show ?thesis
      using scan_end [OF less.prems(1) stop] by (auto simp: greedy_Nil)
  next
    case hit
    obtain ys where ys: "xs = (p, x) # ys" "scan (p + room p) ys"
      using scan_hit [OF less.prems(1) hit] by blast
    have "limit - (p + room p) < limit - p" "8 dvd p + room p"
      using at_limit [OF hit] at_room [OF hit] less.prems(2) by auto
    then have "greedy at room (p + room p) ys"
      using less.hyps ys(2) by blast
    then show ?thesis
      unfolding ys(1) using at_room [OF hit] less.prems(2) hit by (intro greedy_hit) auto
  next
    case miss
    have "limit - (p + 8) < limit - p" "8 dvd p + 8"
      using miss(1) less.prems(2) by auto
    then have "greedy at room (p + 8) xs"
      using less.hyps scan_miss [OF less.prems(1) miss] by blast
    then show ?thesis
      using miss(2) less.prems(2) by (rule greedy_miss)
  qed
qed

end

end
