(* ===== verification/Usn_Carver.thy ===== *)
theory Usn_Carver
  imports Usn_Record Greedy_Scan
begin

text \<open>
  \<open>core/src/usn/carver.rs\<close>: recovering change-journal records from raw data. The reads of
  the external \<open>safe_read\<close> crate are the parameter \<open>safe_read\<close>; what the carver relies on is
  that they are the little-endian reads that yield zero out of bounds.
\<close>

section \<open>Definitions\<close>

record safe_read =
  sr_u16 :: "bytes \<Rightarrow> nat \<Rightarrow> u16"
  sr_u32 :: "bytes \<Rightarrow> nat \<Rightarrow> u32"
  sr_u64 :: "bytes \<Rightarrow> nat \<Rightarrow> u64"

definition zero_on_oob :: "safe_read \<Rightarrow> bool" where
  "zero_on_oob S \<longleftrightarrow> sr_u16 S = le_u16 \<and> sr_u32 S = le_u32 \<and> sr_u64 S = le_u64"

definition FILETIME_2000 :: int where
  "FILETIME_2000 = 125911584000000000"

definition FILETIME_2030 :: int where
  "FILETIME_2030 = 135379776000000000"

record 'dt carved_record =
  cr_offset :: nat
  cr_record :: "'dt usn_record"

record carving_stats =
  bytes_scanned :: nat
  candidates_examined :: nat
  records_carved :: nat
  rejected_timestamp :: nat
  rejected_structure :: nat

definition carver_read_i64_le :: "bytes \<Rightarrow> nat \<Rightarrow> int" where
  "carver_read_i64_le data off =
     (let b = replicate 8 0;
          b = (case get_range data off (off + 8) of Some s \<Rightarrow> s | None \<Rightarrow> b)
      in sint (from_le_bytes b :: u64))"

definition is_valid_timestamp :: "int \<Rightarrow> bool" where
  "is_valid_timestamp ft \<longleftrightarrow> FILETIME_2000 \<le> ft \<and> ft \<le> FILETIME_2030"

definition bump_structure :: "carving_stats \<Rightarrow> carving_stats" where
  "bump_structure st = st\<lparr>rejected_structure := rejected_structure st + 1\<rparr>"

definition try_carve_v2 ::
  "safe_read \<Rightarrow> 'dt chrono \<Rightarrow> bytes \<Rightarrow> nat \<Rightarrow> nat \<Rightarrow> carving_stats \<Rightarrow>
   ('dt carved_record option \<times> carving_stats) res" where
  "try_carve_v2 S C data off record_len st =
     (if record_len < USN_V2_MIN_SIZE then Ok (None, bump_structure st)
      else case get_range data off (off + record_len) of
        None \<Rightarrow> Ok (None, st)
      | Some d \<Rightarrow>
          let fl = unat (sr_u16 S d 0x38); fo = unat (sr_u16 S d 0x3A) in
          if fo \<noteq> 0x3C then Ok (None, bump_structure st)
          else if fo + fl > record_len then Ok (None, bump_structure st)
          else if fl = 0 \<or> fl mod 2 \<noteq> 0 then Ok (None, bump_structure st)
          else if \<not> is_valid_timestamp (carver_read_i64_le d 0x20)
          then Ok (None, st\<lparr>rejected_timestamp := rejected_timestamp st + 1\<rparr>)
          else (case parse_usn_record_v2 C d of
                  Ok r \<Rightarrow> Ok (Some \<lparr>cr_offset = off, cr_record = r\<rparr>, st)
                | Err _ \<Rightarrow> Ok (None, bump_structure st)
                | Panic \<Rightarrow> Panic))"

definition try_carve_v3 ::
  "safe_read \<Rightarrow> 'dt chrono \<Rightarrow> bytes \<Rightarrow> nat \<Rightarrow> nat \<Rightarrow> carving_stats \<Rightarrow>
   ('dt carved_record option \<times> carving_stats) res" where
  "try_carve_v3 S C data off record_len st =
     (if record_len < USN_V3_MIN_SIZE then Ok (None, bump_structure st)
      else case get_range data off (off + record_len) of
        None \<Rightarrow> Ok (None, st)
      | Some d \<Rightarrow>
          let fl = unat (sr_u16 S d 0x48); fo = unat (sr_u16 S d 0x4A) in
          if fo \<noteq> 0x4C then Ok (None, bump_structure st)
          else if fo + fl > record_len then Ok (None, bump_structure st)
          else if fl = 0 \<or> fl mod 2 \<noteq> 0 then Ok (None, bump_structure st)
          else if \<not> is_valid_timestamp (carver_read_i64_le d 0x30)
          then Ok (None, st\<lparr>rejected_timestamp := rejected_timestamp st + 1\<rparr>)
          else (case parse_usn_record_v3 C d of
                  Ok r \<Rightarrow> Ok (Some \<lparr>cr_offset = off, cr_record = r\<rparr>, st)
                | Err _ \<Rightarrow> Ok (None, bump_structure st)
                | Panic \<Rightarrow> Panic))"

text \<open>
  The body of the scan past the zero check: what was carved at \<open>off\<close> and where the scan goes
  on, behind the record or at the next word.
\<close>

definition carve_next ::
  "nat \<Rightarrow> nat \<Rightarrow> ('dt carved_record option \<times> carving_stats) res \<Rightarrow>
   ('dt carved_record option \<times> nat \<times> carving_stats) res" where
  "carve_next off record_len m =
     and_then m (\<lambda>(c, st).
       case c of
         Some r \<Rightarrow> Ok (Some r, off + align8 record_len, st)
       | None \<Rightarrow> Ok (None, off + 8, st))"

definition carve_at ::
  "safe_read \<Rightarrow> 'dt chrono \<Rightarrow> bytes \<Rightarrow> nat \<Rightarrow> carving_stats \<Rightarrow>
   ('dt carved_record option \<times> nat \<times> carving_stats) res" where
  "carve_at S C data off st =
     (let record_len = unat (sr_u32 S data off); mv = sr_u16 S data (off + 4);
          st' = st\<lparr>candidates_examined := candidates_examined st + 1\<rparr> in
      if mv = 2 \<and> USN_V2_MIN_SIZE \<le> record_len \<and> record_len \<le> USN_MAX_RECORD_SIZE \<and>
         off + record_len \<le> length data
      then carve_next off record_len (try_carve_v2 S C data off record_len st')
      else if mv = 3 \<and> USN_V3_MIN_SIZE \<le> record_len \<and> record_len \<le> USN_MAX_RECORD_SIZE \<and>
         off + record_len \<le> length data
      then carve_next off record_len (try_carve_v3 S C data off record_len st')
      else Ok (None, off + 8, st))"

lemma carve_next_progress:
  "carve_next off n m = Ok (c, off', st) \<Longrightarrow> 8 \<le> n \<Longrightarrow> off + 8 \<le> off'"
proof -
  assume c: "carve_next off n m = Ok (c, off', st)" and n: "8 \<le> n"
  have "off' = off + align8 n \<or> off' = off + 8"
    using c by (auto simp: carve_next_def and_then_Ok_iff split: option.splits)
  then show "off + 8 \<le> off'"
    using align8_ge(1) [of n] n by auto
qed

lemma carve_at_progress: "carve_at S C data off st = Ok (c, off', st') \<Longrightarrow> off + 8 \<le> off'"
  by (auto simp: carve_at_def Let_def usn_sizes split: if_splits dest: carve_next_progress)

function carve_loop ::
  "safe_read \<Rightarrow> 'dt chrono \<Rightarrow> bytes \<Rightarrow> nat \<Rightarrow> carving_stats \<Rightarrow>
   ('dt carved_record list \<times> carving_stats) res" where
  "carve_loop S C data off st =
     (if \<not> off + 8 \<le> length data then Ok ([], st)
      else if get_range data off (off + 4) = Some [0, 0, 0, 0] then carve_loop S C data (off + 8) st
      else and_then (carve_at S C data off st) (\<lambda>(c, off', st').
        and_then (carve_loop S C data off' st') (\<lambda>(rs, st'').
        Ok (case c of None \<Rightarrow> rs | Some r \<Rightarrow> r # rs, st''))))"
  by pat_completeness auto

termination carve_loop
proof (relation "measure (\<lambda>(S, C, data, off, st). length data - off)", goal_cases)
  case (3 S C data off st x c y off' st')
  then have "carve_at S C data off st = Ok (c, off', st')"
    by simp
  from carve_at_progress [OF this] 3 show ?case
    by auto
qed simp_all

declare carve_loop.simps [simp del]

definition carve_usn_records ::
  "safe_read \<Rightarrow> 'dt chrono \<Rightarrow> bytes \<Rightarrow> ('dt carved_record list \<times> carving_stats) res" where
  "carve_usn_records S C data =
     and_then (carve_loop S C data 0
       \<lparr>bytes_scanned = length data, candidates_examined = 0, records_carved = 0,
        rejected_timestamp = 0, rejected_structure = 0\<rparr>) (\<lambda>(rs, st).
     Ok (rs, st\<lparr>records_carved := length rs\<rparr>))"

section \<open>What is carved\<close>

text \<open>
  The candidates worth keeping, said without the carver: the name directly behind the fixed fields,
  of an even, positive length inside the record; and a time, in ticks of 100 ns since 1601, from the
  start of 2000 (145731 days) to 13:20 on the first day of 2030 (156689 days and 48000 seconds).
\<close>

definition well_named :: "bytes \<Rightarrow> nat \<Rightarrow> nat \<Rightarrow> bool" where
  "well_named d field start \<longleftrightarrow>
     (let n = unat (le_u16 d field) in
      unat (le_u16 d (field + 2)) = start \<and> 0 < n \<and> even n \<and> start + n \<le> length d)"

definition in_era :: "bytes \<Rightarrow> nat \<Rightarrow> bool" where
  "in_era d field \<longleftrightarrow>
     145731 * 864000000000 \<le> sint (le_u64 d field) \<and>
     sint (le_u64 d field) \<le> 156689 * 864000000000 + 48000 * 10000000"

definition plausible_record :: "'dt chrono \<Rightarrow> bytes \<Rightarrow> nat \<Rightarrow> 'dt usn_record \<Rightarrow> bool" where
  "plausible_record C data off r \<longleftrightarrow>
     (let n = unat (le_u32 data off); d = take n (drop off data) in
      n \<le> 65536 \<and> off + n \<le> length data \<and>
      (le_u16 data (off + 4) = 2 \<and> 60 \<le> n \<and> well_named d 0x38 0x3C \<and> in_era d 0x20 \<and>
         parse_usn_record_v2 C d = Ok r \<or>
       le_u16 data (off + 4) = 3 \<and> 76 \<le> n \<and> well_named d 0x48 0x4C \<and> in_era d 0x30 \<and>
         parse_usn_record_v3 C d = Ok r))"

abbreviation record_room :: "bytes \<Rightarrow> nat \<Rightarrow> nat" where
  "record_room data off \<equiv> align8 (unat (le_u32 data off))"

text \<open>The upper limit is not the midnight its comment names but thirteen hours and twenty minutes later.\<close>

lemma FILETIME_2030_late: "FILETIME_2030 = 156689 * 864000000000 + 48000 * 10000000"
  by (simp add: FILETIME_2030_def)

lemma carver_time: "carver_read_i64_le d field = sint (le_u64 d field)"
  by (simp add: carver_read_i64_le_def le_u64_def from_le_bytes_def Let_def split: option.splits)

lemma valid_in_era: "is_valid_timestamp (carver_read_i64_le d field) \<longleftrightarrow> in_era d field"
  by (simp add: is_valid_timestamp_def in_era_def FILETIME_2000_def FILETIME_2030_def carver_time)

definition rejected :: "carving_stats \<Rightarrow> nat" where
  "rejected st = rejected_timestamp st + rejected_structure st"

lemma try_carve_v2_outcome:
  assumes "zero_on_oob S" "try_carve_v2 S C data off n st = Ok (c, st')" "off + n \<le> length data"
    and "60 \<le> n" "d = take n (drop off data)"
  shows "bytes_scanned st' = bytes_scanned st \<and> candidates_examined st' = candidates_examined st \<and>
    rejected st' = rejected st + (if c = None then 1 else 0) \<and>
    (\<forall>x. c = Some x \<longleftrightarrow> well_named d 0x38 0x3C \<and> in_era d 0x20 \<and>
       (\<exists>r. parse_usn_record_v2 C d = Ok r \<and> x = \<lparr>cr_offset = off, cr_record = r\<rparr>))"
proof -
  have "length d = n"
    using assms(3,5) by simp
  then have w: "well_named d 0x38 0x3C \<longleftrightarrow> unat (le_u16 d (0x38 + 2)) = 0x3C \<and>
      \<not> n < 0x3C + unat (le_u16 d 0x38) \<and> \<not> (unat (le_u16 d 0x38) = 0 \<or> unat (le_u16 d 0x38) mod 2 \<noteq> 0)"
    by (auto simp: well_named_def Let_def)
  have "try_carve_v2 S C data off n st =
      (if \<not> well_named d 0x38 0x3C then Ok (None, bump_structure st)
       else if \<not> in_era d 0x20 then Ok (None, st\<lparr>rejected_timestamp := rejected_timestamp st + 1\<rparr>)
       else case parse_usn_record_v2 C d of
           Ok r \<Rightarrow> Ok (Some \<lparr>cr_offset = off, cr_record = r\<rparr>, st)
         | Err _ \<Rightarrow> Ok (None, bump_structure st)
         | Panic \<Rightarrow> Panic)"
    using assms(1,3-5) unfolding w
    by (simp add: try_carve_v2_def Let_def get_range_def valid_in_era zero_on_oob_def usn_sizes)
  with assms(2) show ?thesis
    by (auto simp: rejected_def bump_structure_def split: if_splits res.splits)
qed

lemma try_carve_v3_outcome:
  assumes "zero_on_oob S" "try_carve_v3 S C data off n st = Ok (c, st')" "off + n \<le> length data"
    and "76 \<le> n" "d = take n (drop off data)"
  shows "bytes_scanned st' = bytes_scanned st \<and> candidates_examined st' = candidates_examined st \<and>
    rejected st' = rejected st + (if c = None then 1 else 0) \<and>
    (\<forall>x. c = Some x \<longleftrightarrow> well_named d 0x48 0x4C \<and> in_era d 0x30 \<and>
       (\<exists>r. parse_usn_record_v3 C d = Ok r \<and> x = \<lparr>cr_offset = off, cr_record = r\<rparr>))"
proof -
  have "length d = n"
    using assms(3,5) by simp
  then have w: "well_named d 0x48 0x4C \<longleftrightarrow> unat (le_u16 d (0x48 + 2)) = 0x4C \<and>
      \<not> n < 0x4C + unat (le_u16 d 0x48) \<and> \<not> (unat (le_u16 d 0x48) = 0 \<or> unat (le_u16 d 0x48) mod 2 \<noteq> 0)"
    by (auto simp: well_named_def Let_def)
  have "try_carve_v3 S C data off n st =
      (if \<not> well_named d 0x48 0x4C then Ok (None, bump_structure st)
       else if \<not> in_era d 0x30 then Ok (None, st\<lparr>rejected_timestamp := rejected_timestamp st + 1\<rparr>)
       else case parse_usn_record_v3 C d of
           Ok r \<Rightarrow> Ok (Some \<lparr>cr_offset = off, cr_record = r\<rparr>, st)
         | Err _ \<Rightarrow> Ok (None, bump_structure st)
         | Panic \<Rightarrow> Panic)"
    using assms(1,3-5) unfolding w
    by (simp add: try_carve_v3_def Let_def get_range_def valid_in_era zero_on_oob_def usn_sizes)
  with assms(2) show ?thesis
    by (auto simp: rejected_def bump_structure_def split: if_splits res.splits)
qed

lemma carve_at_outcome:
  assumes "zero_on_oob S" "carve_at S C data off st = Ok (c, off', st')"
  shows "bytes_scanned st' = bytes_scanned st \<and>
    off' = off + (if c = None then 8 else record_room data off) \<and>
    candidates_examined st' + rejected st =
      candidates_examined st + rejected st' + (if c = None then 0 else 1) \<and>
    (\<forall>x. c = Some x \<longleftrightarrow> cr_offset x = off \<and> plausible_record C data off (cr_record x))"
proof -
  let ?n = "unat (le_u32 data off)"
  let ?st = "st\<lparr>candidates_examined := candidates_examined st + 1\<rparr>"
  have s: "sr_u32 S = le_u32" "sr_u16 S = le_u16"
    using assms(1) by (simp_all add: zero_on_oob_def)
  consider (v2) "le_u16 data (off + 4) = 2" "60 \<le> ?n" "?n \<le> 65536" "off + ?n \<le> length data"
      "carve_next off ?n (try_carve_v2 S C data off ?n ?st) = Ok (c, off', st')"
    | (v3) "le_u16 data (off + 4) = 3" "76 \<le> ?n" "?n \<le> 65536" "off + ?n \<le> length data"
      "carve_next off ?n (try_carve_v3 S C data off ?n ?st) = Ok (c, off', st')"
    | (none) "c = None" "off' = off + 8" "st' = st" "\<And>r. \<not> plausible_record C data off r"
    using assms(2) by (auto simp: carve_at_def Let_def usn_sizes s plausible_record_def split: if_splits)
  then show ?thesis
  proof cases
    case v2
    then have t: "try_carve_v2 S C data off ?n ?st = Ok (c, st')"
      and c: "off' = off + (if c = None then 8 else record_room data off)"
      by (auto simp: carve_next_def res_inversions split: option.splits)
    have "c = Some x \<longleftrightarrow> cr_offset x = off \<and> plausible_record C data off (cr_record x)" for x
      using try_carve_v2_outcome [OF assms(1) t v2(4,2) refl] v2
      by (cases x) (auto simp: plausible_record_def Let_def)
    with try_carve_v2_outcome [OF assms(1) t v2(4,2) refl] c show ?thesis
      by (auto simp: rejected_def)
  next
    case v3
    then have t: "try_carve_v3 S C data off ?n ?st = Ok (c, st')"
      and c: "off' = off + (if c = None then 8 else record_room data off)"
      by (auto simp: carve_next_def res_inversions split: option.splits)
    have "c = Some x \<longleftrightarrow> cr_offset x = off \<and> plausible_record C data off (cr_record x)" for x
      using try_carve_v3_outcome [OF assms(1) t v3(4,2) refl] v3
      by (cases x) (auto simp: plausible_record_def Let_def)
    with try_carve_v3_outcome [OF assms(1) t v3(4,2) refl] c show ?thesis
      by (auto simp: rejected_def)
  qed simp
qed

lemma carve_at_total: "carve_at S C data off st \<noteq> Panic \<and> carve_at S C data off st \<noteq> Err e"
proof -
  have "try_carve_v2 S C data off n st' \<noteq> Panic \<and> try_carve_v2 S C data off n st' \<noteq> Err e" for n st'
    by (auto simp: try_carve_v2_def Let_def v2.total split: option.splits if_splits res.splits)
  moreover have "try_carve_v3 S C data off n st' \<noteq> Panic \<and> try_carve_v3 S C data off n st' \<noteq> Err e" for n st'
    by (auto simp: try_carve_v3_def Let_def v3.total split: option.splits if_splits res.splits)
  ultimately show ?thesis
    by (auto simp: carve_at_def carve_next_def Let_def res_inversions split: option.splits)
qed

lemma carve_loop_total: "\<exists>rs st'. carve_loop S C data off st = Ok (rs, st')"
proof (induction S C data off st rule: carve_loop.induct)
  case (1 S C data off st)
  show ?case
  proof (cases "carve_at S C data off st")
    case (Ok x)
    with 1 show ?thesis
      by (subst carve_loop.simps) (cases x; fastforce)
  qed (use carve_at_total in blast)+
qed

text \<open>The loop at one boundary, and the statistics over the whole scan.\<close>

lemma carve_loop_turn:
  assumes "zero_on_oob S" "carve_loop S C data off st = Ok (rs, st')" "off + 8 \<le> length data"
  obtains c off' st1 rs1 where "carve_loop S C data off' st1 = Ok (rs1, st')"
    "rs = (case c of None \<Rightarrow> rs1 | Some r \<Rightarrow> r # rs1)"
    "bytes_scanned st1 = bytes_scanned st" "off' = off + (if c = None then 8 else record_room data off)"
    "candidates_examined st1 + rejected st = candidates_examined st + rejected st1 + (if c = None then 0 else 1)"
    "\<And>x. c = Some x \<longleftrightarrow> cr_offset x = off \<and> plausible_record C data off (cr_record x)"
proof (cases "get_range data off (off + 4) = Some [0, 0, 0, 0]")
  case True
  then have "le_u32 data off = 0"
    by (simp add: le_u32_def from_le_bytes_def)
  then have "\<not> plausible_record C data off r" for r
    by (simp add: plausible_record_def)
  moreover have "carve_loop S C data (off + 8) st = Ok (rs, st')"
    using assms(2,3) True by (subst (asm) carve_loop.simps) simp
  ultimately show thesis
    by (intro that [of "off + 8" st rs None]) simp_all
next
  case False
  with assms(2,3) obtain c off' st1 rs1 where
    at: "carve_at S C data off st = Ok (c, off', st1)"
    and lp: "carve_loop S C data off' st1 = Ok (rs1, st')"
    and rs: "rs = (case c of None \<Rightarrow> rs1 | Some r \<Rightarrow> r # rs1)"
    by (subst (asm) carve_loop.simps) (auto simp: res_inversions)
  from carve_at_outcome [OF assms(1) at] show thesis
    by (intro that [OF lp rs]) blast+
qed

lemma carve_loop_end: "length data < off + 8 \<Longrightarrow> carve_loop S C data off st = Ok ([], st)"
  by (subst carve_loop.simps) simp

lemma record_room_pos: "plausible_record C data off r \<Longrightarrow> 8 dvd record_room data off \<and> 60 \<le> record_room data off"
  using align8_ge(1) [of "unat (le_u32 data off)"] by (auto simp: plausible_record_def Let_def align8_ge(3))

lemma carve_loop_stats:
  assumes "zero_on_oob S" "carve_loop S C data off st = Ok (rs, st')"
  shows "bytes_scanned st' = bytes_scanned st \<and>
    candidates_examined st' + rejected st = candidates_examined st + rejected st' + length rs"
  using assms(2)
proof (induction "length data - off" arbitrary: off st rs rule: less_induct)
  case less
  show ?case
  proof (cases "off + 8 \<le> length data")
    case False
    with less.prems show ?thesis
      by (simp add: carve_loop_end)
  next
    case True
    obtain c off' st1 rs1 where
      lp: "carve_loop S C data off' st1 = Ok (rs1, st')" and rs: "rs = (case c of None \<Rightarrow> rs1 | Some r \<Rightarrow> r # rs1)"
      and scanned: "bytes_scanned st1 = bytes_scanned st"
      and off': "off' = off + (if c = None then 8 else record_room data off)"
      and st1: "candidates_examined st1 + rejected st = candidates_examined st + rejected st1 + (if c = None then 0 else 1)"
      and c: "\<And>x. c = Some x \<longleftrightarrow> cr_offset x = off \<and> plausible_record C data off (cr_record x)"
      by (rule carve_loop_turn [OF assms(1) less.prems True]) (rule that; assumption)
    have "off < off'"
      using off' c record_room_pos by (cases c) fastforce+
    then have "length data - off' < length data - off"
      using True by linarith
    from less.hyps [OF this lp] st1 scanned rs show ?thesis
      by (cases c) auto
  qed
qed

interpretation usn_carver: scanner "plausible_record C data" "record_room data" "length data - 7"
  "\<lambda>off xs. \<exists>S st rs st'. zero_on_oob S \<and> carve_loop S C data off st = Ok (rs, st') \<and>
     xs = map (\<lambda>c. (cr_offset c, cr_record c)) rs" for C data
proof
  fix off xs x
  let ?scan = "\<lambda>off xs. \<exists>S st rs st'. zero_on_oob S \<and> carve_loop S C data off st = Ok (rs, st') \<and>
     xs = map (\<lambda>c. (cr_offset c, cr_record c)) rs"
  show "off < length data - 7" if "plausible_record C data off x"
    using that by (auto simp: plausible_record_def Let_def)
  show "8 dvd record_room data off \<and> 0 < record_room data off" if "plausible_record C data off x"
    using record_room_pos [OF that] by auto
  show "xs = []" if "?scan off xs" "length data - 7 \<le> off"
    using that by (auto simp: carve_loop_end)
  show "\<exists>ys. xs = (off, x) # ys \<and> ?scan (off + record_room data off) ys"
    if scan: "?scan off xs" and p: "plausible_record C data off x"
  proof -
    obtain S st rs st' where s: "zero_on_oob S" "carve_loop S C data off st = Ok (rs, st')"
      "xs = map (\<lambda>c. (cr_offset c, cr_record c)) rs"
      using scan by blast
    have "off + 8 \<le> length data"
      using p by (auto simp: plausible_record_def Let_def)
    then obtain c off' st1 rs1 where
      lp: "carve_loop S C data off' st1 = Ok (rs1, st')" and rs: "rs = (case c of None \<Rightarrow> rs1 | Some r \<Rightarrow> r # rs1)"
      and "bytes_scanned st1 = bytes_scanned st"
      and off': "off' = off + (if c = None then 8 else record_room data off)"
      and "candidates_examined st1 + rejected st = candidates_examined st + rejected st1 + (if c = None then 0 else 1)"
      and c: "\<And>x. c = Some x \<longleftrightarrow> cr_offset x = off \<and> plausible_record C data off (cr_record x)"
      by (rule carve_loop_turn [OF s(1,2)]) (rule that; assumption)
    have "c = Some \<lparr>cr_offset = off, cr_record = x\<rparr>"
      unfolding c using p by simp
    with lp rs off' s(1,3) show ?thesis
      by auto
  qed
  show "?scan (off + 8) xs"
    if scan: "?scan off xs" and lt: "off < length data - 7" and no: "\<And>x. \<not> plausible_record C data off x"
  proof -
    obtain S st rs st' where s: "zero_on_oob S" "carve_loop S C data off st = Ok (rs, st')"
      "xs = map (\<lambda>c. (cr_offset c, cr_record c)) rs"
      using scan by blast
    have "off + 8 \<le> length data"
      using lt by simp
    then obtain c off' st1 rs1 where
      lp: "carve_loop S C data off' st1 = Ok (rs1, st')" and rs: "rs = (case c of None \<Rightarrow> rs1 | Some r \<Rightarrow> r # rs1)"
      and "bytes_scanned st1 = bytes_scanned st"
      and off': "off' = off + (if c = None then 8 else record_room data off)"
      and "candidates_examined st1 + rejected st = candidates_examined st + rejected st1 + (if c = None then 0 else 1)"
      and c: "\<And>x. c = Some x \<longleftrightarrow> cr_offset x = off \<and> plausible_record C data off (cr_record x)"
      by (rule carve_loop_turn [OF s(1,2)]) (rule that; assumption)
    have "c = None"
      using c no by (cases c) auto
    with lp rs off' s(1,3) show ?thesis
      by auto
  qed
qed

section \<open>Properties\<close>

definition le_safe_read :: safe_read where
  "le_safe_read = \<lparr>sr_u16 = le_u16, sr_u32 = le_u32, sr_u64 = le_u64\<rparr>"

text \<open>
  Claim C25. Carving is exact on every byte string. It returns; what it reports are plausible records on
  eight-byte boundaries, in order and disjoint; and it misses none: every plausible record on a
  boundary is reported or begins inside a reported one. A record is plausible when its length
  fits, its name lies where the version puts it, its time is between the start of 2000 and the
  limit the code sets in 2030, and the record parser reads it. The statistics
  balance, every candidate examined being carved or rejected for one stated reason.
\<close>

theorem carve_usn_records_exact:
  assumes "zero_on_oob S"
  shows "\<exists>rs st. carve_usn_records S C data = Ok (rs, st) \<and>
    greedy (plausible_record C data) (\<lambda>off. align8 (unat (le_u32 data off))) 0
      (map (\<lambda>c. (cr_offset c, cr_record c)) rs) \<and>
    candidates_examined st = records_carved st + rejected_timestamp st + rejected_structure st \<and>
    records_carved st = length rs \<and> bytes_scanned st = length data"
proof -
  obtain rs st where l: "carve_loop S C data 0 \<lparr>bytes_scanned = length data, candidates_examined = 0,
      records_carved = 0, rejected_timestamp = 0, rejected_structure = 0\<rparr> = Ok (rs, st)"
    using carve_loop_total by blast
  then have "greedy (plausible_record C data) (record_room data) 0 (map (\<lambda>c. (cr_offset c, cr_record c)) rs)"
    using usn_carver.scan_greedy [of C data 0] assms by blast
  with carve_loop_stats [OF assms l] l show ?thesis
    by (auto simp: carve_usn_records_def rejected_def)
qed

lemma plausible_unique: "plausible_record C data off r \<Longrightarrow> plausible_record C data off r' \<Longrightarrow> r = r'"
  by (auto simp: plausible_record_def Let_def)

lemma sample_usn_plausible:
  "plausible_record C (v2_bytes sample_usn) off r \<and> 8 dvd off \<longleftrightarrow> off = 0 \<and> r = v2_record C sample_usn"
proof -
  have "off + 60 \<le> 66" if "plausible_record C (v2_bytes sample_usn) off r"
    using that sample_usn_ok(2) by (auto simp: plausible_record_def Let_def)
  then have "off = 0" if "plausible_record C (v2_bytes sample_usn) off r" "8 dvd off"
    using that by (auto elim!: dvdE)
  moreover have "plausible_record C (v2_bytes sample_usn) 0 r \<longleftrightarrow> r = v2_record C sample_usn" for r
    using v2_header [OF sample_usn_ok(1)] v2_reads [OF sample_usn_ok(1)] sample_usn_ok
    by (auto simp: plausible_record_def well_named_def in_era_def parse_v2_bytes Let_def)
      (simp_all add: sample_usn_def encode_utf16_def encode_char_def)
  ultimately show ?thesis
    by auto
qed

theorem carve_usn_records_exact_witness:
  "\<exists>st. carve_usn_records le_safe_read sample_chrono (v2_bytes sample_usn) =
     Ok ([\<lparr>cr_offset = 0, cr_record = v2_record sample_chrono sample_usn\<rparr>], st)"
proof -
  let ?D = "v2_bytes sample_usn" and ?r = "v2_record sample_chrono sample_usn"
  have "zero_on_oob le_safe_read"
    by (simp add: zero_on_oob_def le_safe_read_def)
  from carve_usn_records_exact [OF this, of sample_chrono ?D] obtain rs st where
    c: "carve_usn_records le_safe_read sample_chrono ?D = Ok (rs, st)"
    and g: "greedy (plausible_record sample_chrono ?D) (record_room ?D) 0 (map (\<lambda>c. (cr_offset c, cr_record c)) rs)"
    by blast
  have p: "plausible_record sample_chrono ?D 0 ?r" "0 < record_room ?D 0"
    using sample_usn_plausible [of sample_chrono 0 ?r] record_room_pos [of sample_chrono ?D 0 ?r] by auto
  have "off = 0" if "8 dvd off" "plausible_record sample_chrono ?D off r" for off r
    using sample_usn_plausible that by blast
  with p have "greedy (plausible_record sample_chrono ?D) (record_room ?D) 0 [(0, ?r)]"
    unfolding greedy_def by auto
  then have "map (\<lambda>c. (cr_offset c, cr_record c)) rs = [(0, ?r)]"
    by (rule greedy_unique [OF g]) (erule (1) plausible_unique, drule record_room_pos, simp)
  then have "rs = [\<lparr>cr_offset = 0, cr_record = ?r\<rparr>]"
    by (cases rs) (auto intro: carved_record.equality)
  with c show ?thesis by blast
qed

end
