(* ===== verification/Usn_Reader.thy ===== *)
theory Usn_Reader
  imports Usn_Carver Source
begin

text \<open>
  \<open>core/src/usn/reader.rs\<close>: the streaming iterator over a change journal, a state machine
  around a 64 KiB window of the source. The reads of the \<open>safe_read\<close> crate are the parameter
  \<open>S\<close>. The recursive calls of \<open>next\<close> are a loop over \<open>next_step\<close>.
\<close>

section \<open>Definitions\<close>

definition BUF_SIZE :: nat where
  "BUF_SIZE = 64 * 1024"

record 'r usn_journal_reader =
  ur_reader :: 'r
  ur_buf :: bytes
  ur_buf_len :: nat
  ur_buf_offset :: nat
  ur_stream_pos :: u64
  ur_total_size :: u64
  ur_done :: bool

definition usn_reader_new :: "'r host \<Rightarrow> 'r \<Rightarrow> 'r usn_journal_reader res" where
  "usn_reader_new H reader =
     (case io_seek H reader (SeekEnd 0) of
        (Ok total_size, r1) \<Rightarrow>
          (case io_seek H r1 (SeekStart 0) of
             (Ok _, r2) \<Rightarrow>
               Ok \<lparr>ur_reader = r2, ur_buf = replicate BUF_SIZE 0, ur_buf_len = 0, ur_buf_offset = 0,
                   ur_stream_pos = 0, ur_total_size = total_size, ur_done = False\<rparr>
           | (Err e, _) \<Rightarrow> Err e
           | (Panic, _) \<Rightarrow> Panic)
      | (Err e, _) \<Rightarrow> Err e
      | (Panic, _) \<Rightarrow> Panic)"

text \<open>The first half of \<open>fill_buffer\<close>: unconsumed bytes move to the front.\<close>

definition compact :: "'r usn_journal_reader \<Rightarrow> 'r usn_journal_reader res" where
  "compact s =
     (if ur_buf_offset s > 0 \<and> ur_buf_offset s < ur_buf_len s then
        let remaining = ur_buf_len s - ur_buf_offset s in
        and_then (slice (ur_buf s) (ur_buf_offset s) (ur_buf_len s)) (\<lambda>moved.
        Ok (s\<lparr>ur_buf := moved @ drop remaining (ur_buf s), ur_buf_len := remaining,
              ur_buf_offset := 0\<rparr>))
      else Ok (s\<lparr>ur_buf_len := 0, ur_buf_offset := 0\<rparr>))"

text \<open>
  The second half: one \<open>read\<close> into the free space. The count a reader returns is the length
  of what it delivered; the subtraction and the two additions panic when they overflow.
\<close>

definition refill :: "'r host \<Rightarrow> 'r usn_journal_reader \<Rightarrow> bool res \<times> 'r usn_journal_reader" where
  "refill H s =
     (if ur_buf_len s > BUF_SIZE then (Panic, s)
      else let space = BUF_SIZE - ur_buf_len s in
      if space > 0 then
        (case get_range (ur_buf s) (ur_buf_len s) (ur_buf_len s + space) of
           None \<Rightarrow> (Ok (ur_buf_len s > 0), s\<lparr>ur_done := True\<rparr>)
         | Some dst \<Rightarrow>
             (case io_read H (ur_reader s) space of
                (Ok bs, r') \<Rightarrow>
                  if length bs = 0 then (Ok (ur_buf_len s > 0), s\<lparr>ur_reader := r', ur_done := True\<rparr>)
                  else if unat (ur_stream_pos s) + length bs < 2 ^ 64
                  then (Ok True,
                    s\<lparr>ur_reader := r',
                      ur_buf := take (ur_buf_len s) (ur_buf s) @ take space (bs @ drop (length bs) dst) @
                                drop (ur_buf_len s + space) (ur_buf s),
                      ur_buf_len := ur_buf_len s + length bs,
                      ur_stream_pos := ur_stream_pos s + word_of_nat (length bs)\<rparr>)
                  else (Panic, s\<lparr>ur_reader := r'\<rparr>)
              | (Err e, r') \<Rightarrow> (Err e, s\<lparr>ur_reader := r'\<rparr>)
              | (Panic, r') \<Rightarrow> (Panic, s\<lparr>ur_reader := r'\<rparr>)))
      else (Ok True, s))"

definition fill_buffer :: "'r host \<Rightarrow> 'r usn_journal_reader \<Rightarrow> bool res \<times> 'r usn_journal_reader" where
  "fill_buffer H s =
     (if ur_stream_pos s \<ge> ur_total_size s then (Ok False, s\<lparr>ur_done := True\<rparr>)
      else case compact s of
        Ok s' \<Rightarrow> refill H s'
      | Err e \<Rightarrow> (Err e, s)
      | Panic \<Rightarrow> (Panic, s))"

text \<open>The inner \<open>while\<close> of \<open>skip_zeros\<close>: whether it stopped at a word that is not zero.\<close>

function skip_words :: "'r usn_journal_reader \<Rightarrow> bool \<times> 'r usn_journal_reader" where
  "skip_words s =
     (if ur_buf_offset s + 8 \<le> ur_buf_len s then
        if get_range (ur_buf s) (ur_buf_offset s) (ur_buf_offset s + 8) = Some [0, 0, 0, 0, 0, 0, 0, 0]
        then skip_words (s\<lparr>ur_buf_offset := ur_buf_offset s + 8\<rparr>)
        else (True, s)
      else (False, s))"
  by pat_completeness auto

termination skip_words
  by (relation "measure (\<lambda>s. ur_buf_len s - ur_buf_offset s)") auto

declare skip_words.simps [simp del]

text \<open>
  What bounds the loops: a reader that is not done has bytes of the source left to fetch,
  or bytes of the window left to look at.
\<close>

definition ahead :: "'r usn_journal_reader \<Rightarrow> nat" where
  "ahead s = unat (ur_total_size s) - unat (ur_stream_pos s)"

definition unread :: "'r usn_journal_reader \<Rightarrow> nat" where
  "unread s = ur_buf_len s - ur_buf_offset s"

definition alive :: "'r usn_journal_reader \<Rightarrow> nat" where
  "alive s = (if ur_done s then 0 else 1)"

definition reader_order :: "('r usn_journal_reader \<times> 'r usn_journal_reader) set" where
  "reader_order = measures [alive, ahead, unread, ur_buf_len]"

lemma skip_words_keeps:
  "skip_words s = (b, s') \<Longrightarrow> \<exists>k. s' = s\<lparr>ur_buf_offset := k\<rparr> \<and> ur_buf_offset s \<le> k \<and>
     (b \<longrightarrow> k + 8 \<le> ur_buf_len s)"
proof (induction s arbitrary: b s' rule: skip_words.induct)
  case (1 s)
  show ?case
  proof (cases "ur_buf_offset s + 8 \<le> ur_buf_len s \<and>
      get_range (ur_buf s) (ur_buf_offset s) (ur_buf_offset s + 8) = Some [0, 0, 0, 0, 0, 0, 0, 0]")
    case True
    then have "skip_words s = skip_words (s\<lparr>ur_buf_offset := ur_buf_offset s + 8\<rparr>)"
      by (subst skip_words.simps) simp
    with "1.prems" have "skip_words (s\<lparr>ur_buf_offset := ur_buf_offset s + 8\<rparr>) = (b, s')"
      by simp
    from "1.IH" [OF _ _ this] True show ?thesis
      by auto
  next
    case False
    then have "s' = s\<lparr>ur_buf_offset := ur_buf_offset s\<rparr> \<and> (b \<longrightarrow> ur_buf_offset s + 8 \<le> ur_buf_len s)"
      using "1.prems" by (subst (asm) skip_words.simps) (auto split: if_splits)
    then show ?thesis
      by blast
  qed
qed

lemma compact_keeps:
  "compact s = Ok s' \<Longrightarrow> ur_reader s' = ur_reader s \<and> ur_stream_pos s' = ur_stream_pos s \<and>
     ur_total_size s' = ur_total_size s \<and> ur_done s' = ur_done s \<and> ur_buf_offset s' = 0 \<and>
     (ur_buf_len s' \<noteq> 0 \<longrightarrow> ur_buf_len s' < ur_buf_len s \<and> ur_buf_len s \<le> length (ur_buf s)) \<and>
     ur_buf_len s' \<le> unread s"
  by (auto simp: compact_def Let_def res_inversions unread_def split: if_splits)

lemma refill_cases:
  assumes "refill H s = (r, s')" "r \<noteq> Panic" "\<not> ur_total_size s \<le> ur_stream_pos s"
  obtains (read) "r = Ok True" "ahead s' < ahead s" "ur_done s' = ur_done s"
    | (finished) b r' where "r = Ok b" "s' = s\<lparr>ur_reader := r', ur_done := True\<rparr>"
    | (full) "r = Ok True" "s' = s" "ur_buf_len s = BUF_SIZE"
    | (error) e r' where "r = Err e" "s' = s\<lparr>ur_reader := r'\<rparr>"
proof -
  have lt: "unat (ur_stream_pos s) < unat (ur_total_size s)"
    using assms(3) by (simp add: word_less_nat_alt not_le)
  have adv: "unat (ur_stream_pos s + word_of_nat n) = unat (ur_stream_pos s) + n"
    if "unat (ur_stream_pos s) + n < 2 ^ 64" for n
    using that by (intro unat_add_of_nat) simp
  consider (full) "ur_buf_len s = BUF_SIZE"
    | (space) "ur_buf_len s < BUF_SIZE" "get_range (ur_buf s) (ur_buf_len s) BUF_SIZE = None"
    | (dst) dst where "ur_buf_len s < BUF_SIZE" "get_range (ur_buf s) (ur_buf_len s) BUF_SIZE = Some dst"
    using assms(1,2) by (cases "get_range (ur_buf s) (ur_buf_len s) BUF_SIZE")
      (fastforce simp: refill_def split: if_splits)+
  then show thesis
  proof cases
    case full
    then show ?thesis
      using assms(1) that(3) by (simp add: refill_def)
  next
    case space
    then show ?thesis
      using assms(1) that(2) [of _ "ur_reader s"] by (auto simp: refill_def Let_def)
  next
    case dst
    obtain x r' where x: "io_read H (ur_reader s) (BUF_SIZE - ur_buf_len s) = (x, r')"
      by fastforce
    show ?thesis
    proof (cases x)
      case (Ok bs)
      show ?thesis
      proof (cases "bs = []")
        case True
        with dst x Ok assms(1) that(2) show ?thesis
          by (auto simp: refill_def Let_def)
      next
        case False
        with dst x Ok assms(1,2) have "unat (ur_stream_pos s) + length bs < 2 ^ 64"
          by (auto simp: refill_def Let_def split: if_splits)
        moreover have "0 < length bs"
          using False by simp
        ultimately have "r = Ok True" "ahead s' < ahead s" "ur_done s' = ur_done s"
          using False dst x Ok assms(1) lt adv by (auto simp: refill_def Let_def ahead_def intro!: diff_less_mono2)
        then show ?thesis
          by (rule that(1))
      qed
    next
      case (Err e)
      with dst x assms(1) that(4) show ?thesis
        by (auto simp: refill_def Let_def)
    next
      case Panic
      with dst x assms(1,2) show ?thesis
        by (simp add: refill_def Let_def)
    qed
  qed
qed

lemma reader_order_iff:
  "(s', s) \<in> reader_order \<longleftrightarrow> alive s' < alive s \<or> alive s' = alive s \<and>
     (ahead s' < ahead s \<or> ahead s' = ahead s \<and>
     (unread s' < unread s \<or> unread s' = unread s \<and> ur_buf_len s' < ur_buf_len s))"
  by (auto simp: reader_order_def)

lemma wf_reader_order [simp]: "wf reader_order"
  by (simp add: reader_order_def)

text \<open>A fill fetches, or ends the reader, or leaves at most what was unread, at the front.\<close>

lemma fill_buffer_progress:
  assumes "fill_buffer H s = (r, s')" "r \<noteq> Panic"
  shows "ur_done s' \<and> (r = Ok True \<longrightarrow> ahead s' = ahead s \<and> ur_buf_offset s' = 0 \<and> ur_buf_len s' \<le> unread s \<and>
           (ur_buf_len s' = 0 \<or> ur_buf_len s' < ur_buf_len s)) \<or>
    ur_done s' = ur_done s \<and> ahead s' < ahead s \<or>
    ur_done s' = ur_done s \<and> ahead s' = ahead s \<and> ur_buf_offset s' = 0 \<and> ur_buf_len s' \<le> unread s \<and>
      (r = Ok True \<longrightarrow> BUF_SIZE \<le> unread s)"
proof (cases "ur_total_size s \<le> ur_stream_pos s")
  case True
  with assms show ?thesis
    by (auto simp: fill_buffer_def)
next
  case False
  then obtain s1 where c: "compact s = Ok s1" and r: "refill H s1 = (r, s')"
    using assms by (auto simp: fill_buffer_def compact_def Let_def res_inversions split: if_splits res.splits)
  note k = compact_keeps [OF c]
  have a: "ahead s1 = ahead s"
    using k by (simp add: ahead_def)
  have lt: "\<not> ur_total_size s1 \<le> ur_stream_pos s1"
    using False k by simp
  from r assms(2) lt show ?thesis
  proof (cases rule: refill_cases)
    case (finished b r')
    then show ?thesis using k a by (auto simp: ahead_def)
  next
    case (error e r')
    then show ?thesis using k a by (auto simp: ahead_def)
  qed (use k a in auto)
qed

function skip_zeros :: "'r host \<Rightarrow> 'r usn_journal_reader \<Rightarrow> bool res \<times> 'r usn_journal_reader" where
  "skip_zeros H s =
     (case skip_words s of
        (True, s1) \<Rightarrow> (Ok True, s1)
      | (False, s1) \<Rightarrow>
          (case fill_buffer H s1 of
             (Ok b, s2) \<Rightarrow>
               if \<not> b then (Ok False, s2)
               else if ur_buf_len s2 = 0 then (Ok False, s2)
               else skip_zeros H s2
           | (Err e, s2) \<Rightarrow> (Err e, s2)
           | (Panic, s2) \<Rightarrow> (Panic, s2)))"
  by pat_completeness auto

lemma skip_words_order: "skip_words s = (b, s') \<Longrightarrow> s' = s \<or> unread s' \<le> unread s"
  by (auto dest!: skip_words_keeps simp: unread_def)

lemma skip_words_False: "skip_words s = (False, s') \<Longrightarrow> unread s' < 8"
proof (induction s rule: skip_words.induct)
  case (1 s)
  then show ?case
    by (subst (asm) (2) skip_words.simps) (auto simp: unread_def split: if_splits)
qed

lemma skip_zeros_order:
  assumes sw: "skip_words s = (False, s1)" and f: "fill_buffer H s1 = (Ok True, s2)"
    and nz: "ur_buf_len s2 \<noteq> 0"
  shows "(s2, s) \<in> reader_order"
proof -
  obtain k where k: "s1 = s\<lparr>ur_buf_offset := k\<rparr>" "ur_buf_offset s \<le> k"
    using skip_words_keeps [OF sw] by blast
  then have same: "ahead s1 = ahead s" "alive s1 = alive s" "unread s1 \<le> unread s" "ur_buf_len s1 = ur_buf_len s"
    by (auto simp: ahead_def alive_def unread_def)
  have "unread s1 < BUF_SIZE"
    using skip_words_False [OF sw] by (simp add: BUF_SIZE_def)
  with fill_buffer_progress [OF f] same nz show ?thesis
    by (auto simp: reader_order_iff alive_def unread_def)
qed

termination skip_zeros
  by (relation "inv_image reader_order snd") (auto intro: skip_zeros_order dest: sym)

declare skip_zeros.simps [simp del]

text \<open>One call of \<open>next\<close> up to its result or to the recursive call it makes.\<close>

datatype ('s, 'a) turn = Return "'a res option" 's | Again 's

abbreviation advance :: "nat \<Rightarrow> 'r usn_journal_reader \<Rightarrow> 'r usn_journal_reader" where
  "advance n s \<equiv> s\<lparr>ur_buf_offset := ur_buf_offset s + n\<rparr>"

definition usn_deliver :: "'s \<Rightarrow> 'a res \<Rightarrow> ('s, 'a) turn" where
  "usn_deliver s x =
     (case x of
        Ok r \<Rightarrow> Return (Some (Ok r)) s
      | Err _ \<Rightarrow> Again s
      | Panic \<Rightarrow> Return (Some Panic) s)"

definition parse_turn ::
  "safe_read \<Rightarrow> 'dt chrono \<Rightarrow> 'r usn_journal_reader \<Rightarrow> nat \<Rightarrow> ('r usn_journal_reader, 'dt usn_record) turn" where
  "parse_turn S C s record_len =
     (let version = sr_u16 S (ur_buf s) (ur_buf_offset s + 4) in
      case get_range (ur_buf s) (ur_buf_offset s) (ur_buf_offset s + record_len) of
        None \<Rightarrow> Again (advance 8 s)
      | Some record_data \<Rightarrow>
          let s' = advance (align8 record_len) s in
          if version = 2 then usn_deliver s' (parse_usn_record_v2 C record_data)
          else if version = 3 then usn_deliver s' (parse_usn_record_v3 C record_data)
          else Again s')"

definition record_turn ::
  "'r host \<Rightarrow> safe_read \<Rightarrow> 'dt chrono \<Rightarrow> 'r usn_journal_reader \<Rightarrow> ('r usn_journal_reader, 'dt usn_record) turn" where
  "record_turn H S C s =
     (let record_len = unat (sr_u32 S (ur_buf s) (ur_buf_offset s)) in
      if \<not> (8 \<le> record_len \<and> record_len \<le> 65536) then Again (advance 8 s)
      else if ur_buf_offset s + record_len > ur_buf_len s then
        (case fill_buffer H s of
           (Ok b, s') \<Rightarrow>
             if b \<and> ur_buf_offset s' + record_len \<le> ur_buf_len s' then parse_turn S C s' record_len
             else Again (advance 8 s')
         | (Err _, s') \<Rightarrow> Again (advance 8 s')
         | (Panic, s') \<Rightarrow> Return (Some Panic) s')
      else parse_turn S C s record_len)"

definition header_turn ::
  "'r host \<Rightarrow> safe_read \<Rightarrow> 'dt chrono \<Rightarrow> 'r usn_journal_reader \<Rightarrow> ('r usn_journal_reader, 'dt usn_record) turn" where
  "header_turn H S C s =
     (if ur_buf_offset s + 8 > ur_buf_len s then
        (case fill_buffer H s of
           (Ok b, s') \<Rightarrow>
             if b \<and> ur_buf_offset s' + 8 \<le> ur_buf_len s' then record_turn H S C s' else Return None s'
         | (Err _, s') \<Rightarrow> Return None s'
         | (Panic, s') \<Rightarrow> Return (Some Panic) s')
      else record_turn H S C s)"

definition next_step ::
  "'r host \<Rightarrow> safe_read \<Rightarrow> 'dt chrono \<Rightarrow> 'r usn_journal_reader \<Rightarrow> ('r usn_journal_reader, 'dt usn_record) turn" where
  "next_step H S C s =
     (if ur_done s then Return None s
      else case (if ur_buf_offset s \<ge> ur_buf_len s then fill_buffer H s else (Ok True, s)) of
        (Ok b, s1) \<Rightarrow>
          if \<not> b then Return None s1
          else (case skip_zeros H s1 of
                  (Ok b, s2) \<Rightarrow> if \<not> b then Return None s2 else header_turn H S C s2
                | (Err e, s2) \<Rightarrow> Return (Some (Err e)) s2
                | (Panic, s2) \<Rightarrow> Return (Some Panic) s2)
      | (Err e, s1) \<Rightarrow> Return (Some (Err e)) s1
      | (Panic, s1) \<Rightarrow> Return (Some Panic) s1)"

section \<open>Every call of \<open>next\<close> returns\<close>

lemma reader_order_trans: "(a, b) \<in> reader_order \<Longrightarrow> (b, c) \<in> reader_order \<Longrightarrow> (a, c) \<in> reader_order"
  by (auto simp: reader_order_iff)

lemma skip_zeros_True:
  "skip_zeros H s = (Ok True, s') \<Longrightarrow>
     ur_buf_offset s' + 8 \<le> ur_buf_len s' \<and> (s' = s \<or> (s', s) \<in> reader_order)"
proof (induction H s rule: skip_zeros.induct)
  case (1 H s)
  obtain b s1 where w: "skip_words s = (b, s1)"
    by fastforce
  show ?case
  proof (cases b)
    case True
    with w "1.prems" have "s1 = s'"
      by (subst (asm) skip_zeros.simps) simp
    with skip_words_keeps [OF w] True show ?thesis
      by (auto simp: reader_order_iff alive_def ahead_def unread_def)
  next
    case False
    obtain r s2 where f: "fill_buffer H s1 = (r, s2)"
      by fastforce
    with w False "1.prems" have r: "r = Ok True" "ur_buf_len s2 \<noteq> 0" "skip_zeros H s2 = (Ok True, s')"
      by (subst (asm) skip_zeros.simps, auto split: res.splits if_splits)+
    have "(s2, s) \<in> reader_order"
      using w f r(1,2) False by (auto intro: skip_zeros_order)
    moreover have "ur_buf_offset s' + 8 \<le> ur_buf_len s' \<and> (s' = s2 \<or> (s', s2) \<in> reader_order)"
      using "1.IH" [OF w [symmetric]] w f r False by auto
    ultimately show ?thesis
      by (auto intro: reader_order_trans)
  qed
qed

lemma parse_turn_Again:
  assumes "parse_turn S C s n = Again s'" "8 \<le> n"
  shows "\<exists>k \<ge> 8. s' = advance k s"
proof -
  have "s' = advance 8 s \<or> s' = advance (align8 n) s"
    using assms(1)
    by (auto simp: parse_turn_def usn_deliver_def Let_def split: option.splits if_splits res.splits)
  moreover have "8 \<le> align8 n"
    using align8_ge(1) [of n] assms(2) by linarith
  ultimately show ?thesis
    by blast
qed

lemma record_turn_progress:
  assumes "record_turn H S C s = Again s'" "ur_buf_offset s + 8 \<le> ur_buf_len s"
  shows "ur_done s' \<and> ur_done s \<or> (s', s) \<in> reader_order"
proof -
  let ?n = "unat (sr_u32 S (ur_buf s) (ur_buf_offset s))"
  have here: ?thesis if "s' = advance k s" "8 \<le> k" for k
    using that assms(2) by (auto simp: reader_order_iff alive_def ahead_def unread_def)
  have filled: ?thesis if "fill_buffer H s = (r, s1)" "r \<noteq> Panic" "s' = advance k s1" "8 \<le> k" for r s1 k
    using fill_buffer_progress [OF that(1,2)] that(3,4) assms(2)
    by (auto simp: reader_order_iff alive_def ahead_def unread_def)
  show ?thesis
  proof (cases "8 \<le> ?n \<and> ?n \<le> 65536 \<and> ur_buf_offset s + ?n > ur_buf_len s")
    case True
    obtain r s1 where f: "fill_buffer H s = (r, s1)"
      by fastforce
    with True assms(1) have "r \<noteq> Panic" "(\<exists>k \<ge> 8. s' = advance k s1)"
      by (auto simp: record_turn_def Let_def split: res.splits if_splits dest: parse_turn_Again)
    with filled [OF f] show ?thesis
      by blast
  next
    case False
    with assms(1) have "\<exists>k \<ge> 8. s' = advance k s"
      by (auto simp: record_turn_def Let_def split: if_splits dest: parse_turn_Again)
    with here show ?thesis
      by blast
  qed
qed

lemma next_step_progress:
  assumes "next_step H S C s = Again s'"
  shows "(s', s) \<in> reader_order"
proof -
  have live: "\<not> ur_done s"
    using assms by (auto simp: next_step_def)
  obtain r s1 where f: "(if ur_buf_offset s \<ge> ur_buf_len s then fill_buffer H s else (Ok True, s)) = (r, s1)"
    by fastforce
  obtain r2 s2 where z: "skip_zeros H s1 = (r2, s2)"
    by fastforce
  have r: "r = Ok True" "r2 = Ok True" and h: "header_turn H S C s2 = Again s'"
    using assms live f z by (auto simp: next_step_def split: res.splits if_splits)
  have s1: "s1 = s \<or> (s1, s) \<in> reader_order"
  proof (cases "ur_buf_offset s \<ge> ur_buf_len s")
    case True
    with f r have "fill_buffer H s = (Ok True, s1)"
      by simp
    from fill_buffer_progress [OF this] live True show ?thesis
      by (auto simp: reader_order_iff alive_def unread_def BUF_SIZE_def)
  qed (use f in simp)
  have s2: "ur_buf_offset s2 + 8 \<le> ur_buf_len s2" "s2 = s1 \<or> (s2, s1) \<in> reader_order"
    using skip_zeros_True z r by auto
  then have "record_turn H S C s2 = Again s'"
    using h by (simp add: header_turn_def)
  from record_turn_progress [OF this s2(1)] show ?thesis
  proof
    assume "ur_done s' \<and> ur_done s2"
    with live show ?thesis
      by (simp add: reader_order_iff alive_def)
  qed (use s1 s2(2) reader_order_trans in blast)
qed

function usn_next ::
  "'r host \<Rightarrow> safe_read \<Rightarrow> 'dt chrono \<Rightarrow> 'r usn_journal_reader \<Rightarrow>
   'dt usn_record res option \<times> 'r usn_journal_reader" where
  "usn_next H S C s =
     (case next_step H S C s of
        Return x s' \<Rightarrow> (x, s')
      | Again s' \<Rightarrow> usn_next H S C s')"
  by pat_completeness auto

termination usn_next
  by (relation "inv_image reader_order (\<lambda>(H, S, C, s). s)") (auto intro: next_step_progress)

declare usn_next.simps [simp del]

section \<open>Journals as the writer leaves them\<close>

lemma scan_nonzero_gap:
  "scan_nonzero (pre @ replicate (8 * n) 0 @ post) (length pre) =
   scan_nonzero (pre @ replicate (8 * n) 0 @ post) (length pre + 8 * n)"
proof (induction n arbitrary: pre)
  case 0
  then show ?case by simp
next
  case (Suc n)
  let ?d = "pre @ replicate (8 * Suc n) 0 @ post"
  have split: "?d = (pre @ replicate 8 0) @ replicate (8 * n) 0 @ post"
    by (simp add: replicate_add)
  have "scan_nonzero ?d (length pre) = scan_nonzero ?d (length pre + 8)"
    by (subst scan_nonzero.simps) (simp add: replicate_add)
  also have "\<dots> = scan_nonzero ?d (length pre + 8 * Suc n)"
    using Suc.IH [of "pre @ replicate 8 0"] unfolding split by (simp add: algebra_simps)
  finally show ?case .
qed

lemma items_aligned: "list_all item_ok items \<Longrightarrow> 8 dvd length (concat (map item_bytes items))"
proof (induction items)
  case (Cons i items)
  have "8 dvd length (item_bytes i)"
    using Cons.prems align8_ge(3) by (cases i) auto
  with Cons show ?case
    by simp
qed simp

lemma item_at:
  fixes pre post :: bytes
  assumes "item_ok (Rec s pad)"
  shows "\<exists>r. item_records C (Rec s pad) = [r] \<and>
    le_u32 (pre @ s @ pad @ post) (length pre) = le_u32 s 0 \<and>
    scan_nonzero (pre @ s @ pad @ post) (length pre) = Some (length pre) \<and>
    (let D = pre @ s @ pad @ post; q = length pre; n = unat (le_u32 D q) in
      60 \<le> n \<and> n \<le> 65536 \<and> q + align8 n \<le> length D \<and>
      (le_u16 D (q + 4) = 2 \<and> parse_usn_record_v2 C (take n (drop q D)) = Ok r \<or>
       le_u16 D (q + 4) = 3 \<and> parse_usn_record_v3 C (take n (drop q D)) = Ok r))"
proof -
  let ?d = "pre @ s @ pad @ post"
  have len: "60 \<le> length s" "length s \<le> 65536" "unat (le_u32 s 0) = length s"
    and al: "length s + length pad = align8 (length s)"
    using assms by auto
  have u32: "le_u32 ?d (length pre) = le_u32 s 0" and u16: "le_u16 ?d (length pre + 4) = le_u16 s 4"
    using len by (simp_all add: le_u32_def le_u16_def get_range_def)
  have "take 8 (drop (length pre) ?d) \<noteq> replicate 8 0"
  proof
    assume "take 8 (drop (length pre) ?d) = replicate 8 0"
    then have "take 4 (take 8 (drop (length pre) ?d)) = take 4 (replicate 8 0)"
      by (rule arg_cong)
    moreover have "take 4 (take 8 xs) = take 4 xs" for xs :: bytes
      by simp
    moreover have "take 4 (replicate 8 (0 :: u8)) = [0, 0, 0, 0]"
      by (simp add: numeral_eq_Suc)
    ultimately have "take 4 (drop (length pre) ?d) = [0, 0, 0, 0]"
      by (simp only:)
    then have "le_u32 ?d (length pre) = 0"
      using len by (simp add: le_u32_def get_range_def from_le_bytes_def)
    with u32 len show False by simp
  qed
  then have z: "scan_nonzero ?d (length pre) = Some (length pre)"
    using len by (subst scan_nonzero.simps) simp
  show ?thesis
  proof (cases "le_u16 s 4 = 2")
    case True
    then show ?thesis
      using v2.accepts [of s C] len al z by (auto simp: u32 u16 Let_def)
  next
    case False
    then have "le_u16 s 4 = 3" "76 \<le> length s"
      using assms by auto
    then show ?thesis
      using v3.accepts [of s C] len al z by (auto simp: u32 u16 Let_def)
  qed
qed

text \<open>The results of \<open>k\<close> calls of \<open>next\<close> in a row.\<close>

fun usn_run ::
  "'r host \<Rightarrow> safe_read \<Rightarrow> 'dt chrono \<Rightarrow> nat \<Rightarrow> 'r usn_journal_reader \<Rightarrow> 'dt usn_record res option list" where
  "usn_run H S C 0 s = []"
| "usn_run H S C (Suc k) s = (case usn_next H S C s of (x, s') \<Rightarrow> x # usn_run H S C k s')"

lemma usn_run_done: "ur_done s \<Longrightarrow> usn_run H S C k s = replicate k None"
proof (induction k)
  case (Suc k)
  then have "usn_next H S C s = (None, s)"
    by (subst usn_next.simps) (simp add: next_step_def)
  with Suc show ?case by simp
qed simp

section \<open>The window over a source whose reads are not short\<close>

text \<open>
  A source that delivers as many bytes as were asked for, up to its end, as an in-memory
  cursor and a regular file do. Under it the window of the reader always is a range of the
  journal: \<open>window_ok D p s\<close> says that the next byte the iterator looks at is byte \<open>p\<close> of
  \<open>D\<close>, that the window agrees with \<open>D\<close> from there, and that it is full or reaches the end.
\<close>

locale full_medium = medium H good disk at
  for H :: "'r host" and good :: "'r \<Rightarrow> bool" and disk :: "'r \<Rightarrow> bytes" and at :: "'r \<Rightarrow> nat" +
  assumes read_full: "good r \<Longrightarrow> \<exists>r'. io_read H r n = (Ok (take n (drop (at r) (disk r))), r') \<and> good r' \<and>
      disk r' = disk r \<and> at r' = at r + length (take n (drop (at r) (disk r)))"
    and seek_end: "good r \<Longrightarrow> \<exists>r'. io_seek H r (SeekEnd 0) = (Ok (word_of_nat (length (disk r))), r') \<and>
      good r' \<and> disk r' = disk r"
    and small: "good r \<Longrightarrow> length (disk r) < 2 ^ 63"
begin

definition window_ok :: "bytes \<Rightarrow> nat \<Rightarrow> 'r usn_journal_reader \<Rightarrow> bool" where
  "window_ok D p s \<longleftrightarrow>
     good (ur_reader s) \<and> disk (ur_reader s) = D \<and> at (ur_reader s) = unat (ur_stream_pos s) \<and>
     unat (ur_total_size s) = length D \<and> length (ur_buf s) = BUF_SIZE \<and> \<not> ur_done s \<and>
     ur_buf_offset s \<le> ur_buf_len s \<and> ur_buf_len s \<le> BUF_SIZE \<and> ur_buf_offset s \<le> p \<and>
     unat (ur_stream_pos s) = p - ur_buf_offset s + ur_buf_len s \<and> unat (ur_stream_pos s) \<le> length D \<and>
     take (ur_buf_len s) (ur_buf s) = take (ur_buf_len s) (drop (p - ur_buf_offset s) D) \<and>
     8 dvd ur_buf_offset s \<and> 8 dvd ur_buf_len s \<and> 8 dvd p \<and> 8 dvd length D \<and>
     (unat (ur_stream_pos s) = length D \<or> ur_buf_len s = 0 \<or> ur_buf_len s = BUF_SIZE)"

lemma window_bytes:
  assumes "window_ok D p s" "i \<le> j" "ur_buf_offset s + j \<le> ur_buf_len s"
  shows "get_range (ur_buf s) (ur_buf_offset s + i) (ur_buf_offset s + j) = get_range D (p + i) (p + j)"
proof -
  let ?o = "ur_buf_offset s" and ?l = "ur_buf_len s"
  have w: "take ?l (ur_buf s) = take ?l (drop (p - ?o) D)" "?o \<le> p" "length (ur_buf s) = BUF_SIZE"
    "?l \<le> BUF_SIZE" "p - ?o + ?l \<le> length D"
    using assms(1) by (auto simp: window_ok_def)
  have "take (j - i) (drop (?o + i) (ur_buf s)) = take (j - i) (drop (?o + i) (take ?l (ur_buf s)))"
    using assms(2,3) by (simp add: drop_take min_absorb1)
  also have "\<dots> = take (j - i) (drop (p + i) D)"
    unfolding w(1) using assms(2,3) w(2) by (simp add: drop_take min_absorb1 add.commute add.left_commute)
  finally show ?thesis
    using assms(2,3) w by (simp add: get_range_def)
qed

lemma compact_window:
  assumes "window_ok D p s" "0 < ur_buf_offset s \<or> ur_buf_len s = 0"
  shows "\<exists>buf. compact s = Ok (s\<lparr>ur_buf := buf, ur_buf_len := unread s, ur_buf_offset := 0\<rparr>) \<and>
    length buf = BUF_SIZE \<and> take (unread s) buf = take (unread s) (drop p D)"
proof (cases "0 < ur_buf_offset s \<and> ur_buf_offset s < ur_buf_len s")
  case True
  let ?o = "ur_buf_offset s" and ?l = "ur_buf_len s"
  have len: "?l \<le> length (ur_buf s)" "length (ur_buf s) = BUF_SIZE" "p + unread s \<le> length D"
    using assms(1) by (auto simp: window_ok_def unread_def)
  have moved: "take (unread s) (drop ?o (ur_buf s)) = take (unread s) (drop p D)"
    using window_bytes [OF assms(1), of 0 "unread s"] True len
    by (auto simp: get_range_def unread_def split: if_splits)
  have "compact s = Ok (s\<lparr>ur_buf := take (unread s) (drop p D) @ drop (unread s) (ur_buf s),
      ur_buf_len := unread s, ur_buf_offset := 0\<rparr>)"
    using True len moved by (simp add: compact_def unread_def Let_def)
  moreover have "length (take (unread s) (drop p D)) = unread s"
    using len by simp
  ultimately show ?thesis
    using len True by (auto simp: unread_def)
next
  case False
  then have "unread s = 0" "compact s = Ok (s\<lparr>ur_buf_len := 0, ur_buf_offset := 0\<rparr>)"
    using assms by (auto simp: window_ok_def unread_def compact_def)
  then show ?thesis
    using assms(1) by (intro exI [of _ "ur_buf s"]) (simp add: window_ok_def)
qed

lemma fill_buffer_window:
  assumes "window_ok D p s" "0 < ur_buf_offset s \<or> ur_buf_len s = 0" "unat (ur_stream_pos s) < length D"
  shows "\<exists>s'. fill_buffer H s = (Ok True, s') \<and> window_ok D p s' \<and> ur_buf_offset s' = 0 \<and>
    ur_buf_len s' = min BUF_SIZE (length D - p)"
proof -
  define u sp space bs where "u = unread s" and "sp = unat (ur_stream_pos s)" and "space = BUF_SIZE - u"
    and "bs = take space (drop sp D)"
  obtain buf where c: "compact s = Ok (s\<lparr>ur_buf := buf, ur_buf_len := u, ur_buf_offset := 0\<rparr>)"
      and buf: "length buf = BUF_SIZE" "take u buf = take u (drop p D)"
    using compact_window [OF assms(1,2)] unfolding u_def by blast
  have w: "good (ur_reader s)" "disk (ur_reader s) = D" "at (ur_reader s) = sp" "\<not> ur_done s"
    "unat (ur_total_size s) = length D" "sp = p + u" "8 dvd p" "8 dvd length D"
    using assms(1) by (auto simp: window_ok_def unread_def u_def sp_def)
  have u: "u < BUF_SIZE"
    using assms by (auto simp: window_ok_def unread_def BUF_SIZE_def u_def)
  obtain r' where rd: "io_read H (ur_reader s) space = (Ok bs, r')" "good r'" "disk r' = D"
      "at r' = sp + length bs"
    using read_full [OF w(1), of space] w unfolding bs_def by auto
  have len: "length bs = min space (length D - sp)" "0 < length bs" "length bs \<le> space"
    using assms(3) u by (auto simp: bs_def space_def sp_def)
  have small': "unat (ur_stream_pos s) + length bs < 2 ^ 64"
    using small [OF w(1)] w(2) len assms(3) by (simp add: sp_def)
  have sp': "unat (ur_stream_pos s + word_of_nat (length bs)) = sp + length bs"
    using small' by (subst unat_add_of_nat) (simp_all add: sp_def)
  define buf' where "buf' = take u buf @ take space (bs @ drop (length bs) (drop u buf))"
  let ?s' = "s\<lparr>ur_reader := r', ur_buf := buf', ur_buf_offset := 0, ur_buf_len := u + length bs,
      ur_stream_pos := ur_stream_pos s + word_of_nat (length bs)\<rparr>"
  have g: "get_range buf u (u + space) = Some (drop u buf)" "drop (u + space) buf = []"
    using buf(1) u by (simp_all add: get_range_def space_def)
  have lt: "\<not> ur_total_size s \<le> ur_stream_pos s"
    using assms(3) w(5) by (simp add: word_le_nat_alt)
  have pos: "0 < space"
    using u by (simp add: space_def)
  have "fill_buffer H s = (Ok True, ?s')"
    unfolding fill_buffer_def refill_def
    using pos lt c g u rd(1) len(2) small' by (simp add: Let_def buf'_def flip: space_def)
  moreover have more: "sp < length D"
    using assms(3) by (simp add: sp_def)
  then have total: "u + length bs = min BUF_SIZE (length D - p)"
    using len(1) w(6) u by (auto simp: space_def min_def)
  moreover have "window_ok D p ?s'"
  proof -
    have l1: "length (take u buf) = u"
      using buf(1) u by simp
    have "take (u + length bs) buf' = take u buf @ bs"
      using l1 len(3) by (simp add: buf'_def min_absorb1)
    also have "\<dots> = take (u + length bs) (drop p D)"
    proof -
      have "take (length bs) (drop sp D) = bs"
        unfolding bs_def by (simp add: min_def)
      then show ?thesis
        using w(6) by (simp add: buf(2) take_add add.commute)
    qed
    finally have "take (u + length bs) buf' = take (u + length bs) (drop p D)" .
    moreover have "length buf' = BUF_SIZE"
      using l1 buf(1) u len(3) by (simp add: buf'_def space_def)
    moreover have "8 dvd u + length bs"
      unfolding total using w(7,8) by (auto simp: min_def BUF_SIZE_def)
    moreover have "sp + length bs = length D \<or> u + length bs = BUF_SIZE"
      using len(1) w(6) u more by (auto simp: space_def min_def)
    moreover have "sp + length bs \<le> length D"
      using len(1) more by simp
    ultimately show ?thesis
      using w rd sp' total by (auto simp: window_ok_def)
  qed
  ultimately show ?thesis
    by auto
qed

lemma fill_buffer_at_end:
  assumes "window_ok D p s" "unat (ur_stream_pos s) = length D"
  shows "fill_buffer H s = (Ok False, s\<lparr>ur_done := True\<rparr>)"
proof -
  have "ur_total_size s \<le> ur_stream_pos s"
    using assms by (simp add: window_ok_def word_le_nat_alt)
  then show ?thesis
    by (simp add: fill_buffer_def)
qed

text \<open>Skipping zero words moves to the first word that is not zero, as the bulk parser does.\<close>

lemma zeros8: "[0, 0, 0, 0, 0, 0, 0, 0] = replicate 8 (0 :: u8)"
  by (simp add: numeral_eq_Suc)

lemma window_step:
  assumes "window_ok D p s" "8 dvd k" "ur_buf_offset s + k \<le> ur_buf_len s"
  shows "window_ok D (p + k) (advance k s)"
  using assms by (auto simp: window_ok_def)

lemma skip_words_window:
  assumes "window_ok D p s"
  shows "\<exists>b s' q. skip_words s = (b, s') \<and> window_ok D q s' \<and> scan_nonzero D p = scan_nonzero D q \<and>
    (if b then ur_buf_offset s' + 8 \<le> ur_buf_len s' \<and> scan_nonzero D q = Some q
     else ur_buf_offset s' = ur_buf_len s')"
  using assms
proof (induction s arbitrary: p rule: skip_words.induct)
  case (1 s)
  let ?o = "ur_buf_offset s"
  show ?case
  proof (cases "?o + 8 \<le> ur_buf_len s")
    case True
    then have g: "get_range (ur_buf s) ?o (?o + 8) = get_range D p (p + 8)"
      using window_bytes [OF "1.prems", of 0 8] by simp
    have inD: "p + 8 \<le> length D"
      using "1.prems" True by (auto simp: window_ok_def)
    show ?thesis
    proof (cases "get_range D p (p + 8) = Some [0, 0, 0, 0, 0, 0, 0, 0]")
      case zero: True
      have "scan_nonzero D p = scan_nonzero D (p + 8)"
        using zero inD by (subst scan_nonzero.simps) (simp add: get_range_def zeros8)
      moreover have "skip_words s = skip_words (advance 8 s)"
        using True zero g by (subst skip_words.simps) simp
      ultimately show ?thesis
        using "1.IH" [OF True _ window_step [OF "1.prems" _ True]] zero g by simp
    next
      case False
      then have "skip_words s = (True, s)"
        using True g by (subst skip_words.simps) simp
      moreover have "scan_nonzero D p = Some p"
        using False inD by (subst scan_nonzero.simps) (simp add: get_range_def zeros8)
      ultimately show ?thesis
        using "1.prems" True by (intro exI [of _ True] exI [of _ s] exI [of _ p]) simp
    qed
  next
    case False
    obtain k where "ur_buf_len s - ?o = 8 * k" and le: "?o \<le> ur_buf_len s"
      using "1.prems" by (auto simp: window_ok_def dvd_def diff_mult_distrib2 [symmetric])
    with False have "k = 0"
      by linarith
    with \<open>ur_buf_len s - ?o = 8 * k\<close> le have "?o = ur_buf_len s"
      by linarith
    moreover have "skip_words s = (False, s)"
      using False by (subst skip_words.simps) simp
    ultimately show ?thesis
      using "1.prems" by (intro exI [of _ False] exI [of _ s] exI [of _ p]) simp
  qed
qed

lemma skip_zeros_window:
  assumes "window_ok D p s"
  shows "\<exists>s'. (case scan_nonzero D p of
      None \<Rightarrow> skip_zeros H s = (Ok False, s') \<and> ur_done s'
    | Some q \<Rightarrow> skip_zeros H s = (Ok True, s') \<and> window_ok D q s' \<and> ur_buf_offset s' + 8 \<le> ur_buf_len s')"
  using assms
proof (induction "(s, s)" arbitrary: s p rule: wf_induct_rule [OF wf_inv_image [OF wf_reader_order, of fst]])
  case (1 s)
  obtain b s1 q where w: "skip_words s = (b, s1)" "window_ok D q s1" "scan_nonzero D p = scan_nonzero D q"
      "if b then ur_buf_offset s1 + 8 \<le> ur_buf_len s1 \<and> scan_nonzero D q = Some q
       else ur_buf_offset s1 = ur_buf_len s1"
    using skip_words_window [OF "1.prems"] by blast
  show ?case
  proof (cases b)
    case True
    with w have "skip_zeros H s = (Ok True, s1)"
      by (subst skip_zeros.simps) simp
    with w True show ?thesis
      by auto
  next
    case empty: False
    then have e: "ur_buf_offset s1 = ur_buf_len s1" "q = unat (ur_stream_pos s1)"
      using w by (auto simp: window_ok_def)
    show ?thesis
    proof (cases "unat (ur_stream_pos s1) = length D")
      case True
      have "skip_zeros H s = (Ok False, s1\<lparr>ur_done := True\<rparr>)"
        using w(1) empty fill_buffer_at_end [OF w(2) True] by (subst skip_zeros.simps) simp
      moreover have "scan_nonzero D q = None"
        using e True by (subst scan_nonzero.simps) simp
      ultimately show ?thesis
        using w(3) by auto
    next
      case False
      moreover have "unat (ur_stream_pos s1) \<le> length D"
        using w(2) unfolding window_ok_def by blast
      ultimately have more: "unat (ur_stream_pos s1) < length D"
        by linarith
      obtain s2 where f: "fill_buffer H s1 = (Ok True, s2)" "window_ok D q s2"
          "ur_buf_len s2 = min BUF_SIZE (length D - q)"
        using fill_buffer_window [OF w(2) _ more] e(1) by auto
      have nz: "ur_buf_len s2 \<noteq> 0"
        using f(3) e(2) more by (simp add: BUF_SIZE_def)
      have eq: "skip_zeros H s = skip_zeros H s2"
        using w(1) empty f(1) nz by (subst skip_zeros.simps) simp
      have "(s2, s) \<in> reader_order"
        using w(1) empty f(1) nz by (auto intro: skip_zeros_order)
      then show ?thesis
        unfolding eq w(3) using "1.hyps" [of s2 q] f(2) by simp
    qed
  qed
qed

lemma align8_le: "n \<le> m \<Longrightarrow> 8 dvd m \<Longrightarrow> align8 n \<le> m"
proof -
  assume "n \<le> m" "8 dvd m"
  then obtain k where m: "m = 8 * k" and le: "n + 7 \<le> 8 * k + 7"
    by (auto elim: dvdE)
  have "(n + 7) div 8 \<le> (8 * k + 7) div 8"
    using le by (rule div_le_mono)
  then show ?thesis
    by (simp add: align8_def m)
qed

text \<open>A record at the position the zero scan stops at is delivered, wherever the window ends.\<close>

definition journal_record :: "'dt chrono \<Rightarrow> bytes \<Rightarrow> nat \<Rightarrow> 'dt usn_record \<Rightarrow> bool" where
  "journal_record C D q r \<longleftrightarrow>
     (let n = unat (le_u32 D q) in
      60 \<le> n \<and> n \<le> 65536 \<and> q + align8 n \<le> length D \<and>
      (le_u16 D (q + 4) = 2 \<and> parse_usn_record_v2 C (take n (drop q D)) = Ok r \<or>
       le_u16 D (q + 4) = 3 \<and> parse_usn_record_v3 C (take n (drop q D)) = Ok r))"

lemma parse_turn_window:
  assumes "window_ok D q s" "zero_on_oob S" "journal_record C D q r"
    "ur_buf_offset s + unat (le_u32 D q) \<le> ur_buf_len s"
  shows "parse_turn S C s (unat (le_u32 D q)) = Return (Some (Ok r)) (advance (align8 (unat (le_u32 D q))) s) \<and>
    window_ok D (q + align8 (unat (le_u32 D q))) (advance (align8 (unat (le_u32 D q))) s)"
proof -
  let ?n = "unat (le_u32 D q)"
  have n: "60 \<le> ?n" "q + ?n \<le> length D"
    using assms(3) align8_ge(1) [of ?n] unfolding journal_record_def Let_def by linarith+
  have g: "get_range (ur_buf s) (ur_buf_offset s) (ur_buf_offset s + ?n) = Some (take ?n (drop q D))"
    using window_bytes [OF assms(1), of 0 ?n] assms(4) n by (simp add: get_range_def)
  have "get_range (ur_buf s) (ur_buf_offset s + 4) (ur_buf_offset s + 6) = get_range D (q + 4) (q + 6)"
    using window_bytes [OF assms(1), of 4 6] assms(4) n by simp
  then have v: "sr_u16 S (ur_buf s) (ur_buf_offset s + 4) = le_u16 D (q + 4)"
    using assms(2) by (simp add: zero_on_oob_def le_u16_def add.commute)
  have "parse_turn S C s ?n = Return (Some (Ok r)) (advance (align8 ?n) s)"
    using assms(3) g v unfolding parse_turn_def Let_def journal_record_def usn_deliver_def by auto
  moreover have "window_ok D (q + align8 ?n) (advance (align8 ?n) s)"
  proof (rule window_step [OF assms(1) align8_ge(3)])
    have "8 dvd ur_buf_len s - ur_buf_offset s" "ur_buf_offset s \<le> ur_buf_len s"
      using assms(1) by (auto simp: window_ok_def dvd_diff_nat)
    then have "align8 ?n \<le> ur_buf_len s - ur_buf_offset s"
      using assms(4) by (intro align8_le) linarith+
    then show "ur_buf_offset s + align8 ?n \<le> ur_buf_len s"
      using assms(4) by linarith
  qed
  ultimately show ?thesis
    by blast
qed

lemma record_turn_window:
  assumes "window_ok D q s" "zero_on_oob S" "journal_record C D q r" "ur_buf_offset s + 8 \<le> ur_buf_len s"
  shows "\<exists>s'. record_turn H S C s = Return (Some (Ok r)) s' \<and> window_ok D (q + align8 (unat (le_u32 D q))) s'"
proof -
  let ?n = "unat (le_u32 D q)" and ?o = "ur_buf_offset s"
  have n: "8 \<le> ?n" "?n \<le> 65536" "q + ?n \<le> length D"
    using assms(3) align8_ge(1) [of ?n] unfolding journal_record_def Let_def by linarith+
  have "get_range (ur_buf s) ?o (?o + 4) = get_range D q (q + 4)"
    using window_bytes [OF assms(1), of 0 4] assms(4) by simp
  then have len: "sr_u32 S (ur_buf s) ?o = le_u32 D q"
    using assms(2) by (simp add: zero_on_oob_def le_u32_def)
  show ?thesis
  proof (cases "?o + ?n \<le> ur_buf_len s")
    case True
    then show ?thesis
      using parse_turn_window [OF assms(1-3) True] n len by (simp add: record_turn_def)
  next
    case False
    have w: "?o \<le> q" "unat (ur_stream_pos s) = q - ?o + ur_buf_len s" "unat (ur_stream_pos s) \<le> length D"
      "unat (ur_stream_pos s) = length D \<or> ur_buf_len s = 0 \<or> ur_buf_len s = BUF_SIZE"
      using assms(1) unfolding window_ok_def by blast+
    have "unat (ur_stream_pos s) < length D"
      using w(1,2) n(3) False by linarith
    moreover have "0 < ?o"
      using w(4) calculation False n(2) assms(4) by (auto simp: BUF_SIZE_def)
    ultimately obtain s1 where f: "fill_buffer H s = (Ok True, s1)" "window_ok D q s1" "ur_buf_offset s1 = 0"
        "ur_buf_len s1 = min BUF_SIZE (length D - q)"
      using fill_buffer_window [OF assms(1)] by blast
    have fits: "ur_buf_offset s1 + ?n \<le> ur_buf_len s1"
      using f(3,4) n by (simp add: BUF_SIZE_def)
    show ?thesis
      using parse_turn_window [OF f(2) assms(2,3) fits] n len False f(1) fits by (simp add: record_turn_def)
  qed
qed

lemma usn_next_window:
  assumes "window_ok D p s" "zero_on_oob S"
  shows "scan_nonzero D p = None \<Longrightarrow> \<exists>s'. usn_next H S C s = (None, s') \<and> ur_done s'"
    and "\<lbrakk>scan_nonzero D p = Some q; journal_record C D q r\<rbrakk> \<Longrightarrow>
      \<exists>s'. usn_next H S C s = (Some (Ok r), s') \<and> window_ok D (q + align8 (unat (le_u32 D q))) s'"
proof -
  have live: "\<not> ur_done s"
    using assms(1) by (simp add: window_ok_def)
  let ?fill = "if ur_buf_offset s \<ge> ur_buf_len s then fill_buffer H s else (Ok True, s)"
  consider (stop) "?fill = (Ok False, s\<lparr>ur_done := True\<rparr>)" "scan_nonzero D p = None"
    | (more) s1 where "?fill = (Ok True, s1)" "window_ok D p s1"
  proof (cases "ur_buf_offset s \<ge> ur_buf_len s")
    case True
    have w: "ur_buf_offset s \<le> ur_buf_len s" "ur_buf_offset s \<le> p"
      "unat (ur_stream_pos s) = p - ur_buf_offset s + ur_buf_len s" "unat (ur_stream_pos s) \<le> length D"
      using assms(1) unfolding window_ok_def by blast+
    show ?thesis
    proof (cases "unat (ur_stream_pos s) = length D")
      case stop: True
      have "scan_nonzero D p = None"
        using w True stop by (subst scan_nonzero.simps) simp
      with True that(1) fill_buffer_at_end [OF assms(1) stop] show ?thesis
        by simp
    next
      case False
      then have "unat (ur_stream_pos s) < length D" "0 < ur_buf_offset s \<or> ur_buf_len s = 0"
        using w True by linarith+
      with True that(2) fill_buffer_window [OF assms(1)] show ?thesis
        by auto
    qed
  next
    case False
    then show ?thesis
      using assms(1) that(2) by simp
  qed
  note cs = this
  show "\<exists>s'. usn_next H S C s = (None, s') \<and> ur_done s'" if none: "scan_nonzero D p = None"
    using cs
  proof cases
    case stop
    with live show ?thesis
      by (subst usn_next.simps) (simp add: next_step_def)
  next
    case more
    from skip_zeros_window [OF more(2)] none obtain s2 where "skip_zeros H s1 = (Ok False, s2)" "ur_done s2"
      by auto
    with live more show ?thesis
      by (subst usn_next.simps) (simp add: next_step_def)
  qed
  show "\<exists>s'. usn_next H S C s = (Some (Ok r), s') \<and> window_ok D (q + align8 (unat (le_u32 D q))) s'"
    if some: "scan_nonzero D p = Some q" and rec: "journal_record C D q r"
    using cs
  proof cases
    case stop
    with some show ?thesis by simp
  next
    case more
    from skip_zeros_window [OF more(2)] some obtain s2 where z: "skip_zeros H s1 = (Ok True, s2)"
        "window_ok D q s2" "ur_buf_offset s2 + 8 \<le> ur_buf_len s2"
      by auto
    from record_turn_window [OF z(2) assms(2) rec z(3)] live more z show ?thesis
      by (subst usn_next.simps) (auto simp: next_step_def header_turn_def)
  qed
qed

lemma usn_reader_new_window:
  assumes "good r" "8 dvd length (disk r)"
  shows "\<exists>s. usn_reader_new H r = Ok s \<and> window_ok (disk r) 0 s"
proof -
  obtain r1 where r1: "io_seek H r (SeekEnd 0) = (Ok (word_of_nat (length (disk r))), r1)" "good r1"
      "disk r1 = disk r"
    using seek_end [OF assms(1)] by blast
  obtain r2 where r2: "io_seek H r1 (SeekStart 0) = (Ok 0, r2)" "good r2" "disk r2 = disk r1" "at r2 = 0"
    using seek_start [OF r1(2), of 0] by auto
  have "unat (word_of_nat (length (disk r)) :: u64) = length (disk r)"
    using small [OF assms(1)] by (simp add: unat_of_nat)
  with r1 r2 assms(2) show ?thesis
    by (simp add: usn_reader_new_def window_ok_def)
qed

lemma usn_run_items:
  assumes "list_all item_ok items" "zero_on_oob S" "D = pre @ concat (map item_bytes items)"
    "window_ok D p s" "scan_nonzero D p = scan_nonzero D (length pre)"
  shows "usn_run H S C (length (concat (map (item_records C) items)) + k) s =
    map (\<lambda>r. Some (Ok r)) (concat (map (item_records C) items)) @ replicate k None"
  using assms
proof (induction items arbitrary: pre p s)
  case Nil
  have "scan_nonzero D (length pre) = None"
    using Nil.prems(3) by (subst scan_nonzero.simps) simp
  with Nil.prems(5) have "scan_nonzero D p = None"
    by (rule trans)
  then obtain s' where n: "usn_next H S C s = (None, s')" "ur_done s'"
    using usn_next_window(1) [OF Nil.prems(4,2)] by blast
  show ?case
  proof (cases k)
    case (Suc j)
    with n show ?thesis
      by (simp add: usn_run_done)
  qed simp
next
  case (Cons i items)
  let ?post = "concat (map item_bytes items)"
  show ?case
  proof (cases i)
    case (Gap n)
    have "scan_nonzero D (length pre) = scan_nonzero D (length (pre @ item_bytes i))"
      using Cons.prems(3) scan_nonzero_gap [of pre n ?post] Gap by simp
    then have "scan_nonzero D p = scan_nonzero D (length (pre @ item_bytes i))"
      using Cons.prems(5) by (rule trans [rotated])
    from Cons.IH [OF _ Cons.prems(2) _ Cons.prems(4) this] Cons.prems(1,3) Gap show ?thesis
      by simp
  next
    case (Rec b pad)
    let ?q = "length pre"
    have ok: "item_ok (Rec b pad)" and D: "D = pre @ b @ pad @ ?post"
      using Cons.prems(1,3) Rec by simp_all
    obtain r where r: "item_records C i = [r]" "le_u32 D ?q = le_u32 b 0" "scan_nonzero D ?q = Some ?q"
        "journal_record C D ?q r"
      using item_at [OF ok, of C pre ?post] unfolding D Rec journal_record_def Let_def by blast
    obtain s' where s': "usn_next H S C s = (Some (Ok r), s')"
        "window_ok D (?q + align8 (unat (le_u32 D ?q))) s'"
      using usn_next_window(2) [OF Cons.prems(4,2) trans [OF Cons.prems(5) r(3)] r(4)] by blast
    have "?q + align8 (unat (le_u32 D ?q)) = length (pre @ item_bytes i)"
      using r(2) ok Rec by simp
    with s'(2) have "window_ok D (length (pre @ item_bytes i)) s'"
      by simp
    from Cons.IH [OF _ Cons.prems(2) _ this refl] Cons.prems(1,3) s'(1) r(1) show ?thesis
      by simp
  qed
qed

end

section \<open>The cursor delivers full reads\<close>

interpretation full_cursor: full_medium cursor_host cursor_good cur_bytes "\<lambda>c. unat (cur_pos c)"
proof
  fix r :: cursor and n
  assume g: "cursor_good r"
  show "\<exists>r'. io_read cursor_host r n = (Ok (take n (drop (unat (cur_pos r)) (cur_bytes r))), r') \<and>
      cursor_good r' \<and> cur_bytes r' = cur_bytes r \<and>
      unat (cur_pos r') = unat (cur_pos r) + length (take n (drop (unat (cur_pos r)) (cur_bytes r)))"
    using cursor_read_pos [OF g refl, of n] g by (simp add: cursor_host_def cursor_read_def cursor_good_def Let_def)
  show "\<exists>r'. io_seek cursor_host r (SeekEnd 0) = (Ok (word_of_nat (length (cur_bytes r))), r') \<and>
      cursor_good r' \<and> cur_bytes r' = cur_bytes r"
    using g by (simp add: cursor_host_def cursor_seek_def cursor_good_def)
  show "length (cur_bytes r) < 2 ^ 63"
    using g by (simp add: cursor_good_def)
qed

section \<open>Where the two readers part\<close>

text \<open>
  On bytes that are no journal as it is written the two readers differ: past a header that claims
  a length and no known version, the bulk parser moves on by one word and the iterator by the claimed
  length, so it passes over a record that starts in between.
\<close>

lemma unknown_version_diverges:
  assumes "zero_on_oob S" "ur_buf s = [16, 0, 0, 0, 7, 0, 0, 0] @ rest" "8 \<le> length rest"
    and "ur_buf_offset s = 0" "16 \<le> ur_buf_len s"
  shows "usn_step C (ur_buf s) 0 = Ok (Some (None, 8)) \<and> record_turn H S C s = Again (advance 16 s)"
proof
  have g: "get_range (ur_buf s) 0 4 = Some [16, 0, 0, 0]" "get_range (ur_buf s) 4 6 = Some [7, 0]"
    "get_range (ur_buf s) 0 16 \<noteq> None"
    using assms(2,3) by (simp_all add: get_range_def)
  then show "usn_step C (ur_buf s) 0 = Ok (Some (None, 8))"
    using assms(2,3) by (simp add: usn_step_def usn_at_def usn_sizes slice_def read_u32_le_def idx_def arr_def from_le_bytes_def get_range_def Let_def)

  have "sr_u32 S (ur_buf s) 0 = 16" "sr_u16 S (ur_buf s) 4 = 7"
    using assms(1) g by (simp_all add: zero_on_oob_def le_u32_def le_u16_def from_le_bytes_def)
  then show "record_turn H S C s = Again (advance 16 s)"
    using assms(4,5) g(3) by (auto simp: record_turn_def parse_turn_def align8_def)
qed

section \<open>Property\<close>

text \<open>
  Claim C27. On a well-formed journal the streaming iterator and the bulk parser agree: over a
  fault-free source that fills every read, as an in-memory cursor does, for a journal of any length made of padded V2 and V3 records and zeroed
  gaps, the successive calls of \<open>next\<close> return exactly the records the bulk parser returns, in order,
  wherever records fall across the 64 KiB windows, and then \<open>None\<close> for good.
\<close>

theorem usn_reader_streams_journal:
  assumes "full_medium H good disk at" "good c" "list_all item_ok items" "zero_on_oob S"
    "disk c = concat (map item_bytes items)"
  shows "\<exists>s rs. usn_reader_new H c = Ok s \<and>
    parse_usn_journal C (concat (map item_bytes items)) = Ok rs \<and>
    usn_run H S C (length rs + k) s = map (\<lambda>r. Some (Ok r)) rs @ replicate k None"
proof -
  let ?D = "concat (map item_bytes items)"
  have "8 dvd length ?D"
    using assms(3) by (rule items_aligned)
  then obtain s where s: "usn_reader_new H c = Ok s" "full_medium.window_ok good disk at ?D 0 s"
    using full_medium.usn_reader_new_window [OF assms(1,2)] assms(5) by auto
  from full_medium.usn_run_items [OF assms(1,3,4) _ s(2), of "[]" C k] s(1) show ?thesis
    using usn_loop_items [OF assms(3), of C "[]"] by (simp add: parse_usn_journal_def)
qed

theorem usn_reader_streams_journal_witness:
  "\<exists>s. usn_reader_new cursor_host \<lparr>cur_bytes = v2_bytes sample_usn @ replicate 6 0, cur_pos = 0\<rparr> = Ok s \<and>
     usn_run cursor_host le_safe_read sample_chrono 2 s =
       [Some (Ok (v2_record sample_chrono sample_usn)), None]"
proof -
  let ?items = "[Rec (v2_bytes sample_usn) (replicate 6 0)]"
  have ok: "list_all item_ok ?items"
    using v2_header [OF sample_usn_ok(1)] sample_usn_ok(2) by (simp add: align8_def)
  have S: "zero_on_oob le_safe_read"
    by (simp add: zero_on_oob_def le_safe_read_def)
  have j: "parse_usn_journal sample_chrono (concat (map item_bytes ?items)) = Ok [v2_record sample_chrono sample_usn]"
    using usn_loop_items [OF ok, of sample_chrono "[]"] v2_header(2) [OF sample_usn_ok(1)]
    by (simp add: parse_usn_journal_def parse_v2_bytes [OF sample_usn_ok(1)])
  let ?c = "\<lparr>cur_bytes = v2_bytes sample_usn @ replicate 6 0, cur_pos = 0\<rparr>"
  have "cursor_good ?c" "cur_bytes ?c = concat (map item_bytes ?items)"
    using sample_usn_ok(2) by (simp_all add: cursor_good_def)
  then obtain s rs where s: "usn_reader_new cursor_host ?c = Ok s"
      "parse_usn_journal sample_chrono (concat (map item_bytes ?items)) = Ok rs"
      "usn_run cursor_host le_safe_read sample_chrono (length rs + 1) s =
         map (\<lambda>r. Some (Ok r)) rs @ replicate 1 None"
    using usn_reader_streams_journal [OF full_cursor.full_medium_axioms _ ok S, of ?c sample_chrono 1] by blast
  have "rs = [v2_record sample_chrono sample_usn]"
    using s(2) j by (simp only: res.inject)
  with s(3) have "usn_run cursor_host le_safe_read sample_chrono 2 s =
      [Some (Ok (v2_record sample_chrono sample_usn)), None]"
    by (simp only: list.size list.map append.simps numeral_2_eq_2 One_nat_def replicate.simps add_Suc add_Suc_right add_0 add_0_right)
  with s(1) show ?thesis
    by blast
qed

end
