(* ===== verification/Usn_Progress.thy ===== *)
theory Usn_Progress
  imports Usn_Reader Drive
begin

text \<open>
  The streaming iterator of \<open>core/src/usn/reader.rs\<close> over sources that may fail, deliver short
  reads or anything at all: it never panics, delivers finitely many records, and ends when the
  source does not fail. A source that keeps failing keeps it going for ever.
\<close>

section \<open>The window stays inside its buffer\<close>

definition window_inv :: "('r \<Rightarrow> bool) \<Rightarrow> 'r usn_journal_reader \<Rightarrow> bool" where
  "window_inv good s \<longleftrightarrow> good (ur_reader s) \<and> length (ur_buf s) = BUF_SIZE \<and> ur_buf_len s \<le> BUF_SIZE \<and>
     unat (ur_total_size s) \<le> 2 ^ 63"

text \<open>
  What a call leaves behind: a reader that is done stays done, and of a live one nothing that was
  consumed comes back.
\<close>

definition follows :: "'r usn_journal_reader \<Rightarrow> 'r usn_journal_reader \<Rightarrow> bool" where
  "follows s' s \<longleftrightarrow> alive s' < alive s \<or> alive s' = alive s \<and>
     (alive s = 0 \<or> ahead s' < ahead s \<or> ahead s' = ahead s \<and>
       (unread s' < unread s \<or> unread s' = unread s \<and> ur_buf_len s' \<le> ur_buf_len s))"

lemma follows_refl [simp]: "follows s s"
  by (simp add: follows_def)

lemma follows_trans [trans]: "follows c b \<Longrightarrow> follows b a \<Longrightarrow> follows c a"
  by (auto simp: follows_def)

lemma follows_order: "(b, a) \<in> reader_order \<Longrightarrow> follows b a"
  by (auto simp: follows_def reader_order_iff)

lemma follows_strict: "(c, b) \<in> reader_order \<Longrightarrow> follows b a \<Longrightarrow> \<not> ur_done a \<Longrightarrow> (c, a) \<in> reader_order"
  by (auto simp: follows_def reader_order_iff alive_def split: if_splits)

lemma follows_live: "follows c b \<Longrightarrow> ur_done b \<Longrightarrow> \<not> ur_done a \<Longrightarrow> (c, a) \<in> reader_order"
  by (auto simp: follows_def reader_order_iff alive_def split: if_splits)

lemma follows_done: "follows b a \<Longrightarrow> ur_done a \<Longrightarrow> ur_done b"
  by (auto simp: follows_def alive_def split: if_splits)

lemma fill_buffer_follows:
  assumes "fill_buffer H s = (r, s')" "r \<noteq> Panic"
  shows "follows s' s"
  using fill_buffer_progress [OF assms] by (auto simp: follows_def alive_def unread_def)

lemma skip_words_follows: "skip_words s = (b, s') \<Longrightarrow> follows s' s"
  by (auto dest!: skip_words_keeps simp: follows_def alive_def ahead_def unread_def)

lemma advance_order:
  "ur_buf_offset s + 8 \<le> ur_buf_len s \<Longrightarrow> 8 \<le> k \<Longrightarrow> (advance k s, s) \<in> reader_order"
  by (auto simp: reader_order_iff alive_def ahead_def unread_def)

lemma advance_follows: "follows (advance k s) s"
  by (auto simp: follows_def alive_def ahead_def unread_def)

lemma advance_inv [simp]: "window_inv good (advance k s) \<longleftrightarrow> window_inv good s"
  by (simp add: window_inv_def)

lemma compact_inv:
  assumes "window_inv good s"
  shows "\<exists>s'. compact s = Ok s' \<and> window_inv good s'"
  using assms by (auto simp: compact_def window_inv_def Let_def)

section \<open>Sequences of calls\<close>

text \<open>The reader after \<open>k\<close> calls of \<open>next\<close>, and whether a call delivered a record.\<close>

primrec usn_after ::
  "'r host \<Rightarrow> safe_read \<Rightarrow> 'dt chrono \<Rightarrow> nat \<Rightarrow> 'r usn_journal_reader \<Rightarrow> 'r usn_journal_reader" where
  "usn_after H S C 0 s = s"
| "usn_after H S C (Suc k) s = usn_after H S C k (snd (usn_next H S C s))"

fun delivers :: "'a res option \<Rightarrow> bool" where
  "delivers (Some (Ok _)) = True"
| "delivers _ = False"

lemma usn_next_done: "ur_done s \<Longrightarrow> usn_next H S C s = (None, s)"
  by (subst usn_next.simps) (simp add: next_step_def)

lemma usn_after_snoc: "usn_after H S C (Suc k) s = snd (usn_next H S C (usn_after H S C k s))"
  by (induction k arbitrary: s) simp_all

lemma usn_run_calls: "usn_run H S C k s = map (\<lambda>i. fst (usn_next H S C (usn_after H S C i s))) [0..<k]"
proof (induction k arbitrary: s)
  case (Suc k)
  then show ?case
    by (auto simp: upt_conv_Cons map_Suc_upt [symmetric] simp del: upt_Suc split: prod.splits)
qed simp

lemma usn_run_add: "usn_run H S C (k + j) s = usn_run H S C k s @ usn_run H S C j (usn_after H S C k s)"
  by (induction k arbitrary: s) (simp_all split: prod.splits)

lemma usn_run_snoc: "usn_run H S C (Suc k) s = usn_run H S C k s @ [fst (usn_next H S C (usn_after H S C k s))]"
  by (simp add: usn_run_calls)

lemma usn_run_quiet:
  "(\<And>k. k < n \<Longrightarrow> \<not> delivers (fst (usn_next H S C (usn_after H S C k s)))) \<Longrightarrow>
   filter delivers (usn_run H S C n s) = []"
  by (simp add: filter_empty_conv usn_run_calls)

section \<open>Over a drive\<close>

context drive
begin

text \<open>A source that never fails.\<close>

definition steady :: bool where
  "steady \<longleftrightarrow> (\<forall>r n. good r \<longrightarrow> (\<exists>bs r'. io_read H r n = (Ok bs, r')))"

lemma refill_inv:
  assumes "window_inv good s" "\<not> ur_total_size s \<le> ur_stream_pos s"
  shows "window_inv good (snd (refill H s)) \<and> (\<forall>e. fst (refill H s) = Err e \<longrightarrow> \<not> steady) \<and>
    res_yields (fst (refill H s)) (\<lambda>b. (b \<longrightarrow> 0 < ur_buf_len (snd (refill H s))) \<and> (\<not> b \<longrightarrow> ur_done (snd (refill H s))))"
proof (cases "ur_buf_len s < BUF_SIZE")
  case True
  have pos: "unat (ur_stream_pos s) + n < 2 ^ 64" if "n \<le> BUF_SIZE" for n
    using that assms by (simp add: window_inv_def word_le_nat_alt BUF_SIZE_def)
  obtain y r' where y: "io_read H (ur_reader s) (BUF_SIZE - ur_buf_len s) = (y, r')"
    by fastforce
  have d: "good r'" "res_yields y (\<lambda>bs. length bs \<le> BUF_SIZE - ur_buf_len s)"
    using read_drive [OF _ y] assms(1) by (simp_all add: window_inv_def)
  have "\<not> steady" if "y = Err e" for e
    using that y assms(1) unfolding steady_def window_inv_def by (metis prod.inject res.distinct(1))
  then show ?thesis
    using assms(1) True y d pos
    by (cases y) (auto simp: refill_def get_range_def window_inv_def Let_def)
next
  case False
  then show ?thesis
    using assms(1) by (auto simp: refill_def window_inv_def BUF_SIZE_def)
qed

lemma fill_buffer_inv:
  assumes "window_inv good s"
  shows "window_inv good (snd (fill_buffer H s)) \<and> (\<forall>e. fst (fill_buffer H s) = Err e \<longrightarrow> \<not> steady) \<and>
    res_yields (fst (fill_buffer H s))
      (\<lambda>b. (b \<longrightarrow> 0 < ur_buf_len (snd (fill_buffer H s))) \<and> (\<not> b \<longrightarrow> ur_done (snd (fill_buffer H s))))"
proof (cases "ur_total_size s \<le> ur_stream_pos s")
  case True
  with assms show ?thesis
    by (simp add: fill_buffer_def window_inv_def)
next
  case False
  obtain s1 where s1: "compact s = Ok s1" "window_inv good s1"
    using compact_inv [OF assms] by blast
  then have "\<not> ur_total_size s1 \<le> ur_stream_pos s1"
    using False compact_keeps [OF s1(1)] by simp
  from refill_inv [OF s1(2) this] False s1(1) show ?thesis
    by (simp add: fill_buffer_def)
qed

lemma skip_zeros_inv:
  assumes "window_inv good s" "skip_zeros H s = (r, s')"
  shows "window_inv good s' \<and> follows s' s \<and> r \<noteq> Panic \<and> (r = Ok False \<longrightarrow> ur_done s') \<and>
    (\<forall>e. r = Err e \<longrightarrow> \<not> steady)"
  using assms
proof (induction s arbitrary: r s' rule: wf_induct_rule [OF wf_reader_order])
  case (1 s)
  obtain b s1 where w: "skip_words s = (b, s1)"
    by fastforce
  obtain x s2 where f: "fill_buffer H s1 = (x, s2)"
    by fastforce
  have s1: "window_inv good s1" "follows s1 s"
    using skip_words_keeps [OF w] skip_words_follows [OF w] "1.prems"(1) by (auto simp: window_inv_def)
  have s2: "window_inv good s2" "\<forall>e. x = Err e \<longrightarrow> \<not> steady" "res_yields x (\<lambda>b. (b \<longrightarrow> 0 < ur_buf_len s2) \<and> (\<not> b \<longrightarrow> ur_done s2))"
    using fill_buffer_inv [OF s1(1)] f by simp_all
  then have fs: "follows s2 s"
    using fill_buffer_follows [OF f] s1(2) follows_trans by fastforce
  show ?case
  proof (cases "b \<or> x \<noteq> Ok True")
    case True
    then show ?thesis
      using "1.prems"(2) w f s1 s2 fs by (subst (asm) skip_zeros.simps) (cases b; cases x; auto)
  next
    case False
    then have nz: "ur_buf_len s2 \<noteq> 0" and r: "skip_zeros H s2 = (r, s')"
      using "1.prems"(2) w f s2 by (auto simp: skip_zeros.simps [of H s])
    then have "window_inv good s' \<and> follows s' s2 \<and> r \<noteq> Panic \<and> (r = Ok False \<longrightarrow> ur_done s') \<and>
        (\<forall>e. r = Err e \<longrightarrow> \<not> steady)"
      using "1.IH" [OF skip_zeros_order [of s s1 H s2] s2(1)] w f False by simp
    then show ?thesis
      using fs follows_trans by blast
  qed
qed

text \<open>One call of \<open>next\<close> up to its result or its recursive call; a record takes something from the window.\<close>

definition turn_ok :: "'r usn_journal_reader \<Rightarrow> ('r usn_journal_reader, 'a) turn \<Rightarrow> bool" where
  "turn_ok s t \<longleftrightarrow>
     (case t of
        Again s' \<Rightarrow> window_inv good s'
      | Return x s' \<Rightarrow> window_inv good s' \<and> follows s' s \<and> x \<noteq> Some Panic \<and> (x = None \<longrightarrow> ur_done s') \<and>
          (\<forall>e. x = Some (Err e) \<longrightarrow> \<not> steady) \<and>
          (\<forall>y. x = Some (Ok y) \<longrightarrow> \<not> ur_done s \<longrightarrow> (s', s) \<in> reader_order))"

lemma turn_ok_follows: "turn_ok b t \<Longrightarrow> follows b a \<Longrightarrow> turn_ok a t"
  by (cases t) (auto simp: turn_ok_def intro: follows_trans follows_strict follows_live split: turn.splits)

lemma usn_deliver_ok:
  assumes "window_inv good t" "(t, s) \<in> reader_order" "x \<noteq> Panic"
  shows "turn_ok s (usn_deliver t x)"
  using assms follows_order [OF assms(2)] by (cases x) (simp_all add: usn_deliver_def turn_ok_def)

lemma parse_turn_ok:
  assumes "window_inv good s" "ur_buf_offset s + 8 \<le> ur_buf_len s" "8 \<le> n"
  shows "turn_ok s (parse_turn S C s n)"
proof -
  have "8 \<le> align8 n"
    using align8_ge(1) [of n] assms(3) by linarith
  then have o: "(advance (align8 n) s, s) \<in> reader_order"
    using advance_order [OF assms(2)] by blast
  have again: "turn_ok s (Again (advance k s))" for k
    using assms(1) by (simp add: turn_ok_def)
  show ?thesis
    using usn_deliver_ok [OF _ o v2.total] usn_deliver_ok [OF _ o v3.total] assms(1)
    by (auto simp: parse_turn_def Let_def again split: option.split)
qed

lemma record_turn_ok:
  assumes "window_inv good s" "ur_buf_offset s + 8 \<le> ur_buf_len s"
  shows "turn_ok s (record_turn H S C s)"
proof -
  let ?n = "unat (sr_u32 S (ur_buf s) (ur_buf_offset s))"
  have again: "turn_ok s (Again (advance 8 s1))" if "window_inv good s1" for s1
    using that by (simp add: turn_ok_def)
  obtain x s1 where f: "fill_buffer H s = (x, s1)"
    by fastforce
  have s1: "window_inv good s1" "x \<noteq> Panic"
    using fill_buffer_inv [OF assms(1)] f by auto
  have "turn_ok s (parse_turn S C s1 ?n)" if "ur_buf_offset s1 + ?n \<le> ur_buf_len s1" "8 \<le> ?n"
    using parse_turn_ok [OF s1(1) _ that(2)] that fill_buffer_follows [OF f s1(2)] turn_ok_follows
    by (metis le_trans nat_add_left_cancel_le)
  then show ?thesis
    using assms parse_turn_ok [OF assms] again f s1
    by (cases x) (auto simp: record_turn_def Let_def)
qed

lemma next_step_ok:
  assumes "window_inv good s"
  shows "turn_ok s (next_step H S C s)"
proof -
  obtain x s1 where f: "(if ur_buf_offset s \<ge> ur_buf_len s then fill_buffer H s else (Ok True, s)) = (x, s1)"
    by fastforce
  obtain y s2 where z: "skip_zeros H s1 = (y, s2)"
    by fastforce
  have s1: "window_inv good s1" "x \<noteq> Panic" "x = Ok False \<longrightarrow> ur_done s1" "\<forall>e. x = Err e \<longrightarrow> \<not> steady"
    using fill_buffer_inv [OF assms] f assms by (auto split: if_splits)
  then have f1: "follows s1 s"
    using f fill_buffer_follows by (auto split: if_splits)
  note s2 = skip_zeros_inv [OF s1(1) z]
  then have f2: "follows s2 s"
    using f1 follows_trans by blast
  have h: "turn_ok s (header_turn H S C s2)" if "y = Ok True"
  proof -
    have "ur_buf_offset s2 + 8 \<le> ur_buf_len s2"
      using skip_zeros_True that z by blast
    then show ?thesis
      using turn_ok_follows [OF record_turn_ok f2] s2 by (simp add: header_turn_def)
  qed
  show ?thesis
  proof (cases "ur_done s \<or> x \<noteq> Ok True")
    case True
    then show ?thesis
      using assms f s1 f1 by (cases x) (auto simp: next_step_def turn_ok_def)
  next
    case False
    then show ?thesis
      using f z s2 f2 h by (cases y) (auto simp: next_step_def turn_ok_def)
  qed
qed

lemma usn_next_ok:
  assumes "window_inv good s" "usn_next H S C s = (x, s')"
  shows "turn_ok s (Return x s')"
  using assms
proof (induction s rule: wf_induct_rule [OF wf_reader_order])
  case (1 s)
  show ?case
  proof (cases "next_step H S C s")
    case (Return y s1)
    then show ?thesis
      using next_step_ok [OF "1.prems"(1), of S C] "1.prems"(2) by (simp add: usn_next.simps [of H S C s])
  next
    case (Again s1)
    have o: "(s1, s) \<in> reader_order"
      using next_step_progress [OF Again] .
    moreover have "window_inv good s1" "usn_next H S C s1 = (x, s')"
      using next_step_ok [OF "1.prems"(1), of S C] "1.prems"(2) Again
      by (simp_all add: turn_ok_def usn_next.simps [of H S C s])
    ultimately show ?thesis
      using "1.IH" turn_ok_follows follows_order [OF o] by blast
  qed
qed

lemma usn_run_no_panic: "window_inv good s \<Longrightarrow> Some Panic \<notin> set (usn_run H S C k s)"
proof (induction k arbitrary: s)
  case (Suc k)
  obtain x s' where n: "usn_next H S C s = (x, s')"
    by fastforce
  then have "window_inv good s'" "x \<noteq> Some Panic"
    using usn_next_ok [OF Suc.prems n] by (simp_all add: turn_ok_def)
  with Suc.IH [of s'] n show ?case
    by auto
qed simp

text \<open>A call that delivers a record leaves less; one that does not leaves no more.\<close>

lemma usn_after_ok: "window_inv good s \<Longrightarrow> window_inv good (usn_after H S C k s) \<and> follows (usn_after H S C k s) s"
proof (induction k arbitrary: s)
  case (Suc k)
  obtain x s' where n: "usn_next H S C s = (x, s')"
    by fastforce
  then have "window_inv good s'" "follows s' s"
    using usn_next_ok [OF Suc.prems n] by (simp_all add: turn_ok_def)
  with Suc.IH [of s'] n show ?case
    using follows_trans by auto
qed simp

lemma delivering_call_drops:
  assumes "window_inv good s" "delivers (fst (usn_next H S C (usn_after H S C i s)))"
  shows "(usn_after H S C (Suc i) s, s) \<in> reader_order \<and> window_inv good (usn_after H S C (Suc i) s)"
proof -
  let ?t = "usn_after H S C i s" and ?u = "usn_after H S C (Suc i) s"
  have t: "window_inv good ?t" "follows ?t s"
    using usn_after_ok [OF assms(1), of S C i] by simp_all
  have u: "usn_next H S C ?t = (fst (usn_next H S C ?t), ?u)"
    by (simp add: usn_after_snoc del: usn_after.simps)
  have live: "\<not> ur_done ?t"
    using assms(2) by (auto simp: usn_next_done)
  then have "\<not> ur_done s"
    using follows_done t(2) by blast
  then show ?thesis
    using usn_next_ok [OF t(1) u] assms(2) t(2) live follows_strict by (auto simp: turn_ok_def elim!: delivers.elims)
qed

lemma usn_records_bounded:
  assumes "window_inv good s"
  shows "\<exists>m. \<forall>k. length (filter delivers (usn_run H S C k s)) \<le> m"
  using assms
proof (induction s rule: wf_induct_rule [OF wf_reader_order])
  case (1 s)
  show ?case
  proof (cases "\<exists>k. delivers (fst (usn_next H S C (usn_after H S C k s)))")
    case False
    then have "filter delivers (usn_run H S C k s) = []" for k
      by (intro usn_run_quiet) simp
    then show ?thesis
      by (metis le0 list.size(3))
  next
    case True
    define i where "i = (LEAST k. delivers (fst (usn_next H S C (usn_after H S C k s))))"
    have i: "delivers (fst (usn_next H S C (usn_after H S C i s)))"
      "\<And>k. k < i \<Longrightarrow> \<not> delivers (fst (usn_next H S C (usn_after H S C k s)))"
      using LeastI_ex [OF True] not_less_Least unfolding i_def by blast+
    then obtain m where m: "\<And>k. length (filter delivers (usn_run H S C k (usn_after H S C (Suc i) s))) \<le> m"
      using "1.IH" delivering_call_drops [OF "1.prems" i(1)] by blast
    have "length (filter delivers (usn_run H S C k s)) \<le> Suc m" for k
    proof (cases "k \<le> i")
      case True
      then have "filter delivers (usn_run H S C k s) = []"
        using i(2) by (intro usn_run_quiet) simp
      then show ?thesis by simp
    next
      case False
      then obtain j where k: "k = Suc i + j"
        using less_imp_Suc_add not_le_imp_less by (metis add_Suc)
      have "filter delivers (usn_run H S C i s) = []"
        using i(2) by (intro usn_run_quiet) simp
      then have "length (filter delivers (usn_run H S C (Suc i) s)) \<le> 1"
        unfolding usn_run_snoc by simp
      then show ?thesis
        using m [of j] unfolding k usn_run_add [of _ _ _ "Suc i"] filter_append length_append by linarith
    qed
    then show ?thesis by blast
  qed
qed

lemma usn_run_ends:
  assumes "window_inv good s" steady
  shows "\<exists>k. \<forall>j. usn_run H S C (k + j) s = usn_run H S C k s @ replicate j None"
  using assms(1)
proof (induction s rule: wf_induct_rule [OF wf_reader_order])
  case (1 s)
  obtain x s' where n: "usn_next H S C s = (x, s')"
    by fastforce
  have ok: "turn_ok s (Return x s')"
    using usn_next_ok [OF "1.prems" n] .
  show ?case
  proof (cases x)
    case None
    then have "ur_done s'"
      using ok by (simp add: turn_ok_def)
    with n None have "\<forall>j. usn_run H S C (Suc 0 + j) s = usn_run H S C (Suc 0) s @ replicate j None"
      by (simp add: usn_run_done)
    then show ?thesis by blast
  next
    case (Some y)
    show ?thesis
    proof (cases y)
      case (Ok r)
      have "\<not> ur_done s"
        using n Some by (auto simp: usn_next_done)
      then have "(s', s) \<in> reader_order" "window_inv good s'"
        using ok Some Ok by (auto simp: turn_ok_def)
      then obtain k where "\<forall>j. usn_run H S C (k + j) s' = usn_run H S C k s' @ replicate j None"
        using "1.IH" by blast
      with n have "\<forall>j. usn_run H S C (Suc k + j) s = usn_run H S C (Suc k) s @ replicate j None"
        by simp
      then show ?thesis by blast
    qed (use ok Some assms(2) in \<open>auto simp: turn_ok_def\<close>)
  qed
qed

end

section \<open>Properties\<close>

lemma usn_reader_new_inv:
  assumes "usn_reader_new H r = Ok s" "good (ur_reader s)" "unat (ur_total_size s) \<le> 2 ^ 63"
  shows "window_inv good s"
  using assms by (auto simp: usn_reader_new_def window_inv_def split: prod.splits res.splits)

text \<open>
  Claim C28. The streaming iterator ends. Over any source, however it fails, delivers short reads or
  changes what it delivers, and for any bytes, no call of \<open>next\<close> panics and only finitely many
  calls deliver a record; over a source that never fails there is a call from which on the
  iterator returns \<open>None\<close> for good.
\<close>

theorem usn_reader_ends:
  assumes "drive H good" "usn_reader_new H r = Ok s" "good (ur_reader s)" "unat (ur_total_size s) \<le> 2 ^ 63"
  shows "(\<forall>k. Some Panic \<notin> set (usn_run H S C k s)) \<and>
    (\<exists>m. \<forall>k. length (filter delivers (usn_run H S C k s)) \<le> m) \<and>
    ((\<forall>r n. good r \<longrightarrow> (\<exists>bs r'. io_read H r n = (Ok bs, r'))) \<longrightarrow>
      (\<exists>k. \<forall>j. usn_run H S C (k + j) s = usn_run H S C k s @ replicate j None))"
proof -
  have "window_inv good s"
    by (rule usn_reader_new_inv [OF assms(2)]) (use assms in simp_all)
  then show ?thesis
    using drive.usn_run_no_panic [OF assms(1)] drive.usn_records_bounded [OF assms(1)] drive.usn_run_ends [OF assms(1)]
      drive.steady_def [OF assms(1)] by blast
qed

theorem usn_reader_ends_witness:
  "\<exists>s k. usn_reader_new cursor_host \<lparr>cur_bytes = [1, 2, 3], cur_pos = 0\<rparr> = Ok s \<and>
     (\<forall>j. usn_run cursor_host le_safe_read sample_chrono (k + j) s =
        usn_run cursor_host le_safe_read sample_chrono k s @ replicate j None)"
proof -
  let ?c = "\<lparr>cur_bytes = [1, 2, 3], cur_pos = 0\<rparr>"
  obtain s where s: "usn_reader_new cursor_host ?c = Ok s" "cursor_good (ur_reader s)" "unat (ur_total_size s) \<le> 2 ^ 63"
    by (simp add: usn_reader_new_def cursor_host_def cursor_seek_def cursor_good_def)
  have "\<forall>r n. cursor_good r \<longrightarrow> (\<exists>bs r'. io_read cursor_host r n = (Ok bs, r'))"
    using disk_cursor.read_some by blast
  then show ?thesis
    using usn_reader_ends [OF disk_cursor.drive_axioms s, of le_safe_read sample_chrono] s(1) by blast
qed

text \<open>
  A source that keeps failing keeps the iterator going: it never becomes done, and every call
  returns the error again.
\<close>

lemma failing_source_never_ends:
  assumes "usn_reader_new H r = Ok s" "ur_total_size s \<noteq> 0" "\<And>r n. io_read H r n = (Err e, r)"
  shows "usn_run H S C k s = replicate k (Some (Err e))"
proof -
  have s: "length (ur_buf s) = BUF_SIZE" "ur_buf_len s = 0" "ur_buf_offset s = 0" "ur_stream_pos s = 0" "\<not> ur_done s"
    using assms(1) by (auto simp: usn_reader_new_def split: prod.splits res.splits)
  then have "compact s = Ok s"
    by (simp add: compact_def)
  moreover have "refill H s = (Err e, s)"
    using s assms(3) by (simp add: refill_def get_range_def BUF_SIZE_def)
  ultimately have "fill_buffer H s = (Err e, s)"
    using s(4) assms(2) by (simp add: fill_buffer_def)
  then have n: "usn_next H S C s = (Some (Err e), s)"
    using s by (subst usn_next.simps) (simp add: next_step_def)
  show ?thesis
    by (induction k) (simp_all add: n)
qed

end
