(* ===== verification/Usn_Reason.thy ===== *)
theory Usn_Reason
  imports Prelude
begin

text \<open>
  The reason flags of \<open>core/src/usn/reason.rs\<close>. A set of flags is its 32-bit word, unknown
  bits included (\<open>from_bits_retain\<close>); \<open>contains\<close> and \<open>intersects\<close> are the two tests the
  analyses use. What \<open>Display\<close> prints is in \<open>Flag_Names\<close>.
\<close>

section \<open>Flags\<close>

definition DATA_OVERWRITE :: u32 where
  "DATA_OVERWRITE = 0x1"

definition DATA_EXTEND :: u32 where
  "DATA_EXTEND = 0x2"

definition DATA_TRUNCATION :: u32 where
  "DATA_TRUNCATION = 0x4"

definition NAMED_DATA_OVERWRITE :: u32 where
  "NAMED_DATA_OVERWRITE = 0x10"

definition NAMED_DATA_EXTEND :: u32 where
  "NAMED_DATA_EXTEND = 0x20"

definition NAMED_DATA_TRUNCATION :: u32 where
  "NAMED_DATA_TRUNCATION = 0x40"

definition FILE_CREATE :: u32 where
  "FILE_CREATE = 0x100"

definition FILE_DELETE :: u32 where
  "FILE_DELETE = 0x200"

definition EA_CHANGE :: u32 where
  "EA_CHANGE = 0x400"

definition SECURITY_CHANGE :: u32 where
  "SECURITY_CHANGE = 0x800"

definition RENAME_OLD_NAME :: u32 where
  "RENAME_OLD_NAME = 0x1000"

definition RENAME_NEW_NAME :: u32 where
  "RENAME_NEW_NAME = 0x2000"

definition INDEXABLE_CHANGE :: u32 where
  "INDEXABLE_CHANGE = 0x4000"

definition BASIC_INFO_CHANGE :: u32 where
  "BASIC_INFO_CHANGE = 0x8000"

definition HARD_LINK_CHANGE :: u32 where
  "HARD_LINK_CHANGE = 0x10000"

definition COMPRESSION_CHANGE :: u32 where
  "COMPRESSION_CHANGE = 0x20000"

definition ENCRYPTION_CHANGE :: u32 where
  "ENCRYPTION_CHANGE = 0x40000"

definition OBJECT_ID_CHANGE :: u32 where
  "OBJECT_ID_CHANGE = 0x80000"

definition REPARSE_POINT_CHANGE :: u32 where
  "REPARSE_POINT_CHANGE = 0x100000"

definition STREAM_CHANGE :: u32 where
  "STREAM_CHANGE = 0x200000"

definition TRANSACTED_CHANGE :: u32 where
  "TRANSACTED_CHANGE = 0x400000"

definition INTEGRITY_CHANGE :: u32 where
  "INTEGRITY_CHANGE = 0x800000"

definition CLOSE :: u32 where
  "CLOSE = 0x80000000"

text \<open>\<open>UsnReason::all()\<close>.\<close>

definition all_reasons :: u32 where
  "all_reasons = DATA_OVERWRITE OR DATA_EXTEND OR DATA_TRUNCATION OR NAMED_DATA_OVERWRITE OR
     NAMED_DATA_EXTEND OR NAMED_DATA_TRUNCATION OR FILE_CREATE OR FILE_DELETE OR
     EA_CHANGE OR SECURITY_CHANGE OR RENAME_OLD_NAME OR RENAME_NEW_NAME OR
     INDEXABLE_CHANGE OR BASIC_INFO_CHANGE OR HARD_LINK_CHANGE OR COMPRESSION_CHANGE OR
     ENCRYPTION_CHANGE OR OBJECT_ID_CHANGE OR REPARSE_POINT_CHANGE OR STREAM_CHANGE OR
     TRANSACTED_CHANGE OR INTEGRITY_CHANGE OR CLOSE"

definition contains :: "u32 \<Rightarrow> u32 \<Rightarrow> bool" where
  "contains a b \<longleftrightarrow> a AND b = b"

definition intersects :: "u32 \<Rightarrow> u32 \<Rightarrow> bool" where
  "intersects a b \<longleftrightarrow> a AND b \<noteq> 0"

lemmas reason_defs =
  DATA_OVERWRITE_def DATA_EXTEND_def DATA_TRUNCATION_def NAMED_DATA_OVERWRITE_def
  NAMED_DATA_EXTEND_def NAMED_DATA_TRUNCATION_def FILE_CREATE_def FILE_DELETE_def
  EA_CHANGE_def SECURITY_CHANGE_def RENAME_OLD_NAME_def RENAME_NEW_NAME_def
  INDEXABLE_CHANGE_def BASIC_INFO_CHANGE_def HARD_LINK_CHANGE_def COMPRESSION_CHANGE_def
  ENCRYPTION_CHANGE_def OBJECT_ID_CHANGE_def REPARSE_POINT_CHANGE_def STREAM_CHANGE_def
  TRANSACTED_CHANGE_def INTEGRITY_CHANGE_def CLOSE_def

section \<open>The tests, bit by bit\<close>

lemma word_bits_eq: "a = b \<longleftrightarrow> (\<forall>i < 32. bit a i = bit b i)" for a b :: u32
  using bit_word_eqI [of a b] by auto

lemma intersects_bits: "intersects a b \<longleftrightarrow> (\<exists>i < 32. bit b i \<and> bit a i)"
proof -
  have "a AND b = 0 \<longleftrightarrow> (\<forall>i < 32. \<not> bit (a AND b) i)"
    using word_bits_eq [of "a AND b" 0] by simp
  then show ?thesis
    by (auto simp: intersects_def bit_and_iff)
qed

lemma contains_bits: "contains a m \<longleftrightarrow> (\<nexists>i. i < 32 \<and> bit m i \<and> \<not> bit a i)"
proof -
  have "a AND m = m \<longleftrightarrow> (\<forall>i < 32. bit (a AND m) i = bit m i)"
    by (rule word_bits_eq)
  then show ?thesis
    by (auto simp: contains_def bit_and_iff)
qed

end
