(* ===== verification/Flag_Names.thy ===== *)
theory Flag_Names
  imports Usn_Reason
begin

text \<open>
  \<open>core/src/usn/attributes.rs\<close>, the file attribute flags, and the \<open>Display\<close> implementations of both
  flag types. The names come from the \<open>bitflags\<close> crate: \<open>iter_names\<close> is the parameter \<open>names\<close>, and
  \<open>documented_names\<close> its documented behaviour, the names of the flags contained in the word,
  in the order of their declaration.
\<close>

section \<open>File attributes\<close>

definition READONLY :: u32 where
  "READONLY = 0x1"

definition HIDDEN :: u32 where
  "HIDDEN = 0x2"

definition SYSTEM :: u32 where
  "SYSTEM = 0x4"

definition DIRECTORY :: u32 where
  "DIRECTORY = 0x10"

definition ARCHIVE :: u32 where
  "ARCHIVE = 0x20"

definition DEVICE :: u32 where
  "DEVICE = 0x40"

definition NORMAL :: u32 where
  "NORMAL = 0x80"

definition TEMPORARY :: u32 where
  "TEMPORARY = 0x100"

definition SPARSE_FILE :: u32 where
  "SPARSE_FILE = 0x200"

definition REPARSE_POINT :: u32 where
  "REPARSE_POINT = 0x400"

definition COMPRESSED :: u32 where
  "COMPRESSED = 0x800"

definition OFFLINE :: u32 where
  "OFFLINE = 0x1000"

definition NOT_CONTENT_INDEXED :: u32 where
  "NOT_CONTENT_INDEXED = 0x2000"

definition ENCRYPTED :: u32 where
  "ENCRYPTED = 0x4000"

definition INTEGRITY_STREAM :: u32 where
  "INTEGRITY_STREAM = 0x8000"

definition VIRTUAL :: u32 where
  "VIRTUAL = 0x10000"

definition NO_SCRUB_DATA :: u32 where
  "NO_SCRUB_DATA = 0x20000"

lemmas attribute_flag_defs =
  READONLY_def HIDDEN_def SYSTEM_def DIRECTORY_def ARCHIVE_def
  DEVICE_def NORMAL_def TEMPORARY_def SPARSE_FILE_def REPARSE_POINT_def
  COMPRESSED_def OFFLINE_def NOT_CONTENT_INDEXED_def ENCRYPTED_def INTEGRITY_STREAM_def
  VIRTUAL_def NO_SCRUB_DATA_def

text \<open>The flags with their names, in the order of declaration.\<close>

definition attribute_flags :: "(ustring \<times> u32) list" where
  "attribute_flags =
     [(lit ''READONLY'', READONLY), (lit ''HIDDEN'', HIDDEN), (lit ''SYSTEM'', SYSTEM),
      (lit ''DIRECTORY'', DIRECTORY), (lit ''ARCHIVE'', ARCHIVE), (lit ''DEVICE'', DEVICE),
      (lit ''NORMAL'', NORMAL), (lit ''TEMPORARY'', TEMPORARY), (lit ''SPARSE_FILE'', SPARSE_FILE),
      (lit ''REPARSE_POINT'', REPARSE_POINT), (lit ''COMPRESSED'', COMPRESSED),
      (lit ''OFFLINE'', OFFLINE), (lit ''NOT_CONTENT_INDEXED'', NOT_CONTENT_INDEXED),
      (lit ''ENCRYPTED'', ENCRYPTED), (lit ''INTEGRITY_STREAM'', INTEGRITY_STREAM),
      (lit ''VIRTUAL'', VIRTUAL), (lit ''NO_SCRUB_DATA'', NO_SCRUB_DATA)]"

definition reason_flags :: "(ustring \<times> u32) list" where
  "reason_flags =
     [(lit ''DATA_OVERWRITE'', DATA_OVERWRITE), (lit ''DATA_EXTEND'', DATA_EXTEND),
      (lit ''DATA_TRUNCATION'', DATA_TRUNCATION),
      (lit ''NAMED_DATA_OVERWRITE'', NAMED_DATA_OVERWRITE),
      (lit ''NAMED_DATA_EXTEND'', NAMED_DATA_EXTEND),
      (lit ''NAMED_DATA_TRUNCATION'', NAMED_DATA_TRUNCATION), (lit ''FILE_CREATE'', FILE_CREATE),
      (lit ''FILE_DELETE'', FILE_DELETE), (lit ''EA_CHANGE'', EA_CHANGE),
      (lit ''SECURITY_CHANGE'', SECURITY_CHANGE), (lit ''RENAME_OLD_NAME'', RENAME_OLD_NAME),
      (lit ''RENAME_NEW_NAME'', RENAME_NEW_NAME), (lit ''INDEXABLE_CHANGE'', INDEXABLE_CHANGE),
      (lit ''BASIC_INFO_CHANGE'', BASIC_INFO_CHANGE), (lit ''HARD_LINK_CHANGE'', HARD_LINK_CHANGE),
      (lit ''COMPRESSION_CHANGE'', COMPRESSION_CHANGE),
      (lit ''ENCRYPTION_CHANGE'', ENCRYPTION_CHANGE), (lit ''OBJECT_ID_CHANGE'', OBJECT_ID_CHANGE),
      (lit ''REPARSE_POINT_CHANGE'', REPARSE_POINT_CHANGE), (lit ''STREAM_CHANGE'', STREAM_CHANGE),
      (lit ''TRANSACTED_CHANGE'', TRANSACTED_CHANGE), (lit ''INTEGRITY_CHANGE'', INTEGRITY_CHANGE),
      (lit ''CLOSE'', CLOSE)]"

definition flag_bits :: "(ustring \<times> u32) list \<Rightarrow> u32" where
  "flag_bits tbl = foldr (\<lambda>f w. snd f OR w) tbl 0"

definition documented_names :: "(ustring \<times> u32) list \<Rightarrow> (u32 \<Rightarrow> ustring list) \<Rightarrow> bool" where
  "documented_names tbl names \<longleftrightarrow> (\<forall>w. names w = map fst (filter (\<lambda>f. contains w (snd f)) tbl))"

section \<open>Display\<close>

text \<open>\<open>join\<close> of the standard library.\<close>

fun join :: "ustring \<Rightarrow> ustring list \<Rightarrow> ustring" where
  "join sep [] = []"
| "join sep [x] = x"
| "join sep (x # y # zs) = x @ sep @ join sep (y # zs)"

definition display_flags :: "(u32 \<Rightarrow> ustring list) \<Rightarrow> u32 \<Rightarrow> ustring" where
  "display_flags names w =
     (if names w = [] then lit ''0x'' @ hex (unat w) else join (lit ''|'') (names w))"

text \<open>The two flag types have the same implementation.\<close>

definition display_attributes :: "(u32 \<Rightarrow> ustring list) \<Rightarrow> u32 \<Rightarrow> ustring" where
  "display_attributes names w = display_flags names w"

section \<open>The text determines the flags\<close>

lemma split_at_unique:
  assumes "s \<notin> set a" "s \<notin> set b"
  shows "a @ s # u = b @ s # v \<longleftrightarrow> a = b \<and> u = v"
  using assms
proof (induction a arbitrary: b)
  case (Cons x a)
  then show ?case by (cases b) auto
qed (auto simp: Cons_eq_append_conv)

lemma join_inject:
  assumes "\<And>x. x \<in> set xs \<union> set ys \<Longrightarrow> s \<notin> set x" "xs \<noteq> []" "ys \<noteq> []"
  shows "join [s] xs = join [s] ys \<longleftrightarrow> xs = ys"
  using assms
proof (induction xs arbitrary: ys)
  case (Cons x xs)
  obtain y ys' where ys: "ys = y # ys'"
    using Cons.prems(3) by (cases ys) auto
  have free: "s \<notin> set x" "s \<notin> set y"
    using Cons.prems(1) ys by auto
  have join_Cons: "join [s] (z # zs) = (if zs = [] then z else z @ s # join [s] zs)" for z zs
    by (cases zs) simp_all
  have IH: "xs \<noteq> [] \<Longrightarrow> ys' \<noteq> [] \<Longrightarrow> join [s] xs = join [s] ys' \<longleftrightarrow> xs = ys'"
    using Cons.IH [of ys'] Cons.prems(1) ys by auto
  have "x \<noteq> y @ s # u" "y \<noteq> x @ s # u" for u
    using free by auto
  then show ?case
    using IH free split_at_unique [OF free] by (auto simp: ys join_Cons)
qed simp

locale flag_table =
  fixes tbl :: "(ustring \<times> u32) list"
  assumes names_distinct: "distinct (map fst tbl)"
    and names_plain: "f \<in> set tbl \<Longrightarrow> fst f \<noteq> [] \<and> hd (fst f) \<noteq> 48 \<and> 124 \<notin> set (fst f)"
    and single: "f \<in> set tbl \<Longrightarrow> \<exists>i < 32. snd f = push_bit i 1"
begin

lemma contains_single: "f \<in> set tbl \<Longrightarrow> contains w (snd f) \<longleftrightarrow> intersects w (snd f)"
  using single [of f] by (auto simp: contains_bits intersects_bits bit_simps)

lemma filter_names_eq:
  "map fst (filter P tbl) = map fst (filter Q tbl) \<longleftrightarrow> (\<forall>f \<in> set tbl. P f = Q f)"
proof
  assume "map fst (filter P tbl) = map fst (filter Q tbl)"
  then have "fst ` {f \<in> set tbl. P f} = fst ` {f \<in> set tbl. Q f}"
    by (metis list.set_map set_filter)
  moreover have "inj_on fst (set tbl)"
    using names_distinct by (simp add: distinct_map)
  ultimately have "{f \<in> set tbl. P f} = {f \<in> set tbl. Q f}"
    by (subst (asm) inj_on_image_eq_iff) auto
  then show "\<forall>f \<in> set tbl. P f = Q f"
    by blast
qed (auto cong: filter_cong)

lemma bit_flag_bits: "bit (flag_bits tbl) i \<longleftrightarrow> (\<exists>f \<in> set tbl. bit (snd f) i)"
proof -
  have "bit (foldr (\<lambda>f w. snd f OR w) fs 0) i \<longleftrightarrow> (\<exists>f \<in> set fs. bit (snd f) i)" for fs :: "(ustring \<times> u32) list"
    by (induction fs) (auto simp: bit_or_iff)
  then show ?thesis
    by (simp add: flag_bits_def)
qed

lemma contains_bit: "f \<in> set tbl \<Longrightarrow> contains w (snd f) \<longleftrightarrow> (\<exists>i. bit (snd f) i \<and> bit w i)"
  using single [of f] by (auto simp: contains_bits bit_simps)

lemma known_bits_eq:
  "v AND flag_bits tbl = w AND flag_bits tbl \<longleftrightarrow> (\<forall>f \<in> set tbl. contains v (snd f) = contains w (snd f))"
proof
  assume e: "v AND flag_bits tbl = w AND flag_bits tbl"
  have "bit v i = bit w i" if "f \<in> set tbl" "bit (snd f) i" for f i
    using arg_cong [OF e, of "\<lambda>x. bit x i"] that bit_flag_bits by (auto simp: bit_and_iff)
  then show "\<forall>f \<in> set tbl. contains v (snd f) = contains w (snd f)"
    by (metis contains_bit)
next
  assume c: "\<forall>f \<in> set tbl. contains v (snd f) = contains w (snd f)"
  show "v AND flag_bits tbl = w AND flag_bits tbl"
  proof (rule bit_word_eqI)
    fix i
    have "bit v i = bit w i" if f: "f \<in> set tbl" "bit (snd f) i" for f
    proof -
      obtain j where j: "snd f = push_bit j 1" "j < 32"
        using single [OF f(1)] by blast
      then have "bit (snd f) k \<longleftrightarrow> k = j" for k
        by (auto simp: bit_simps)
      then show ?thesis
        using contains_bit [OF f(1), of v] contains_bit [OF f(1), of w] c f by auto
    qed
    then show "bit (v AND flag_bits tbl) i = bit (w AND flag_bits tbl) i"
      by (auto simp: bit_and_iff bit_flag_bits)
  qed
qed

lemma display_eq:
  assumes "documented_names tbl names"
  shows "display_flags names v = display_flags names w \<longleftrightarrow>
    (if v AND flag_bits tbl = 0 then v = w else v AND flag_bits tbl = w AND flag_bits tbl)"
proof -
  have n: "names x = map fst (filter (\<lambda>f. contains x (snd f)) tbl)" for x
    using assms by (simp add: documented_names_def)
  have none: "names x = [] \<longleftrightarrow> x AND flag_bits tbl = 0" for x
  proof -
    have "\<not> contains 0 (snd f)" if "f \<in> set tbl" for f
      using contains_bit [OF that, of 0] by simp
    then show ?thesis
      using known_bits_eq [of x 0] by (auto simp: n filter_empty_conv)
  qed
  have plain: "124 \<notin> set a" "a \<noteq> []" "hd a \<noteq> 48" if "a \<in> set (names x)" for a x
    using that names_plain by (auto simp: n)
  have mixed: "join [124] (names x) \<noteq> 48 # u" if ne: "names x \<noteq> []" for x u
  proof -
    obtain a as where x: "names x = a # as"
      using ne by (cases "names x") auto
    have "hd (join [124] (a # as)) = hd a"
      using plain(2) [of a x] x by (cases as) simp_all
    then show ?thesis
      using plain(3) [of a x] x by auto
  qed
  have both: "join [124] (names v) = join [124] (names w) \<longleftrightarrow> v AND flag_bits tbl = w AND flag_bits tbl"
    if "names v \<noteq> []" "names w \<noteq> []"
  proof -
    have "join [124] (names v) = join [124] (names w) \<longleftrightarrow> names v = names w"
      using that plain(1) by (intro join_inject) auto
    then show ?thesis
      by (simp add: known_bits_eq n filter_names_eq)
  qed
  have t: "lit ''|'' = [124]" "lit ''0x'' = [48, 120]"
    by (simp_all add: lit_def)
  have un: "unat v = unat w \<longleftrightarrow> v = w"
    by (simp add: word_unat_eq_iff)
  have eq0: "v AND flag_bits tbl = w AND flag_bits tbl \<longleftrightarrow> False" if "(v AND flag_bits tbl = 0) \<noteq> (w AND flag_bits tbl = 0)"
    using that by auto
  show ?thesis
    using none mixed [of v] mixed [of w, THEN not_sym] both eq0
    by (cases "names v = []"; cases "names w = []") (auto simp: display_flags_def t hex_inject un)
qed

end

interpretation reasons: flag_table reason_flags
proof
  show "distinct (map fst reason_flags)"
    by (simp add: reason_flags_def lit_def)
  show "fst f \<noteq> [] \<and> hd (fst f) \<noteq> 48 \<and> 124 \<notin> set (fst f)" if "f \<in> set reason_flags" for f
    using that by (auto simp: reason_flags_def lit_def)
  have "list_all (\<lambda>f. list_ex (\<lambda>i. snd f = push_bit i 1) [0..<32]) reason_flags"
    by (simp add: reason_flags_def reason_defs upt_rec push_bit_eq_mult)
  then show "\<exists>i < 32. snd f = push_bit i 1" if "f \<in> set reason_flags" for f
    using that by (fastforce simp: list_all_iff list_ex_iff)
qed

interpretation attributes: flag_table attribute_flags
proof
  show "distinct (map fst attribute_flags)"
    by (simp add: attribute_flags_def lit_def)
  show "fst f \<noteq> [] \<and> hd (fst f) \<noteq> 48 \<and> 124 \<notin> set (fst f)" if "f \<in> set attribute_flags" for f
    using that by (auto simp: attribute_flags_def lit_def)
  have "list_all (\<lambda>f. list_ex (\<lambda>i. snd f = push_bit i 1) [0..<32]) attribute_flags"
    by (simp add: attribute_flags_def attribute_flag_defs upt_rec push_bit_eq_mult)
  then show "\<exists>i < 32. snd f = push_bit i 1" if "f \<in> set attribute_flags" for f
    using that by (fastforce simp: list_all_iff list_ex_iff)
qed

text \<open>
  The printed form of a word of flags is exact up to the bits without a name: two words with a
  named bit print alike exactly when their named bits agree, and a word without one prints its
  bits in full and like no other.
\<close>

lemma flag_text_exact:
  assumes "documented_names reason_flags names" "documented_names attribute_flags names'"
  shows "display_flags names v = display_flags names w \<longleftrightarrow>
      (if v AND all_reasons = 0 then v = w else v AND all_reasons = w AND all_reasons)"
    and "display_attributes names' v = display_attributes names' w \<longleftrightarrow>
      (if v AND flag_bits attribute_flags = 0 then v = w
       else v AND flag_bits attribute_flags = w AND flag_bits attribute_flags)"
proof -
  have "flag_bits reason_flags = all_reasons"
    by (simp add: flag_bits_def reason_flags_def all_reasons_def)
  then show "display_flags names v = display_flags names w \<longleftrightarrow>
      (if v AND all_reasons = 0 then v = w else v AND all_reasons = w AND all_reasons)"
    using reasons.display_eq [OF assms(1)] by simp
qed (simp only: display_attributes_def attributes.display_eq [OF assms(2)])

end
