(* ===== verification/Logfile.thy ===== *)
theory Logfile
  imports Usn_Record Mft_Record
begin

text \<open>
  \<open>core/src/logfile/mod.rs\<close>: the operation codes of the NTFS log, its record pages (each
  fixed up like an MFT record), the walk over the log records of a page, and the summary
  scan with its gap heuristic.
\<close>

section \<open>Operation codes\<close>

datatype log_op =
    Noop
  | CompensationLogRecord
  | InitializeFileRecordSegment
  | DeallocateFileRecordSegment
  | WriteEndOfFileRecordSegment
  | CreateAttribute
  | DeleteAttribute
  | UpdateResidentValue
  | UpdateNonResidentValue
  | UpdateMappingPairs
  | DeleteDirtyClusters
  | SetNewAttributeSizes
  | AddIndexEntryRoot
  | DeleteIndexEntryRoot
  | AddIndexEntryAllocation
  | DeleteIndexEntryAllocation
  | WriteEndOfIndexBuffer
  | SetIndexEntryVcnRoot
  | SetIndexEntryVcnAllocation
  | UpdateFileNameRoot
  | UpdateFileNameAllocation
  | SetBitsInNonResidentBitMap
  | ClearBitsInNonResidentBitMap
  | HotFix
  | EndTopLevelAction
  | PrepareTransaction
  | CommitTransaction
  | ForgetTransaction
  | OpenNonResidentAttribute
  | OpenAttributeTableDump
  | AttributeNamesDump
  | DirtyPageTableDump
  | TransactionTableDump
  | UpdateRecordDataRoot
  | UpdateRecordDataAllocation
  | UnknownOp u16

definition log_op_from_u16 :: "u16 \<Rightarrow> log_op" where
  "log_op_from_u16 c =
     (if c = 0x00 then Noop
      else if c = 0x01 then CompensationLogRecord
      else if c = 0x02 then InitializeFileRecordSegment
      else if c = 0x03 then DeallocateFileRecordSegment
      else if c = 0x04 then WriteEndOfFileRecordSegment
      else if c = 0x05 then CreateAttribute
      else if c = 0x06 then DeleteAttribute
      else if c = 0x07 then UpdateResidentValue
      else if c = 0x08 then UpdateNonResidentValue
      else if c = 0x09 then UpdateMappingPairs
      else if c = 0x0A then DeleteDirtyClusters
      else if c = 0x0B then SetNewAttributeSizes
      else if c = 0x0C then AddIndexEntryRoot
      else if c = 0x0D then DeleteIndexEntryRoot
      else if c = 0x0E then AddIndexEntryAllocation
      else if c = 0x0F then DeleteIndexEntryAllocation
      else if c = 0x10 then WriteEndOfIndexBuffer
      else if c = 0x11 then SetIndexEntryVcnRoot
      else if c = 0x12 then SetIndexEntryVcnAllocation
      else if c = 0x13 then UpdateFileNameRoot
      else if c = 0x14 then UpdateFileNameAllocation
      else if c = 0x15 then SetBitsInNonResidentBitMap
      else if c = 0x16 then ClearBitsInNonResidentBitMap
      else if c = 0x17 then HotFix
      else if c = 0x18 then EndTopLevelAction
      else if c = 0x19 then PrepareTransaction
      else if c = 0x1A then CommitTransaction
      else if c = 0x1B then ForgetTransaction
      else if c = 0x1C then OpenNonResidentAttribute
      else if c = 0x1D then OpenAttributeTableDump
      else if c = 0x1E then AttributeNamesDump
      else if c = 0x1F then DirtyPageTableDump
      else if c = 0x20 then TransactionTableDump
      else if c = 0x21 then UpdateRecordDataRoot
      else if c = 0x22 then UpdateRecordDataAllocation
      else UnknownOp c)"

fun log_op_code :: "log_op \<Rightarrow> u16" where
  "log_op_code Noop = 0x00"
| "log_op_code CompensationLogRecord = 0x01"
| "log_op_code InitializeFileRecordSegment = 0x02"
| "log_op_code DeallocateFileRecordSegment = 0x03"
| "log_op_code WriteEndOfFileRecordSegment = 0x04"
| "log_op_code CreateAttribute = 0x05"
| "log_op_code DeleteAttribute = 0x06"
| "log_op_code UpdateResidentValue = 0x07"
| "log_op_code UpdateNonResidentValue = 0x08"
| "log_op_code UpdateMappingPairs = 0x09"
| "log_op_code DeleteDirtyClusters = 0x0A"
| "log_op_code SetNewAttributeSizes = 0x0B"
| "log_op_code AddIndexEntryRoot = 0x0C"
| "log_op_code DeleteIndexEntryRoot = 0x0D"
| "log_op_code AddIndexEntryAllocation = 0x0E"
| "log_op_code DeleteIndexEntryAllocation = 0x0F"
| "log_op_code WriteEndOfIndexBuffer = 0x10"
| "log_op_code SetIndexEntryVcnRoot = 0x11"
| "log_op_code SetIndexEntryVcnAllocation = 0x12"
| "log_op_code UpdateFileNameRoot = 0x13"
| "log_op_code UpdateFileNameAllocation = 0x14"
| "log_op_code SetBitsInNonResidentBitMap = 0x15"
| "log_op_code ClearBitsInNonResidentBitMap = 0x16"
| "log_op_code HotFix = 0x17"
| "log_op_code EndTopLevelAction = 0x18"
| "log_op_code PrepareTransaction = 0x19"
| "log_op_code CommitTransaction = 0x1A"
| "log_op_code ForgetTransaction = 0x1B"
| "log_op_code OpenNonResidentAttribute = 0x1C"
| "log_op_code OpenAttributeTableDump = 0x1D"
| "log_op_code AttributeNamesDump = 0x1E"
| "log_op_code DirtyPageTableDump = 0x1F"
| "log_op_code TransactionTableDump = 0x20"
| "log_op_code UpdateRecordDataRoot = 0x21"
| "log_op_code UpdateRecordDataAllocation = 0x22"
| "log_op_code (UnknownOp c) = c"

section \<open>Pages\<close>

definition RSTR_SIGNATURE :: bytes where
  "RSTR_SIGNATURE = [0x52, 0x53, 0x54, 0x52]"

definition RCRD_SIGNATURE :: bytes where
  "RCRD_SIGNATURE = [0x52, 0x43, 0x52, 0x44]"

definition LOG_PAGE_SIZE :: nat where
  "LOG_PAGE_SIZE = 0x1000"

record restart_area =
  ra_offset :: nat
  current_lsn :: u64
  log_clients :: u16
  system_page_size :: u32
  log_page_size :: u32

record log_file_summary =
  restart_areas :: "restart_area list"
  record_page_count :: nat
  has_gaps :: bool
  highest_lsn :: u64

record record_page =
  rp_offset :: nat
  last_lsn :: u64
  rp_data :: bytes

text \<open>One page of \<open>read_record_pages\<close>: the page when it is a record page with a sound fixup.\<close>

definition read_page :: "nomicon \<Rightarrow> bytes \<Rightarrow> nat \<Rightarrow> record_page option res" where
  "read_page N data page_idx =
     (let off = page_idx * LOG_PAGE_SIZE in
      and_then (slice data off (off + LOG_PAGE_SIZE)) (\<lambda>page.
      and_then (slice page 0 4) (\<lambda>sig.
      if sig \<noteq> RCRD_SIGNATURE then Ok None
      else case fixup N page 512 of
        Err _ \<Rightarrow> Ok None
      | Panic \<Rightarrow> Panic
      | Ok buf \<Rightarrow>
          and_then (read_u64_le buf 0x08) (\<lambda>l.
          Ok (Some \<lparr>rp_offset = off, last_lsn = l, rp_data = buf\<rparr>)))))"

fun read_pages :: "nomicon \<Rightarrow> bytes \<Rightarrow> nat list \<Rightarrow> record_page list res" where
  "read_pages N data [] = Ok []"
| "read_pages N data (i # is) =
     and_then (read_page N data i) (\<lambda>p.
     and_then (read_pages N data is) (\<lambda>ps.
     Ok (case p of None \<Rightarrow> ps | Some x \<Rightarrow> x # ps)))"

definition read_record_pages :: "nomicon \<Rightarrow> bytes \<Rightarrow> record_page list res" where
  "read_record_pages N data = read_pages N data [0..<length data div LOG_PAGE_SIZE]"

section \<open>Log records\<close>

record log_record =
  page_offset :: nat
  this_lsn :: u64
  client_previous_lsn :: u64
  client_undo_next_lsn :: u64
  record_type :: u32
  transaction_id :: u32
  redo_op :: log_op
  undo_op :: log_op
  target_attribute :: u16
  mft_cluster_index :: u16
  target_vcn :: u64

definition LFS_HEADER_LEN :: nat where
  "LFS_HEADER_LEN = 0x30"

definition plausible :: "bytes \<Rightarrow> nat \<Rightarrow> bool" where
  "plausible data off \<longleftrightarrow>
     le_u64 data off \<noteq> 0 \<and> le_u64 data off \<le> le_u64 data 0x08 \<and>
     (le_u32 data (off + 0x20) = 1 \<or> le_u32 data (off + 0x20) = 2) \<and>
     le_u16 data (off + 0x30) \<le> 0x22 \<and>
     off + LFS_HEADER_LEN + unat (le_u32 data (off + 0x18)) \<le> length data"

definition log_record_at :: "bytes \<Rightarrow> nat \<Rightarrow> log_record" where
  "log_record_at data off =
     \<lparr>page_offset = off, this_lsn = le_u64 data off,
      client_previous_lsn = le_u64 data (off + 0x08),
      client_undo_next_lsn = le_u64 data (off + 0x10),
      record_type = le_u32 data (off + 0x20),
      transaction_id = le_u32 data (off + 0x24),
      redo_op = log_op_from_u16 (le_u16 data (off + 0x30)),
      undo_op = log_op_from_u16 (le_u16 data (off + 0x32)),
      target_attribute = le_u16 data (off + 0x3C),
      mft_cluster_index = le_u16 data (off + 0x44),
      target_vcn = le_u64 data (off + 0x48)\<rparr>"

function log_records_loop :: "bytes \<Rightarrow> nat \<Rightarrow> nat \<Rightarrow> log_record list" where
  "log_records_loop data stop off =
     (if \<not> off + LFS_HEADER_LEN \<le> stop then []
      else if \<not> plausible data off then log_records_loop data stop (off + 8)
      else log_record_at data off #
        log_records_loop data stop
          (off + max (align8 (LFS_HEADER_LEN + unat (le_u32 data (off + 0x18)))) 8))"
  by pat_completeness auto

termination log_records_loop
  by (relation "measure (\<lambda>(data, stop, off). stop - off)") (auto simp: LFS_HEADER_LEN_def)

declare log_records_loop.simps [simp del]

definition parse_log_records :: "record_page \<Rightarrow> log_record list" where
  "parse_log_records page =
     (let data = rp_data page; stop = min (unat (le_u16 data 0x18)) (length data)
      in log_records_loop data stop (max LFS_HEADER_LEN 0x40))"

section \<open>The summary scan\<close>

record scan_state =
  sc_restarts :: "restart_area list"
  sc_pages :: nat
  sc_highest :: u64
  sc_gaps :: bool
  sc_prev_rcrd :: bool

definition scan_restart :: "bytes \<Rightarrow> nat \<Rightarrow> scan_state \<Rightarrow> scan_state res" where
  "scan_restart data off s =
     (if off + 0x28 \<le> length data then
        and_then (read_u64_le data (off + 0x08)) (\<lambda>l.
        and_then (read_u16_le data (off + 0x10)) (\<lambda>c.
        and_then (read_u32_le data (off + 0x20)) (\<lambda>sp.
        and_then (read_u32_le data (off + 0x24)) (\<lambda>lp.
        Ok (s\<lparr>sc_highest := (if l > sc_highest s then l else sc_highest s),
              sc_restarts := sc_restarts s @ [\<lparr>ra_offset = off, current_lsn = l, log_clients = c,
                system_page_size = sp, log_page_size = lp\<rparr>],
              sc_prev_rcrd := False\<rparr>)))))
      else Ok (s\<lparr>sc_prev_rcrd := False\<rparr>))"

definition scan_record_page :: "bytes \<Rightarrow> nat \<Rightarrow> scan_state \<Rightarrow> scan_state res" where
  "scan_record_page data off s =
     (let s = s\<lparr>sc_pages := sc_pages s + 1\<rparr> in
      if off + 0x20 \<le> length data then
        and_then (read_u64_le data (off + 0x18)) (\<lambda>l.
        Ok (s\<lparr>sc_highest := (if l > sc_highest s then l else sc_highest s), sc_prev_rcrd := True\<rparr>))
      else Ok (s\<lparr>sc_prev_rcrd := True\<rparr>))"

definition scan_page :: "bytes \<Rightarrow> nat \<Rightarrow> scan_state \<Rightarrow> scan_state res" where
  "scan_page data page_idx s =
     (let off = page_idx * LOG_PAGE_SIZE in
      and_then (slice data off (off + 4)) (\<lambda>sig.
      if sig = RSTR_SIGNATURE then scan_restart data off s
      else if sig = RCRD_SIGNATURE then scan_record_page data off s
      else Ok (s\<lparr>sc_gaps := (if sc_prev_rcrd s \<and> page_idx > 2 \<and> sig \<noteq> [0, 0, 0, 0] then True
                            else sc_gaps s),
                 sc_prev_rcrd := False\<rparr>)))"

fun scan_pages :: "bytes \<Rightarrow> nat list \<Rightarrow> scan_state \<Rightarrow> scan_state res" where
  "scan_pages data [] s = Ok s"
| "scan_pages data (i # is) s = and_then (scan_page data i s) (scan_pages data is)"

definition parse_logfile :: "bytes \<Rightarrow> log_file_summary res" where
  "parse_logfile data =
     and_then (scan_pages data [0..<length data div LOG_PAGE_SIZE]
       \<lparr>sc_restarts = [], sc_pages = 0, sc_highest = 0, sc_gaps = False, sc_prev_rcrd = False\<rparr>) (\<lambda>s.
     Ok \<lparr>restart_areas = sc_restarts s, record_page_count = sc_pages s, has_gaps = sc_gaps s,
         highest_lsn = sc_highest s\<rparr>)"

definition detect_journal_clearing :: "log_file_summary \<Rightarrow> bool" where
  "detect_journal_clearing s \<longleftrightarrow>
     (if has_gaps s then True
      else if length (restart_areas s) \<noteq> 2 then restart_areas s = []
      else False)"

section \<open>Operation codes are preserved\<close>

lemma log_op_code_from: "log_op_code (log_op_from_u16 c) = c"
  by (simp add: log_op_from_u16_def)

lemma small_u16:
  assumes "c \<le> (0x22 :: u16)"
  shows "c \<in> set (map word_of_nat [0..<35])"
proof -
  have "unat c \<in> set [0..<35]"
    using assms by (simp add: word_le_nat_alt)
  then have "(word_of_nat (unat c) :: u16) \<in> word_of_nat ` set [0..<35]"
    by (rule imageI)
  then show ?thesis by simp
qed

lemma log_op_documented:
  assumes "c \<le> 0x22"
  shows "log_op_from_u16 c \<noteq> UnknownOp d"
proof
  assume "log_op_from_u16 c = UnknownOp d"
  then have "c \<notin> set (map word_of_nat [0..<35])"
    by (simp add: log_op_from_u16_def upt_rec split: if_splits)
  with small_u16 [OF assms] show False by blast
qed

lemma log_op_undocumented:
  assumes "0x22 < c"
  shows "log_op_from_u16 c = UnknownOp c"
  using assms by (auto simp: log_op_from_u16_def)

lemma log_op_from_code:
  assumes "\<And>c. op = UnknownOp c \<Longrightarrow> 0x22 < c"
  shows "log_op_from_u16 (log_op_code op) = op"
  using assms log_op_undocumented by (cases op) (simp_all add: log_op_from_u16_def)

section \<open>Pages\<close>

lemma read_page_spec:
  assumes "i < length data div LOG_PAGE_SIZE"
  defines "page \<equiv> take LOG_PAGE_SIZE (drop (i * LOG_PAGE_SIZE) data)"
  shows "read_page N data i =
    Ok (if take 4 page = RCRD_SIGNATURE then
          (case fixup N page 512 of
             Ok buf \<Rightarrow> Some \<lparr>rp_offset = i * LOG_PAGE_SIZE, last_lsn = le_u64 buf 8, rp_data = buf\<rparr>
           | _ \<Rightarrow> None)
        else None)"
proof -
  have "Suc i * LOG_PAGE_SIZE \<le> length data div LOG_PAGE_SIZE * LOG_PAGE_SIZE"
    using assms(1) by (intro mult_le_mono1) simp
  also have "\<dots> \<le> length data"
    by (rule div_times_less_eq_dividend)
  finally have fits: "i * LOG_PAGE_SIZE + LOG_PAGE_SIZE \<le> length data"
    by (simp add: algebra_simps)
  then have lp: "length page = 4096" "slice data (i * LOG_PAGE_SIZE) (i * LOG_PAGE_SIZE + LOG_PAGE_SIZE) = Ok page"
    by (simp_all add: page_def LOG_PAGE_SIZE_def)
  have "read_u64_le buf 8 = Ok (le_u64 buf 8)" if "fixup N page 512 = Ok buf" for buf
    using rec.fx_length [OF that] lp(1) by (intro reads_in) simp
  then show ?thesis
    using lp by (auto simp: read_page_def Let_def rec.fx_no_panic split: res.splits)
qed

definition page_of :: "nomicon \<Rightarrow> bytes \<Rightarrow> nat \<Rightarrow> record_page option" where
  "page_of N data i =
     (let page = take LOG_PAGE_SIZE (drop (i * LOG_PAGE_SIZE) data) in
      if take 4 page = RCRD_SIGNATURE then
        (case fixup N page 512 of
           Ok buf \<Rightarrow> Some \<lparr>rp_offset = i * LOG_PAGE_SIZE, last_lsn = le_u64 buf 8, rp_data = buf\<rparr>
         | _ \<Rightarrow> None)
      else None)"

lemma read_pages_spec:
  "set is \<subseteq> {..<length data div LOG_PAGE_SIZE} \<Longrightarrow>
   read_pages N data is = Ok (List.map_filter (page_of N data) is)"
proof (induction "is")
  case Nil
  then show ?case by (simp add: List.map_filter_def)
next
  case (Cons i "is")
  then have "read_page N data i = Ok (page_of N data i)"
    by (subst read_page_spec) (simp_all add: page_of_def Let_def)
  with Cons show ?case
    by (simp add: map_filter_simps split: option.splits)
qed

text \<open>The fixup leaves the first bytes of a page alone, so a returned page is still marked.\<close>

lemma page_of_Some:
  assumes "page_of N data i = Some p" "i < length data div LOG_PAGE_SIZE"
  shows "rp_offset p = i * LOG_PAGE_SIZE" "length (rp_data p) = LOG_PAGE_SIZE"
    "take 4 (rp_data p) = RCRD_SIGNATURE" "last_lsn p = le_u64 (rp_data p) 8"
proof -
  let ?page = "take LOG_PAGE_SIZE (drop (i * LOG_PAGE_SIZE) data)"
  have "Suc i * LOG_PAGE_SIZE \<le> length data div LOG_PAGE_SIZE * LOG_PAGE_SIZE"
    using assms(2) by (intro mult_le_mono1) simp
  also have "\<dots> \<le> length data"
    by (rule div_times_less_eq_dividend)
  finally have "length ?page = LOG_PAGE_SIZE"
    by (simp add: algebra_simps LOG_PAGE_SIZE_def)
  moreover obtain buf where "take 4 ?page = RCRD_SIGNATURE" "fixup N ?page 512 = Ok buf"
    "p = \<lparr>rp_offset = i * LOG_PAGE_SIZE, last_lsn = le_u64 buf 8, rp_data = buf\<rparr>"
    using assms(1) by (auto simp: page_of_def Let_def split: if_splits res.splits)
  ultimately show "rp_offset p = i * LOG_PAGE_SIZE" "length (rp_data p) = LOG_PAGE_SIZE"
    "take 4 (rp_data p) = RCRD_SIGNATURE" "last_lsn p = le_u64 (rp_data p) 8"
    using rec.fx_length [of N ?page 512 buf] rec.keeps_signature [of N ?page 512 buf] by simp_all
qed

section \<open>Log records\<close>

text \<open>Records of a walk lie behind each other, on eight-byte boundaries from its start.\<close>

fun log_chain :: "bytes \<Rightarrow> nat \<Rightarrow> nat \<Rightarrow> log_record list \<Rightarrow> bool" where
  "log_chain data stop off [] = True"
| "log_chain data stop off (r # rs) \<longleftrightarrow>
     off \<le> page_offset r \<and> 8 dvd page_offset r - off \<and> page_offset r + LFS_HEADER_LEN \<le> stop \<and>
     plausible data (page_offset r) \<and> r = log_record_at data (page_offset r) \<and>
     log_chain data stop
       (page_offset r + align8 (LFS_HEADER_LEN + unat (le_u32 data (page_offset r + 0x18)))) rs"

lemma log_chain_later: "log_chain data stop (off + 8) rs \<Longrightarrow> log_chain data stop off rs"
  by (cases rs) (auto, presburger)

lemma log_records_loop_chain: "log_chain data stop off (log_records_loop data stop off)"
proof (induction data stop off rule: log_records_loop.induct)
  case (1 data stop off)
  have a: "max (align8 (LFS_HEADER_LEN + n)) 8 = align8 (LFS_HEADER_LEN + n)" for n
    using align8_ge(1) [of "LFS_HEADER_LEN + n"] by (simp add: LFS_HEADER_LEN_def)
  have off: "page_offset (log_record_at data off) = off"
    by (simp add: log_record_at_def)
  show ?case
  proof (cases "off + LFS_HEADER_LEN \<le> stop")
    case True
    show ?thesis
    proof (cases "plausible data off")
      case False
      with True 1 show ?thesis
        by (subst log_records_loop.simps) (auto intro: log_chain_later)
    next
      case p: True
      with True 1 show ?thesis
        by (subst log_records_loop.simps) (simp add: off a)
    qed
  next
    case False
    then show ?thesis by (subst log_records_loop.simps) simp
  qed
qed

lemma log_chain_members:
  "log_chain data stop off rs \<Longrightarrow> r \<in> set rs \<Longrightarrow>
   this_lsn r \<noteq> 0 \<and> this_lsn r \<le> le_u64 data 8 \<and> (\<forall>c. redo_op r \<noteq> UnknownOp c) \<and>
   off \<le> page_offset r \<and> page_offset r + LFS_HEADER_LEN \<le> stop"
proof (induction rs arbitrary: off)
  case Nil
  then show ?case by simp
next
  case (Cons x xs)
  show ?case
  proof (cases "r = x")
    case True
    with Cons.prems(1) have r: "r = log_record_at data (page_offset r)" "plausible data (page_offset r)"
      "off \<le> page_offset r" "page_offset r + LFS_HEADER_LEN \<le> stop"
      by auto
    have "this_lsn r = le_u64 data (page_offset r)"
      "redo_op r = log_op_from_u16 (le_u16 data (page_offset r + 0x30))"
      by (subst r(1), simp add: log_record_at_def)+
    with r show ?thesis
      by (auto simp: plausible_def log_op_documented)
  next
    case False
    with Cons.prems Cons.IH show ?thesis
      by fastforce
  qed
qed

section \<open>The summary\<close>

definition page_sig :: "bytes \<Rightarrow> nat \<Rightarrow> bytes" where
  "page_sig data i = take 4 (drop (i * LOG_PAGE_SIZE) data)"

text \<open>A page that is neither kind of log page nor blank, right after a record page.\<close>

definition gap_page :: "bytes \<Rightarrow> nat \<Rightarrow> bool" where
  "gap_page data i \<longleftrightarrow> 2 < i \<and> page_sig data (i - 1) = RCRD_SIGNATURE \<and>
     page_sig data i \<notin> {RSTR_SIGNATURE, RCRD_SIGNATURE, [0, 0, 0, 0]}"

definition scan_inv :: "bytes \<Rightarrow> nat \<Rightarrow> scan_state \<Rightarrow> bool" where
  "scan_inv data n s \<longleftrightarrow>
     sc_prev_rcrd s = (0 < n \<and> page_sig data (n - 1) = RCRD_SIGNATURE) \<and>
     sc_gaps s = (\<exists>i < n. gap_page data i) \<and>
     sc_pages s = length (filter (\<lambda>i. page_sig data i = RCRD_SIGNATURE) [0..<n]) \<and>
     map ra_offset (sc_restarts s) =
       map (\<lambda>i. i * LOG_PAGE_SIZE) (filter (\<lambda>i. page_sig data i = RSTR_SIGNATURE) [0..<n]) \<and>
     (\<forall>r \<in> set (sc_restarts s). current_lsn r \<le> sc_highest s)"

lemma scan_pages_snoc:
  "scan_pages data (is @ [i]) s = and_then (scan_pages data is s) (scan_page data i)"
  by (induction "is" arbitrary: s) (simp_all add: and_then_def split: res.splits)

lemma page_fits: "i < length data div LOG_PAGE_SIZE \<Longrightarrow> i * LOG_PAGE_SIZE + LOG_PAGE_SIZE \<le> length data"
  by (rule block_fits)

lemma signatures_differ: "RSTR_SIGNATURE \<noteq> RCRD_SIGNATURE" "RCRD_SIGNATURE \<noteq> RSTR_SIGNATURE"
  by (simp_all add: RSTR_SIGNATURE_def RCRD_SIGNATURE_def)

lemma scan_restart_total:
  assumes "off + 0x28 \<le> length data"
  shows "\<exists>l c sp lp. scan_restart data off s =
    Ok (s\<lparr>sc_highest := (if l > sc_highest s then l else sc_highest s),
          sc_restarts := sc_restarts s @ [\<lparr>ra_offset = off, current_lsn = l, log_clients = c,
            system_page_size = sp, log_page_size = lp\<rparr>],
          sc_prev_rcrd := False\<rparr>)"
  using assms by (auto simp: scan_restart_def reads_in)

lemma ex_less_Suc: "(\<exists>i < Suc n. P i) \<longleftrightarrow> (\<exists>i < n. P i) \<or> P n"
  by (auto simp: less_Suc_eq)

lemma scan_page_inv:
  assumes "scan_inv data n s" "n < length data div LOG_PAGE_SIZE"
  shows "\<exists>s'. scan_page data n s = Ok s' \<and> scan_inv data (Suc n) s'"
proof -
  let ?off = "n * LOG_PAGE_SIZE"
  have fits: "?off + 4096 \<le> length data"
    using page_fits [OF assms(2)] by (simp add: LOG_PAGE_SIZE_def)
  have sig: "slice data ?off (?off + 4) = Ok (page_sig data n)"
    using fits by (simp add: page_sig_def)
  consider (rstr) "page_sig data n = RSTR_SIGNATURE" | (rcrd) "page_sig data n = RCRD_SIGNATURE"
    | (other) "page_sig data n \<noteq> RSTR_SIGNATURE" "page_sig data n \<noteq> RCRD_SIGNATURE"
    by blast
  then show ?thesis
  proof cases
    case rstr
    have "scan_page data n s = scan_restart data ?off s"
      using sig rstr by (simp add: scan_page_def)
    moreover obtain l c sp lp where "scan_restart data ?off s =
        Ok (s\<lparr>sc_highest := (if l > sc_highest s then l else sc_highest s),
          sc_restarts := sc_restarts s @ [\<lparr>ra_offset = ?off, current_lsn = l, log_clients = c,
            system_page_size = sp, log_page_size = lp\<rparr>],
          sc_prev_rcrd := False\<rparr>)"
      using scan_restart_total [of ?off data s] fits by auto
    ultimately show ?thesis
      using assms(1) rstr
      by (auto simp: scan_inv_def signatures_differ ex_less_Suc gap_page_def intro: order_trans)
  next
    case rcrd
    then have "scan_page data n s =
        Ok (s\<lparr>sc_pages := sc_pages s + 1,
          sc_highest := (if le_u64 data (?off + 0x18) > sc_highest s then le_u64 data (?off + 0x18)
            else sc_highest s), sc_prev_rcrd := True\<rparr>)"
      using sig fits signatures_differ by (simp add: scan_page_def scan_record_page_def reads_in)
    then show ?thesis
      using assms(1) rcrd
      by (auto simp: scan_inv_def signatures_differ ex_less_Suc gap_page_def intro: order_trans)
  next
    case other
    then have "scan_page data n s =
        Ok (s\<lparr>sc_gaps := (if sc_prev_rcrd s \<and> n > 2 \<and> page_sig data n \<noteq> [0, 0, 0, 0] then True
              else sc_gaps s), sc_prev_rcrd := False\<rparr>)"
      using sig by (simp add: scan_page_def)
    then show ?thesis
      using assms(1) other
      by (auto simp: scan_inv_def ex_less_Suc gap_page_def)
  qed
qed

lemma scan_pages_inv:
  assumes "n \<le> length data div LOG_PAGE_SIZE"
  shows "\<exists>s. scan_pages data [0..<n] \<lparr>sc_restarts = [], sc_pages = 0, sc_highest = 0, sc_gaps = False,
      sc_prev_rcrd = False\<rparr> = Ok s \<and> scan_inv data n s"
  using assms
proof (induction n)
  case 0
  then show ?case by (simp add: scan_inv_def)
next
  case (Suc n)
  then obtain s where s: "scan_pages data [0..<n] \<lparr>sc_restarts = [], sc_pages = 0, sc_highest = 0,
      sc_gaps = False, sc_prev_rcrd = False\<rparr> = Ok s" "scan_inv data n s"
    by auto
  with scan_page_inv [OF s(2)] Suc.prems show ?case
    by (auto simp: scan_pages_snoc)
qed

section \<open>Properties\<close>

text \<open>
  No operation code is lost: the code of a decoded operation is the code that was read,
  every documented code decodes to an operation of its own, and every operation except an
  \<open>Unknown\<close> holding a documented code decodes back to itself.
\<close>

theorem log_op_roundtrip:
  "log_op_code (log_op_from_u16 c) = c \<and>
   (log_op_from_u16 c = UnknownOp d \<longleftrightarrow> 0x22 < c \<and> d = c) \<and>
   (log_op_from_u16 (log_op_code op) = op \<longleftrightarrow> (case op of UnknownOp e \<Rightarrow> 0x22 < e | _ \<Rightarrow> True))"
proof (intro conjI)
  show "log_op_code (log_op_from_u16 c) = c"
    by (rule log_op_code_from)
  show unknown: "log_op_from_u16 c = UnknownOp d \<longleftrightarrow> 0x22 < c \<and> d = c" for c d
    using log_op_documented [of c d] by (cases "0x22 < c") (auto simp: log_op_undocumented not_less)
  show "log_op_from_u16 (log_op_code op) = op \<longleftrightarrow> (case op of UnknownOp e \<Rightarrow> 0x22 < e | _ \<Rightarrow> True)"
  proof (cases "\<exists>e. op = UnknownOp e")
    case True
    then show ?thesis
      by (auto simp: unknown)
  next
    case False
    then have "log_op_from_u16 (log_op_code op) = op"
      by (intro log_op_from_code) auto
    with False show ?thesis
      by (cases op) auto
  qed
qed

text \<open>
  Page recovery is exact and total: of a log of any length the reader returns precisely
  the full pages that carry the record signature and whose fixup succeeds, in order, each
  with its restored bytes, and it never panics.
\<close>

theorem read_record_pages_exact:
  "read_record_pages N data =
     Ok (List.map_filter (page_of N data) [0..<length data div LOG_PAGE_SIZE])"
  unfolding read_record_pages_def by (rule read_pages_spec) auto

text \<open>
  Every log record the walk of a page reports starts behind the page header on an
  eight-byte boundary, does not overlap the one before, has a sequence number within the
  page's range and a documented redo operation.
\<close>

theorem parse_log_records_sound:
  assumes "r \<in> set (parse_log_records p)"
  shows "this_lsn r \<noteq> 0 \<and> this_lsn r \<le> le_u64 (rp_data p) 8 \<and> (\<forall>c. redo_op r \<noteq> UnknownOp c) \<and>
    0x40 \<le> page_offset r \<and> page_offset r + LFS_HEADER_LEN \<le> length (rp_data p) \<and>
    log_chain (rp_data p) (min (unat (le_u16 (rp_data p) 0x18)) (length (rp_data p))) 0x40 (parse_log_records p)"
proof -
  let ?stop = "min (unat (le_u16 (rp_data p) 0x18)) (length (rp_data p))"
  have "parse_log_records p = log_records_loop (rp_data p) ?stop 0x40"
    by (simp add: parse_log_records_def LFS_HEADER_LEN_def Let_def)
  then show ?thesis
    using log_records_loop_chain [of "rp_data p" ?stop "0x40"]
      log_chain_members [of "rp_data p" ?stop "0x40" "parse_log_records p" r] assms
    by auto
qed

definition sample_page :: record_page where
  "sample_page = \<lparr>rp_offset = 0, last_lsn = 5,
     rp_data = RCRD_SIGNATURE @ [0, 0, 0, 0, 5, 0, 0, 0, 0, 0, 0, 0] @ replicate 8 0 @ [0x70, 0] @ replicate 38 0 @
       [5, 0, 0, 0, 0, 0, 0, 0] @ replicate 24 0 @ [1, 0, 0, 0, 7, 0, 0, 0] @ replicate 8 0\<rparr>"

theorem parse_log_records_sound_witness:
  "\<exists>r. r \<in> set (parse_log_records sample_page) \<and> this_lsn r \<noteq> 0 \<and> this_lsn r \<le> 5"
proof -
  let ?d = "rp_data sample_page"
  have d: "length ?d = 112" "le_u64 ?d 8 = 5" "le_u16 ?d 0x18 = 0x70" "plausible ?d 0x40"
    by (simp_all add: sample_page_def RCRD_SIGNATURE_def plausible_def le_read_defs get_range_def
        from_le_bytes_def LFS_HEADER_LEN_def)
  then have "log_record_at ?d 0x40 \<in> set (parse_log_records sample_page)"
    by (simp add: parse_log_records_def Let_def LFS_HEADER_LEN_def)
       (subst log_records_loop.simps, simp add: LFS_HEADER_LEN_def)
  with parse_log_records_sound [OF this] d(2) show ?thesis
    by auto
qed

text \<open>
  The gap flag means what it says: the summary of any log exists, counts the record
  pages, lists the restart pages in order, reports a highest sequence number no restart
  area exceeds, and flags a gap exactly when some page past the third follows a record
  page and is neither a log page nor blank.
\<close>

lemma parse_logfile_summary:
  "\<exists>s. parse_logfile data = Ok s \<and>
     (has_gaps s \<longleftrightarrow> (\<exists>i < length data div LOG_PAGE_SIZE. gap_page data i)) \<and>
     record_page_count s =
       length (filter (\<lambda>i. page_sig data i = RCRD_SIGNATURE) [0..<length data div LOG_PAGE_SIZE]) \<and>
     map ra_offset (restart_areas s) =
       map (\<lambda>i. i * LOG_PAGE_SIZE)
         (filter (\<lambda>i. page_sig data i = RSTR_SIGNATURE) [0..<length data div LOG_PAGE_SIZE]) \<and>
     list_all (\<lambda>r. current_lsn r \<le> highest_lsn s) (restart_areas s)"
  using scan_pages_inv [OF order_refl, of data]
  by (auto simp: parse_logfile_def scan_inv_def list_all_iff)

end
