(* ===== verification/Transactions.thy ===== *)
theory Transactions
  imports Logfile "HOL-Library.Multiset"
begin

text \<open>
  \<open>core/src/logfile/semantics.rs\<close> and \<open>core/src/logfile/transactions.rs\<close>: the file operation
  of a log record, and grouping records into transactions: first by transaction-table
  slot, then, in sequence-number order within the slot, into runs that end at a commit or
  forget. The order in which a \<open>HashMap\<close> yields its slots is unspecified, so it is the
  parameter \<open>order\<close>, of which only \<open>slot_order\<close> is assumed.
\<close>

section \<open>File operations\<close>

datatype file_operation =
    FCreate | FDelete | FRename | FIndexInsert | FIndexDelete | FAttributeCreate | FAttributeDelete
  | FResize | FDataWrite | FBitmapAllocation | FTransactionControl | FTableDump | FNoop
  | FUnknown u16 u16

fun classify_noop :: "log_op \<Rightarrow> file_operation" where
  "classify_noop Noop = FNoop"
| "classify_noop DeallocateFileRecordSegment = FDelete"
| "classify_noop DeleteIndexEntryRoot = FIndexDelete"
| "classify_noop DeleteIndexEntryAllocation = FIndexDelete"
| "classify_noop DeleteAttribute = FAttributeDelete"
| "classify_noop (UnknownOp u) = FUnknown 0 u"
| "classify_noop other = FUnknown 0 (log_op_code other)"

fun classify :: "log_op \<Rightarrow> log_op \<Rightarrow> file_operation" where
  "classify InitializeFileRecordSegment undo = FCreate"
| "classify DeallocateFileRecordSegment undo = FDelete"
| "classify UpdateFileNameRoot undo = FRename"
| "classify UpdateFileNameAllocation undo = FRename"
| "classify AddIndexEntryRoot undo = FIndexInsert"
| "classify AddIndexEntryAllocation undo = FIndexInsert"
| "classify DeleteIndexEntryRoot undo = FIndexDelete"
| "classify DeleteIndexEntryAllocation undo = FIndexDelete"
| "classify CreateAttribute undo = FAttributeCreate"
| "classify DeleteAttribute undo = FAttributeDelete"
| "classify SetNewAttributeSizes undo = FResize"
| "classify UpdateResidentValue undo = FDataWrite"
| "classify UpdateNonResidentValue undo = FDataWrite"
| "classify UpdateMappingPairs undo = FDataWrite"
| "classify WriteEndOfFileRecordSegment undo = FDataWrite"
| "classify WriteEndOfIndexBuffer undo = FDataWrite"
| "classify SetIndexEntryVcnRoot undo = FDataWrite"
| "classify SetIndexEntryVcnAllocation undo = FDataWrite"
| "classify UpdateRecordDataRoot undo = FDataWrite"
| "classify UpdateRecordDataAllocation undo = FDataWrite"
| "classify SetBitsInNonResidentBitMap undo = FBitmapAllocation"
| "classify ClearBitsInNonResidentBitMap undo = FBitmapAllocation"
| "classify DeleteDirtyClusters undo = FBitmapAllocation"
| "classify EndTopLevelAction undo = FTransactionControl"
| "classify PrepareTransaction undo = FTransactionControl"
| "classify CommitTransaction undo = FTransactionControl"
| "classify ForgetTransaction undo = FTransactionControl"
| "classify CompensationLogRecord undo = FTransactionControl"
| "classify HotFix undo = FTableDump"
| "classify OpenNonResidentAttribute undo = FTableDump"
| "classify OpenAttributeTableDump undo = FTableDump"
| "classify AttributeNamesDump undo = FTableDump"
| "classify DirtyPageTableDump undo = FTableDump"
| "classify TransactionTableDump undo = FTableDump"
| "classify Noop undo = classify_noop undo"
| "classify (UnknownOp r) undo = FUnknown r (log_op_code undo)"

definition classify_record :: "log_record \<Rightarrow> file_operation" where
  "classify_record r = classify (redo_op r) (undo_op r)"

section \<open>Transactions\<close>

datatype transaction_state = Committed | Aborted | Incomplete

record transaction =
  tx_slot :: u32
  tx_records :: "nat list"
  tx_lsns :: "u64 list"
  tx_operations :: "file_operation list"
  tx_state :: transaction_state

definition build_transaction ::
  "u32 \<Rightarrow> nat list \<Rightarrow> log_record list \<Rightarrow> transaction_state \<Rightarrow> transaction" where
  "build_transaction slot idxs all st =
     \<lparr>tx_slot = slot, tx_records = idxs, tx_lsns = map (\<lambda>i. this_lsn (all ! i)) idxs,
      tx_operations = map (\<lambda>i. classify (redo_op (all ! i)) (undo_op (all ! i))) idxs,
      tx_state = st\<rparr>"

text \<open>The loop over the records of one slot, with the open run and whether it was compensated.\<close>

fun split_runs :: "log_record list \<Rightarrow> u32 \<Rightarrow> nat list \<Rightarrow> nat list \<Rightarrow> bool \<Rightarrow> transaction list" where
  "split_runs all slot [] run compensated =
     (if run \<noteq> [] then [build_transaction slot run all (if compensated then Aborted else Incomplete)]
      else [])"
| "split_runs all slot (i # is) run compensated =
     (let run = run @ [i] in
      if redo_op (all ! i) = CommitTransaction \<or> redo_op (all ! i) = ForgetTransaction
      then build_transaction slot run all Committed # split_runs all slot is [] False
      else if redo_op (all ! i) = CompensationLogRecord then split_runs all slot is run True
      else split_runs all slot is run compensated)"

definition slot_members :: "log_record list \<Rightarrow> u32 \<Rightarrow> nat list" where
  "slot_members all slot = filter (\<lambda>i. transaction_id (all ! i) = slot) [0..<length all]"

definition slot_transactions :: "log_record list \<Rightarrow> u32 \<Rightarrow> transaction list" where
  "slot_transactions all slot =
     split_runs all slot (sort_key (\<lambda>i. this_lsn (all ! i)) (slot_members all slot)) [] False"

definition first_lsn :: "transaction \<Rightarrow> u64" where
  "first_lsn t = (case tx_lsns t of [] \<Rightarrow> - 1 | l # _ \<Rightarrow> l)"

definition reconstruct_transactions ::
  "(u32 list \<Rightarrow> u32 list) \<Rightarrow> log_record list \<Rightarrow> transaction list" where
  "reconstruct_transactions order all =
     sort_key first_lsn
       (concat (map (slot_transactions all) (order (remdups (map transaction_id all)))))"

text \<open>A \<open>HashMap\<close> yields each of its keys once, in some order.\<close>

definition slot_order :: "(u32 list \<Rightarrow> u32 list) \<Rightarrow> bool" where
  "slot_order order \<longleftrightarrow> (\<forall>ks. mset (order ks) = mset ks)"

section \<open>Every record lands in exactly one transaction\<close>

lemma split_runs_records: "concat (map tx_records (split_runs all slot is run c)) = run @ is"
  by (induction all slot "is" run c rule: split_runs.induct)
     (auto simp: build_transaction_def Let_def)

lemma slot_transactions_records:
  "mset (concat (map tx_records (slot_transactions all slot))) = mset (slot_members all slot)"
  by (simp add: slot_transactions_def split_runs_records)

lemma sum_slots:
  assumes "distinct ks" "set ks = f ` set xs"
  shows "(\<Sum>k\<leftarrow>ks. mset (filter (\<lambda>x. f x = k) xs)) = mset xs"
proof (rule multiset_eqI)
  fix x
  have c: "count (\<Sum>k\<leftarrow>ks. mset (filter (\<lambda>x. f x = k) xs)) x =
      (\<Sum>k\<leftarrow>ks. if f x = k then count (mset xs) x else 0)"
    by (induction ks) (auto simp: count_filter_mset)
  show "count (\<Sum>k\<leftarrow>ks. mset (filter (\<lambda>x. f x = k) xs)) x = count (mset xs) x"
  proof (cases "x \<in> set xs")
    case True
    then have "f x \<in> set ks"
      using assms(2) by auto
    then have "(\<Sum>k\<leftarrow>ks. if f x = k then count (mset xs) x else 0) = count (mset xs) x"
      using assms(1) by (subst sum_list_distinct_conv_sum_set) auto
    with c show ?thesis by simp
  next
    case False
    then have z: "count (mset xs) x = 0"
      by (simp add: count_eq_zero_iff)
    show ?thesis
      unfolding c z by simp
  qed
qed

lemma mset_concat_sorted:
  "mset (concat (map f (sort_key g ts))) = mset (concat (map f ts))"
proof -
  have "mset (concat (map f us)) = (\<Sum>\<^sub># (image_mset (\<lambda>t. mset (f t)) (mset us)))" for us
    by (induction us) simp_all
  then show ?thesis by simp
qed

lemma mset_slots:
  "mset (concat (map tx_records (concat (map (slot_transactions all) ks)))) =
     (\<Sum>k\<leftarrow>ks. mset (slot_members all k))"
  by (induction ks) (simp_all flip: slot_transactions_records)

lemma reconstruct_records:
  assumes "slot_order order"
  shows "mset (concat (map tx_records (reconstruct_transactions order all))) = mset [0..<length all]"
proof -
  let ?ks = "order (remdups (map transaction_id all))"
  have o: "mset ?ks = mset (remdups (map transaction_id all))"
    using assms by (simp add: slot_order_def)
  have d: "distinct ?ks"
    using o by (metis distinct_remdups mset_eq_imp_distinct_iff)
  have "set (map transaction_id all) = (\<lambda>i. transaction_id (all ! i)) ` set [0..<length all]"
    using image_image [of transaction_id "(!) all" "{0..<length all}"] nth_image [of "length all" all]
    by (simp add: atLeast0LessThan)
  moreover have "set ?ks = set (map transaction_id all)"
    using mset_eq_setD [OF o] by simp
  ultimately have s: "set ?ks = (\<lambda>i. transaction_id (all ! i)) ` set [0..<length all]"
    by (rule trans [rotated])
  have "mset (concat (map tx_records (reconstruct_transactions order all))) =
      (\<Sum>k\<leftarrow>?ks. mset (slot_members all k))"
    unfolding reconstruct_transactions_def mset_concat_sorted by (rule mset_slots)
  also have "\<dots> = mset [0..<length all]"
    unfolding slot_members_def by (rule sum_slots [OF d s])
  finally show ?thesis .
qed

section \<open>What a transaction is\<close>

definition terminal_op :: "log_op \<Rightarrow> bool" where
  "terminal_op r \<longleftrightarrow> r = CommitTransaction \<or> r = ForgetTransaction"

text \<open>
  The records of a transaction belong to its slot, in sequence-number order; only the last
  can be a terminal, and the state says whether it is and, if not, whether a compensation
  occurs.
\<close>

definition transaction_ok :: "log_record list \<Rightarrow> transaction \<Rightarrow> bool" where
  "transaction_ok all t \<longleftrightarrow>
     tx_records t \<noteq> [] \<and>
     (\<forall>i \<in> set (tx_records t). i < length all \<and> transaction_id (all ! i) = tx_slot t) \<and>
     sorted (tx_lsns t) \<and> tx_lsns t = map (\<lambda>i. this_lsn (all ! i)) (tx_records t) \<and>
     tx_operations t = map (\<lambda>i. classify_record (all ! i)) (tx_records t) \<and>
     (\<forall>i \<in> set (butlast (tx_records t)). \<not> terminal_op (redo_op (all ! i))) \<and>
     tx_state t =
       (if terminal_op (redo_op (all ! last (tx_records t))) then Committed
        else if \<exists>i \<in> set (tx_records t). redo_op (all ! i) = CompensationLogRecord then Aborted
        else Incomplete)"

definition run_inv :: "log_record list \<Rightarrow> u32 \<Rightarrow> nat list \<Rightarrow> nat list \<Rightarrow> bool \<Rightarrow> bool" where
  "run_inv all slot is run c \<longleftrightarrow>
     (\<forall>i \<in> set (run @ is). i < length all \<and> transaction_id (all ! i) = slot) \<and>
     sorted (map (\<lambda>i. this_lsn (all ! i)) (run @ is)) \<and>
     (\<forall>i \<in> set run. \<not> terminal_op (redo_op (all ! i))) \<and>
     c = (\<exists>i \<in> set run. redo_op (all ! i) = CompensationLogRecord)"

lemma split_runs_ok:
  "run_inv all slot is run c \<Longrightarrow> t \<in> set (split_runs all slot is run c) \<Longrightarrow> transaction_ok all t"
proof (induction all slot "is" run c rule: split_runs.induct)
  case (1 all slot run c)
  then have t: "t = build_transaction slot run all (if c then Aborted else Incomplete)" "run \<noteq> []"
    by (auto split: if_splits)
  have "\<not> terminal_op (redo_op (all ! last run))"
    using 1 t(2) by (simp add: run_inv_def)
  then show ?case
    using 1 t by (auto simp: run_inv_def transaction_ok_def build_transaction_def classify_record_def
        dest: in_set_butlastD)
next
  case (2 all slot i "is" run c)
  let ?run = "run @ [i]"
  have sp: "map (\<lambda>i. this_lsn (all ! i)) (run @ i # is) =
      map (\<lambda>i. this_lsn (all ! i)) ?run @ map (\<lambda>i. this_lsn (all ! i)) is"
    by simp
  show ?case
  proof (cases "terminal_op (redo_op (all ! i))")
    case True
    have "transaction_ok all (build_transaction slot ?run all Committed)"
      using "2.prems"(1) True unfolding run_inv_def sp sorted_append
      by (auto simp: transaction_ok_def build_transaction_def classify_record_def sorted_append)
    moreover have "run_inv all slot is [] False"
      using "2.prems"(1) unfolding run_inv_def sp sorted_append by auto
    ultimately show ?thesis
      using "2.IH"(1) [of ?run] "2.prems"(2) True by (auto simp: Let_def terminal_op_def)
  next
    case False
    show ?thesis
    proof (cases "redo_op (all ! i) = CompensationLogRecord")
      case comp: True
      have "run_inv all slot is ?run True"
        using "2.prems"(1) False comp by (auto simp: run_inv_def)
      then show ?thesis
        using "2.IH"(2) [of ?run] "2.prems"(2) False comp by (simp add: Let_def terminal_op_def)
    next
      case ncomp: False
      have "run_inv all slot is ?run c"
        using "2.prems"(1) False ncomp by (auto simp: run_inv_def)
      then show ?thesis
        using "2.IH"(3) [of ?run] "2.prems"(2) False ncomp by (simp add: Let_def terminal_op_def)
    qed
  qed
qed

lemma slot_transactions_ok: "t \<in> set (slot_transactions all slot) \<Longrightarrow> transaction_ok all t"
  unfolding slot_transactions_def
  by (erule split_runs_ok [rotated]) (auto simp: run_inv_def slot_members_def)

section \<open>The transactions of one slot\<close>

text \<open>
  The transactions of a slot are its records in replay order, cut behind every terminal: put
  together they give the records back, and each of them but the last is closed by a terminal.
\<close>

definition slot_runs_ok :: "log_record list \<Rightarrow> u32 \<Rightarrow> transaction list \<Rightarrow> bool" where
  "slot_runs_ok all slot ts \<longleftrightarrow>
     concat (map tx_records ts) =
       sort_key (\<lambda>i. this_lsn (all ! i)) (filter (\<lambda>i. transaction_id (all ! i) = slot) [0..<length all]) \<and>
     (\<forall>t \<in> set (butlast ts). terminal_op (redo_op (all ! last (tx_records t))))"

lemma split_runs_closed:
  "\<forall>t \<in> set (butlast (split_runs all slot is run c)). terminal_op (redo_op (all ! last (tx_records t)))"
  by (induction all slot "is" run c rule: split_runs.induct)
     (auto simp: build_transaction_def terminal_op_def Let_def)

lemma split_runs_slot: "t \<in> set (split_runs all slot is run c) \<Longrightarrow> tx_slot t = slot"
  by (induction all slot "is" run c rule: split_runs.induct)
     (auto simp: build_transaction_def Let_def split: if_splits)

lemma slot_transactions_runs: "slot_runs_ok all slot (slot_transactions all slot)"
  unfolding slot_runs_ok_def slot_transactions_def
  using split_runs_closed [of all slot _ "[]" False] by (simp add: split_runs_records slot_members_def)

text \<open>They come out in replay order, so sorting by the first number leaves them alone.\<close>

lemma sorted_firsts:
  assumes "sorted (map f (concat (map g ts)))" "\<And>t. t \<in> set ts \<Longrightarrow> g t \<noteq> []"
  shows "sorted (map (\<lambda>t. f (hd (g t))) ts)"
  using assms
proof (induction ts)
  case (Cons t ts)
  have "f (hd (g t)) \<le> f (hd (g u))" if "u \<in> set ts" for u
  proof -
    have "hd (g t) \<in> set (g t)" "hd (g u) \<in> set (concat (map g ts))"
      using Cons.prems(2) that by (auto intro: bexI [of _ u])
    then show ?thesis
      using Cons.prems(1) by (auto simp: sorted_append)
  qed
  with Cons show ?case
    by (auto simp: sorted_append)
qed simp

lemma slot_transactions_sorted: "sort_key first_lsn (slot_transactions all slot) = slot_transactions all slot"
proof -
  let ?ts = "slot_transactions all slot"
  have ne: "tx_records t \<noteq> []" "first_lsn t = this_lsn (all ! hd (tx_records t))" if "t \<in> set ?ts" for t
    using slot_transactions_ok [OF that]
    by (cases "tx_records t"; simp add: transaction_ok_def first_lsn_def)+
  have "sorted (map (\<lambda>i. this_lsn (all ! i)) (concat (map tx_records ?ts)))"
    using slot_transactions_runs [of all slot] by (simp add: slot_runs_ok_def)
  then have "sorted (map (\<lambda>t. this_lsn (all ! hd (tx_records t))) ?ts)"
    using ne(1) by (rule sorted_firsts)
  then have "sorted (map first_lsn ?ts)"
    using ne(2) by (simp cong: map_cong)
  then show ?thesis
    by (rule sort_key_id_if_sorted)
qed

lemma filter_slots:
  assumes "distinct ks" "\<And>k t. t \<in> set (f k) \<Longrightarrow> slot t = k"
  shows "filter (\<lambda>t. slot t = k) (concat (map f ks)) = (if k \<in> set ks then f k else [])"
  using assms
proof (induction ks)
  case (Cons a ks)
  have "filter (\<lambda>t. slot t = k) (f a) = (if a = k then f a else [])"
    using Cons.prems(2) by (auto simp: filter_id_conv filter_empty_conv)
  with Cons show ?case by auto
qed simp

lemma reconstruct_slot:
  assumes "slot_order order"
  shows "slot_runs_ok all slot (filter (\<lambda>t. tx_slot t = slot) (reconstruct_transactions order all))"
proof -
  let ?ks = "order (remdups (map transaction_id all))"
  have o: "mset ?ks = mset (remdups (map transaction_id all))"
    using assms by (simp add: slot_order_def)
  have ks: "distinct ?ks" "set ?ks = transaction_id ` set all"
    using o mset_eq_setD [OF o] by (metis distinct_remdups mset_eq_imp_distinct_iff, simp)
  have "filter (\<lambda>t. tx_slot t = slot) (reconstruct_transactions order all) =
      sort_key first_lsn (if slot \<in> set ?ks then slot_transactions all slot else [])"
    unfolding reconstruct_transactions_def filter_sort
    by (subst filter_slots [OF ks(1)]) (auto simp: slot_transactions_def dest: split_runs_slot)
  also have "\<dots> = (if slot \<in> set ?ks then slot_transactions all slot else [])"
    by (simp add: slot_transactions_sorted)
  also have "\<dots> = slot_transactions all slot"
  proof (cases "slot \<in> set ?ks")
    case False
    then have "slot_members all slot = []"
      unfolding ks(2) slot_members_def by (auto simp: filter_empty_conv)
    then show ?thesis
      by (simp add: slot_transactions_def)
  qed simp
  finally show ?thesis
    by (simp add: slot_transactions_runs)
qed

section \<open>Properties\<close>

text \<open>
  Claim C26. Transaction reconstruction cuts every slot at its terminals and nowhere else, whatever
  order the slot table is visited in. For every slot, the transactions reported for it are, one
  after the other, the records of the slot in replay order (contiguous runs, none lost, none
  repeated); every run but the last of the slot ends at a commit or forget, so that only
  a trailing run can be left open, and no record before the end of a run is one. The state of a run
  says whether it is closed by a terminal and, if not, whether it was compensated; the
  operations are the classifications of its records; and transactions come out in log order.
\<close>

theorem reconstruct_transactions_partition:
  assumes "slot_order order"
  shows "(\<forall>slot. slot_runs_ok all slot (filter (\<lambda>t. tx_slot t = slot) (reconstruct_transactions order all))) \<and>
    mset (concat (map tx_records (reconstruct_transactions order all))) = mset [0..<length all] \<and>
    list_all (transaction_ok all) (reconstruct_transactions order all) \<and>
    sorted (map first_lsn (reconstruct_transactions order all))"
  using reconstruct_records [OF assms, of all] reconstruct_slot [OF assms, of all] slot_transactions_ok
  by (auto simp: reconstruct_transactions_def list_all_iff)

definition sample_log :: "log_record list" where
  "sample_log = map (\<lambda>(l, s, r). \<lparr>page_offset = 0, this_lsn = l, client_previous_lsn = 0,
     client_undo_next_lsn = 0, record_type = 1, transaction_id = s, redo_op = r, undo_op = Noop,
     target_attribute = 0, mft_cluster_index = 0, target_vcn = 0\<rparr>)
     [(10, 1, InitializeFileRecordSegment), (11, 2, CompensationLogRecord), (12, 1, ForgetTransaction)]"

theorem reconstruct_transactions_partition_witness:
  "map tx_records (reconstruct_transactions rev sample_log) = [[0, 2], [1]] \<and>
   map tx_state (reconstruct_transactions rev sample_log) = [Committed, Aborted] \<and>
   slot_runs_ok sample_log 1 (filter (\<lambda>t. tx_slot t = 1) (reconstruct_transactions rev sample_log)) \<and>
   list_all (transaction_ok sample_log) (reconstruct_transactions rev sample_log)"
proof -
  have "slot_order rev"
    by (simp add: slot_order_def)
  from reconstruct_transactions_partition [OF this, of sample_log]
  have "slot_runs_ok sample_log 1 (filter (\<lambda>t. tx_slot t = 1) (reconstruct_transactions rev sample_log))"
    "list_all (transaction_ok sample_log) (reconstruct_transactions rev sample_log)"
    by blast+
  then show ?thesis
    by (simp add: reconstruct_transactions_def sample_log_def slot_transactions_def slot_members_def
        build_transaction_def first_lsn_def upt_rec)
qed

section \<open>Classification\<close>

definition deleting_undo :: "log_op \<Rightarrow> bool" where
  "deleting_undo u \<longleftrightarrow> u \<in> {Noop, DeallocateFileRecordSegment, DeleteIndexEntryRoot,
     DeleteIndexEntryAllocation, DeleteAttribute}"

lemma classify_noop_unknown:
  "classify_noop u = FUnknown a b \<longleftrightarrow> a = 0 \<and> b = log_op_code u \<and> \<not> deleting_undo u"
  by (cases u) (auto simp: deleting_undo_def)

lemma classify_unknown:
  "classify r u = FUnknown a b \<longleftrightarrow>
     a = log_op_code r \<and> b = log_op_code u \<and>
     ((\<exists>c. r = UnknownOp c) \<or> r = Noop \<and> \<not> deleting_undo u)"
  by (cases r) (auto simp: classify_noop_unknown)

lemma log_op_is_noop: "log_op_from_u16 c = Noop \<longleftrightarrow> c = 0"
  using log_op_code_from [of c] by (auto simp: log_op_from_u16_def)

lemma log_op_is_unknown: "(\<exists>d. log_op_from_u16 c = UnknownOp d) \<longleftrightarrow> 0x22 < c"
proof (cases "0x22 < c")
  case True
  then show ?thesis by (auto simp: log_op_undocumented)
next
  case False
  then show ?thesis
    using log_op_documented [of c] by (simp add: not_less)
qed

text \<open>
  Classification drops no evidence: a pair of operation codes is reported as unknown exactly
  when the redo code is undocumented, or is the no-op code while the undo is not one of the
  deleting operations, and the report then carries the two codes that were read.
\<close>

theorem classify_keeps_codes:
  "classify (log_op_from_u16 redo) (log_op_from_u16 undo) = FUnknown a b \<longleftrightarrow>
     a = redo \<and> b = undo \<and> (0x22 < redo \<or> redo = 0 \<and> \<not> deleting_undo (log_op_from_u16 undo))"
  by (auto simp: classify_unknown log_op_code_from log_op_is_noop log_op_is_unknown)

end
