(* ===== verification/Refs.thy ===== *)
theory Refs
  imports Usn_Record
begin

text \<open>
  \<open>core/src/refs.rs\<close>: change-journal records with 128-bit file identifiers. The hash map
  that \<open>reconstruct_paths\<close> builds is an association list, newest first; its result does not
  depend on the order in which the map is visited, because each identifier gets its own
  entry.
\<close>

section \<open>Definitions\<close>

datatype refs_file_id = RefsFileId (refs_raw: u128)

definition refs_high :: "refs_file_id \<Rightarrow> u64" where
  "refs_high i = ucast (drop_bit 64 (refs_raw i))"

definition refs_low :: "refs_file_id \<Rightarrow> u64" where
  "refs_low i = ucast (refs_raw i)"

text \<open>\<open>Display\<close>: both halves in hexadecimal, padded to sixteen digits.\<close>

definition display_refs_id :: "refs_file_id \<Rightarrow> ustring" where
  "display_refs_id i = lit ''0x'' @ hex16 (unat (refs_high i)) @ lit '':0x'' @ hex16 (unat (refs_low i))"

record 'dt refs_record =
  rf_record :: "'dt usn_record"
  rf_file_id :: refs_file_id
  rf_parent_id :: refs_file_id

definition is_likely_refs :: "'dt refs_record list \<Rightarrow> bool" where
  "is_likely_refs records \<longleftrightarrow>
     (if records = [] then False
      else if \<not> list_all (\<lambda>r. major_version (rf_record r) = 3) records then False
      else list_ex (\<lambda>r. refs_high (rf_file_id r) \<noteq> 0 \<or> refs_high (rf_parent_id r) \<noteq> 0) records)"

fun group_loop ::
  "'dt refs_record list \<Rightarrow> (refs_file_id \<Rightarrow> 'dt refs_record list option) \<Rightarrow>
   refs_file_id \<Rightarrow> 'dt refs_record list option" where
  "group_loop [] groups = groups"
| "group_loop (r # rs) groups =
     group_loop rs
       (groups(rf_file_id r \<mapsto> (case groups (rf_file_id r) of Some g \<Rightarrow> g | None \<Rightarrow> []) @ [r]))"

definition group_by_file_id :: "'dt refs_record list \<Rightarrow> refs_file_id \<Rightarrow> 'dt refs_record list option" where
  "group_by_file_id records = group_loop records (\<lambda>_. None)"

type_synonym refs_table = "(refs_file_id \<times> ustring \<times> refs_file_id) list"

fun refs_lookup :: "'dt refs_record list \<Rightarrow> refs_table \<Rightarrow> refs_table" where
  "refs_lookup [] t = t"
| "refs_lookup (r # rs) t = refs_lookup rs ((rf_file_id r, filename (rf_record r), rf_parent_id r) # t)"

definition refs_roots :: "'dt refs_record list \<Rightarrow> refs_table \<Rightarrow> refs_file_id list" where
  "refs_roots records t = filter (\<lambda>p. map_of t p = None) (map rf_parent_id records)"

function refs_walk :: "refs_table \<Rightarrow> refs_file_id list \<Rightarrow> refs_file_id \<Rightarrow> refs_file_id list \<Rightarrow> ustring list" where
  "refs_walk t roots current visited =
     (if current \<in> set visited then []
      else case map_of t current of
        Some (name, par) \<Rightarrow>
          name # (if par \<in> set roots \<or> map_of t par = None then []
                  else refs_walk t roots par (current # visited))
      | None \<Rightarrow> [])"
  by pat_completeness auto

termination refs_walk
proof (relation "measure (\<lambda>(t, roots, current, visited). card (fst ` set t - set visited))", goal_cases)
  case (2 t roots current visited x name par)
  then have "current \<in> fst ` set t - set visited"
    by (auto dest!: map_of_SomeD intro: rev_image_eqI)
  then have "card (fst ` set t - set (current # visited)) < card (fst ` set t - set visited)"
    by (intro psubset_card_mono) auto
  then show ?case by simp
qed simp

declare refs_walk.simps [simp del]

definition reconstruct_paths :: "'dt refs_record list \<Rightarrow> refs_file_id \<Rightarrow> ustring option" where
  "reconstruct_paths records file_id =
     (let t = refs_lookup records []; roots = refs_roots records t in
      if map_of t file_id = None \<or> file_id \<in> set roots then None
      else let components = rev (refs_walk t roots file_id []) in
      if components \<noteq> [] then Some (join_backslash components) else None)"

section \<open>Identifiers\<close>

lemma refs_id_halves: "refs_high i = refs_high j \<Longrightarrow> refs_low i = refs_low j \<Longrightarrow> i = j"
proof (cases i, cases j)
  fix x y :: u128
  assume h: "refs_high i = refs_high j" "refs_low i = refs_low j" "i = RefsFileId x" "j = RefsFileId y"
  have "bit x n = bit y n" if n: "n < 128" for n
  proof (cases "n < 64")
    case True
    have "bit (ucast x :: u64) n = bit (ucast y :: u64) n"
      using h by (simp add: refs_low_def)
    with True show ?thesis by (simp add: bit_simps)
  next
    case False
    have "bit (ucast (drop_bit 64 x) :: u64) (n - 64) = bit (ucast (drop_bit 64 y) :: u64) (n - 64)"
      using h by (simp add: refs_high_def)
    moreover have "n - 64 < 64" using n False by arith
    ultimately show ?thesis using False by (auto simp: bit_simps)
  qed
  then have "x = y"
    by (intro bit_word_eqI) simp
  with h show "i = j" by simp
qed

text \<open>Identifiers print alike only when they are the same.\<close>

lemma display_refs_id_inject: "display_refs_id i = display_refs_id j \<longleftrightarrow> i = j"
proof
  assume e: "display_refs_id i = display_refs_id j"
  have len: "length (hex16 (unat w)) = 16" for w :: u64
    by (rule hex16_length) simp
  have "hex16 (unat (refs_high i)) = hex16 (unat (refs_high j))" "hex16 (unat (refs_low i)) = hex16 (unat (refs_low j))"
    using e len by (simp_all add: display_refs_id_def)
  then have "unat (refs_high i) = unat (refs_high j)" "unat (refs_low i) = unat (refs_low j)"
    by (metis hex16_value)+
  then show "i = j"
    by (intro refs_id_halves) (simp_all add: word_unat_eq_iff)
qed simp

section \<open>Groups\<close>

lemma group_loop_spec:
  "group_loop rs groups k =
     (let new = filter (\<lambda>r. rf_file_id r = k) rs in
      if new = [] then groups k else Some ((case groups k of Some g \<Rightarrow> g | None \<Rightarrow> []) @ new))"
  by (induction rs arbitrary: groups) (auto simp: Let_def split: option.split)

section \<open>Paths\<close>

text \<open>The latest record of a file is the one that counts.\<close>

definition latest :: "'dt refs_record list \<Rightarrow> refs_file_id \<Rightarrow> (ustring \<times> refs_file_id) option" where
  "latest records k =
     map_option (\<lambda>r. (filename (rf_record r), rf_parent_id r)) (find (\<lambda>r. rf_file_id r = k) (rev records))"

lemma refs_lookup_append:
  "refs_lookup rs t = rev (map (\<lambda>r. (rf_file_id r, filename (rf_record r), rf_parent_id r)) rs) @ t"
  by (induction rs arbitrary: t) simp_all

lemma map_of_find:
  "map_of (map (\<lambda>r. (f r, g r)) rs) k = map_option g (find (\<lambda>r. f r = k) rs)"
  by (induction rs) auto

lemma refs_lookup_latest: "map_of (refs_lookup records []) k = latest records k"
  using map_of_find [of rf_file_id "\<lambda>r. (filename (rf_record r), rf_parent_id r)" "rev records" k]
  by (simp add: refs_lookup_append latest_def rev_map)

text \<open>The chain of names from the topmost known ancestor down to a file.\<close>

inductive refs_chain :: "(refs_file_id \<Rightarrow> (ustring \<times> refs_file_id) option) \<Rightarrow> refs_file_id \<Rightarrow> ustring list \<Rightarrow> bool"
  for m where
  top: "m k = Some (n, p) \<Longrightarrow> m p = None \<Longrightarrow> refs_chain m k [n]"
| under: "m k = Some (n, p) \<Longrightarrow> refs_chain m p ns \<Longrightarrow> refs_chain m k (ns @ [n])"

text \<open>The files a chain runs through; a file is not among its own ancestors.\<close>

inductive above :: "(refs_file_id \<Rightarrow> (ustring \<times> refs_file_id) option) \<Rightarrow> refs_file_id \<Rightarrow> refs_file_id \<Rightarrow> bool"
  for m where
  direct: "m k = Some (n, p) \<Longrightarrow> above m k p"
| further: "m k = Some (n, p) \<Longrightarrow> above m p q \<Longrightarrow> above m k q"

lemma refs_chain_dom: "refs_chain m k ns \<Longrightarrow> m k \<noteq> None \<and> ns \<noteq> []"
  by (induction rule: refs_chain.induct) auto

lemma refs_chain_length: "refs_chain m k ns \<Longrightarrow> refs_chain m k ns' \<Longrightarrow> ns = ns'"
proof (induction arbitrary: ns' rule: refs_chain.induct)
  case (top k n p)
  from top.prems show ?case
    using top.hyps refs_chain_dom [of m p] by (cases rule: refs_chain.cases) auto
next
  case (under k n p ns)
  from under.prems under.hyps obtain ms where "ns' = ms @ [n]" "refs_chain m p ms"
    using refs_chain_dom [of m p] by (cases rule: refs_chain.cases) auto
  with under.IH show ?case by blast
qed

lemma refs_chain_above:
  "above m k q \<Longrightarrow> refs_chain m k ns \<Longrightarrow> m q \<noteq> None \<Longrightarrow> \<exists>ms. refs_chain m q ms \<and> length ms < length ns"
proof (induction arbitrary: ns rule: above.induct)
  case (direct k n p)
  from direct.prems direct.hyps show ?case
    by (cases rule: refs_chain.cases) auto
next
  case (further k n p q)
  have "m p \<noteq> None"
    using further.hyps(2) by (cases rule: above.cases) auto
  with further.prems(1) further.hyps(1) obtain ms where "ns = ms @ [n]" "refs_chain m p ms"
    by (cases rule: refs_chain.cases) auto
  with further.IH [of ms] further.prems(2) show ?case
    by force
qed

lemma not_above_self: "refs_chain m k ns \<Longrightarrow> \<not> above m k k"
  using refs_chain_above [of m k k ns] refs_chain_length refs_chain_dom by blast

lemma refs_roots_known: "map_of t k = Some v \<Longrightarrow> k \<notin> set (refs_roots records t)"
  by (simp add: refs_roots_def)

text \<open>
  On a chain the walk meets no file twice: what was visited before is never above the
  current file.
\<close>

lemma refs_walk_chain:
  "refs_chain (map_of t) k names \<Longrightarrow> k \<notin> set visited \<Longrightarrow>
   \<forall>v\<in>set visited. \<not> above (map_of t) k v \<Longrightarrow>
   refs_walk t (refs_roots records t) k visited = rev names"
proof (induction arbitrary: visited rule: refs_chain.induct)
  case (top k n p)
  then show ?case
    by (subst refs_walk.simps) simp
next
  case (under k n p ns)
  obtain v where v: "map_of t p = Some v"
    using refs_chain_dom [OF under.hyps(2)] by blast
  have chain: "refs_chain (map_of t) k (ns @ [n])"
    by (rule refs_chain.under [OF under.hyps])
  have up: "above (map_of t) k p"
    using above.direct [where m = "map_of t"] under.hyps(1) by blast
  have ups: "above (map_of t) k q" if "above (map_of t) p q" for q
    using above.further [where m = "map_of t"] under.hyps(1) that by blast
  have "p \<noteq> k"
    using not_above_self [OF chain] up by blast
  moreover have "\<not> above (map_of t) p k"
    using not_above_self [OF chain] ups by blast
  ultimately have "refs_walk t (refs_roots records t) p (k # visited) = rev ns"
    using under.prems up ups
    by (intro under.IH) auto
  then show ?case
    using under.hyps(1) under.prems(1) v refs_roots_known [OF v, of records]
    by (subst refs_walk.simps) simp
qed

lemma refs_walk_nonempty: "map_of t k = Some v \<Longrightarrow> refs_walk t roots k [] \<noteq> []"
  by (subst refs_walk.simps) (auto split: prod.split)

lemma reconstruct_paths_def2:
  "reconstruct_paths records k =
     (if latest records k = None then None
      else Some (join_backslash
        (rev (refs_walk (refs_lookup records []) (refs_roots records (refs_lookup records [])) k []))))"
proof (cases "latest records k")
  case None
  then show ?thesis
    by (simp add: reconstruct_paths_def Let_def refs_lookup_latest)
next
  case (Some v)
  then have "map_of (refs_lookup records []) k = Some v"
    by (simp add: refs_lookup_latest)
  with Some show ?thesis
    by (simp add: reconstruct_paths_def Let_def refs_walk_nonempty refs_roots_known)
qed

text \<open>
  Claim C35. A path is reconstructed for exactly the files the journal mentions, cyclic parent
  links included; where the latest records of a file and of its ancestors form a chain up to
  a parent the journal does not mention, the path is the names of that chain, topmost first,
  joined by backslashes.
\<close>

theorem reconstruct_paths_chain:
  "(reconstruct_paths records k \<noteq> None \<longleftrightarrow> k \<in> rf_file_id ` set records) \<and>
   (refs_chain (latest records) k names \<longrightarrow>
      reconstruct_paths records k = Some (join_backslash names))"
proof (intro conjI impI)
  show "reconstruct_paths records k \<noteq> None \<longleftrightarrow> k \<in> rf_file_id ` set records"
    by (auto simp: reconstruct_paths_def2 latest_def find_None_iff)
next
  assume chain: "refs_chain (latest records) k names"
  moreover have "map_of (refs_lookup records []) = latest records"
    by (simp add: refs_lookup_latest fun_eq_iff)
  ultimately show "reconstruct_paths records k = Some (join_backslash names)"
    using refs_chain_dom [OF chain] refs_walk_chain [of "refs_lookup records []" k names "[]" records]
    by (simp add: reconstruct_paths_def2)
qed

definition sample_refs :: "unit refs_record list" where
  "sample_refs =
     map (\<lambda>(name, k, p). \<lparr>
       rf_record = \<lparr>mft_entry = 0, mft_sequence = 0, parent_mft_entry = 0, parent_mft_sequence = 0,
         usn = 0, timestamp = (), reason = 0, filename = lit name, file_attributes = 0,
         source_info = 0, security_id = 0, major_version = 3\<rparr>,
       rf_file_id = RefsFileId k, rf_parent_id = RefsFileId p\<rparr>)
     [(''old'', 2, 1), (''f'', 3, 2), (''new'', 2, 1)]"

theorem reconstruct_paths_chain_witness:
  "reconstruct_paths sample_refs (RefsFileId 3) = Some (lit ''new'' @ [92] @ lit ''f'')"
proof -
  have "refs_chain (latest sample_refs) (RefsFileId 2) [lit ''new'']"
    by (rule refs_chain.top [where p = "RefsFileId 1"]) (simp_all add: latest_def sample_refs_def)
  then have "refs_chain (latest sample_refs) (RefsFileId 3) ([lit ''new''] @ [lit ''f''])"
    by (rule refs_chain.under [rotated]) (simp add: latest_def sample_refs_def)
  then show ?thesis
    using reconstruct_paths_chain [of sample_refs "RefsFileId 3" "[lit ''new'', lit ''f'']"] by simp
qed

end
