(* ===== verification/Mftmirr.thy ===== *)
theory Mftmirr
  imports Ntfs_Error
begin

text \<open>
  \<open>core/src/mftmirr.rs\<close>: the byte comparison of the first four MFT records with their
  mirror.
\<close>

section \<open>Definitions\<close>

definition MFT_ENTRY_SIZE :: nat where
  "MFT_ENTRY_SIZE = 1024"

definition MIRROR_ENTRY_COUNT :: nat where
  "MIRROR_ENTRY_COUNT = 4"

record mirror_comparison =
  mc_matches :: "bool list"
  mc_diff_offsets :: "nat list list"
  mc_is_consistent :: bool

text \<open>The inner loop over \<open>mft_entry.iter().zip(mirr_entry.iter()).enumerate()\<close>, for entry \<open>i\<close>.\<close>

fun mirror_bytes :: "nat \<Rightarrow> nat \<Rightarrow> bytes \<Rightarrow> bytes \<Rightarrow> mirror_comparison \<Rightarrow> mirror_comparison" where
  "mirror_bytes i offset (a # as) (b # bs) c =
     mirror_bytes i (offset + 1) as bs
       (if a \<noteq> b
        then c\<lparr>mc_matches := (mc_matches c)[i := False], mc_is_consistent := False,
               mc_diff_offsets := (mc_diff_offsets c)[i := mc_diff_offsets c ! i @ [offset]]\<rparr>
        else c)"
| "mirror_bytes i offset _ _ c = c"

definition mirror_entry :: "bytes \<Rightarrow> bytes \<Rightarrow> nat \<Rightarrow> mirror_comparison \<Rightarrow> mirror_comparison res" where
  "mirror_entry mft_data mftmirr_data i c =
     (let mft_start = i * MFT_ENTRY_SIZE; mft_end = mft_start + MFT_ENTRY_SIZE;
          mirr_start = i * MFT_ENTRY_SIZE; mirr_end = mirr_start + MFT_ENTRY_SIZE in
      if mft_end > length mft_data \<or> mirr_end > length mftmirr_data
      then Ok (c\<lparr>mc_matches := (mc_matches c)[i := False], mc_is_consistent := False\<rparr>)
      else and_then (slice mft_data mft_start mft_end) (\<lambda>mft_entry.
           and_then (slice mftmirr_data mirr_start mirr_end) (\<lambda>mirr_entry.
           Ok (mirror_bytes i 0 mft_entry mirr_entry c))))"

fun mirror_loop :: "bytes \<Rightarrow> bytes \<Rightarrow> nat list \<Rightarrow> mirror_comparison \<Rightarrow> mirror_comparison res" where
  "mirror_loop m r [] c = Ok c"
| "mirror_loop m r (i # is) c = and_then (mirror_entry m r i c) (mirror_loop m r is)"

definition compare_mft_mirror :: "bytes \<Rightarrow> bytes \<Rightarrow> mirror_comparison res" where
  "compare_mft_mirror mft_data mftmirr_data =
     mirror_loop mft_data mftmirr_data [0..<MIRROR_ENTRY_COUNT]
       \<lparr>mc_matches = replicate MIRROR_ENTRY_COUNT True,
        mc_diff_offsets = replicate MIRROR_ENTRY_COUNT [], mc_is_consistent = True\<rparr>"

section \<open>What the comparison reports\<close>

definition entry_of :: "bytes \<Rightarrow> nat \<Rightarrow> bytes option" where
  "entry_of data i = get_range data (i * MFT_ENTRY_SIZE) (i * MFT_ENTRY_SIZE + MFT_ENTRY_SIZE)"

text \<open>The offsets at which two present entries differ, in increasing order.\<close>

definition entry_diffs :: "bytes \<Rightarrow> bytes \<Rightarrow> nat \<Rightarrow> nat list" where
  "entry_diffs m r i =
     (case (entry_of m i, entry_of r i) of
        (Some a, Some b) \<Rightarrow> filter (\<lambda>k. a ! k \<noteq> b ! k) [0..<MFT_ENTRY_SIZE]
      | _ \<Rightarrow> [])"

definition entry_matches :: "bytes \<Rightarrow> bytes \<Rightarrow> nat \<Rightarrow> bool" where
  "entry_matches m r i \<longleftrightarrow> entry_of m i \<noteq> None \<and> entry_of m i = entry_of r i"

lemma mirror_bytes_spec:
  assumes "length as = length bs" "i < length (mc_matches c)" "i < length (mc_diff_offsets c)"
  shows "mirror_bytes i offset as bs c =
    c\<lparr>mc_matches := (mc_matches c)[i := mc_matches c ! i \<and> as = bs],
      mc_diff_offsets := (mc_diff_offsets c)[i := mc_diff_offsets c ! i @
        map (\<lambda>k. offset + k) (filter (\<lambda>k. as ! k \<noteq> bs ! k) [0..<length as])],
      mc_is_consistent := mc_is_consistent c \<and> as = bs\<rparr>"
  using assms
proof (induction as bs arbitrary: offset c rule: list_induct2')
  case (4 a as b bs)
  have u: "[0..<length (a # as)] = 0 # map Suc [0..<length as]"
    by (simp add: map_Suc_upt upt_conv_Cons del: upt_Suc)
  have f: "map (\<lambda>k. offset + k) (filter (\<lambda>k. (a # as) ! k \<noteq> (b # bs) ! k) [0..<length (a # as)]) =
      (if a \<noteq> b then [offset] else []) @
      map (\<lambda>k. Suc offset + k) (filter (\<lambda>k. as ! k \<noteq> bs ! k) [0..<length as])"
    unfolding u by (simp add: filter_map o_def)
  show ?case
    using 4 unfolding f by (cases "a = b") simp_all
qed simp_all

lemma entry_matches_diffs: "entry_matches m r i \<Longrightarrow> entry_diffs m r i = []"
  by (auto simp: entry_matches_def entry_diffs_def split: option.splits)

lemma mirror_entry_spec:
  assumes "i < length (mc_matches c)" "i < length (mc_diff_offsets c)"
  shows "mirror_entry m r i c =
    Ok (c\<lparr>mc_matches := (mc_matches c)[i := mc_matches c ! i \<and> entry_matches m r i],
          mc_diff_offsets := (mc_diff_offsets c)[i := mc_diff_offsets c ! i @ entry_diffs m r i],
          mc_is_consistent := mc_is_consistent c \<and> entry_matches m r i\<rparr>)"
proof (cases "i * MFT_ENTRY_SIZE + MFT_ENTRY_SIZE \<le> length m \<and> i * MFT_ENTRY_SIZE + MFT_ENTRY_SIZE \<le> length r")
  case True
  let ?a = "take MFT_ENTRY_SIZE (drop (i * MFT_ENTRY_SIZE) m)"
  let ?b = "take MFT_ENTRY_SIZE (drop (i * MFT_ENTRY_SIZE) r)"
  have len: "length ?a = MFT_ENTRY_SIZE" "length ?b = MFT_ENTRY_SIZE"
    using True by auto
  have e: "entry_of m i = Some ?a" "entry_of r i = Some ?b"
    using True by (simp_all add: entry_of_def get_range_def)
  have "mirror_entry m r i c = Ok (mirror_bytes i 0 ?a ?b c)"
    using True by (simp add: mirror_entry_def Let_def)
  then show ?thesis
    using assms len by (simp add: mirror_bytes_spec entry_matches_def entry_diffs_def e)
next
  case False
  then have "entry_of m i = None \<or> entry_of r i = None"
    by (auto simp: entry_of_def get_range_def)
  then have "\<not> entry_matches m r i" "entry_diffs m r i = []"
    by (auto simp: entry_matches_def entry_diffs_def split: option.splits)
  moreover have "mirror_entry m r i c = Ok (c\<lparr>mc_matches := (mc_matches c)[i := False], mc_is_consistent := False\<rparr>)"
    using False by (auto simp: mirror_entry_def Let_def)
  ultimately show ?thesis
    by simp
qed

lemma all_entries_match:
  "(\<forall>i < n. entry_matches m r i) \<longleftrightarrow>
     n = 0 \<or> n * MFT_ENTRY_SIZE \<le> length m \<and> n * MFT_ENTRY_SIZE \<le> length r \<and>
     take (n * MFT_ENTRY_SIZE) m = take (n * MFT_ENTRY_SIZE) r"
proof (induction n)
  case 0
  then show ?case by simp
next
  case (Suc n)
  let ?s = "n * MFT_ENTRY_SIZE"
  have e: "entry_matches m r n \<longleftrightarrow> ?s + MFT_ENTRY_SIZE \<le> length m \<and> ?s + MFT_ENTRY_SIZE \<le> length r \<and>
      take MFT_ENTRY_SIZE (drop ?s m) = take MFT_ENTRY_SIZE (drop ?s r)"
    by (auto simp: entry_matches_def entry_of_def get_range_def)
  have t: "take (?s + MFT_ENTRY_SIZE) xs = take ?s xs @ take MFT_ENTRY_SIZE (drop ?s xs)" for xs :: bytes
    by (rule take_add)
  show ?case
  proof (cases "?s + MFT_ENTRY_SIZE \<le> length m \<and> ?s + MFT_ENTRY_SIZE \<le> length r")
    case True
    then have "take (?s + MFT_ENTRY_SIZE) m = take (?s + MFT_ENTRY_SIZE) r \<longleftrightarrow>
        take ?s m = take ?s r \<and> take MFT_ENTRY_SIZE (drop ?s m) = take MFT_ENTRY_SIZE (drop ?s r)"
      unfolding t by (intro append_eq_append_conv) simp
    with True Suc.IH e show ?thesis
      by (auto simp: less_Suc_eq add.commute)
  next
    case False
    with e show ?thesis
      by (auto simp: add.commute)
  qed
qed

section \<open>The whole comparison\<close>

text \<open>
  The mirror comparison is exact and total: it reports for each of the four mirrored
  records whether both copies are present and equal, lists precisely the offsets at which
  present copies differ, and calls the pair consistent exactly when both hold the four
  records and agree on every byte of them.
\<close>

lemma compare_mft_mirror_exact:
  "compare_mft_mirror m r =
     Ok \<lparr>mc_matches = map (entry_matches m r) [0..<4], mc_diff_offsets = map (entry_diffs m r) [0..<4],
         mc_is_consistent = (4096 \<le> length m \<and> 4096 \<le> length r \<and> take 4096 m = take 4096 r)\<rparr>"
proof -
  have u: "[0..<4] = [0, 1, 2, 3 :: nat]"
    by (simp add: upt_rec)
  have "(\<forall>i < 4. entry_matches m r i) \<longleftrightarrow>
      entry_matches m r 0 \<and> entry_matches m r 1 \<and> entry_matches m r 2 \<and> entry_matches m r 3"
    by (auto simp: eval_nat_numeral less_Suc_eq)
  then have c: "entry_matches m r 0 \<and> entry_matches m r 1 \<and> entry_matches m r 2 \<and> entry_matches m r 3 \<longleftrightarrow>
      4096 \<le> length m \<and> 4096 \<le> length r \<and> take 4096 m = take 4096 r"
    using all_entries_match [of 4 m r] by (simp add: MFT_ENTRY_SIZE_def)
  have rep: "replicate 4 x = [x, x, x, x]" for x :: 'a
    by (simp add: eval_nat_numeral)
  show ?thesis
    unfolding compare_mft_mirror_def MIRROR_ENTRY_COUNT_def u rep c [symmetric]
    by (simp add: mirror_entry_spec numeral_2_eq_2 numeral_3_eq_3)
qed

end
