(* ===== verification/Auditor.thy ===== *)
theory Auditor
  imports Standard_Information Attribute Mftmirr Logfile
begin

text \<open>
  \<open>forensic/src/lib.rs\<close>: the per-record auditor (timestomping, alternate data streams,
  record slack, deleted records) and the volume-level auditor of \<open>$MFTMirr\<close> and
  \<open>$LogFile\<close>. The reporting types of the external crate appear only as the constructors
  and fields the source writes: \<open>Severity\<close>, \<open>Evidence\<close> and \<open>Location\<close>. The two findings the
  crate derives from a code (category, source) are not modelled.
\<close>

section \<open>Definitions\<close>

definition TICKS_PER_SECOND :: u64 where
  "TICKS_PER_SECOND = 10000000"

record timestomp_indicators =
  si_created_before_fn :: bool
  created_mismatch :: bool
  si_whole_second :: bool

definition is_suspicious :: "timestomp_indicators \<Rightarrow> bool" where
  "is_suspicious i \<longleftrightarrow> si_created_before_fn i \<or> si_whole_second i"

definition whole_second :: "filetime \<Rightarrow> bool" where
  "whole_second ft \<longleftrightarrow> ft_raw ft \<noteq> 0 \<and> ft_raw ft mod TICKS_PER_SECOND = 0"

definition detect_timestomp :: "standard_information \<Rightarrow> file_name \<Rightarrow> timestomp_indicators" where
  "detect_timestomp si f =
     \<lparr>si_created_before_fn = ft_raw (si_created si) < ft_raw (fn_created f),
      created_mismatch = (ft_raw (si_created si) \<noteq> ft_raw (fn_created f)),
      si_whole_second = (whole_second (si_created si) \<or> whole_second (si_modified si) \<or>
        whole_second (si_mft_modified si) \<or> whole_second (si_accessed si))\<rparr>"

definition alternate_data_streams :: "nomicon \<Rightarrow> attribute list \<Rightarrow> attribute list" where
  "alternate_data_streams N attributes =
     filter (\<lambda>a. type_code a = T_DATA (attr_ty N) \<and> attr_name a \<noteq> None) attributes"

definition record_slack :: "bytes \<Rightarrow> mft_record_header \<Rightarrow> bytes" where
  "record_slack rec header =
     (let used = unat (used_size header) in
      case get_range rec used (length rec) of Some s \<Rightarrow> s | None \<Rightarrow> [])"

definition is_deleted :: "nomicon \<Rightarrow> mft_record_header \<Rightarrow> bool" where
  "is_deleted N header \<longleftrightarrow> \<not> is_in_use N header"

text \<open>
  The scan for record signatures. The two additions on \<open>pos\<close> are unchecked in the source; a
  sum past the machine word is a panic here (in a build without overflow checks the range
  \<open>pos..pos + 4\<close> is then reversed and its slicing panics).
\<close>

function carve_file_loop :: "nomicon \<Rightarrow> bytes \<Rightarrow> nat \<Rightarrow> nat \<Rightarrow> nat list \<Rightarrow> nat list res" where
  "carve_file_loop N mft record_size pos offsets =
     (if record_size = 0 \<or> 2 ^ 64 \<le> pos + 4 then Panic
      else if pos + 4 \<le> length mft then
        and_then (slice mft pos (pos + 4)) (\<lambda>sig.
        let offsets = (if sig = SIGNATURE_FILE N \<or> sig = SIGNATURE_BAAD N then offsets @ [pos] else offsets) in
        if 2 ^ 64 \<le> pos + record_size then Panic
        else carve_file_loop N mft record_size (pos + record_size) offsets)
      else Ok offsets)"
  by pat_completeness auto

termination carve_file_loop
  by (relation "measure (\<lambda>(N, mft, record_size, pos, offsets). length mft - pos)") auto

declare carve_file_loop.simps [simp del]

definition carve_file_records :: "nomicon \<Rightarrow> bytes \<Rightarrow> nat \<Rightarrow> nat list res" where
  "carve_file_records N mft record_size =
     (if record_size = 0 then Ok [] else carve_file_loop N mft record_size 0 [])"

subsection \<open>Per-record findings\<close>

datatype severity = Info | Low | Medium | High | Critical

datatype location = RecordId u64 | Field ustring

record evidence =
  ev_field :: ustring
  ev_value :: ustring
  ev_location :: "location option"

datatype anomaly_kind =
    Timestomp u64 ustring
  | AlternateDataStream u64 ustring
  | DeletedRecord u64
  | RecordSlackResidue u64 nat

fun kind_record :: "anomaly_kind \<Rightarrow> u64" where
  "kind_record (Timestomp r _) = r"
| "kind_record (AlternateDataStream r _) = r"
| "kind_record (DeletedRecord r) = r"
| "kind_record (RecordSlackResidue r _) = r"

fun kind_severity :: "anomaly_kind \<Rightarrow> severity" where
  "kind_severity (Timestomp _ _) = High"
| "kind_severity (AlternateDataStream _ _) = Low"
| "kind_severity (RecordSlackResidue _ _) = Low"
| "kind_severity (DeletedRecord _) = Info"

fun kind_code :: "anomaly_kind \<Rightarrow> ustring" where
  "kind_code (Timestomp _ _) = lit ''NTFS-TIMESTOMP''"
| "kind_code (AlternateDataStream _ _) = lit ''NTFS-ADS''"
| "kind_code (DeletedRecord _) = lit ''NTFS-DELETED-RECORD''"
| "kind_code (RecordSlackResidue _ _) = lit ''NTFS-SLACK-RESIDUE''"

text \<open>The notes; \<open>0x2014\<close> is the em dash of the source and \<open>96\<close> its backquote.\<close>

fun kind_note :: "anomaly_kind \<Rightarrow> ustring" where
  "kind_note (Timestomp r signal) =
     lit ''record '' @ dec (unat r) @
     lit '': $STANDARD_INFORMATION timestamps consistent with tampering ('' @ signal @ lit '')''"
| "kind_note (AlternateDataStream r strm) =
     lit ''record '' @ dec (unat r) @ lit '': named $DATA stream '' @ [96] @ strm @ [96] @
     lit '' '' @ [0x2014] @ lit '' consistent with data carried in an alternate data stream''"
| "kind_note (DeletedRecord r) =
     lit ''record '' @ dec (unat r) @ lit '': MFT entry not in use '' @ [0x2014] @
     lit '' a recoverable deleted file''"
| "kind_note (RecordSlackResidue r residue_len) =
     lit ''record '' @ dec (unat r) @ lit '': '' @ dec residue_len @
     lit '' non-zero byte(s) in MFT-record slack '' @ [0x2014] @
     lit '' consistent with residue from an overwritten resident attribute''"

record anomaly =
  an_severity :: severity
  an_code :: ustring
  an_kind :: anomaly_kind
  an_note :: ustring

definition anomaly_new :: "anomaly_kind \<Rightarrow> anomaly" where
  "anomaly_new k = \<lparr>an_severity = kind_severity k, an_code = kind_code k, an_kind = k, an_note = kind_note k\<rparr>"

definition anomaly_evidence :: "anomaly \<Rightarrow> evidence list" where
  "anomaly_evidence a =
     (let r = kind_record (an_kind a) in
      [\<lparr>ev_field = lit ''mft record'', ev_value = dec (unat r), ev_location = Some (RecordId r)\<rparr>])"

definition audit_timestomp :: "u64 \<Rightarrow> standard_information option \<Rightarrow> file_name option \<Rightarrow> anomaly list" where
  "audit_timestomp rnum si_opt fn_opt =
     (case (si_opt, fn_opt) of
        (Some si, Some f) \<Rightarrow>
          let ind = detect_timestomp si f in
          (if si_created_before_fn ind then [anomaly_new (Timestomp rnum (lit ''$SI created before $FN''))] else []) @
          (if si_whole_second ind then [anomaly_new (Timestomp rnum (lit ''$SI timestamp on a whole second''))] else [])
      | _ \<Rightarrow> [])"

definition audit_components ::
  "nomicon \<Rightarrow> u64 \<Rightarrow> mft_record_header \<Rightarrow> bytes \<Rightarrow> attribute list \<Rightarrow>
   standard_information option \<Rightarrow> file_name option \<Rightarrow> anomaly list" where
  "audit_components N rnum header rec attributes si_opt fn_opt =
     (let residue = length (filter (\<lambda>b. b \<noteq> 0) (record_slack rec header)) in
      (if is_deleted N header then [anomaly_new (DeletedRecord rnum)] else []) @
      (if residue > 0 then [anomaly_new (RecordSlackResidue rnum residue)] else []) @
      map (\<lambda>ads. anomaly_new (AlternateDataStream rnum
             (case attr_name ads of Some s \<Rightarrow> s | None \<Rightarrow> [])))
          (alternate_data_streams N attributes) @
      audit_timestomp rnum si_opt fn_opt)"

definition audit_resident :: "bytes \<Rightarrow> attribute list \<Rightarrow> u32 \<Rightarrow> bytes option" where
  "audit_resident rec attributes tc =
     Option.bind (find (\<lambda>a. type_code a = tc) attributes) (\<lambda>a. resident_content a rec)"

definition unwrap_or_default :: "'a list res \<Rightarrow> 'a list res" where
  "unwrap_or_default r = (case r of Ok x \<Rightarrow> Ok x | Err _ \<Rightarrow> Ok [] | Panic \<Rightarrow> Panic)"

definition audit_record :: "nomicon \<Rightarrow> bytes \<Rightarrow> anomaly list res" where
  "audit_record N rec =
     (case header_parse N rec of
        Ok header \<Rightarrow>
          and_then (unwrap_or_default (parse_attributes N rec (unat (first_attribute_offset header)))) (\<lambda>attributes.
          let si = Option.bind (audit_resident rec attributes (T_STANDARD_INFORMATION (attr_ty N)))
                (\<lambda>c. res_ok (standard_information_parse c));
              f = Option.bind (audit_resident rec attributes (T_FILE_NAME (attr_ty N)))
                (\<lambda>c. res_ok (file_name_parse c)) in
          Ok (audit_components N (ucast (record_number header)) header rec attributes si f))
      | Err _ \<Rightarrow> Ok []
      | Panic \<Rightarrow> Panic)"

subsection \<open>Volume-level findings\<close>

definition MIRROR_NAMES :: "ustring list" where
  "MIRROR_NAMES = map lit [''$MFT'', ''$MFTMirr'', ''$LogFile'', ''$Volume'']"

fun join_comma :: "ustring list \<Rightarrow> ustring" where
  "join_comma [] = []"
| "join_comma [x] = x"
| "join_comma (x # y # zs) = x @ lit '', '' @ join_comma (y # zs)"

definition mismatched_names :: "nat list \<Rightarrow> ustring" where
  "mismatched_names entries =
     join_comma (map (\<lambda>i. if i < length MIRROR_NAMES then MIRROR_NAMES ! i else lit ''?'') entries)"

datatype artifact_anomaly = MftMirrorMismatch "nat list" | LogFileCleared

fun artifact_severity :: "artifact_anomaly \<Rightarrow> severity" where
  "artifact_severity (MftMirrorMismatch _) = High"
| "artifact_severity LogFileCleared = Medium"

fun artifact_code :: "artifact_anomaly \<Rightarrow> ustring" where
  "artifact_code (MftMirrorMismatch _) = lit ''NTFS-MFTMIRR-MISMATCH''"
| "artifact_code LogFileCleared = lit ''NTFS-LOGFILE-CLEARED''"

fun artifact_note :: "artifact_anomaly \<Rightarrow> ustring" where
  "artifact_note (MftMirrorMismatch entries) =
     lit ''$MFTMirr differs from $MFT for '' @ mismatched_names entries @ lit '' '' @ [0x2014] @
     lit '' consistent with MFT tampering or corruption''"
| "artifact_note LogFileCleared =
     lit ''$LogFile shows gaps/restart-area anomalies '' @ [0x2014] @
     lit '' consistent with the transaction journal having been cleared''"

fun artifact_evidence :: "artifact_anomaly \<Rightarrow> evidence list" where
  "artifact_evidence (MftMirrorMismatch entries) =
     [\<lparr>ev_field = lit ''mismatched system records'', ev_value = mismatched_names entries,
       ev_location = Some (Field (lit ''$MFTMirr''))\<rparr>]"
| "artifact_evidence LogFileCleared =
     [\<lparr>ev_field = lit ''$LogFile'',
       ev_value = lit ''gaps/restart-area anomalies consistent with journal clearing'',
       ev_location = Some (Field (lit ''$LogFile''))\<rparr>]"

definition audit_mft_mirror :: "bytes \<Rightarrow> bytes \<Rightarrow> artifact_anomaly list res" where
  "audit_mft_mirror mft_data mftmirr_data =
     (case compare_mft_mirror mft_data mftmirr_data of
        Ok cmp \<Rightarrow>
          if \<not> mc_is_consistent cmp
          then Ok [MftMirrorMismatch (map fst (filter (\<lambda>(i, m). \<not> m) (enumerate 0 (mc_matches cmp))))]
          else Ok []
      | Err _ \<Rightarrow> Ok []
      | Panic \<Rightarrow> Panic)"

definition audit_logfile :: "bytes \<Rightarrow> artifact_anomaly list res" where
  "audit_logfile logfile_data =
     (case parse_logfile logfile_data of
        Ok summary \<Rightarrow> if detect_journal_clearing summary then Ok [LogFileCleared] else Ok []
      | Err _ \<Rightarrow> Ok []
      | Panic \<Rightarrow> Panic)"

section \<open>The signature scan\<close>

definition signed_at :: "nomicon \<Rightarrow> bytes \<Rightarrow> nat \<Rightarrow> bool" where
  "signed_at N mft pos \<longleftrightarrow>
     take 4 (drop pos mft) = SIGNATURE_FILE N \<or> take 4 (drop pos mft) = SIGNATURE_BAAD N"

text \<open>The record boundaries of a region from \<open>pos\<close> on.\<close>

definition boundaries :: "nat \<Rightarrow> nat \<Rightarrow> nat \<Rightarrow> nat list" where
  "boundaries len rs pos = filter (\<lambda>p. \<exists>k. p = pos + k * rs) [pos..<len - 3]"

lemma boundaries_step:
  assumes "0 < rs" "pos + 4 \<le> len"
  shows "boundaries len rs pos = pos # boundaries len rs (pos + rs)"
proof -
  have split: "[pos..<len - 3] = pos # [Suc pos..<len - 3]"
    using assms(2) by (simp add: upt_rec)
  have tail: "[Suc pos..<len - 3] = [Suc pos..<min (pos + rs) (len - 3)] @ [pos + rs..<len - 3]"
    using assms upt_add_eq_append [of "Suc pos" "pos + rs" "len - 3 - (pos + rs)"]
    by (auto simp: min_def)
  have low: "filter (\<lambda>p. \<exists>k. p = pos + k * rs) [Suc pos..<min (pos + rs) (len - 3)] = []"
  proof -
    have "\<not> (\<exists>k. p = pos + k * rs)" if "Suc pos \<le> p" "p < pos + rs" for p
      using that by (auto simp: Suc_le_eq)
    then show ?thesis
      by (auto simp: filter_empty_conv)
  qed
  have high: "filter (\<lambda>p. \<exists>k. p = pos + k * rs) [pos + rs..<len - 3] =
      filter (\<lambda>p. \<exists>k. p = pos + rs + k * rs) [pos + rs..<len - 3]"
  proof (rule filter_cong)
    fix p assume "p \<in> set [pos + rs..<len - 3]"
    then have "pos + rs \<le> p" by simp
    then show "(\<exists>k. p = pos + k * rs) \<longleftrightarrow> (\<exists>k. p = pos + rs + k * rs)"
      using assms(1) by (metis add.assoc add_le_cancel_left le_add1 mult_Suc mult_0 not_less
          old.nat.exhaust add_0_right)
  qed simp
  show ?thesis
    unfolding boundaries_def split
    by (simp add: tail low high)
qed

lemma boundaries_done: "len < pos + 4 \<Longrightarrow> boundaries len rs pos = []"
  by (simp add: boundaries_def)

lemma carve_file_loop_exact:
  assumes "0 < rs" "rs + 4 < 2 ^ 64" "length mft < 2 ^ 63" "pos = 0 \<or> pos = rs \<or> rs < length mft \<and> pos + 4 \<le> length mft + rs"
  shows "carve_file_loop N mft rs pos offs =
    Ok (offs @ filter (signed_at N mft) (boundaries (length mft) rs pos))"
  using assms(4)
proof (induction "length mft - pos" arbitrary: pos offs rule: less_induct)
  case less
  have small: "pos + 4 < 2 ^ 64"
    using less.prems assms(2,3) by auto
  show ?case
  proof (cases "pos + 4 \<le> length mft")
    case True
    let ?offs = "if signed_at N mft pos then offs @ [pos] else offs"
    have "pos + rs < 2 ^ 64"
      using less.prems True assms(2,3) by auto
    then have "carve_file_loop N mft rs pos offs = carve_file_loop N mft rs (pos + rs) ?offs"
      using True small assms(1)
      by (subst carve_file_loop.simps) (simp add: slice_def get_range_def signed_at_def)
    also have "\<dots> = Ok (?offs @ filter (signed_at N mft) (boundaries (length mft) rs (pos + rs)))"
      using True assms(1) less.prems by (intro less.hyps) auto
    finally show ?thesis
      using True assms(1) by (simp add: boundaries_step)
  next
    case False
    then show ?thesis
      using small assms(1) by (subst carve_file_loop.simps) (simp add: boundaries_done)
  qed
qed

text \<open>The scan returns every record boundary that carries a signature, in order.\<close>

lemma carve_file_records_exact:
  assumes "0 < rs" "rs + 4 < 2 ^ 64" "length mft < 2 ^ 63"
  shows "carve_file_records N mft rs =
    Ok (filter (\<lambda>p. rs dvd p \<and> signed_at N mft p) [0..<length mft - 3])"
proof -
  have "(\<exists>k. p = 0 + k * rs) \<longleftrightarrow> rs dvd p" for p
    by (auto simp: dvd_def mult.commute)
  then show ?thesis
    using assms carve_file_loop_exact [of rs mft 0 N "[]"]
    by (simp add: carve_file_records_def boundaries_def conj_commute)
qed

section \<open>The record auditor\<close>

lemma nonzero_from_count:
  "length (filter P (drop n xs)) = card {i. n \<le> i \<and> i < length xs \<and> P (xs ! i)}"
proof -
  have "{i. n \<le> i \<and> i < length xs \<and> P (xs ! i)} = (\<lambda>i. n + i) ` {i. i < length (drop n xs) \<and> P (drop n xs ! i)}"
    by (auto simp: image_iff intro: le_Suc_ex) (metis add_diff_inverse_nat diff_less_mono leD le_add_diff_inverse)
  then show ?thesis
    by (simp add: length_filter_conv_card card_image)
qed

lemma record_slack_drop: "record_slack rec h = drop (unat (used_size h)) rec"
  by (simp add: record_slack_def get_range_def Let_def)

lemma an_kind_new [simp]: "an_kind (anomaly_new k) = k"
  by (simp add: anomaly_new_def)

abbreviation kinds :: "anomaly list \<Rightarrow> anomaly_kind set" where
  "kinds out \<equiv> an_kind ` set out"

text \<open>
  The tells of forged times, on the tick counts of the two attributes: created before the name was, and
  one of the four times, if it is set, a whole number of seconds.
\<close>

definition stomp_signals :: "standard_information \<Rightarrow> file_name \<Rightarrow> ustring list" where
  "stomp_signals i g =
     (if unat (ft_raw (si_created i)) < unat (ft_raw (fn_created g)) then [lit ''$SI created before $FN''] else []) @
     (if \<exists>t \<in> {si_created i, si_modified i, si_mft_modified i, si_accessed i}.
           0 < unat (ft_raw t) \<and> 10000000 dvd unat (ft_raw t)
      then [lit ''$SI timestamp on a whole second''] else [])"

lemma whole_second_ticks: "whole_second t \<longleftrightarrow> 0 < unat (ft_raw t) \<and> 10000000 dvd unat (ft_raw t)"
proof -
  have "ft_raw t mod TICKS_PER_SECOND = 0 \<longleftrightarrow> unat (ft_raw t) mod 10000000 = 0"
    by (simp add: TICKS_PER_SECOND_def unat_eq_0 [symmetric] unat_mod del: unat_eq_0)
  then show ?thesis
    by (auto simp: whole_second_def mod_eq_0_iff_dvd unat_eq_0 [symmetric] simp del: unat_eq_0)
qed

lemma audit_timestomp_signals:
  "audit_timestomp n si f =
     (case (si, f) of (Some i, Some g) \<Rightarrow> map (\<lambda>s. anomaly_new (Timestomp n s)) (stomp_signals i g) | _ \<Rightarrow> [])"
  by (simp add: audit_timestomp_def detect_timestomp_def stomp_signals_def whole_second_ticks word_less_nat_alt Let_def
      split: option.split)

text \<open>The attributes and the two values the auditor looks at.\<close>

definition audited_attributes :: "nomicon \<Rightarrow> bytes \<Rightarrow> mft_record_header \<Rightarrow> attribute list" where
  "audited_attributes N rec h =
     (case parse_attributes N rec (unat (first_attribute_offset h)) of Ok as \<Rightarrow> as | _ \<Rightarrow> [])"

definition audited_si :: "nomicon \<Rightarrow> bytes \<Rightarrow> mft_record_header \<Rightarrow> standard_information option" where
  "audited_si N rec h =
     Option.bind (audit_resident rec (audited_attributes N rec h) (T_STANDARD_INFORMATION (attr_ty N)))
       (\<lambda>c. res_ok (standard_information_parse c))"

definition audited_fn :: "nomicon \<Rightarrow> bytes \<Rightarrow> mft_record_header \<Rightarrow> file_name option" where
  "audited_fn N rec h =
     Option.bind (audit_resident rec (audited_attributes N rec h) (T_FILE_NAME (attr_ty N)))
       (\<lambda>c. res_ok (file_name_parse c))"

text \<open>What there is to report of a record with a readable header, in the order of the report.\<close>

definition record_anomalies :: "nomicon \<Rightarrow> bytes \<Rightarrow> mft_record_header \<Rightarrow> anomaly_kind list" where
  "record_anomalies N rec h =
     (let n = ucast (record_number h);
          residue = card {i. unat (used_size h) \<le> i \<and> i < length rec \<and> rec ! i \<noteq> 0} in
      (if is_in_use N h then [] else [DeletedRecord n]) @
      (if residue = 0 then [] else [RecordSlackResidue n residue]) @
      [AlternateDataStream n (the (attr_name a)).
         a \<leftarrow> audited_attributes N rec h, type_code a = T_DATA (attr_ty N), attr_name a \<noteq> None] @
      (case (audited_si N rec h, audited_fn N rec h) of
         (Some i, Some g) \<Rightarrow> map (Timestomp n) (stomp_signals i g)
       | _ \<Rightarrow> []))"

lemma stream_anomalies:
  "map (\<lambda>a. anomaly_new (AlternateDataStream n (case attr_name a of Some s \<Rightarrow> s | None \<Rightarrow> [])))
     (alternate_data_streams N attrs) =
   map anomaly_new [AlternateDataStream n (the (attr_name a)).
     a \<leftarrow> attrs, type_code a = T_DATA (attr_ty N), attr_name a \<noteq> None]"
  by (induction attrs) (auto simp: alternate_data_streams_def)

lemma audit_components_anomalies:
  "audit_components N (ucast (record_number h)) h rec (audited_attributes N rec h) (audited_si N rec h) (audited_fn N rec h) =
   map anomaly_new (record_anomalies N rec h)"
  unfolding audit_components_def record_anomalies_def Let_def stream_anomalies audit_timestomp_signals
  by (simp add: is_deleted_def record_slack_drop nonzero_from_count o_def split: option.split)

lemma audit_record_cases:
  assumes "attr_in_header N" "length rec < 2 ^ 63"
  shows "audit_record N rec =
    (case header_parse N rec of
       Ok h \<Rightarrow> Ok (audit_components N (ucast (record_number h)) h rec (audited_attributes N rec h)
         (audited_si N rec h) (audited_fn N rec h))
     | _ \<Rightarrow> Ok [])"
proof (cases "header_parse N rec")
  case (Ok h)
  have "parse_attributes N rec (unat (first_attribute_offset h)) \<noteq> Panic"
    using assms unsigned_less [of "first_attribute_offset h"]
    by (intro parse_attributes_no_panic) simp_all
  with Ok show ?thesis
    by (cases "parse_attributes N rec (unat (first_attribute_offset h))")
       (simp_all add: audit_record_def unwrap_or_default_def Let_def audited_attributes_def
          audited_si_def audited_fn_def)
qed (simp_all add: audit_record_def)

text \<open>
  A record as it stands on disk, before the fixup, always shows residue: the sequence number
  at the end of its last sector counts as such, whatever the slack holds.
\<close>

lemma raw_record_residue:
  assumes "0 < n" "n * ss \<le> length buf" "uo + 4 + 2 * n \<le> ss" "w \<noteq> 0"
    and "header_parse N (protect ss uo n w buf) = Ok h" "unat (used_size h) + 2 \<le> n * ss"
    and "attr_in_header N" "length buf < 2 ^ 63"
  shows "\<exists>out m. audit_record N (protect ss uo n w buf) = Ok out \<and>
    RecordSlackResidue (ucast (record_number h)) m \<in> kinds out"
proof -
  let ?d = "protect ss uo n w buf" and ?t = "tail_pos ss (n - 1)"
  have len: "length ?d = length buf"
    by (simp add: protect_def)
  have t: "?t + 2 = n * ss" "unat (used_size h) \<le> ?t"
    using assms(1,3,6) by (simp_all add: tail_pos_def)
  have "tail_word ?d ss (n - 1) \<noteq> 0"
    using protect_tail [OF assms(3), of "n - 1" buf w] assms(1,2,4) by simp
  then have "?d ! ?t \<noteq> 0 \<or> ?d ! (?t + 1) \<noteq> 0"
    by (auto simp: tail_word_def from_le_bytes_def)
  then have "{i. unat (used_size h) \<le> i \<and> i < length ?d \<and> ?d ! i \<noteq> 0} \<noteq> {}"
    using t assms(2) len by (auto intro: exI [of _ ?t] exI [of _ "?t + 1"])
  then have "card {i. unat (used_size h) \<le> i \<and> i < length ?d \<and> ?d ! i \<noteq> 0} \<noteq> 0"
    by simp
  then have "RecordSlackResidue (ucast (record_number h)) (card {i. unat (used_size h) \<le> i \<and> i < length ?d \<and> ?d ! i \<noteq> 0})
      \<in> set (record_anomalies N ?d h)"
    unfolding record_anomalies_def Let_def by (simp only: set_append if_False list.set Un_iff insert_iff simp_thms)
  moreover have "audit_record N ?d = Ok (map anomaly_new (record_anomalies N ?d h))"
    using assms(5,8) len by (simp add: audit_record_cases [OF assms(7)] audit_components_anomalies)
  ultimately show ?thesis
    by force
qed

section \<open>Properties\<close>

text \<open>
  Claim C36. The record auditor is total and exact. On any bytes it returns a list and never
  panics; without a readable header the list is empty. Otherwise the list is, in this order and
  with nothing else: a deleted record, when the record is not in use; the number of bytes that
  are not zero between the used size and the end of the bytes given, when there are any; one
  entry for every named data attribute, with its name; and, when the first standard information
  and the first file name of the record can be read, each tell of forged times that they show,
  under its own signal. Every finding carries the record's number and the severity of its kind.
\<close>

theorem audit_record_exact:
  assumes "attr_in_header N" "length rec < 2 ^ 63"
  shows "\<exists>out. audit_record N rec = Ok out \<and>
    map an_kind out = (case header_parse N rec of Ok h \<Rightarrow> record_anomalies N rec h | _ \<Rightarrow> []) \<and>
    list_all (\<lambda>a. a = anomaly_new (an_kind a) \<and>
      an_severity a = (case an_kind a of
          Timestomp _ _ \<Rightarrow> High | AlternateDataStream _ _ \<Rightarrow> Low | RecordSlackResidue _ _ \<Rightarrow> Low
        | DeletedRecord _ \<Rightarrow> Info)) out"
  by (cases "header_parse N rec")
     (auto simp: audit_record_cases [OF assms] audit_components_anomalies list_all_iff anomaly_new_def o_def
       split: anomaly_kind.split)

text \<open>A deleted record of 64 bytes, 56 of them used, with two bytes of residue.\<close>

definition deleted_record :: bytes where
  "deleted_record =
     [70, 73, 76, 69] @ replicate 20 0 @ [56, 0, 0, 0] @ replicate 16 0 @ [7, 0, 0, 0] @
     replicate 8 0 @ [0, 5, 0, 0, 6, 0, 0, 0]"

lemma deleted_record_header:
  "header_parse ntfs_layout deleted_record =
     Ok \<lparr>signature = [70, 73, 76, 69], usa_offset = 0, usa_count = 0, lsn = 0, sequence_number = 0,
         hard_link_count = 0, first_attribute_offset = 0, hdr_flags = 0, used_size = 56,
         hdr_allocated_size = 0, base_record = 0, next_attr_id = 0, record_number = 7\<rparr>"
  by (simp add: header_parse_def HEADER_LEN_def layout_defs deleted_record_def Let_def arr_def
      le_u16_def le_u32_def le_u64_def get_range_def from_le_bytes_def)

theorem audit_record_exact_witness:
  "\<exists>out. audit_record ntfs_layout deleted_record = Ok out \<and>
     map an_kind out = [DeletedRecord 7, RecordSlackResidue 7 2]"
proof -
  have "length (filter (\<lambda>b. b \<noteq> 0) (drop 56 deleted_record)) = 2"
    by (simp add: deleted_record_def)
  then have "card {i. 56 \<le> i \<and> i < length deleted_record \<and> deleted_record ! i \<noteq> 0} = 2"
    by (simp add: nonzero_from_count)
  moreover have "attr_in_header ntfs_layout" "length deleted_record < 2 ^ 63"
    using documented_attr by (simp_all add: deleted_record_def)
  moreover have "audited_attributes ntfs_layout deleted_record h = []" if "first_attribute_offset h = 0" for h
    using that
    by (simp add: audited_attributes_def deleted_record_def parse_attributes_def MAX_ATTRIBUTES_def
        attributes_loop_numeral parse_one_def parse_attr_name_def layout_defs HEADER_MIN_def le_read_defs get_range_def
        from_le_bytes_def usize_checked_add_def idx_def cong: and_then_weak_cong)
  ultimately show ?thesis
    using audit_record_exact [of ntfs_layout deleted_record]
    by (auto simp: deleted_record_header is_in_use_def Let_def record_anomalies_def audited_si_def audit_resident_def)
qed

text \<open>
  The volume auditor is exact and total. It reports a mirror mismatch exactly when
  the first four records of the table and of the mirror are not all present and equal, naming
  the records concerned in increasing order; and it reports a cleared log exactly when the log
  has no restart page, or some page past the third follows a record page and is neither a log
  page nor blank.
\<close>

theorem audit_artifacts_exact:
  "audit_mft_mirror m r =
     Ok (if 4096 \<le> length m \<and> 4096 \<le> length r \<and> take 4096 m = take 4096 r then []
         else [MftMirrorMismatch (filter (\<lambda>i. \<not> entry_matches m r i) [0..<4])]) \<and>
   audit_logfile d =
     Ok (if (\<exists>i < length d div LOG_PAGE_SIZE. gap_page d i) \<or>
            filter (\<lambda>i. page_sig d i = RSTR_SIGNATURE) [0..<length d div LOG_PAGE_SIZE] = []
         then [LogFileCleared] else [])"
proof
  show "audit_mft_mirror m r =
     Ok (if 4096 \<le> length m \<and> 4096 \<le> length r \<and> take 4096 m = take 4096 r then []
         else [MftMirrorMismatch (filter (\<lambda>i. \<not> entry_matches m r i) [0..<4])])"
    by (simp add: audit_mft_mirror_def compare_mft_mirror_exact upt_rec)
next
  obtain s where s: "parse_logfile d = Ok s"
    "has_gaps s \<longleftrightarrow> (\<exists>i < length d div LOG_PAGE_SIZE. gap_page d i)"
    "map ra_offset (restart_areas s) =
       map (\<lambda>i. i * LOG_PAGE_SIZE) (filter (\<lambda>i. page_sig d i = RSTR_SIGNATURE) [0..<length d div LOG_PAGE_SIZE])"
    using parse_logfile_summary [of d] by blast
  have "restart_areas s = [] \<longleftrightarrow>
      filter (\<lambda>i. page_sig d i = RSTR_SIGNATURE) [0..<length d div LOG_PAGE_SIZE] = []"
    using arg_cong [OF s(3), of length] by (metis length_0_conv length_map)
  with s(1,2) show "audit_logfile d =
     Ok (if (\<exists>i < length d div LOG_PAGE_SIZE. gap_page d i) \<or>
            filter (\<lambda>i. page_sig d i = RSTR_SIGNATURE) [0..<length d div LOG_PAGE_SIZE] = []
         then [LogFileCleared] else [])"
    by (auto simp: audit_logfile_def detect_journal_clearing_def)
qed

end
