(* ===== verification/Carve.thy ===== *)
theory Carve
  imports Usn_Carver
begin

text \<open>
  \<open>core/src/carve.rs\<close>: recovering MFT records from raw data. The reads of the external
  \<open>safe_read\<close> crate are the parameter \<open>S\<close>.
\<close>

section \<open>Definitions\<close>

definition FILE_SIGNATURE :: bytes where
  "FILE_SIGNATURE = [0x46, 0x49, 0x4C, 0x45]"

definition CARVE_ENTRY_SIZE :: nat where
  "CARVE_ENTRY_SIZE = 1024"

definition ATTR_FILE_NAME :: u32 where
  "ATTR_FILE_NAME = 0x30"

definition ATTR_END_MARKER :: u32 where
  "ATTR_END_MARKER = 0xFFFFFFFF"

definition MAX_ATTR_WALK :: nat where
  "MAX_ATTR_WALK = 20"

definition NS_WIN32 :: u8 where
  "NS_WIN32 = 1"

definition NS_WIN32_AND_DOS :: u8 where
  "NS_WIN32_AND_DOS = 3"

definition NS_DOS :: u8 where
  "NS_DOS = 2"

record carved_mft_entry =
  cm_offset :: nat
  cm_entry_number :: u64
  cm_sequence_number :: u16
  cm_filename :: ustring
  cm_parent_entry :: u64
  cm_parent_sequence :: u16
  cm_is_directory :: bool
  cm_is_in_use :: bool

record mft_carving_stats =
  ms_bytes_scanned :: nat
  ms_candidates_examined :: nat
  ms_entries_carved :: nat
  ms_rejected :: nat

type_synonym carved_name = "ustring \<times> u64 \<times> u16 \<times> u8"

definition parse_filename_attr :: "safe_read \<Rightarrow> bytes \<Rightarrow> nat \<Rightarrow> carved_name option res" where
  "parse_filename_attr S entry attr_offset =
     (let content_offset = unat (sr_u16 S entry (attr_offset + 20));
          content_size = unat (sr_u32 S entry (attr_offset + 16));
          fn_start = attr_offset + content_offset in
      if fn_start + 66 > length entry \<or> content_size < 66 then Ok None
      else let parent_ref = sr_u64 S entry fn_start;
          parent_entry = parent_ref AND 0x0000FFFFFFFFFFFF;
          parent_sequence = ucast (drop_bit 48 parent_ref) in
      and_then (idx entry (fn_start + 64)) (\<lambda>n. let name_len_chars = unat n in
      and_then (idx entry (fn_start + 65)) (\<lambda>namespace.
      if name_len_chars = 0 then Ok None
      else let name_bytes_start = fn_start + 66;
          name_bytes_end = name_bytes_start + name_len_chars * 2 in
      if name_bytes_end > length entry \<or>
         name_bytes_end > attr_offset + unat (sr_u32 S entry (attr_offset + 4))
      then Ok None
      else let name_u16 = map (\<lambda>i. sr_u16 S entry (name_bytes_start + i * 2)) [0..<name_len_chars] in
      Ok (Some (decode_utf16_lossy name_u16, parent_entry, parent_sequence, namespace)))))"

text \<open>The test named \<open>dominated\<close> in the source: whether a name replaces the best one so far.\<close>

fun dominated :: "carved_name option \<Rightarrow> u8 \<Rightarrow> bool" where
  "dominated None ns = True"
| "dominated (Some (_, _, _, prev_ns)) ns \<longleftrightarrow>
     prev_ns = NS_DOS \<and> (ns = NS_WIN32 \<or> ns = NS_WIN32_AND_DOS) \<or>
     prev_ns \<noteq> NS_WIN32 \<and> prev_ns \<noteq> NS_WIN32_AND_DOS \<and> ns \<noteq> NS_DOS"

definition keep_name :: "carved_name option \<Rightarrow> carved_name option \<Rightarrow> carved_name option" where
  "keep_name best x =
     (case x of
        None \<Rightarrow> best
      | Some (name, parent_e, parent_s, ns) \<Rightarrow>
          if dominated best ns then Some (name, parent_e, parent_s, ns) else best)"

text \<open>The attribute walk; the last argument is the number of attributes it may still visit.\<close>

fun carve_walk :: "safe_read \<Rightarrow> bytes \<Rightarrow> nat \<Rightarrow> carved_name option \<Rightarrow> nat \<Rightarrow> carved_name option res" where
  "carve_walk S entry attr_offset best 0 = Ok best"
| "carve_walk S entry attr_offset best (Suc left) =
     (if attr_offset + 8 \<le> CARVE_ENTRY_SIZE then
        let attr_type = sr_u32 S entry attr_offset in
        if attr_type = ATTR_END_MARKER then Ok best
        else let attr_len = unat (sr_u32 S entry (attr_offset + 4)) in
        if attr_len < 8 \<or> attr_offset + attr_len > CARVE_ENTRY_SIZE then Ok best
        else and_then
          (if attr_type = ATTR_FILE_NAME \<and> attr_offset + 8 < length entry \<and> entry ! (attr_offset + 8) = 0
           then parse_filename_attr S entry attr_offset else Ok None) (\<lambda>x.
        carve_walk S entry (attr_offset + attr_len) (keep_name best x) left)
      else Ok best)"

definition reject :: "mft_carving_stats \<Rightarrow> mft_carving_stats" where
  "reject st = st\<lparr>ms_rejected := ms_rejected st + 1\<rparr>"

definition try_carve_entry ::
  "safe_read \<Rightarrow> bytes \<Rightarrow> nat \<Rightarrow> mft_carving_stats \<Rightarrow> (carved_mft_entry option \<times> mft_carving_stats) res" where
  "try_carve_entry S data offset st =
     and_then (slice data offset (offset + CARVE_ENTRY_SIZE)) (\<lambda>entry.
     let sequence_number = sr_u16 S entry 16 in
     if sequence_number = 0 then Ok (None, reject st)
     else let first_attr_offset = unat (sr_u16 S entry 20) in
     if \<not> (48 \<le> first_attr_offset \<and> first_attr_offset < CARVE_ENTRY_SIZE - 8) then Ok (None, reject st)
     else let flags = sr_u16 S entry 22; entry_number = ucast (sr_u32 S entry 44) in
     and_then (carve_walk S entry first_attr_offset None MAX_ATTR_WALK) (\<lambda>best.
     case best of
       Some (fname, parent_entry, parent_sequence, _) \<Rightarrow>
         Ok (Some \<lparr>cm_offset = offset, cm_entry_number = entry_number,
                  cm_sequence_number = sequence_number, cm_filename = fname,
                  cm_parent_entry = parent_entry, cm_parent_sequence = parent_sequence,
                  cm_is_directory = (flags AND 0x02 \<noteq> 0), cm_is_in_use = (flags AND 0x01 \<noteq> 0)\<rparr>, st)
     | None \<Rightarrow> Ok (None, reject st)))"

function carve_mft_loop ::
  "safe_read \<Rightarrow> bytes \<Rightarrow> nat \<Rightarrow> mft_carving_stats \<Rightarrow> (carved_mft_entry list \<times> mft_carving_stats) res" where
  "carve_mft_loop S data offset st =
     (if offset + CARVE_ENTRY_SIZE \<le> length data then
        and_then (slice data offset (offset + 4)) (\<lambda>sig.
        and_then
          (if sig = FILE_SIGNATURE
           then try_carve_entry S data offset (st\<lparr>ms_candidates_examined := ms_candidates_examined st + 1\<rparr>)
           else Ok (None, st)) (\<lambda>(c, st').
        and_then (carve_mft_loop S data (offset + CARVE_ENTRY_SIZE) st') (\<lambda>(rest, st'').
        Ok (case c of None \<Rightarrow> rest | Some e \<Rightarrow> e # rest, st''))))
      else Ok ([], st))"
  by pat_completeness auto

termination carve_mft_loop
  by (relation "measure (\<lambda>(S, data, off, st). length data - off)") (auto simp: CARVE_ENTRY_SIZE_def)

declare carve_mft_loop.simps [simp del]

definition carve_mft_entries ::
  "safe_read \<Rightarrow> bytes \<Rightarrow> (carved_mft_entry list \<times> mft_carving_stats) res" where
  "carve_mft_entries S data =
     and_then (carve_mft_loop S data 0
       \<lparr>ms_bytes_scanned = length data, ms_candidates_examined = 0, ms_entries_carved = 0, ms_rejected = 0\<rparr>)
     (\<lambda>(results, st). Ok (results, st\<lparr>ms_entries_carved := length results\<rparr>))"

section \<open>The attribute walk\<close>

text \<open>All the names the walk of a record can read, in the order it meets them.\<close>

fun walk_names :: "safe_read \<Rightarrow> bytes \<Rightarrow> nat \<Rightarrow> nat \<Rightarrow> carved_name list" where
  "walk_names S entry off 0 = []"
| "walk_names S entry off (Suc left) =
     (let t = sr_u32 S entry off; n = unat (sr_u32 S entry (off + 4)) in
      if off + 8 \<le> CARVE_ENTRY_SIZE \<and> t \<noteq> ATTR_END_MARKER \<and> 8 \<le> n \<and> off + n \<le> CARVE_ENTRY_SIZE
      then (if t = ATTR_FILE_NAME \<and> off + 8 < length entry \<and> entry ! (off + 8) = 0
            then case parse_filename_attr S entry off of Ok (Some x) \<Rightarrow> [x] | _ \<Rightarrow> [] else []) @
           walk_names S entry (off + n) left
      else [])"

definition name_rank :: "carved_name \<Rightarrow> nat" where
  "name_rank x =
     (let ns = snd (snd (snd x)) in
      if ns = NS_WIN32 \<or> ns = NS_WIN32_AND_DOS then 2 else if ns = NS_DOS then 0 else 1)"

lemmas namespaces = NS_WIN32_def NS_WIN32_AND_DOS_def NS_DOS_def

lemma parse_filename_attr_total: "\<exists>x. parse_filename_attr S entry off = Ok x"
  by (simp add: parse_filename_attr_def Let_def idx_def)

lemma keep_name_None [simp]: "keep_name best None = best"
  by (simp add: keep_name_def)

lemma carve_walk_names:
  "carve_walk S entry off best k = Ok (foldl (\<lambda>b x. keep_name b (Some x)) best (walk_names S entry off k))"
proof (induction k arbitrary: off best)
  case (Suc k)
  obtain x where "parse_filename_attr S entry off = Ok x"
    using parse_filename_attr_total by blast
  then show ?case
    using Suc.IH by (cases x) (simp_all add: Let_def)
qed simp

lemma keep_name_Some:
  "keep_name (Some b) (Some x) = Some x \<and> name_rank b \<le> name_rank x \<or>
   keep_name (Some b) (Some x) = Some b \<and> name_rank x \<le> name_rank b"
  by (cases b; cases x) (auto simp: keep_name_def name_rank_def namespaces)

lemma best_name_from:
  "\<exists>b'. foldl (\<lambda>b x. keep_name b (Some x)) (Some b) xs = Some b' \<and> b' \<in> insert b (set xs) \<and>
     (\<forall>x \<in> insert b (set xs). name_rank x \<le> name_rank b')"
proof (induction xs arbitrary: b)
  case (Cons x xs)
  consider "keep_name (Some b) (Some x) = Some x" "name_rank b \<le> name_rank x"
    | "keep_name (Some b) (Some x) = Some b" "name_rank x \<le> name_rank b"
    using keep_name_Some by blast
  then show ?case
  proof cases
    case 1
    with Cons.IH [of x] show ?thesis
      by (force intro: order_trans)
  next
    case 2
    with Cons.IH [of b] show ?thesis
      by (force intro: order_trans)
  qed
qed simp

lemma best_name:
  "case foldl (\<lambda>b x. keep_name b (Some x)) None xs of
     None \<Rightarrow> xs = []
   | Some b \<Rightarrow> b \<in> set xs \<and> (\<forall>x \<in> set xs. name_rank x \<le> name_rank b)"
proof (cases xs)
  case (Cons x ys)
  then show ?thesis
    using best_name_from [of x ys] by (cases x) (auto simp: keep_name_def)
qed simp

section \<open>What is carved\<close>

text \<open>
  A block of 1024 bytes is an MFT record when its sequence number is not zero, its first
  attribute lies inside it, and the attribute walk reaches a name.
\<close>

definition block :: "bytes \<Rightarrow> nat \<Rightarrow> bytes" where
  "block data i = take CARVE_ENTRY_SIZE (drop (i * CARVE_ENTRY_SIZE) data)"

definition block_names :: "safe_read \<Rightarrow> bytes \<Rightarrow> carved_name list" where
  "block_names S b =
     (let first = unat (sr_u16 S b 20) in
      if sr_u16 S b 16 = 0 \<or> first < 48 \<or> CARVE_ENTRY_SIZE - 8 \<le> first then []
      else walk_names S b first MAX_ATTR_WALK)"

definition carved_from :: "safe_read \<Rightarrow> bytes \<Rightarrow> nat \<Rightarrow> carved_mft_entry \<Rightarrow> bool" where
  "carved_from S data i e \<longleftrightarrow>
     (let b = block data i in
      cm_offset e = i * CARVE_ENTRY_SIZE \<and> cm_sequence_number e = sr_u16 S b 16 \<and>
      cm_entry_number e = ucast (sr_u32 S b 44) \<and>
      (\<exists>x \<in> set (block_names S b). (\<forall>y \<in> set (block_names S b). name_rank y \<le> name_rank x) \<and>
         x = (cm_filename e, cm_parent_entry e, cm_parent_sequence e, snd (snd (snd x)))) \<and>
      cm_is_directory e = bit (sr_u16 S b 22) 1 \<and> cm_is_in_use e = bit (sr_u16 S b 22) 0)"

lemma and_bit_iff: "w AND 2 ^ n \<noteq> 0 \<longleftrightarrow> bit (w :: u16) n"
  if "n < 16"
proof -
  have "w AND 2 ^ n = (if bit w n then 2 ^ n else 0)"
    using that by (intro bit_word_eqI) (auto simp: bit_simps)
  moreover have "(2 :: u16) ^ n \<noteq> 0"
    using that by (simp add: exp_eq_zero_iff)
  ultimately show ?thesis
    by simp
qed

lemma try_carve_entry_outcome:
  assumes "i < length data div CARVE_ENTRY_SIZE"
  shows "(block_names S (block data i) = [] \<and>
      try_carve_entry S data (i * CARVE_ENTRY_SIZE) st = Ok (None, reject st)) \<or>
    (\<exists>e. carved_from S data i e \<and> try_carve_entry S data (i * CARVE_ENTRY_SIZE) st = Ok (Some e, st))"
proof -
  let ?b = "block data i" and ?o = "i * CARVE_ENTRY_SIZE"
  have fits: "?o + CARVE_ENTRY_SIZE \<le> length data"
    by (rule block_fits [OF assms])
  have sl: "slice data ?o (?o + CARVE_ENTRY_SIZE) = Ok ?b"
    using fits by (simp add: block_def)
  have flags: "sr_u16 S ?b 22 AND 2 \<noteq> 0 \<longleftrightarrow> bit (sr_u16 S ?b 22) 1" "sr_u16 S ?b 22 AND 1 \<noteq> 0 \<longleftrightarrow> bit (sr_u16 S ?b 22) 0"
    using and_bit_iff [of 1 "sr_u16 S ?b 22"] and_bit_iff [of 0 "sr_u16 S ?b 22"] by simp_all
  let ?first = "unat (sr_u16 S ?b 20)"
  show ?thesis
  proof (cases "sr_u16 S ?b 16 = 0 \<or> ?first < 48 \<or> CARVE_ENTRY_SIZE - 8 \<le> ?first")
    case True
    then show ?thesis
      using sl by (auto simp: try_carve_entry_def block_names_def Let_def not_less)
  next
    case False
    let ?xs = "walk_names S ?b ?first MAX_ATTR_WALK"
    let ?best = "foldl (\<lambda>b x. keep_name b (Some x)) None ?xs"
    have names: "block_names S ?b = ?xs"
      using False by (simp add: block_names_def Let_def)
    have walk: "carve_walk S ?b ?first None MAX_ATTR_WALK = Ok ?best"
      by (rule carve_walk_names)
    show ?thesis
    proof (cases ?best)
      case None
      then show ?thesis
        using best_name [of ?xs] sl False walk names by (simp add: try_carve_entry_def Let_def not_less)
    next
      case (Some x)
      obtain n pe ps ns where x: "x = (n, pe, ps, ns)"
        by (metis surj_pair)
      let ?e = "\<lparr>cm_offset = ?o, cm_entry_number = ucast (sr_u32 S ?b 44), cm_sequence_number = sr_u16 S ?b 16,
        cm_filename = n, cm_parent_entry = pe, cm_parent_sequence = ps,
        cm_is_directory = (sr_u16 S ?b 22 AND 0x02 \<noteq> 0), cm_is_in_use = (sr_u16 S ?b 22 AND 0x01 \<noteq> 0)\<rparr>"
      have "try_carve_entry S data ?o st = Ok (Some ?e, st)"
        using sl False walk Some x by (simp add: try_carve_entry_def Let_def not_less)
      moreover have "carved_from S data i ?e"
        using best_name [of ?xs] Some x names flags unfolding carved_from_def Let_def
        by (auto intro!: bexI [of _ x])
      ultimately show ?thesis
        by blast
    qed
  qed
qed

lemma carved_from_named: "carved_from S data i e \<Longrightarrow> block_names S (block data i) \<noteq> []"
  by (auto simp: carved_from_def Let_def)

definition blocks_from :: "bytes \<Rightarrow> nat \<Rightarrow> nat list" where
  "blocks_from data i =
     filter (\<lambda>j. take 4 (drop (j * CARVE_ENTRY_SIZE) data) = FILE_SIGNATURE) [i..<length data div CARVE_ENTRY_SIZE]"

definition named :: "safe_read \<Rightarrow> bytes \<Rightarrow> nat list \<Rightarrow> nat list" where
  "named S data is = filter (\<lambda>i. block_names S (block data i) \<noteq> []) is"

lemma carve_mft_loop_blocks:
  assumes "i \<le> length data div CARVE_ENTRY_SIZE"
  shows "\<exists>rs st'. carve_mft_loop S data (i * CARVE_ENTRY_SIZE) st = Ok (rs, st') \<and>
    list_all2 (carved_from S data) (named S data (blocks_from data i)) rs \<and>
    ms_bytes_scanned st' = ms_bytes_scanned st \<and>
    ms_candidates_examined st' = ms_candidates_examined st + length (blocks_from data i) \<and>
    ms_rejected st' + length rs = ms_rejected st + length (blocks_from data i)"
  using assms
proof (induction "length data div CARVE_ENTRY_SIZE - i" arbitrary: i st)
  case 0
  then have "i = length data div CARVE_ENTRY_SIZE"
    by simp
  then have "\<not> i * CARVE_ENTRY_SIZE + CARVE_ENTRY_SIZE \<le> length data"
    using div_less_iff_less_mult [of CARVE_ENTRY_SIZE "length data" "Suc i"] by (simp add: CARVE_ENTRY_SIZE_def)
  with \<open>i = _\<close> show ?case
    by (subst carve_mft_loop.simps) (simp add: blocks_from_def named_def)
next
  case (Suc n)
  let ?o = "i * CARVE_ENTRY_SIZE"
  have i: "i < length data div CARVE_ENTRY_SIZE"
    using Suc.hyps(2) by simp
  have fits: "?o + CARVE_ENTRY_SIZE \<le> length data" "slice data ?o (?o + 4) = Ok (take 4 (drop ?o data))"
    using block_fits [OF i] by (simp_all add: CARVE_ENTRY_SIZE_def)
  have nxt: "?o + CARVE_ENTRY_SIZE = Suc i * CARVE_ENTRY_SIZE"
    by simp
  have ih: "\<exists>rs st'. carve_mft_loop S data (Suc i * CARVE_ENTRY_SIZE) st = Ok (rs, st') \<and>
    list_all2 (carved_from S data) (named S data (blocks_from data (Suc i))) rs \<and>
    ms_bytes_scanned st' = ms_bytes_scanned st \<and>
    ms_candidates_examined st' = ms_candidates_examined st + length (blocks_from data (Suc i)) \<and>
    ms_rejected st' + length rs = ms_rejected st + length (blocks_from data (Suc i))" for st
    using Suc.hyps(1) [of "Suc i" st] Suc.hyps(2) i by simp
  have step: "carve_mft_loop S data ?o st =
      and_then (if take 4 (drop ?o data) = FILE_SIGNATURE
        then try_carve_entry S data ?o (st\<lparr>ms_candidates_examined := ms_candidates_examined st + 1\<rparr>)
        else Ok (None, st)) (\<lambda>(c, st').
      and_then (carve_mft_loop S data (Suc i * CARVE_ENTRY_SIZE) st') (\<lambda>(rest, st'').
      Ok (case c of None \<Rightarrow> rest | Some e \<Rightarrow> e # rest, st'')))"
    using fits unfolding nxt [symmetric] by (subst carve_mft_loop.simps) simp
  have blocks: "blocks_from data i =
      (if take 4 (drop ?o data) = FILE_SIGNATURE then [i] else []) @ blocks_from data (Suc i)"
    using i by (simp add: blocks_from_def upt_conv_Cons)
  show ?case
  proof (cases "take 4 (drop ?o data) = FILE_SIGNATURE")
    case False
    with ih [of st] show ?thesis
      unfolding step blocks by auto
  next
    case True
    let ?st = "st\<lparr>ms_candidates_examined := ms_candidates_examined st + 1\<rparr>"
    from try_carve_entry_outcome [OF i, of S ?st] show ?thesis
    proof (elim disjE exE conjE)
      assume none: "block_names S (block data i) = []" "try_carve_entry S data ?o ?st = Ok (None, reject ?st)"
      with True ih [of "reject ?st"] show ?thesis
        unfolding step blocks by (auto simp: named_def reject_def)
    next
      fix e
      assume e: "carved_from S data i e" "try_carve_entry S data ?o ?st = Ok (Some e, ?st)"
      with True ih [of ?st] carved_from_named [OF e(1)] show ?thesis
        unfolding step blocks by (auto simp: named_def)
    qed
  qed
qed

section \<open>Property\<close>

text \<open>
  Claim C31. Carving is exact and total: of raw data of any length it returns one entry for each
  1024-byte block that carries the record signature and a readable name, in order and no
  other, each with the block's own header fields and a name none of the block's names
  outranks (Win32 before POSIX before DOS), and every candidate is counted once as carved or
  rejected.
\<close>

theorem carve_mft_entries_exact:
  "\<exists>rs st. carve_mft_entries S data = Ok (rs, st) \<and>
     list_all2 (carved_from S data) (named S data (blocks_from data 0)) rs \<and>
     ms_bytes_scanned st = length data \<and> ms_entries_carved st = length rs \<and>
     ms_candidates_examined st = length (blocks_from data 0) \<and>
     ms_entries_carved st + ms_rejected st = ms_candidates_examined st"
  using carve_mft_loop_blocks [of 0 data S "\<lparr>ms_bytes_scanned = length data, ms_candidates_examined = 0,
      ms_entries_carved = 0, ms_rejected = 0\<rparr>"]
  by (auto simp: carve_mft_entries_def)

end
