(* ===== verification/Rewind.thy ===== *)
theory Rewind
  imports Carve Usn_Reason
begin

text \<open>
  \<open>core/src/rewind.rs\<close>: path reconstruction from the change journal. A hash map of the
  source is a map; nothing here depends on its iteration order. The specification is a
  history of the directory tree: starting from any closed tree, each journal record is an
  event that creates, renames or touches an entry, and \<open>rewind\<close> is shown to recover, for
  every record, the tree as it was at that moment, on the entries it has heard of.
\<close>

section \<open>Definitions\<close>

record entry_key =
  ek_entry :: u64
  ek_sequence :: u16

definition root_key :: entry_key where
  "root_key = \<lparr>ek_entry = 5, ek_sequence = 5\<rparr>"

definition is_root :: "entry_key \<Rightarrow> bool" where
  "is_root k \<longleftrightarrow> ek_entry k = 5"

record entry_info =
  ei_name :: ustring
  ei_parent :: entry_key

datatype record_source = SourceAllocated | SourceCarved | SourceGhost

fun record_source_as_str :: "record_source \<Rightarrow> ustring" where
  "record_source_as_str SourceAllocated = lit ''allocated''"
| "record_source_as_str SourceCarved = lit ''entry-carved''"
| "record_source_as_str SourceGhost = lit ''ghost''"

record 'dt resolved_record =
  rr_record :: "'dt usn_record"
  rr_full_path :: ustring
  rr_parent_path :: ustring
  rr_source :: record_source

type_synonym lookup = "entry_key \<Rightarrow> entry_info option"

record rewind_engine =
  re_lookup :: lookup

definition rewind_new :: rewind_engine where
  "rewind_new = \<lparr>re_lookup = (\<lambda>_. None)\<rparr>"

definition engine_insert :: "entry_key \<Rightarrow> entry_info \<Rightarrow> rewind_engine \<Rightarrow> rewind_engine" where
  "engine_insert key info e = e\<lparr>re_lookup := (re_lookup e)(key \<mapsto> info)\<rparr>"

fun from_mft :: "(u64 \<times> u16 \<times> ustring \<times> u64 \<times> u16) list \<Rightarrow> rewind_engine \<Rightarrow> rewind_engine" where
  "from_mft [] e = e"
| "from_mft ((entry, seq, name, parent_entry, parent_seq) # rest) e =
     from_mft rest (engine_insert \<lparr>ek_entry = entry, ek_sequence = seq\<rparr>
       \<lparr>ei_name = name, ei_parent = \<lparr>ek_entry = parent_entry, ek_sequence = parent_seq\<rparr>\<rparr> e)"

definition lookup_len :: "rewind_engine \<Rightarrow> nat" where
  "lookup_len e = card (dom (re_lookup e))"

text \<open>\<open>map.entry(key).or_insert(info)\<close>.\<close>

definition or_insert :: "entry_key \<Rightarrow> entry_info \<Rightarrow> lookup \<Rightarrow> lookup" where
  "or_insert key info m = (case m key of None \<Rightarrow> m(key \<mapsto> info) | Some _ \<Rightarrow> m)"

fun seed_from_carved :: "carved_mft_entry list \<Rightarrow> rewind_engine \<Rightarrow> rewind_engine" where
  "seed_from_carved [] e = e"
| "seed_from_carved (c # cs) e =
     seed_from_carved cs (e\<lparr>re_lookup :=
       or_insert \<lparr>ek_entry = cm_entry_number c, ek_sequence = cm_sequence_number c\<rparr>
         \<lparr>ei_name = cm_filename c,
          ei_parent = \<lparr>ek_entry = cm_parent_entry c, ek_sequence = cm_parent_sequence c\<rparr>\<rparr> (re_lookup e)\<rparr>)"

definition key_label :: "string \<Rightarrow> entry_key \<Rightarrow> ustring" where
  "key_label label key =
     lit label @ lit ''('' @ dec (unat (ek_entry key)) @ lit '':'' @ dec (unat (ek_sequence key)) @ lit '')''"

function resolve_path_from_inner :: "lookup \<Rightarrow> entry_key \<Rightarrow> nat \<Rightarrow> ustring" where
  "resolve_path_from_inner m key depth =
     (if depth > 256 then key_label ''UNRESOLVED'' key
      else if is_root key then lit ''.''
      else case m key of
        Some info \<Rightarrow> resolve_path_from_inner m (ei_parent info) (depth + 1) @ [92] @ ei_name info
      | None \<Rightarrow> key_label ''UNKNOWN'' key)"
  by pat_completeness auto

termination resolve_path_from_inner
  by (relation "measure (\<lambda>(m, key, depth). 257 - depth)") auto

declare resolve_path_from_inner.simps [simp del]

definition resolve_path_from :: "lookup \<Rightarrow> entry_key \<Rightarrow> ustring" where
  "resolve_path_from m key = resolve_path_from_inner m key 0"

definition engine_resolve_path :: "rewind_engine \<Rightarrow> entry_key \<Rightarrow> ustring" where
  "engine_resolve_path e key = resolve_path_from_inner (re_lookup e) key 0"

text \<open>The test of a reason flag, \<open>record.reason.contains(..)\<close>.\<close>

definition has_reason :: "u32 \<Rightarrow> 'dt usn_record \<Rightarrow> bool" where
  "has_reason flag r \<longleftrightarrow> contains (reason r) flag"

definition record_key :: "'dt usn_record \<Rightarrow> entry_key" where
  "record_key r = \<lparr>ek_entry = mft_entry r, ek_sequence = mft_sequence r\<rparr>"

definition record_parent :: "'dt usn_record \<Rightarrow> entry_key" where
  "record_parent r = \<lparr>ek_entry = parent_mft_entry r, ek_sequence = parent_mft_sequence r\<rparr>"

definition record_info :: "'dt usn_record \<Rightarrow> entry_info" where
  "record_info r = \<lparr>ei_name = filename r, ei_parent = record_parent r\<rparr>"

text \<open>Phase 1 visits the records from the newest to the oldest.\<close>

definition rewind_back :: "'dt usn_record \<Rightarrow> lookup \<Rightarrow> lookup" where
  "rewind_back r m =
     (if has_reason RENAME_OLD_NAME r then m(record_key r \<mapsto> record_info r)
      else or_insert (record_key r) (record_info r) m)"

fun rewind_phase1 :: "'dt usn_record list \<Rightarrow> lookup \<Rightarrow> lookup" where
  "rewind_phase1 [] m = m"
| "rewind_phase1 (r # newer_first) m = rewind_phase1 newer_first (rewind_back r m)"

text \<open>Phase 2 visits them in order, updating a copy of the table.\<close>

definition rewind_forward :: "'dt usn_record \<Rightarrow> lookup \<Rightarrow> lookup" where
  "rewind_forward r m =
     (if has_reason RENAME_NEW_NAME r then m(record_key r \<mapsto> record_info r)
      else if has_reason FILE_CREATE r then m(record_key r \<mapsto> record_info r)
      else or_insert (record_key r) (record_info r) m)"

fun rewind_phase2 :: "'dt usn_record list \<Rightarrow> lookup \<Rightarrow> 'dt resolved_record list" where
  "rewind_phase2 [] m = []"
| "rewind_phase2 (r # rest) m =
     (let m = rewind_forward r m;
          parent_path = resolve_path_from m (record_parent r);
          full_path = parent_path @ [92] @ filename r
      in \<lparr>rr_record = r, rr_full_path = full_path, rr_parent_path = parent_path,
          rr_source = SourceAllocated\<rparr> # rewind_phase2 rest m)"

definition rewind :: "'dt usn_record list \<Rightarrow> rewind_engine \<Rightarrow> 'dt resolved_record list \<times> rewind_engine" where
  "rewind records e =
     (let m = rewind_phase1 (rev records) (re_lookup e)
      in (rewind_phase2 records m, e\<lparr>re_lookup := m\<rparr>))"

section \<open>Histories of the directory tree\<close>

text \<open>
  \<open>tree_step\<close> is the effect of a record on the tree; \<open>event_ok\<close> says that the record is a true
  report of a tree \<open>T\<close>: a rename or a creation names a live parent, a creation does not
  reuse a key for another entry, and every other record carries the entry's name and parent.
  A rename must be announced: before a new name that differs from the current one, an
  old-name record of the entry lies earlier in the journal.
\<close>

definition tree_step :: "'dt usn_record \<Rightarrow> lookup \<Rightarrow> lookup" where
  "tree_step r T =
     (if has_reason RENAME_NEW_NAME r \<or> has_reason FILE_CREATE r
      then T(record_key r \<mapsto> record_info r) else T)"

definition event_ok :: "lookup \<Rightarrow> entry_key set \<Rightarrow> 'dt usn_record \<Rightarrow> bool" where
  "event_ok T announced r \<longleftrightarrow>
     (is_root (record_parent r) \<or> record_parent r \<in> dom T) \<and>
     (if has_reason RENAME_NEW_NAME r
      then \<not> has_reason RENAME_OLD_NAME r \<and>
           (T (record_key r) \<in> {None, Some (record_info r)} \<or> record_key r \<in> announced)
      else if has_reason FILE_CREATE r
      then T (record_key r) \<in> {None, Some (record_info r)} \<and>
           (has_reason RENAME_OLD_NAME r \<longrightarrow> T (record_key r) \<noteq> None)
      else T (record_key r) = Some (record_info r))"

fun history_ok :: "lookup \<Rightarrow> entry_key set \<Rightarrow> 'dt usn_record list \<Rightarrow> bool" where
  "history_ok T announced [] = True"
| "history_ok T announced (r # rs) \<longleftrightarrow> event_ok T announced r \<and>
     history_ok (tree_step r T)
       (if has_reason RENAME_OLD_NAME r then insert (record_key r) announced else announced) rs"

definition closed_tree :: "lookup \<Rightarrow> bool" where
  "closed_tree T \<longleftrightarrow> (\<forall>k i. T k = Some i \<longrightarrow> is_root (ei_parent i) \<or> ei_parent i \<in> dom T)"

text \<open>The tree after the first \<open>n\<close> records.\<close>

definition tree_at :: "lookup \<Rightarrow> 'dt usn_record list \<Rightarrow> nat \<Rightarrow> lookup" where
  "tree_at T rs n = fold tree_step (take n rs) T"

section \<open>Phase 1 recovers the oldest tree\<close>

lemma rewind_phase1_append: "rewind_phase1 (xs @ ys) m = rewind_phase1 ys (rewind_phase1 xs m)"
  by (induction xs arbitrary: m) simp_all

lemma or_insert_simps:
  "or_insert k i m k = (case m k of None \<Rightarrow> Some i | Some j \<Rightarrow> Some j)"
  "k' \<noteq> k \<Longrightarrow> or_insert k i m k' = m k'"
  by (simp_all add: or_insert_def split: option.split)

lemma rewind_back_other: "k \<noteq> record_key r \<Longrightarrow> rewind_back r m k = m k"
  by (simp add: rewind_back_def or_insert_simps)

lemma rewind_back_key:
  "rewind_back r m (record_key r) =
     (if has_reason RENAME_OLD_NAME r then Some (record_info r)
      else case m (record_key r) of None \<Rightarrow> Some (record_info r) | Some j \<Rightarrow> Some j)"
  by (simp add: rewind_back_def or_insert_simps)

lemma tree_step_other: "k \<noteq> record_key r \<Longrightarrow> tree_step r T k = T k"
  by (simp add: tree_step_def)

definition known :: "lookup \<Rightarrow> 'dt usn_record list \<Rightarrow> entry_key set" where
  "known m rs = dom m \<union> record_key ` set rs"

lemma rewind_phase1_oldest:
  assumes "history_ok T announced rs" "m \<subseteq>\<^sub>m fold tree_step rs T" "k \<in> dom T" "k \<notin> announced"
  shows "rewind_phase1 (rev rs) m k = (if k \<in> known m rs then T k else None)"
  using assms
proof (induction rs arbitrary: T announced)
  case Nil
  then show ?case
    by (auto simp: known_def map_le_def domIff)
next
  case (Cons r rs)
  let ?ann = "if has_reason RENAME_OLD_NAME r then insert (record_key r) announced else announced"
  let ?m = "rewind_phase1 (rev rs) m"
  have ev: "event_ok T announced r" and hist: "history_ok (tree_step r T) ?ann rs"
    using Cons.prems(1) by simp_all
  have sub: "m \<subseteq>\<^sub>m fold tree_step rs (tree_step r T)"
    using Cons.prems(2) by simp
  have last_step: "rewind_phase1 (rev (r # rs)) m k = rewind_back r ?m k"
    by (simp add: rewind_phase1_append)
  show ?case
  proof (cases "k = record_key r")
    case False
    then have "k \<in> dom (tree_step r T)" "k \<notin> ?ann"
      using Cons.prems(3,4) by (auto simp: tree_step_other)
    from Cons.IH [OF hist sub this] False show ?thesis
      unfolding last_step by (simp add: rewind_back_other tree_step_other known_def)
  next
    case True
    show ?thesis
    proof (cases "has_reason RENAME_OLD_NAME r")
      case old: True
      then have "T k = Some (record_info r)"
        using ev True Cons.prems(3) by (auto simp: event_ok_def split: if_splits)
      with True old show ?thesis
        unfolding last_step by (simp add: rewind_back_key known_def)
    next
      case False
      have T: "T k = Some (record_info r)"
        using ev True Cons.prems(3,4) by (auto simp: event_ok_def split: if_splits)
      then have same: "tree_step r T k = T k"
        using True by (simp add: tree_step_def)
      then have "k \<in> dom (tree_step r T)" "k \<notin> ?ann"
        using T Cons.prems(4) False by auto
      from Cons.IH [OF hist sub this] True False T same show ?thesis
        unfolding last_step by (simp add: rewind_back_key known_def split: option.split)
    qed
  qed
qed

section \<open>Phase 2 follows the tree\<close>

definition agrees :: "lookup \<Rightarrow> entry_key set \<Rightarrow> lookup \<Rightarrow> bool" where
  "agrees T K m \<longleftrightarrow> (\<forall>k \<in> dom T. m k = (T |` K) k)"

lemma rewind_forward_agrees:
  assumes "agrees T K m" "event_ok T announced r" "record_key r \<in> K"
  shows "agrees (tree_step r T) K (rewind_forward r m)"
proof (cases "has_reason RENAME_NEW_NAME r \<or> has_reason FILE_CREATE r")
  case True
  then have "rewind_forward r m = m(record_key r \<mapsto> record_info r)"
    "tree_step r T = T(record_key r \<mapsto> record_info r)"
    by (auto simp: rewind_forward_def tree_step_def)
  with assms show ?thesis
    by (auto simp: agrees_def restrict_map_def)
next
  case False
  then have T: "T (record_key r) = Some (record_info r)" "tree_step r T = T"
    using assms(2) by (auto simp: event_ok_def tree_step_def)
  then have "record_key r \<in> dom T"
    by auto
  then have "m (record_key r) = Some (record_info r)"
    using assms(1,3) T(1) by (simp add: agrees_def)
  then have "rewind_forward r m = m"
    using False by (simp add: rewind_forward_def or_insert_def)
  with assms(1) T show ?thesis
    by simp
qed

lemma tree_step_closed:
  assumes "closed_tree T" "event_ok T announced r"
  shows "closed_tree (tree_step r T)"
proof -
  have "is_root (record_parent r) \<or> record_parent r \<in> dom T"
    using assms(2) by (simp add: event_ok_def)
  with assms(1) show ?thesis
    by (auto simp: closed_tree_def tree_step_def record_info_def)
qed

text \<open>A path only visits live entries, so agreement on those is enough.\<close>

lemma resolve_agrees:
  assumes "agrees T K m" "closed_tree T" "is_root key \<or> key \<in> dom T"
  shows "resolve_path_from_inner m key depth = resolve_path_from_inner (T |` K) key depth"
  using assms
proof (induction m key depth rule: resolve_path_from_inner.induct)
  case (1 m key depth)
  show ?case
  proof (cases "depth > 256 \<or> is_root key")
    case True
    then show ?thesis
      by (subst (1 2) resolve_path_from_inner.simps) auto
  next
    case False
    then have eq: "m key = (T |` K) key"
      using "1.prems" by (auto simp: agrees_def)
    show ?thesis
    proof (cases "m key")
      case None
      with False eq show ?thesis
        by (subst (1 2) resolve_path_from_inner.simps) simp
    next
      case (Some info)
      then have "T key = Some info"
        using eq by (auto simp: restrict_map_def split: if_splits)
      then have "is_root (ei_parent info) \<or> ei_parent info \<in> dom T"
        using "1.prems"(2) by (auto simp: closed_tree_def)
      with "1.IH" [OF _ _ Some "1.prems"(1,2)] False Some eq show ?thesis
        by (subst (1 2) resolve_path_from_inner.simps) simp
    qed
  qed
qed

lemma rewind_phase2_paths:
  assumes "agrees T K m" "closed_tree T" "history_ok T announced rs" "record_key ` set rs \<subseteq> K"
  shows "map rr_parent_path (rewind_phase2 rs m) =
    map (\<lambda>n. resolve_path_from (tree_at T rs (Suc n) |` K) (record_parent (rs ! n))) [0..<length rs]"
  using assms
proof (induction rs arbitrary: T m announced)
  case Nil
  then show ?case by simp
next
  case (Cons r rs)
  let ?T = "tree_step r T" and ?m = "rewind_forward r m"
  let ?ann = "if has_reason RENAME_OLD_NAME r then insert (record_key r) announced else announced"
  have ev: "event_ok T announced r" and hist: "history_ok ?T ?ann rs"
    using Cons.prems(3) by simp_all
  have ag: "agrees ?T K ?m"
    using rewind_forward_agrees [OF Cons.prems(1) ev] Cons.prems(4) by simp
  have cl: "closed_tree ?T"
    by (rule tree_step_closed [OF Cons.prems(2) ev])
  have "is_root (record_parent r) \<or> record_parent r \<in> dom ?T"
    using ev by (auto simp: event_ok_def tree_step_def)
  then have here: "resolve_path_from ?m (record_parent r) = resolve_path_from (?T |` K) (record_parent r)"
    unfolding resolve_path_from_def by (rule resolve_agrees [OF ag cl])
  have upt: "[0..<length (r # rs)] = 0 # map Suc [0..<length rs]"
    by (simp add: map_Suc_upt upt_conv_Cons del: upt_Suc)
  have "map rr_parent_path (rewind_phase2 rs ?m) =
      map (\<lambda>n. resolve_path_from (tree_at ?T rs (Suc n) |` K) (record_parent (rs ! n))) [0..<length rs]"
    using Cons.IH [OF ag cl hist] Cons.prems(4) by simp
  then show ?case
    unfolding upt using here by (simp add: Let_def tree_at_def o_def)
qed

lemma rewind_phase2_full: 
  "map rr_full_path (rewind_phase2 rs m) =
     map (\<lambda>x. rr_parent_path x @ [92] @ filename (rr_record x)) (rewind_phase2 rs m) \<and>
   map rr_record (rewind_phase2 rs m) = rs"
  by (induction rs arbitrary: m) (simp_all add: Let_def)

section \<open>True paths\<close>

text \<open>The path of an entry of a tree, with the number of entries on it.\<close>

inductive tree_path :: "lookup \<Rightarrow> entry_key \<Rightarrow> nat \<Rightarrow> ustring \<Rightarrow> bool" for T where
  at_root: "is_root k \<Longrightarrow> tree_path T k 0 (lit ''.'')"
| below: "\<lbrakk>\<not> is_root k; T k = Some i; tree_path T (ei_parent i) d p\<rbrakk> \<Longrightarrow>
    tree_path T k (Suc d) (p @ [92] @ ei_name i)"

lemma resolve_tree_path:
  "tree_path T k d p \<Longrightarrow> d + depth \<le> 256 \<Longrightarrow> resolve_path_from_inner T k depth = p"
proof (induction arbitrary: depth rule: tree_path.induct)
  case (at_root k)
  then show ?case by (subst resolve_path_from_inner.simps) simp
next
  case (below k i d p)
  from below.IH [of "depth + 1"] below show ?case
    by (subst resolve_path_from_inner.simps) simp
qed

section \<open>Property\<close>

text \<open>
  Claim C32. Rewinding recovers history: if the journal truthfully reports a history of a directory
  tree and the table is seeded from its final state, then the path given to each record is
  the path in the tree as it was when the record was written, however often the entries
  were renamed or moved since, on the entries the table or the journal mentions; in
  particular it is the true path whenever all ancestors are mentioned and at most 256 deep.
\<close>

theorem rewind_tracks_history:
  assumes "closed_tree T" "history_ok T {} rs" "re_lookup e \<subseteq>\<^sub>m tree_at T rs (length rs)" "n < length rs"
  shows "rr_record (fst (rewind rs e) ! n) = rs ! n \<and>
    rr_parent_path (fst (rewind rs e) ! n) =
      resolve_path_from (tree_at T rs (Suc n) |` known (re_lookup e) rs) (record_parent (rs ! n)) \<and>
    rr_full_path (fst (rewind rs e) ! n) = rr_parent_path (fst (rewind rs e) ! n) @ [92] @ filename (rs ! n) \<and>
    (tree_path (tree_at T rs (Suc n) |` known (re_lookup e) rs) (record_parent (rs ! n)) d p \<and> d \<le> 256 \<longrightarrow>
      rr_full_path (fst (rewind rs e) ! n) = p @ [92] @ filename (rs ! n))"
proof -
  let ?K = "known (re_lookup e) rs"
  let ?m = "rewind_phase1 (rev rs) (re_lookup e)"
  have "agrees T ?K ?m"
    using rewind_phase1_oldest [OF assms(2)] assms(3) by (auto simp: agrees_def tree_at_def restrict_map_def)
  moreover have "record_key ` set rs \<subseteq> ?K"
    by (simp add: known_def)
  ultimately have paths: "map rr_parent_path (rewind_phase2 rs ?m) =
      map (\<lambda>n. resolve_path_from (tree_at T rs (Suc n) |` ?K) (record_parent (rs ! n))) [0..<length rs]"
    using rewind_phase2_paths [OF _ assms(1,2)] by blast
  have len: "length (rewind_phase2 rs ?m) = length rs"
    using arg_cong [OF paths, of length] by simp
  have "rr_parent_path (rewind_phase2 rs ?m ! n) =
      resolve_path_from (tree_at T rs (Suc n) |` ?K) (record_parent (rs ! n))"
    using arg_cong [OF paths, of "\<lambda>xs. xs ! n"] assms(4) len by simp
  moreover have "rr_record (rewind_phase2 rs ?m ! n) = rs ! n"
    using arg_cong [OF conjunct2 [OF rewind_phase2_full], of "\<lambda>xs. xs ! n" rs ?m] assms(4) len by simp
  moreover have "rr_full_path (rewind_phase2 rs ?m ! n) =
      rr_parent_path (rewind_phase2 rs ?m ! n) @ [92] @ filename (rr_record (rewind_phase2 rs ?m ! n))"
    using arg_cong [OF conjunct1 [OF rewind_phase2_full], of "\<lambda>xs. xs ! n" rs ?m] assms(4) len by simp
  moreover have "resolve_path_from (tree_at T rs (Suc n) |` ?K) (record_parent (rs ! n)) = p"
    if "tree_path (tree_at T rs (Suc n) |` ?K) (record_parent (rs ! n)) d p" "d \<le> 256"
    using resolve_tree_path [OF that(1), of 0] that(2) by (simp add: resolve_path_from_def)
  ultimately show ?thesis
    by (simp add: rewind_def Let_def)
qed

definition sample_event :: "u64 \<Rightarrow> u64 \<Rightarrow> string \<Rightarrow> u32 \<Rightarrow> int usn_record" where
  "sample_event entry par name why =
     \<lparr>mft_entry = entry, mft_sequence = 1, parent_mft_entry = par, parent_mft_sequence = 1, usn = 0,
      timestamp = 0, reason = why, filename = lit name, file_attributes = 0, source_info = 0,
      security_id = 0, major_version = 2\<rparr>"

definition sample_events :: "int usn_record list" where
  "sample_events =
     [sample_event 20 10 ''a'' 0x100, sample_event 10 5 ''old'' 0x1000,
      sample_event 10 5 ''new'' 0x2000, sample_event 20 10 ''a'' 0x80000000]"

definition sample_dir :: "string \<Rightarrow> lookup" where
  "sample_dir name =
     [\<lparr>ek_entry = 10, ek_sequence = 1\<rparr> \<mapsto>
        \<lparr>ei_name = lit name, ei_parent = \<lparr>ek_entry = 5, ek_sequence = 1\<rparr>\<rparr>]"

lemmas sample_rewind_defs =
  sample_events_def sample_event_def sample_dir_def record_key_def record_parent_def record_info_def
  has_reason_def contains_def RENAME_OLD_NAME_def RENAME_NEW_NAME_def FILE_CREATE_def is_root_def

theorem rewind_tracks_history_witness:
  "rr_full_path (fst (rewind sample_events \<lparr>re_lookup = sample_dir ''new''\<rparr>) ! 0) =
     lit ''.'' @ [92] @ lit ''old'' @ [92] @ lit ''a''"
proof -
  let ?T = "sample_dir ''old''" and ?e = "\<lparr>re_lookup = sample_dir ''new''\<rparr>"
  have c: "closed_tree ?T"
    by (auto simp: closed_tree_def sample_rewind_defs split: if_splits)
  have h: "history_ok ?T {} sample_events"
    by (simp add: sample_rewind_defs event_ok_def tree_step_def lit_def)
  have s: "re_lookup ?e \<subseteq>\<^sub>m tree_at ?T sample_events (length sample_events)"
    by (simp add: tree_at_def sample_rewind_defs tree_step_def map_le_def)
  have n: "0 < length sample_events"
    by (simp add: sample_events_def)
  let ?V = "tree_at ?T sample_events (Suc 0) |` known (re_lookup ?e) sample_events"
  have V: "?V \<lparr>ek_entry = 10, ek_sequence = 1\<rparr> =
      Some \<lparr>ei_name = lit ''old'', ei_parent = \<lparr>ek_entry = 5, ek_sequence = 1\<rparr>\<rparr>"
    by (simp add: tree_at_def sample_rewind_defs tree_step_def known_def)
  have "tree_path ?V \<lparr>ek_entry = 10, ek_sequence = 1\<rparr> (Suc 0) (lit ''.'' @ [92] @ lit ''old'')"
    using tree_path.below [where T = ?V, OF _ V, of 0 "lit ''.''"]
      tree_path.at_root [of "\<lparr>ek_entry = 5, ek_sequence = 1\<rparr>" ?V] by (simp add: is_root_def)
  moreover have "record_parent (sample_events ! 0) = \<lparr>ek_entry = 10, ek_sequence = 1\<rparr>"
    "filename (sample_events ! 0) = lit ''a''"
    by (simp_all add: sample_rewind_defs)
  ultimately show ?thesis
    using rewind_tracks_history [OF c h s n, of "Suc 0" "lit ''.'' @ [92] @ lit ''old''",
        THEN conjunct2, THEN conjunct2, THEN conjunct2] by simp
qed

end
