(* ===== verification/Rules.thy ===== *)
theory Rules
  imports Auditor Rewind Utf8
begin

text \<open>
  \<open>forensic/src/rules.rs\<close>: detection rules on journal records, with the hand-written glob
  matcher. Regular expressions belong to an external crate: a parameter \<open>regex\<close> maps a
  pattern to its matcher, or to \<open>None\<close> where the pattern does not compile. A \<open>String\<close> is its
  code points; the matcher works on the bytes of its UTF-8 encoding. The conversion of a
  match into a report finding is built by the external crate and is not modelled.
\<close>

section \<open>Text\<close>

definition to_ascii_lowercase :: "ustring \<Rightarrow> ustring" where
  "to_ascii_lowercase s = map (\<lambda>c. if 65 \<le> c \<and> c \<le> 90 then c + 32 else c) s"

definition ends_with :: "ustring \<Rightarrow> ustring \<Rightarrow> bool" where
  "ends_with s t \<longleftrightarrow> length t \<le> length s \<and> drop (length s - length t) s = t"

section \<open>The glob matcher\<close>

text \<open>
  The loop, over the positions \<open>pi\<close> and \<open>ti\<close>; \<open>star\<close> holds \<open>star_pi\<close> and \<open>star_ti\<close> once an
  asterisk was met (\<open>None\<close> is the initial \<open>star_pi = usize::MAX\<close>, which no position equals).
  42 is \<open>*\<close> and 63 is \<open>?\<close>.
\<close>

function glob_loop :: "bytes \<Rightarrow> bytes \<Rightarrow> nat \<Rightarrow> nat \<Rightarrow> (nat \<times> nat) option \<Rightarrow> nat option" where
  "glob_loop pattern txt pi ti star =
     (if ti < length txt then
        if pi < length pattern \<and> (pattern ! pi = 63 \<or> pattern ! pi = txt ! ti)
        then glob_loop pattern txt (pi + 1) (ti + 1) star
        else if pi < length pattern \<and> pattern ! pi = 42
        then glob_loop pattern txt (pi + 1) ti (Some (pi, ti))
        else (case star of
            Some (star_pi, star_ti) \<Rightarrow>
              glob_loop pattern txt (star_pi + 1) (star_ti + 1) (Some (star_pi, star_ti + 1))
          | None \<Rightarrow> None)
      else Some pi)"
  by pat_completeness auto

text \<open>
  An asterisk met later replaces an earlier one; under one asterisk, every retry starts
  further right; within one attempt both positions advance.
\<close>

termination glob_loop
  by (relation "measures [
        \<lambda>(p, t, pi, ti, star). case star of Some (s, _) \<Rightarrow> if pi \<le> s then 1 else 0 | None \<Rightarrow> 0,
        \<lambda>(p, t, pi, ti, star). length p + 1 - (case star of Some (s, _) \<Rightarrow> s + 1 | None \<Rightarrow> 0),
        \<lambda>(p, t, pi, ti, star). length t - (case star of Some (_, s) \<Rightarrow> s | None \<Rightarrow> 0),
        \<lambda>(p, t, pi, ti, star). length t - ti]")
     (auto split: option.splits)

declare glob_loop.simps [simp del]

text \<open>The trailing loop over asterisks, and the final comparison.\<close>

function skip_stars :: "bytes \<Rightarrow> nat \<Rightarrow> nat" where
  "skip_stars pattern pi =
     (if pi < length pattern \<and> pattern ! pi = 42 then skip_stars pattern (pi + 1) else pi)"
  by pat_completeness auto

termination skip_stars
  by (relation "measure (\<lambda>(p, pi). length p - pi)") auto

declare skip_stars.simps [simp del]

definition glob_matches_inner :: "bytes \<Rightarrow> bytes \<Rightarrow> bool" where
  "glob_matches_inner pattern txt =
     (case glob_loop pattern txt 0 0 None of
        Some pi \<Rightarrow> skip_stars pattern pi = length pattern
      | None \<Rightarrow> False)"

definition glob_matches :: "ustring \<Rightarrow> ustring \<Rightarrow> bool" where
  "glob_matches pattern txt =
     glob_matches_inner (utf8 (to_ascii_lowercase pattern)) (utf8 (to_ascii_lowercase txt))"

section \<open>Rules\<close>

type_synonym regex = "ustring \<Rightarrow> (ustring \<Rightarrow> bool) option"

datatype filename_match = Glob ustring | Regex ustring | Extension ustring

record rule =
  rl_name :: ustring
  rl_description :: ustring
  rl_severity :: severity
  rl_filename_match :: "filename_match option"
  rl_exclude_pattern :: "ustring option"
  rl_any_reasons :: "u32 option"
  rl_all_reasons :: "u32 option"

record 'dt rule_match =
  rm_rule_name :: ustring
  rm_severity :: severity
  rm_record :: "'dt usn_record"
  rm_description :: ustring

datatype rule_set = RuleSet (rs_rules: "rule list")

fun name_ok :: "regex \<Rightarrow> filename_match \<Rightarrow> ustring \<Rightarrow> bool" where
  "name_ok regex (Glob pat) name = glob_matches pat name"
| "name_ok regex (Regex pat) name = (case regex pat of Some is_match \<Rightarrow> is_match name | None \<Rightarrow> False)"
| "name_ok regex (Extension ext) name =
     (let lower = to_ascii_lowercase name; ext_lower = to_ascii_lowercase ext in ends_with lower ext_lower)"

definition rule_matches :: "regex \<Rightarrow> rule \<Rightarrow> 'dt usn_record \<Rightarrow> bool" where
  "rule_matches regex rl r =
     (if (case rl_exclude_pattern rl of Some exclude \<Rightarrow> glob_matches exclude (filename r) | None \<Rightarrow> False)
      then False
      else if (case rl_filename_match rl of Some fm \<Rightarrow> \<not> name_ok regex fm (filename r) | None \<Rightarrow> False)
      then False
      else if (case rl_any_reasons rl of Some any \<Rightarrow> \<not> intersects (reason r) any | None \<Rightarrow> False)
      then False
      else if (case rl_all_reasons rl of Some all \<Rightarrow> \<not> has_reason all r | None \<Rightarrow> False)
      then False
      else True)"

definition rule_set_new :: rule_set where
  "rule_set_new = RuleSet []"

definition from_rules :: "rule list \<Rightarrow> rule_set" where
  "from_rules rules = RuleSet rules"

definition add_rule :: "rule \<Rightarrow> rule_set \<Rightarrow> rule_set" where
  "add_rule rl rs = RuleSet (rs_rules rs @ [rl])"

definition evaluate :: "regex \<Rightarrow> rule_set \<Rightarrow> 'dt usn_record \<Rightarrow> 'dt rule_match list" where
  "evaluate regex rs r =
     map (\<lambda>rl. \<lparr>rm_rule_name = rl_name rl, rm_severity = rl_severity rl, rm_record = r,
                rm_description = rl_description rl\<rparr>)
       (filter (\<lambda>rl. rule_matches regex rl r) (rs_rules rs))"

fun join_bar :: "ustring list \<Rightarrow> ustring" where
  "join_bar [] = []"
| "join_bar [x] = x"
| "join_bar (x # y # zs) = x @ [124] @ join_bar (y # zs)"

text \<open>The built-in rules, in the order they are added; 92 is the backslash of the patterns.\<close>

definition builtin_rules :: "rule list" where
  "builtin_rules = [
   \<lparr>rl_name = lit ''suspicious_executables'',
     rl_description = lit ''Known offensive tool or suspicious executable detected'',
     rl_severity = High,
     rl_filename_match = Some (Regex (lit ''(?i)^(psexec(64)?|mimikatz|procdump(64)?|lazagne|rubeus|sharphound|bloodhound|cobalt|beacon|meterpreter|nc(at)?|whoami|pwdump|wce|gsecdump|secretsdump|kekeo|safetykatz)('' @ [92] @ lit ''..+)?$'')),
     rl_exclude_pattern = None,
     rl_any_reasons = None,
     rl_all_reasons = None\<rparr>,
   \<lparr>rl_name = lit ''ransomware_extensions'',
     rl_description = lit ''File with ransomware-associated extension detected'',
     rl_severity = Critical,
     rl_filename_match = Some (Regex (lit ''(?i)'' @ [92] @ lit ''.(encrypted|locked|crypto|crypt|enc|pay|ransom|locky|cerber|wcry|wncry|wncryt|zepto|odin|thor|aesir|osiris|hermes|dharma|phobos|ryuk|maze|conti|lockbit|hive)$'')),
     rl_exclude_pattern = None,
     rl_any_reasons = None,
     rl_all_reasons = None\<rparr>,
   \<lparr>rl_name = lit ''secure_delete_pattern'',
     rl_description = lit ''SDelete-style secure deletion pattern detected (repeated character filename)'',
     rl_severity = High,
     rl_filename_match = Some (Regex (lit ''^('' @ join_bar (map (\<lambda>c. [c] @ lit ''{5,}'') [65..<91]) @ lit '')'' @ [92] @ lit ''..+$'')),
     rl_exclude_pattern = None,
     rl_any_reasons = None,
     rl_all_reasons = None\<rparr>,
   \<lparr>rl_name = lit ''script_execution'',
     rl_description = lit ''Script file activity detected'',
     rl_severity = Medium,
     rl_filename_match = Some (Regex (lit ''(?i)'' @ [92] @ lit ''.(ps1|vbs|bat|cmd|js|wsf|hta|wsh|sct)$'')),
     rl_exclude_pattern = None,
     rl_any_reasons = None,
     rl_all_reasons = None\<rparr>,
   \<lparr>rl_name = lit ''credential_access'',
     rl_description = lit ''Activity on credential-related file detected'',
     rl_severity = High,
     rl_filename_match = Some (Regex (lit ''(?i)(ntds'' @ [92] @ lit ''.dit|sam|security|system)'')),
     rl_exclude_pattern = None,
     rl_any_reasons = Some (FILE_CREATE OR DATA_OVERWRITE),
     rl_all_reasons = None\<rparr>]"

definition with_builtins :: rule_set where
  "with_builtins = fold add_rule builtin_rules rule_set_new"

section \<open>What a glob means\<close>

text \<open>
  The reference, on bytes or on characters: an asterisk stands for any run of them, a question mark
  for one.
\<close>

fun glob :: "'a :: numeral list \<Rightarrow> 'a list \<Rightarrow> bool" where
  "glob [] t \<longleftrightarrow> t = []"
| "glob (p # ps) t \<longleftrightarrow>
     (if p = 42 then \<exists>k \<le> length t. glob ps (drop k t)
      else t \<noteq> [] \<and> (p = 63 \<or> p = hd t) \<and> glob ps (tl t))"

lemma glob_star_skip: "glob (42 # ps) (drop j t) \<Longrightarrow> i \<le> j \<Longrightarrow> glob (42 # ps) (drop i t)"
proof -
  assume "glob (42 # ps) (drop j t)" "i \<le> j"
  then obtain k where k: "k \<le> length t - j" "glob ps (drop (k + j) t)"
    by auto
  show ?thesis
  proof (cases "j \<le> length t")
    case True
    then show ?thesis
      using k \<open>i \<le> j\<close> by (auto intro!: exI [of _ "k + j - i"])
  next
    case False
    then show ?thesis
      using k \<open>i \<le> j\<close> by (auto intro!: exI [of _ "length t - i"])
  qed
qed

text \<open>A stretch without asterisks consumes its own length.\<close>

lemma glob_stretch:
  "42 \<notin> set seg \<Longrightarrow> glob (seg @ ps) t \<Longrightarrow> length seg \<le> length t \<and> glob ps (drop (length seg) t)"
  by (induction seg arbitrary: t) (auto simp: less_Suc_eq_le drop_Suc neq_Nil_conv)

lemma glob_nil: "glob ps [] \<longleftrightarrow> (\<forall>p \<in> set ps. p = 42)"
  by (induction ps) auto

lemma skip_stars_end:
  "skip_stars pattern pi = length pattern \<longleftrightarrow> pi \<le> length pattern \<and> glob (drop pi pattern) []"
proof (induction pattern pi rule: skip_stars.induct)
  case (1 pattern pi)
  show ?case
  proof (cases "pi < length pattern")
    case True
    have "skip_stars pattern pi =
        (if pattern ! pi = 42 then skip_stars pattern (pi + 1) else pi)"
      using True by (subst skip_stars.simps) simp
    then show ?thesis
      using True 1 Cons_nth_drop_Suc [OF True, symmetric] by auto
  next
    case False
    then show ?thesis
      by (subst skip_stars.simps) auto
  qed
qed

text \<open>
  What holds whenever the loop is entered: the text read since the last asterisk is as long as
  the pattern read since then, and that part of the pattern has no asterisk.
\<close>

fun star_inv :: "bytes \<Rightarrow> nat \<Rightarrow> nat \<Rightarrow> (nat \<times> nat) option \<Rightarrow> bool" where
  "star_inv p pi ti None \<longleftrightarrow> True"
| "star_inv p pi ti (Some (s, r)) \<longleftrightarrow>
     s < pi \<and> ti + s + 1 = r + pi \<and> 42 \<notin> set (take (pi - (s + 1)) (drop (s + 1) p))"

text \<open>What a later retry under the last asterisk can still give.\<close>

fun retry :: "bytes \<Rightarrow> bytes \<Rightarrow> (nat \<times> nat) option \<Rightarrow> bool" where
  "retry p t None \<longleftrightarrow> False"
| "retry p t (Some (s, r)) \<longleftrightarrow> (\<exists>k > r. k \<le> length t \<and> glob (drop (s + 1) p) (drop k t))"

lemma retry_stretch:
  assumes "star_inv p pi ti star" "retry p t star" "pi \<le> length p"
  shows "\<exists>j > ti. j \<le> length t \<and> glob (drop pi p) (drop j t)"
proof -
  obtain s r where star: "star = Some (s, r)"
    using assms(2) by (cases star) auto
  with assms(2) obtain k where k: "r < k" "k \<le> length t" "glob (drop (s + 1) p) (drop k t)"
    by auto
  have inv: "s < pi" "ti + s + 1 = r + pi" "42 \<notin> set (take (pi - (s + 1)) (drop (s + 1) p))"
    using assms(1) star by simp_all
  have "drop (s + 1) p = take (pi - (s + 1)) (drop (s + 1) p) @ drop pi p"
    using inv(1) by (metis append_take_drop_id drop_drop le_add_diff_inverse2 Suc_eq_plus1 Suc_leI)
  then have "pi - (s + 1) \<le> length t - k \<and> glob (drop pi p) (drop (pi - (s + 1)) (drop k t))"
    using glob_stretch [OF inv(3), of "drop pi p" "drop k t"] k(3) inv(1) assms(3) by auto
  with k inv show ?thesis
    by (intro exI [of _ "pi - (s + 1) + k"]) auto
qed

lemma glob_nth:
  assumes "pi < length p" "ti < length t" "p ! pi \<noteq> 42"
  shows "glob (drop pi p) (drop ti t) \<longleftrightarrow>
    (p ! pi = 63 \<or> p ! pi = t ! ti) \<and> glob (drop (pi + 1) p) (drop (ti + 1) t)"
  unfolding Cons_nth_drop_Suc [OF assms(1), symmetric] Cons_nth_drop_Suc [OF assms(2), symmetric]
  using assms(3) by simp

lemma glob_star_nth:
  assumes "pi < length p" "ti \<le> length t" "p ! pi = 42"
  shows "glob (drop pi p) (drop ti t) \<longleftrightarrow>
    glob (drop (pi + 1) p) (drop ti t) \<or> retry p t (Some (pi, ti))"
proof -
  have "glob (drop pi p) (drop ti t) \<longleftrightarrow> (\<exists>k \<le> length t - ti. glob (drop (pi + 1) p) (drop (k + ti) t))"
    unfolding Cons_nth_drop_Suc [OF assms(1), symmetric] using assms(3) by simp
  also have "\<dots> \<longleftrightarrow> (\<exists>k \<ge> ti. k \<le> length t \<and> glob (drop (pi + 1) p) (drop k t))"
    using assms(2) by (metis Nat.le_diff_conv2 add.commute le_add2 le_add_diff_inverse2)
  also have "\<dots> \<longleftrightarrow> glob (drop (pi + 1) p) (drop ti t) \<or> retry p t (Some (pi, ti))"
    using assms(2) by (auto simp: le_less)
  finally show ?thesis .
qed

lemma star_inv_match:
  assumes "star_inv p pi ti star" "pi < length p" "p ! pi \<noteq> 42"
  shows "star_inv p (pi + 1) (ti + 1) star"
proof (cases star)
  case (Some sr)
  obtain s r where "sr = (s, r)" by fastforce
  moreover have "take (Suc pi - (s + 1)) (drop (s + 1) p) = take (pi - (s + 1)) (drop (s + 1) p) @ [p ! pi]"
    if "s < pi"
    using that assms(2) take_Suc_conv_app_nth [of "pi - (s + 1)" "drop (s + 1) p"] by (simp add: Suc_diff_Suc)
  ultimately show ?thesis
    using assms Some by auto
qed simp

lemma glob_loop_spec:
  "42 \<notin> set t \<Longrightarrow> pi \<le> length p \<Longrightarrow> ti \<le> length t \<Longrightarrow> star_inv p pi ti star \<Longrightarrow>
    (case glob_loop p t pi ti star of Some q \<Rightarrow> skip_stars p q = length p | None \<Rightarrow> False) \<longleftrightarrow>
    glob (drop pi p) (drop ti t) \<or> retry p t star"
proof (induction p t pi ti star rule: glob_loop.induct)
  case (1 p t pi ti star)
  note unfold = glob_loop.simps [of p t pi ti star]
  consider (finish) "ti = length t"
    | (same) "ti < length t" "pi < length p" "p ! pi = 63 \<or> p ! pi = t ! ti"
    | (star) "ti < length t" "pi < length p" "\<not> (p ! pi = 63 \<or> p ! pi = t ! ti)" "p ! pi = 42"
    | (differ) "ti < length t" "\<not> (pi < length p \<and> (p ! pi = 63 \<or> p ! pi = t ! ti))"
        "\<not> (pi < length p \<and> p ! pi = 42)"
    using "1.prems"(3) by linarith
  then show ?case
  proof cases
    case finish
    moreover have "\<not> retry p t star"
      using retry_stretch [OF "1.prems"(4) _ "1.prems"(2), of t] finish by auto
    ultimately show ?thesis
      using "1.prems"(2) unfold by (simp add: skip_stars_end)
  next
    case same
    have "t ! ti \<noteq> 42"
      using same(1) "1.prems"(1) nth_mem by fastforce
    then have ne: "p ! pi \<noteq> 42"
      using same(3) by auto
    show ?thesis
      using "1.IH"(1) [OF same(1) conjI [OF same(2,3)] "1.prems"(1)] same "1.prems" unfold
        glob_nth [OF same(2,1) ne] star_inv_match [OF "1.prems"(4) same(2) ne] by simp
  next
    case star
    have "retry p t star \<Longrightarrow> glob (drop pi p) (drop ti t)"
      using retry_stretch [OF "1.prems"(4) _ "1.prems"(2), of t] glob_star_skip
        Cons_nth_drop_Suc [OF star(2)] star(4) by (metis less_imp_le)
    moreover have "star_inv p (pi + 1) ti (Some (pi, ti))"
      by simp
    ultimately show ?thesis
      using "1.IH"(2) [OF star(1) _ conjI [OF star(2,4)] "1.prems"(1)] star "1.prems" unfold
        glob_star_nth [OF star(2) "1.prems"(3) star(4)] by auto
  next
    case differ
    have no: "\<not> glob (drop pi p) (drop ti t)"
      using differ glob_nth [of pi p ti t] "1.prems"(2) by (cases "pi < length p") auto
    show ?thesis
    proof (cases star)
      case None
      then have "glob_loop p t pi ti star = None"
        using differ by (subst unfold) auto
      then show ?thesis
        using None no by simp
    next
      case (Some sr)
      obtain s r where sr: "sr = (s, r)" by fastforce
      have inv: "s < pi" "ti + s + 1 = r + pi"
        using "1.prems"(4) Some sr by simp_all
      then have r: "r < length t" "s < length p"
        using differ(1) "1.prems"(2) by linarith+
      have "retry p t star \<longleftrightarrow>
          glob (drop (s + 1) p) (drop (r + 1) t) \<or> retry p t (Some (s, r + 1))"
        unfolding Some sr retry.simps using r(1) Suc_lessI [of r]
        by (metis Suc_eq_plus1 Suc_leI Suc_lessD lessI)
      moreover have "glob_loop p t pi ti star = glob_loop p t (s + 1) (r + 1) (Some (s, r + 1))"
        using differ Some sr by (subst unfold) auto
      moreover have "star_inv p (s + 1) (r + 1) (Some (s, r + 1))"
        by simp
      ultimately show ?thesis
        using "1.IH"(3) [OF differ Some sr [symmetric] "1.prems"(1)] r no by simp
    qed
  qed
qed

lemma glob_matches_inner_glob: "42 \<notin> set t \<Longrightarrow> glob_matches_inner p t \<longleftrightarrow> glob p t"
  using glob_loop_spec [of t 0 p 0 None] by (simp add: glob_matches_inner_def)

lemma lowercase_star: "42 \<in> set (to_ascii_lowercase s) \<longleftrightarrow> 42 \<in> set s"
  by (auto simp: to_ascii_lowercase_def image_iff split: if_splits)

lemma lowercase_scalar: "list_all scalar s \<Longrightarrow> list_all scalar (to_ascii_lowercase s)"
  by (auto simp: to_ascii_lowercase_def list_all_iff scalar_def)

text \<open>A filename as it comes out of the journal: code points, none of them an asterisk.\<close>

definition plain_name :: "ustring \<Rightarrow> bool" where
  "plain_name s \<longleftrightarrow> list_all scalar s \<and> 42 \<notin> set s"

definition folded :: "ustring \<Rightarrow> bytes" where
  "folded s = utf8 (to_ascii_lowercase s)"

lemma plain_name_folded: "plain_name s \<Longrightarrow> 42 \<notin> set (folded s)"
  by (simp add: plain_name_def folded_def utf8_star lowercase_scalar lowercase_star)

lemma glob_matches_folded: "plain_name s \<Longrightarrow> glob_matches p s \<longleftrightarrow> glob (folded p) (folded s)"
  using plain_name_folded by (simp add: glob_matches_def glob_matches_inner_glob folded_def)

section \<open>Bytes and characters\<close>

lemma glob_map:
  assumes "inj_on f (set p \<union> set t \<union> {42, 63})" "f 42 = 42" "f 63 = 63"
  shows "glob (map f p) (map f t) \<longleftrightarrow> glob p t"
  using assms
proof (induction p arbitrary: t)
  case (Cons a p)
  have star: "f a = 42 \<longleftrightarrow> a = 42" "f a = 63 \<longleftrightarrow> a = 63"
    using Cons.prems by (metis inj_onD Un_iff insertCI list.set_intros(1))+
  have IH: "glob (map f p) (map f u) \<longleftrightarrow> glob p u" if "set u \<subseteq> set t" for u
    using Cons.prems that by (intro Cons.IH) (auto elim!: inj_on_subset)
  have "glob (map f p) (drop k (map f t)) \<longleftrightarrow> glob p (drop k t)" for k
    using IH [of "drop k t"] set_drop_subset by (metis drop_map)
  moreover have "f a = hd (map f t) \<longleftrightarrow> a = hd t" if "t \<noteq> []"
  proof -
    have "hd (map f t) = f (hd t)" "a \<in> set (a # p) \<union> set t \<union> {42, 63}" "hd t \<in> set (a # p) \<union> set t \<union> {42, 63}"
      using that by (simp_all add: hd_map)
    then show ?thesis
      using inj_onD [OF Cons.prems(1)] by metis
  qed
  moreover have "glob (map f p) (tl (map f t)) \<longleftrightarrow> glob p (tl t)"
    using IH [of "tl t"] by (cases t) auto
  ultimately show ?case
    using star by auto
qed simp

lemma glob_literal:
  "42 \<notin> set seg \<Longrightarrow> 63 \<notin> set seg \<Longrightarrow> glob (seg @ ps) t \<longleftrightarrow> (\<exists>u. t = seg @ u \<and> glob ps u)"
proof (induction seg arbitrary: t)
  case (Cons a seg)
  then show ?case
    by (cases t) auto
qed simp

text \<open>
  Matching the bytes is matching the characters: a run of bytes an asterisk takes can be chosen to
  end where a character begins. A question mark has to find single bytes.
\<close>

lemma codes_split: "codes t = codes (take j t) @ codes (drop j t)"
  by (metis append_take_drop_id concat_append map_append)

lemma glob_codes_boundary:
  assumes sc: "list_all scalar p" "list_all scalar t" and q: "63 \<notin> set p \<or> list_all (\<lambda>c. c < 0x80) t"
    and k: "k \<le> length (codes t)" "glob (codes p) (drop k (codes t))"
  shows "\<exists>j. glob (codes p) (codes (drop j t))"
proof (cases p)
  case Nil
  then have "glob (codes p) (codes (drop (length t) t))"
    by simp
  then show ?thesis ..
next
  case (Cons q ps)
  consider "q = 42" | "q = 63" | "q \<noteq> 42" "q \<noteq> 63"
    by blast
  then show ?thesis
  proof cases
    case 1
    then have star: "codes p = 42 # codes ps"
      using Cons by (simp add: utf8_char_def)
    have "glob (42 # codes ps) (drop 0 (codes t))"
      using k(2) unfolding star by (rule glob_star_skip) simp
    then have "glob (codes p) (codes (drop 0 t))"
      unfolding star by simp
    then show ?thesis ..
  next
    case 2
    then have ascii: "list_all (\<lambda>c. c < 0x80) t"
      using q Cons by simp
    then have "list_all (\<lambda>c. c < 0x80) (drop k t)"
      by (meson in_set_dropD list_all_iff)
    then have "glob (codes p) (codes (drop k t))"
      using k(2) codes_ascii [OF ascii] codes_ascii [of "drop k t"] by simp
    then show ?thesis ..
  next
    case 3
    have q: "scalar q"
      using sc(1) Cons by simp
    then obtain b bs where b: "utf8_char q = b # bs" "\<not> continuation b"
      using utf8_char_shape by blast
    have lit: "42 \<notin> set (utf8_char q)" "63 \<notin> set (utf8_char q)"
      using utf8_char_other [OF q] 3 by auto
    have "codes p = utf8_char q @ codes ps"
      using Cons by simp
    then have "\<exists>u. drop k (codes t) = utf8_char q @ u"
      using k(2) glob_literal [OF lit] by metis
    then obtain u where u: "drop k (codes t) = b # u"
      using b(1) by auto
    then have "k < length (codes t)"
      by (metis drop_all not_le list.distinct(1))
    moreover have "codes t ! k = b"
      using u by (rule nth_via_drop)
    ultimately show ?thesis
      using codes_boundary [of t k] sc(2) b(2) k(2) by metis
  qed
qed

lemma glob_codes:
  assumes "list_all scalar p" "list_all scalar t" "63 \<notin> set p \<or> list_all (\<lambda>c. c < 0x80) t"
  shows "glob (codes p) (codes t) \<longleftrightarrow> glob p t"
  using assms
proof (induction p arbitrary: t)
  case Nil
  then show ?case
    by (cases t) (auto simp: utf8_char_def)
next
  case (Cons a p)
  have IH: "glob (codes p) (codes u) \<longleftrightarrow> glob p u" if "set u \<subseteq> set t" for u
    using Cons.prems that by (intro Cons.IH) (auto simp: list_all_iff)
  have drop_IH: "glob (codes p) (codes (drop j t)) \<longleftrightarrow> glob p (drop j t)" for j
    by (rule IH) (rule set_drop_subset)
  have p: "list_all scalar p" "63 \<notin> set p \<or> list_all (\<lambda>c. c < 0x80) t"
    using Cons.prems(1,3) by auto
  consider (star) "a = 42" | (any) "a = 63" | (other) "a \<noteq> 42" "a \<noteq> 63"
    by blast
  then show ?case
  proof cases
    case star
    have *: "codes (a # p) = 42 # codes p"
      using star by (simp add: utf8_char_def)
    have "glob (codes (a # p)) (codes t) \<longleftrightarrow> (\<exists>k \<le> length (codes t). glob (codes p) (drop k (codes t)))"
      unfolding * by simp
    also have "\<dots> \<longleftrightarrow> (\<exists>j. glob (codes p) (codes (drop j t)))"
    proof
      assume "\<exists>j. glob (codes p) (codes (drop j t))"
      then obtain j where "glob (codes p) (codes (drop j t))" ..
      moreover have "codes (drop j t) = drop (length (codes (take j t))) (codes t)"
        using codes_split [of t j] by (metis append_eq_conv_conj)
      moreover have "length (codes (take j t)) \<le> length (codes t)"
        using codes_split [of t j] by (metis le_add1 length_append)
      ultimately show "\<exists>k \<le> length (codes t). glob (codes p) (drop k (codes t))"
        by metis
    qed (use glob_codes_boundary [OF p(1) Cons.prems(2) p(2)] in blast)
    also have "\<dots> \<longleftrightarrow> (\<exists>j. glob p (drop j t))"
      unfolding drop_IH ..
    also have "\<dots> \<longleftrightarrow> (\<exists>j \<le> length t. glob p (drop j t))"
      by (metis drop_all linear order_refl)
    also have "\<dots> \<longleftrightarrow> glob (a # p) t"
      using star by simp
    finally show ?thesis .
  next
    case any
    then have ascii: "list_all (\<lambda>c. c < 0x80) t"
      using Cons.prems(3) by simp
    show ?thesis
    proof (cases t)
      case (Cons c u)
      have "utf8_char c = [c]" "utf8_char a = [63]"
        using ascii Cons any by (simp_all add: utf8_char_def)
      then show ?thesis
        using any IH [of u] Cons by auto
    qed (use any in \<open>simp add: utf8_char_def\<close>)
  next
    case other
    have a: "scalar a" "42 \<notin> set (utf8_char a)" "63 \<notin> set (utf8_char a)"
      using Cons.prems(1) other utf8_char_other by auto
    have "glob (codes (a # p)) (codes t) \<longleftrightarrow> (\<exists>u. codes t = utf8_char a @ u \<and> glob (codes p) u)"
      using glob_literal [OF a(2,3)] by simp
    also have "\<dots> \<longleftrightarrow> (\<exists>t'. t = a # t' \<and> glob (codes p) (codes t'))"
      using codes_prefix [OF a(1) Cons.prems(2)] by auto
    also have "\<dots> \<longleftrightarrow> glob (a # p) t"
    proof (cases t)
      case (Cons c u)
      then show ?thesis
        using other IH [of u] by auto
    qed (use other in simp)
    finally show ?thesis .
  qed
qed

lemma glob_utf8:
  assumes "list_all scalar p" "list_all scalar t" "63 \<notin> set p \<or> list_all (\<lambda>c. c < 0x80) t"
  shows "glob (utf8 p) (utf8 t) \<longleftrightarrow> glob p t"
proof -
  have "inj_on (word_of_nat :: nat \<Rightarrow> u8) {n. n < 256}"
    by (rule inj_on_inverseI [of _ unat]) (simp add: unat_u8_of_nat)
  moreover have "set (codes p) \<union> set (codes t) \<union> {42, 63} \<subseteq> {n. n < 256}"
    using codes_small [OF assms(1)] codes_small [OF assms(2)] by (auto simp: list_all_iff)
  ultimately have "inj_on (word_of_nat :: nat \<Rightarrow> u8) (set (codes p) \<union> set (codes t) \<union> {42, 63})"
    by (rule inj_on_subset)
  then have "glob (utf8 p) (utf8 t) \<longleftrightarrow> glob (codes p) (codes t)"
    unfolding utf8_def by (intro glob_map) simp_all
  then show ?thesis
    using glob_codes [OF assms] by simp
qed

lemma lowercase_question: "63 \<in> set (to_ascii_lowercase s) \<longleftrightarrow> 63 \<in> set s"
  by (auto simp: to_ascii_lowercase_def image_iff split: if_splits)

lemma lowercase_ascii: "list_all (\<lambda>c. c < 0x80) s \<Longrightarrow> list_all (\<lambda>c. c < 0x80) (to_ascii_lowercase s)"
  by (auto simp: to_ascii_lowercase_def list_all_iff)

text \<open>The condition of a rule, in terms of the reference matcher.\<close>

fun name_spec :: "regex \<Rightarrow> filename_match \<Rightarrow> ustring \<Rightarrow> bool" where
  "name_spec regex (Glob pat) name \<longleftrightarrow> glob (folded pat) (folded name)"
| "name_spec regex (Regex pat) name \<longleftrightarrow> (\<exists>m. regex pat = Some m \<and> m name)"
| "name_spec regex (Extension ext) name \<longleftrightarrow>
     (\<exists>stem. to_ascii_lowercase name = stem @ to_ascii_lowercase ext)"

definition rule_applies :: "regex \<Rightarrow> rule \<Rightarrow> 'dt usn_record \<Rightarrow> bool" where
  "rule_applies regex rl r \<longleftrightarrow>
     (\<nexists>p. rl_exclude_pattern rl = Some p \<and> glob (folded p) (folded (filename r))) \<and>
     pred_option (\<lambda>fm. name_spec regex fm (filename r)) (rl_filename_match rl) \<and>
     pred_option (\<lambda>m. \<exists>i < 32. bit m i \<and> bit (reason r) i) (rl_any_reasons rl) \<and>
     pred_option (\<lambda>m. \<nexists>i. i < 32 \<and> bit m i \<and> \<not> bit (reason r) i) (rl_all_reasons rl)"

lemma ends_with_suffix: "ends_with s t \<longleftrightarrow> (\<exists>u. s = u @ t)"
  unfolding ends_with_def by (metis append_take_drop_id append_eq_conv_conj diff_diff_cancel
      length_append length_drop le_add2 add_diff_cancel_right')

lemma name_ok_spec: "plain_name name \<Longrightarrow> name_ok regex fm name \<longleftrightarrow> name_spec regex fm name"
  by (cases fm) (auto simp: glob_matches_folded ends_with_suffix Let_def split: option.splits)

lemma rule_matches_applies: "plain_name (filename r) \<Longrightarrow> rule_matches regex rl r \<longleftrightarrow> rule_applies regex rl r"
  by (auto simp: rule_matches_def rule_applies_def glob_matches_folded name_ok_spec intersects_bits
      has_reason_def contains_bits pred_option_def split: option.splits)

text \<open>
  Where the name itself contains an asterisk, the loop takes the asterisk of the pattern for a
  literal one and does not come back to it: \<open>*a\<close> fails on \<open>*ba\<close>. A question mark is one byte,
  so it does not match a character outside ASCII.
\<close>

lemma glob_asterisk_in_name:
  "\<not> glob_matches (lit ''*a'') (lit ''*ba'') \<and>
   glob (utf8 (to_ascii_lowercase (lit ''*a''))) (utf8 (to_ascii_lowercase (lit ''*ba'')))"
proof
  have "utf8 (to_ascii_lowercase (lit ''*a'')) = [42, 97]" "utf8 (to_ascii_lowercase (lit ''*ba'')) = [42, 98, 97]"
    by (simp_all add: lit_def to_ascii_lowercase_def utf8_def utf8_char_def)
  then show "\<not> glob_matches (lit ''*a'') (lit ''*ba'')"
    "glob (utf8 (to_ascii_lowercase (lit ''*a''))) (utf8 (to_ascii_lowercase (lit ''*ba'')))"
    by (simp_all add: glob_matches_def glob_matches_inner_def glob_loop.simps exI [of _ 2])
qed

lemma question_mark_is_one_byte: "\<not> glob_matches (lit ''?'') [233]"
  by (simp add: glob_matches_def glob_matches_inner_def glob_loop.simps lit_def to_ascii_lowercase_def
      utf8_def utf8_char_def)

section \<open>Properties\<close>

text \<open>
  Claim C37. The backtracking glob matcher decides the documented relation on characters: with ASCII
  letters folded to lower case, a pattern matches a filename exactly when every asterisk can
  stand for some run of characters and every question mark for a single one. This is for
  names without an asterisk of their own, and, where the pattern has a question mark, for names in
  ASCII, since the loop compares the bytes of the UTF-8 encoding; an asterisk never cuts a
  character in two. (The loop remembers only the last asterisk; it always ends.)
\<close>

theorem glob_matches_correct:
  assumes "list_all scalar pattern" "list_all scalar name" "42 \<notin> set name"
    and "63 \<notin> set pattern \<or> list_all (\<lambda>c. c < 128) name"
  shows "glob_matches pattern name \<longleftrightarrow> glob (to_ascii_lowercase pattern) (to_ascii_lowercase name)"
  using assms glob_matches_folded [of name pattern] glob_utf8 [of "to_ascii_lowercase pattern" "to_ascii_lowercase name"]
  by (auto simp: plain_name_def folded_def lowercase_scalar lowercase_question lowercase_ascii)

theorem glob_matches_correct_witness:
  "glob_matches (lit ''*A?c*'') (lit ''zaabc'')"
proof -
  have "list_all scalar (lit ''*A?c*'')" "list_all scalar (lit ''zaabc'')" "42 \<notin> set (lit ''zaabc'')"
    "list_all (\<lambda>c. c < 128) (lit ''zaabc'')"
    by (simp_all add: lit_def scalar_def)
  moreover have "glob (42 # [97, 63, 99, 42 :: nat]) (drop 0 [122, 97, 97, 98, 99])"
    by (rule glob_star_skip [of _ 2]) (auto intro: exI [of _ 0])
  then have "glob (to_ascii_lowercase (lit ''*A?c*'')) (to_ascii_lowercase (lit ''zaabc''))"
    by (simp only: drop0) (simp add: lit_def to_ascii_lowercase_def)
  ultimately show ?thesis
    using glob_matches_correct [of "lit ''*A?c*''" "lit ''zaabc''"] by blast
qed

text \<open>
  Evaluating a rule set on a record reports, in the order the rules were added, exactly
  those that apply to it: not excluded by their glob, and satisfying every condition they
  state on the name (glob, regular expression, extension), on some reason bit and on all
  reason bits. A pattern that does not compile never matches.
\<close>

theorem evaluate_exact:
  assumes "list_all scalar (filename r)" "42 \<notin> set (filename r)"
  shows "map rm_rule_name (evaluate regex (fold add_rule added (from_rules rules)) r) =
    map rl_name (filter (\<lambda>rl. rule_applies regex rl r) (rules @ added))"
proof -
  have "rs_rules (fold add_rule added rs) = rs_rules rs @ added" for rs
    by (induction added arbitrary: rs) (simp_all add: add_rule_def)
  then show ?thesis
    using assms by (simp add: evaluate_def from_rules_def rule_matches_applies plain_name_def o_def)
qed

theorem evaluate_exact_witness:
  "map rm_rule_name (evaluate (\<lambda>_. None) with_builtins
     \<lparr>mft_entry = 0, mft_sequence = 0, parent_mft_entry = 0, parent_mft_sequence = 0, usn = 0,
      timestamp = (), reason = 0, filename = lit ''sam'', file_attributes = 0, source_info = 0,
      security_id = 0, major_version = 2\<rparr>) = []"
  (is "map _ (evaluate _ _ ?r) = _")
proof -
  have "list_all scalar (filename ?r)" "42 \<notin> set (filename ?r)"
    by (simp_all add: lit_def scalar_def)
  then show ?thesis
    using evaluate_exact [of ?r "\<lambda>_. None" builtin_rules "[]"]
    by (simp add: with_builtins_def rule_set_new_def from_rules_def builtin_rules_def rule_applies_def)
qed

end
