(* ===== verification/Triage.thy ===== *)
theory Triage
  imports Rules
begin

text \<open>
  \<open>forensic/src/triage\<close>: the triage engine and its twelve built-in questions. Regular
  expressions are the parameter \<open>regex\<close> of the rules; the Unicode lower-casing of the standard
  library is a parameter \<open>lower\<close>, because its tables are generated.
\<close>

section \<open>Definitions\<close>

record triage_query =
  q_path_patterns :: "ustring list"
  q_extension_filter :: "ustring list"
  q_reasons :: "u32 option"
  q_exclude_patterns :: "ustring list"
  q_filename_filter :: "ustring list"
  q_source_filter :: "ustring list"

record triage_question =
  tq_id :: ustring
  tq_category :: ustring
  tq_question :: ustring
  tq_query :: triage_query

record triage_result =
  tr_id :: ustring
  tr_category :: ustring
  tr_question :: ustring
  tr_has_hits :: bool
  tr_hit_count :: nat
  tr_record_indices :: "nat list"

text \<open>\<open>str::contains\<close> on a string: some suffix starts with the keyword.\<close>

fun str_contains :: "ustring \<Rightarrow> ustring \<Rightarrow> bool" where
  "str_contains [] kw \<longleftrightarrow> kw = []"
| "str_contains (c # s) kw \<longleftrightarrow> take (length kw) (c # s) = kw \<or> str_contains s kw"

text \<open>\<open>Regex::new(&pat.to_lowercase()).is_ok_and(|re| re.is_match(&path_lower))\<close>.\<close>

definition pattern_hits :: "regex \<Rightarrow> (ustring \<Rightarrow> ustring) \<Rightarrow> ustring \<Rightarrow> ustring \<Rightarrow> bool" where
  "pattern_hits regex lower path_lower pat =
     (case regex (lower pat) of Some is_match \<Rightarrow> is_match path_lower | None \<Rightarrow> False)"

definition matches_query ::
  "regex \<Rightarrow> (ustring \<Rightarrow> ustring) \<Rightarrow> triage_query \<Rightarrow> 'dt resolved_record \<Rightarrow> bool" where
  "matches_query regex lower query r =
     (if q_path_patterns query = [] \<and> q_extension_filter query = [] \<and> q_reasons query = None \<and>
         q_exclude_patterns query = [] \<and> q_filename_filter query = [] \<and> q_source_filter query = []
      then False
      else if q_source_filter query \<noteq> [] \<and>
         record_source_as_str (rr_source r) \<notin> set (q_source_filter query)
      then False
      else if (case q_reasons query of Some rs \<Rightarrow> \<not> intersects (reason (rr_record r)) rs | None \<Rightarrow> False)
      then False
      else if q_path_patterns query \<noteq> [] \<and>
         \<not> list_ex (pattern_hits regex lower (lower (rr_full_path r))) (q_path_patterns query)
      then False
      else if q_extension_filter query \<noteq> [] \<and>
         \<not> list_ex (\<lambda>ext. ends_with (lower (filename (rr_record r))) ([46] @ lower ext))
             (q_extension_filter query)
      then False
      else if q_filename_filter query \<noteq> [] \<and>
         \<not> list_ex (\<lambda>kw. str_contains (lower (filename (rr_record r))) (lower kw))
             (q_filename_filter query)
      then False
      else if q_exclude_patterns query \<noteq> [] \<and>
         list_ex (pattern_hits regex lower (lower (rr_full_path r))) (q_exclude_patterns query)
      then False
      else True)"

definition triage_one ::
  "regex \<Rightarrow> (ustring \<Rightarrow> ustring) \<Rightarrow> 'dt resolved_record list \<Rightarrow> triage_question \<Rightarrow> triage_result" where
  "triage_one regex lower records q =
     (let record_indices = map fst (filter (\<lambda>(i, r). matches_query regex lower (tq_query q) r)
            (enumerate 0 records));
          hit_count = length record_indices in
      \<lparr>tr_id = tq_id q, tr_category = tq_category q, tr_question = tq_question q,
       tr_has_hits = hit_count > 0, tr_hit_count = hit_count, tr_record_indices = record_indices\<rparr>)"

definition run_triage ::
  "regex \<Rightarrow> (ustring \<Rightarrow> ustring) \<Rightarrow> triage_question list \<Rightarrow> 'dt resolved_record list \<Rightarrow> triage_result list" where
  "run_triage regex lower questions records = map (triage_one regex lower records) questions"

section \<open>The built-in questions\<close>

text \<open>One list per tier of \<open>triage/queries.rs\<close>; 92 is the backslash of the patterns.\<close>

definition what_happened_questions :: "triage_question list" where
  "what_happened_questions = [
   \<lparr>tq_id = lit ''initial_access'', tq_category = lit ''What Happened'',
    tq_question = lit ''How was the system compromised?'',
    tq_query = \<lparr>
      q_path_patterns = [lit ''Downloads'', lit ''[Tt]emp'', lit ''AppData''],
      q_extension_filter = [lit ''exe'', lit ''dll'', lit ''scr'', lit ''bat'', lit ''ps1'',
        lit ''cmd'', lit ''vbs'', lit ''hta'', lit ''wsf'', lit ''msi''],
      q_reasons = Some (FILE_CREATE OR RENAME_NEW_NAME),
      q_exclude_patterns = [lit ''Windows'' @ [92] @ [92], lit ''Program Files'', lit ''OneDrive'',
        [92] @ [92] @ lit ''Packages'' @ [92] @ [92]],
      q_filename_filter = [],
      q_source_filter = []\<rparr>\<rparr>,
   \<lparr>tq_id = lit ''malware_deployed'', tq_category = lit ''What Happened'',
    tq_question = lit ''What malware or tools are on the system?'',
    tq_query = \<lparr>
      q_path_patterns = [lit ''System32'', lit ''SysWOW64'', lit ''[Tt]emp'', lit ''AppData'',
        lit ''ProgramData''],
      q_extension_filter = [lit ''exe'', lit ''dll'', lit ''scr'', lit ''bat'', lit ''ps1'',
        lit ''cmd'', lit ''vbs'', lit ''js'', lit ''hta''],
      q_reasons = Some (FILE_CREATE OR RENAME_NEW_NAME OR SECURITY_CHANGE),
      q_exclude_patterns = [lit ''OneDrive'', lit ''NativeImages'',
        [92] @ [92] @ lit ''Packages'' @ [92] @ [92]],
      q_filename_filter = [],
      q_source_filter = []\<rparr>\<rparr>,
   \<lparr>tq_id = lit ''execution_evidence'', tq_category = lit ''What Happened'',
    tq_question = lit ''What programs did the attacker run?'',
    tq_query = \<lparr>
      q_path_patterns = [lit ''Prefetch''],
      q_extension_filter = [lit ''pf''],
      q_reasons = Some (FILE_CREATE),
      q_exclude_patterns = [],
      q_filename_filter = [],
      q_source_filter = []\<rparr>\<rparr>]"

definition business_impact_questions :: "triage_question list" where
  "business_impact_questions = [
   \<lparr>tq_id = lit ''sensitive_data'', tq_category = lit ''Business Impact'',
    tq_question = lit ''Was sensitive data accessed?'',
    tq_query = \<lparr>
      q_path_patterns = [],
      q_extension_filter = [lit ''docx'', lit ''xlsx'', lit ''pdf'', lit ''txt'', lit ''csv'',
        lit ''pst'', lit ''ost'', lit ''kdbx'', lit ''key'', lit ''pem'', lit ''pfx'', lit ''p12'',
        lit ''zip'', lit ''lnk''],
      q_reasons = Some (DATA_EXTEND OR CLOSE OR DATA_TRUNCATION OR FILE_CREATE OR RENAME_NEW_NAME OR
        FILE_DELETE),
      q_exclude_patterns = [lit ''Windows'' @ [92] @ [92], lit ''ProgramData'' @ [92] @ [92],
        lit ''Program Files'',
        lit ''Packages'' @ [92] @ [92] @ lit ''Microsoft'' @ [92] @ lit ''.'',
        [92] @ [92] @ lit ''AppData'' @ [92] @ [92]],
      q_filename_filter = [],
      q_source_filter = []\<rparr>\<rparr>,
   \<lparr>tq_id = lit ''data_staging'', tq_category = lit ''Business Impact'',
    tq_question = lit ''Was data staged for theft?'',
    tq_query = \<lparr>
      q_path_patterns = [lit ''Users'' @ [92] @ [92], lit ''Desktop'', lit ''Documents'',
        lit ''Downloads'', lit ''[Tt]emp''],
      q_extension_filter = [lit ''zip'', lit ''7z'', lit ''rar'', lit ''tar'', lit ''gz'',
        lit ''cab''],
      q_reasons = Some (FILE_CREATE OR RENAME_NEW_NAME OR FILE_DELETE),
      q_exclude_patterns = [lit ''Windows'' @ [92] @ [92], lit ''Program Files''],
      q_filename_filter = [],
      q_source_filter = []\<rparr>\<rparr>,
   \<lparr>tq_id = lit ''credential_access'', tq_category = lit ''Business Impact'',
    tq_question = lit ''Were credentials compromised?'',
    tq_query = \<lparr>
      q_path_patterns =
        [[92] @ [92] @ lit ''config'' @ [92] @ [92] @ lit ''SAM'' @ [92] @ lit ''b'',
        [92] @ [92] @ lit ''config'' @ [92] @ [92] @ lit ''SECURITY'' @ [92] @ lit ''b'',
        [92] @ [92] @ lit ''config'' @ [92] @ [92] @ lit ''SYSTEM'' @ [92] @ lit ''b'',
        lit ''ntds'' @ [92] @ lit ''.dit'', lit ''mimikatz'', lit ''procdump'',
        lit ''lsass'' @ [92] @ lit ''.dmp'', lit ''lazagne'', lit ''rubeus'', lit ''kerberoast'',
        lit ''secretsdump'', lit ''hashdump'', lit ''pwdump'', lit ''wce'' @ [92] @ lit ''.exe''],
      q_extension_filter = [],
      q_reasons = None,
      q_exclude_patterns = [],
      q_filename_filter = [],
      q_source_filter = []\<rparr>\<rparr>]"

definition ongoing_risk_questions :: "triage_question list" where
  "ongoing_risk_questions = [
   \<lparr>tq_id = lit ''persistence'', tq_category = lit ''Ongoing Risk'',
    tq_question = lit ''Do backdoors or persistence mechanisms remain?'',
    tq_query = \<lparr>
      q_path_patterns = [lit ''Startup'', [92] @ [92] @ lit ''Tasks'' @ [92] @ [92],
        [92] @ [92] @ lit ''services'' @ [92] @ [92],
        lit ''CurrentVersion'' @ [92] @ [92] @ lit ''Run'', lit ''WMI'' @ [92] @ [92]],
      q_extension_filter = [lit ''exe'', lit ''dll'', lit ''bat'', lit ''ps1'', lit ''cmd'',
        lit ''vbs'', lit ''lnk'', lit ''job''],
      q_reasons = Some (FILE_CREATE OR RENAME_NEW_NAME),
      q_exclude_patterns = [],
      q_filename_filter = [],
      q_source_filter = []\<rparr>\<rparr>,
   \<lparr>tq_id = lit ''lateral_movement'', tq_category = lit ''Ongoing Risk'',
    tq_question = lit ''Did the attacker move to other systems?'',
    tq_query = \<lparr>
      q_path_patterns = [],
      q_extension_filter = [],
      q_reasons = Some (FILE_CREATE),
      q_exclude_patterns = [],
      q_filename_filter = [lit ''rdpclip.exe'', lit ''tstheme.exe'', lit ''mstsc.exe'',
        lit ''psexec'', lit ''paexec'', lit ''wmiexec'', lit ''smbexec'', lit ''winrs.exe'',
        lit ''wsmprovhost.exe'', lit ''chisel'', lit ''plink.exe'', lit ''ncat'', lit ''socat''],
      q_source_filter = []\<rparr>\<rparr>]"

definition cover_up_questions :: "triage_question list" where
  "cover_up_questions = [
   \<lparr>tq_id = lit ''evidence_destruction'', tq_category = lit ''Cover-Up'',
    tq_question = lit ''Did the attacker destroy evidence?'',
    tq_query = \<lparr>
      q_path_patterns = [lit ''winevt'' @ [92] @ [92] @ lit ''Logs'', lit ''Prefetch'',
        [92] @ [92] @ lit ''Logs'' @ [92] @ [92]],
      q_extension_filter = [lit ''evtx'', lit ''pf'', lit ''log'', lit ''etl''],
      q_reasons = Some (FILE_DELETE OR DATA_OVERWRITE OR FILE_CREATE),
      q_exclude_patterns = [lit ''WindowsUpdate''],
      q_filename_filter = [],
      q_source_filter = []\<rparr>\<rparr>,
   \<lparr>tq_id = lit ''timestomping'', tq_category = lit ''Cover-Up'',
    tq_question = lit ''Were file timestamps manipulated?'',
    tq_query = \<lparr>
      q_path_patterns = [],
      q_extension_filter = [lit ''exe'', lit ''dll'', lit ''sys'', lit ''bat'', lit ''ps1''],
      q_reasons = Some (BASIC_INFO_CHANGE),
      q_exclude_patterns = [lit ''Windows'' @ [92] @ [92] @ lit ''WinSxS'',
        lit ''Windows'' @ [92] @ [92] @ lit ''assembly'', lit ''WindowsApps'',
        lit ''Program Files'', lit ''Windows'' @ [92] @ [92] @ lit ''Temp'',
        lit ''SoftwareDistribution''],
      q_filename_filter = [],
      q_source_filter = []\<rparr>\<rparr>,
   \<lparr>tq_id = lit ''file_disguise'', tq_category = lit ''Cover-Up'',
    tq_question = lit ''Were files disguised or hidden?'',
    tq_query = \<lparr>
      q_path_patterns = [],
      q_extension_filter = [],
      q_reasons = Some (NAMED_DATA_EXTEND OR NAMED_DATA_OVERWRITE OR NAMED_DATA_TRUNCATION),
      q_exclude_patterns = [lit ''Windows'' @ [92] @ [92] @ lit ''assembly'', lit ''WindowsApps'',
        lit ''Program Files'', lit ''SoftwareDistribution''],
      q_filename_filter = [],
      q_source_filter = []\<rparr>\<rparr>]"

definition recovery_questions :: "triage_question list" where
  "recovery_questions = [
   \<lparr>tq_id = lit ''recovered_evidence'', tq_category = lit ''Recovery'',
    tq_question = lit ''What did we recover that the attacker deleted?'',
    tq_query = \<lparr>
      q_path_patterns = [],
      q_extension_filter = [],
      q_reasons = None,
      q_exclude_patterns = [],
      q_filename_filter = [],
      q_source_filter = [lit ''entry-carved'', lit ''ghost'']\<rparr>\<rparr>]"

definition builtin_questions :: "triage_question list" where
  "builtin_questions = what_happened_questions @ business_impact_questions @ ongoing_risk_questions @
     cover_up_questions @ recovery_questions"

section \<open>What a query asks\<close>

text \<open>A filter that is not empty is a condition; one that is empty is none.\<close>

definition query_applies ::
  "regex \<Rightarrow> (ustring \<Rightarrow> ustring) \<Rightarrow> triage_query \<Rightarrow> 'dt resolved_record \<Rightarrow> bool" where
  "query_applies regex lower q r \<longleftrightarrow>
     (q_source_filter q = [] \<or> record_source_as_str (rr_source r) \<in> set (q_source_filter q)) \<and>
     pred_option (\<lambda>m. \<exists>i < 32. bit m i \<and> bit (reason (rr_record r)) i) (q_reasons q) \<and>
     (q_path_patterns q = [] \<or>
        (\<exists>p m. p \<in> set (q_path_patterns q) \<and> regex (lower p) = Some m \<and> m (lower (rr_full_path r)))) \<and>
     (q_extension_filter q = [] \<or>
        (\<exists>e stem. e \<in> set (q_extension_filter q) \<and> lower (filename (rr_record r)) = stem @ [46] @ lower e)) \<and>
     (q_filename_filter q = [] \<or>
        (\<exists>k a b. k \<in> set (q_filename_filter q) \<and> lower (filename (rr_record r)) = a @ lower k @ b)) \<and>
     (\<nexists>p m. p \<in> set (q_exclude_patterns q) \<and> regex (lower p) = Some m \<and> m (lower (rr_full_path r)))"

definition empty_query :: triage_query where
  "empty_query = \<lparr>q_path_patterns = [], q_extension_filter = [], q_reasons = None,
     q_exclude_patterns = [], q_filename_filter = [], q_source_filter = []\<rparr>"

lemma str_contains_infix: "str_contains s kw \<longleftrightarrow> (\<exists>a b. s = a @ kw @ b)"
proof (induction s)
  case (Cons c s)
  have "take (length kw) (c # s) = kw \<longleftrightarrow> (\<exists>b. c # s = kw @ b)"
    by (metis append_eq_conv_conj)
  with Cons show ?case
    by (auto simp: Cons_eq_append_conv)
qed simp

lemma pattern_hits_ex:
  "list_ex (pattern_hits regex lower path) ps \<longleftrightarrow> (\<exists>p m. p \<in> set ps \<and> regex (lower p) = Some m \<and> m path)"
  by (auto simp: list_ex_iff pattern_hits_def split: option.splits)

lemma matches_query_applies:
  "matches_query regex lower q r \<longleftrightarrow> q \<noteq> empty_query \<and> query_applies regex lower q r"
proof -
  have "q = empty_query \<longleftrightarrow> q_path_patterns q = [] \<and> q_extension_filter q = [] \<and> q_reasons q = None \<and>
      q_exclude_patterns q = [] \<and> q_filename_filter q = [] \<and> q_source_filter q = []"
    by (auto simp: empty_query_def triage_query.equality)
  moreover have "(case q_reasons q of Some rs \<Rightarrow> \<not> intersects (reason (rr_record r)) rs | None \<Rightarrow> False) \<longleftrightarrow>
      \<not> pred_option (\<lambda>m. \<exists>i < 32. bit m i \<and> bit (reason (rr_record r)) i) (q_reasons q)"
    by (cases "q_reasons q") (simp_all add: intersects_bits)
  moreover have "list_ex (\<lambda>ext. ends_with (lower (filename (rr_record r))) ([46] @ lower ext)) (q_extension_filter q) \<longleftrightarrow>
      (\<exists>e stem. e \<in> set (q_extension_filter q) \<and> lower (filename (rr_record r)) = stem @ [46] @ lower e)"
    by (auto simp: list_ex_iff ends_with_suffix)
  moreover have "list_ex (\<lambda>kw. str_contains (lower (filename (rr_record r))) (lower kw)) (q_filename_filter q) \<longleftrightarrow>
      (\<exists>k a b. k \<in> set (q_filename_filter q) \<and> lower (filename (rr_record r)) = a @ lower k @ b)"
    by (auto simp: list_ex_iff str_contains_infix)
  moreover have "q_exclude_patterns q = [] \<Longrightarrow>
      \<not> list_ex (pattern_hits regex lower (lower (rr_full_path r))) (q_exclude_patterns q)"
    by simp
  ultimately show ?thesis
    unfolding matches_query_def query_applies_def pattern_hits_ex [symmetric] by argo
qed

lemma enumerate_filter_indices:
  "map fst (filter (\<lambda>(i, x). P x) (enumerate 0 xs)) = filter (\<lambda>i. P (xs ! i)) [0..<length xs]"
  by (induction xs rule: rev_induct) (auto simp: enumerate_append_eq nth_append intro!: filter_cong)

lemma triage_one_indices:
  "tr_record_indices (triage_one regex lower records q) =
     filter (\<lambda>i. matches_query regex lower (tq_query q) (records ! i)) [0..<length records]"
  by (simp add: triage_one_def Let_def enumerate_filter_indices)

lemma triage_one_fields:
  "tr_id (triage_one regex lower records q) = tq_id q"
  "tr_category (triage_one regex lower records q) = tq_category q"
  "tr_question (triage_one regex lower records q) = tq_question q"
  "tr_hit_count (triage_one regex lower records q) = length (tr_record_indices (triage_one regex lower records q))"
  "tr_has_hits (triage_one regex lower records q) \<longleftrightarrow> tr_record_indices (triage_one regex lower records q) \<noteq> []"
  by (simp_all add: triage_one_def Let_def)

section \<open>Properties\<close>

text \<open>
  Triage answers every question in order with exactly the records its query asks for:
  the indices of the records that satisfy every non-empty filter, increasing and without
  repetition, with their number; a query without any filter asks for nothing.
\<close>

theorem run_triage_exact:
  "list_all2 (\<lambda>q a. tr_id a = tq_id q \<and> tr_category a = tq_category q \<and> tr_question a = tq_question q \<and>
       tr_record_indices a =
         (if tq_query q = empty_query then []
          else filter (\<lambda>i. query_applies regex lower (tq_query q) (records ! i)) [0..<length records]) \<and>
       tr_hit_count a = length (tr_record_indices a) \<and>
       (tr_has_hits a \<longleftrightarrow> tr_record_indices a \<noteq> []) \<and> sorted_wrt (<) (tr_record_indices a))
     questions (run_triage regex lower questions records)"
proof -
  have "sorted_wrt (<) (filter P [0..<n])" for P and n :: nat
    by (intro sorted_wrt_filter sorted_wrt_upt)
  then show ?thesis
    unfolding run_triage_def list_all2_map2
    by (intro list.rel_refl) (simp add: triage_one_fields triage_one_indices matches_query_applies)
qed

text \<open>
  The twelve built-in questions have distinct identifiers, and the last one recovers
  precisely the records that did not come from the allocated journal, whatever the regular
  expression engine and the lower-casing do.
\<close>

theorem recovered_evidence_exact:
  "distinct (map tq_id builtin_questions) \<and> length builtin_questions = 12 \<and>
   tr_record_indices (last (run_triage regex lower builtin_questions records)) =
     filter (\<lambda>i. rr_source (records ! i) \<noteq> SourceAllocated) [0..<length records]"
  for records :: "'a resolved_record list"
proof -
  have "record_source_as_str s \<in> {lit ''entry-carved'', lit ''ghost''} \<longleftrightarrow> s \<noteq> SourceAllocated" for s
    by (cases s) (simp_all add: lit_def)
  then have "matches_query regex lower (tq_query (hd recovery_questions)) r \<longleftrightarrow> rr_source r \<noteq> SourceAllocated"
    for r :: "'a resolved_record"
    by (simp add: matches_query_applies query_applies_def recovery_questions_def empty_query_def)
  moreover have "last (run_triage regex lower builtin_questions records) =
      triage_one regex lower records (hd recovery_questions)"
    by (simp add: run_triage_def builtin_questions_def recovery_questions_def)
  moreover have "distinct (map tq_id builtin_questions)" "length builtin_questions = 12"
    by (simp_all add: builtin_questions_def what_happened_questions_def business_impact_questions_def
        ongoing_risk_questions_def cover_up_questions_def recovery_questions_def lit_def)
  ultimately show ?thesis
    by (simp add: triage_one_indices)
qed

end
