(* ===== verification/Analysis.thy ===== *)
theory Analysis
  imports Complex_Main "HOL-Library.Multiset" Triage
begin

text \<open>
  \<open>forensic/src/analysis.rs\<close>: the heuristic detectors on journal records. The \<open>chrono\<close> crate
  gives the difference of two instants, a parameter \<open>since\<close> in nanoseconds; what is assumed
  of it is \<open>clock_ok\<close>. The order in which a \<open>HashMap\<close> yields its entries is a parameter
  \<open>order\<close>, of which only \<open>hash_order\<close> is assumed. The confidence scores are decimal constants
  and sums of them; they are rationals here. (The only comparison on a computed score is
  with 0.4, against 0, 0.2, 0.4 or at least 0.5, where the rounding of \<open>f64\<close> does not
  decide: twice the \<open>f64\<close> nearest to 0.2 is the \<open>f64\<close> nearest to 0.4.)
\<close>

section \<open>Instants and hash maps\<close>

definition clock_ok :: "('dt::linorder \<Rightarrow> 'dt \<Rightarrow> int) \<Rightarrow> bool" where
  "clock_ok since \<longleftrightarrow>
     (\<forall>a b. since a b < 0 \<longleftrightarrow> a < b) \<and> (\<forall>a b c. since a c = since a b + since b c)"

definition seconds :: "int \<Rightarrow> int" where
  "seconds n = n * 1000000000"

text \<open>\<open>map.entry(k).or_default().push(v)\<close> on an association list.\<close>

fun entry_push :: "'k \<Rightarrow> 'v \<Rightarrow> ('k \<times> 'v list) list \<Rightarrow> ('k \<times> 'v list) list" where
  "entry_push k v [] = [(k, [v])]"
| "entry_push k v ((k', vs) # m) = (if k = k' then (k', vs @ [v]) # m else (k', vs) # entry_push k v m)"

text \<open>The loop that groups records under the key they have, if any.\<close>

fun hash_groups :: "('v \<Rightarrow> 'k option) \<Rightarrow> 'v list \<Rightarrow> ('k \<times> 'v list) list \<Rightarrow> ('k \<times> 'v list) list" where
  "hash_groups key [] m = m"
| "hash_groups key (r # rs) m =
     hash_groups key rs (case key r of Some k \<Rightarrow> entry_push k r m | None \<Rightarrow> m)"

definition hash_order :: "('e list \<Rightarrow> 'e list) \<Rightarrow> bool" where
  "hash_order order \<longleftrightarrow> (\<forall>xs. mset (order xs) = mset xs)"

text \<open>\<open>iter().min()\<close> and \<open>iter().max()\<close>.\<close>

fun iter_min :: "'a::linorder list \<Rightarrow> 'a option" where
  "iter_min [] = None"
| "iter_min (x # xs) = Some (fold min xs x)"

fun iter_max :: "'a::linorder list \<Rightarrow> 'a option" where
  "iter_max [] = None"
| "iter_max (x # xs) = Some (fold max xs x)"

section \<open>Secure deletion\<close>

datatype secure_deletion_pattern = SDelete | BulkTempDeletion | CipherWipe

record 'dt secure_deletion_indicator =
  sd_pattern :: secure_deletion_pattern
  sd_filenames :: "ustring list"
  sd_time_start :: 'dt
  sd_time_end :: 'dt
  sd_confidence :: rat

text \<open>The name up to the first dot; its length is counted in bytes.\<close>

definition is_sdelete_filename :: "ustring \<Rightarrow> bool" where
  "is_sdelete_filename name =
     (let base = takeWhile (\<lambda>c. c \<noteq> 46) name in
      if length (utf8 base) < 3 then False
      else case base of
        [] \<Rightarrow> False
      | first # _ \<Rightarrow> list_all (\<lambda>c. c = first) base \<and> (65 \<le> first \<and> first \<le> 90 \<or> 48 \<le> first \<and> first \<le> 57))"

text \<open>
  The grouping loop both detectors contain: an event joins the current group when it is at
  most \<open>secs\<close> seconds after the last one; a finished group is kept if it has at least \<open>least\<close>
  events.
\<close>

fun group_windows ::
  "('dt \<Rightarrow> 'dt \<Rightarrow> int) \<Rightarrow> int \<Rightarrow> nat \<Rightarrow> 'dt usn_record list \<Rightarrow> 'dt usn_record list list \<Rightarrow>
   'dt usn_record list \<Rightarrow> 'dt usn_record list list" where
  "group_windows since secs least [] groups current =
     (if length current \<ge> least then groups @ [current] else groups)"
| "group_windows since secs least (event # events) groups current =
     (let within_window =
        (current \<noteq> [] \<and> since (timestamp event) (timestamp (last current)) \<le> seconds secs) in
      if within_window then group_windows since secs least events groups (current @ [event])
      else group_windows since secs least events
             (if length current \<ge> least then groups @ [current] else groups) [event])"

definition sdelete_indicator :: "'dt usn_record list \<Rightarrow> 'dt secure_deletion_indicator" where
  "sdelete_indicator grp =
     (let has_creates = list_ex (has_reason FILE_CREATE) grp;
          has_deletes = list_ex (has_reason FILE_DELETE) grp in
      \<lparr>sd_pattern = SDelete, sd_filenames = map filename grp,
       sd_time_start = timestamp (hd grp), sd_time_end = timestamp (last grp),
       sd_confidence = (if has_creates \<and> has_deletes then 9 / 10 else 6 / 10)\<rparr>)"

definition detect_sdelete_patterns ::
  "('dt \<Rightarrow> 'dt \<Rightarrow> int) \<Rightarrow> 'dt usn_record list \<Rightarrow> 'dt secure_deletion_indicator list" where
  "detect_sdelete_patterns since records =
     (let sdelete_events = filter (\<lambda>r. is_sdelete_filename (filename r) \<and>
            (has_reason FILE_CREATE r \<or> has_reason FILE_DELETE r)) records in
      if length sdelete_events < 3 then []
      else map sdelete_indicator
        (group_windows since 60 3 (tl sdelete_events) [] [hd sdelete_events]))"

definition detect_bulk_temp_deletion ::
  "('dt \<Rightarrow> 'dt \<Rightarrow> int) \<Rightarrow> (ustring \<Rightarrow> ustring) \<Rightarrow> 'dt usn_record list \<Rightarrow> 'dt secure_deletion_indicator list" where
  "detect_bulk_temp_deletion since lower records =
     (let tmp_deletes = filter (\<lambda>r. has_reason FILE_DELETE r \<and>
            ends_with (lower (filename r)) (lit ''.tmp'')) records in
      if length tmp_deletes < 10 then []
      else map (\<lambda>grp. \<lparr>sd_pattern = BulkTempDeletion, sd_filenames = map filename grp,
          sd_time_start = timestamp (hd grp), sd_time_end = timestamp (last grp),
          sd_confidence = 7 / 10\<rparr>)
        (group_windows since 30 10 (tl tmp_deletes) [] [hd tmp_deletes]))"

definition detect_secure_deletion ::
  "('dt \<Rightarrow> 'dt \<Rightarrow> int) \<Rightarrow> (ustring \<Rightarrow> ustring) \<Rightarrow> 'dt usn_record list \<Rightarrow> 'dt secure_deletion_indicator list" where
  "detect_secure_deletion since lower records =
     detect_sdelete_patterns since records @ detect_bulk_temp_deletion since lower records"

section \<open>Journal clearing\<close>

record 'dt timestamp_gap =
  tg_before :: 'dt
  tg_after :: 'dt
  tg_gap_duration :: int
  tg_usn_before :: int
  tg_usn_after :: int

record 'dt journal_clearing_result =
  jc_clearing_detected :: bool
  jc_first_usn :: "int option"
  jc_timestamp_gaps :: "'dt timestamp_gap list"
  jc_confidence :: rat

definition USN_CLEARING_THRESHOLD :: int where
  "USN_CLEARING_THRESHOLD = 1073741824"

text \<open>The loop over \<open>records.windows(2)\<close>.\<close>

fun timestamp_gaps :: "('dt \<Rightarrow> 'dt \<Rightarrow> int) \<Rightarrow> 'dt usn_record list \<Rightarrow> 'dt timestamp_gap list" where
  "timestamp_gaps since (a # b # rs) =
     (let gap = since (timestamp b) (timestamp a) in
      (if gap > seconds (24 * 3600)
       then [\<lparr>tg_before = timestamp a, tg_after = timestamp b, tg_gap_duration = gap,
              tg_usn_before = usn a, tg_usn_after = usn b\<rparr>]
       else []) @ timestamp_gaps since (b # rs))"
| "timestamp_gaps since _ = []"

definition detect_usn_journal_clearing ::
  "('dt \<Rightarrow> 'dt \<Rightarrow> int) \<Rightarrow> 'dt usn_record list \<Rightarrow> 'dt journal_clearing_result" where
  "detect_usn_journal_clearing since records =
     (case records of
        [] \<Rightarrow> \<lparr>jc_clearing_detected = False, jc_first_usn = None, jc_timestamp_gaps = [], jc_confidence = 0\<rparr>
      | first # _ \<Rightarrow>
          let high_usn = usn first > USN_CLEARING_THRESHOLD;
              gaps = timestamp_gaps since records;
              confidence = (if high_usn then 5 / 10 else 0) +
                (if gaps \<noteq> [] then min (of_nat (length gaps) * (2 / 10)) (5 / 10) else 0) in
          \<lparr>jc_clearing_detected = (confidence \<ge> 4 / 10), jc_first_usn = Some (usn first),
           jc_timestamp_gaps = gaps, jc_confidence = confidence\<rparr>)"

section \<open>Ransomware\<close>

record 'dt ransomware_indicator =
  ri_extension :: ustring
  ri_affected_count :: nat
  ri_sample_filenames :: "ustring list"
  ri_time_start :: 'dt
  ri_time_end :: 'dt
  ri_confidence :: rat

definition RANSOMWARE_EXTENSIONS :: "ustring list" where
  "RANSOMWARE_EXTENSIONS = map lit [
    ''.encrypted'', ''.locked'', ''.crypto'', ''.crypt'', ''.enc'', ''.locky'', ''.cerber'',
    ''.zepto'', ''.odin'', ''.thor'', ''.aesir'', ''.zzzzz'', ''.micro'', ''.crypted'',
    ''.crinf'', ''.r5a'', ''.xrtn'', ''.xtbl'', ''.crypz'', ''.cryp1'', ''.ransom'', ''.wallet'',
    ''.onion'', ''.wncry'', ''.wcry'', ''.wncryt'']"

text \<open>The first known extension a record's name ends with, after a rename.\<close>

definition known_extension :: "(ustring \<Rightarrow> ustring) \<Rightarrow> 'dt usn_record \<Rightarrow> ustring option" where
  "known_extension lower r =
     (if has_reason RENAME_NEW_NAME r
      then find (\<lambda>ext. ends_with (lower (filename r)) ext) RANSOMWARE_EXTENSIONS else None)"

definition make_ransomware_indicator ::
  "rat \<Rightarrow> ustring \<Rightarrow> 'dt::linorder usn_record list \<Rightarrow> 'dt ransomware_indicator list" where
  "make_ransomware_indicator confidence ext grp =
     (case (iter_min (map timestamp grp), iter_max (map timestamp grp)) of
        (Some time_start, Some time_end) \<Rightarrow>
          [\<lparr>ri_extension = ext, ri_affected_count = length grp,
            ri_sample_filenames = map filename (take 10 grp), ri_time_start = time_start,
            ri_time_end = time_end, ri_confidence = confidence\<rparr>]
      | _ \<Rightarrow> [])"

definition detect_known_ransomware_extensions ::
  "((ustring \<times> 'dt::linorder usn_record list) list \<Rightarrow> (ustring \<times> 'dt usn_record list) list) \<Rightarrow>
   (ustring \<Rightarrow> ustring) \<Rightarrow> 'dt usn_record list \<Rightarrow> 'dt ransomware_indicator list" where
  "detect_known_ransomware_extensions order lower records =
     concat (map (\<lambda>(ext, grp).
         if length grp \<ge> 3
         then make_ransomware_indicator
           (if length grp \<ge> 20 then 95 / 100 else if length grp \<ge> 10 then 85 / 100 else 60 / 100) ext grp
         else [])
       (order (hash_groups (known_extension lower) records [])))"

definition is_common_extension :: "ustring \<Rightarrow> bool" where
  "is_common_extension ext \<longleftrightarrow> ext \<in> set (map lit [
    ''.txt'', ''.doc'', ''.docx'', ''.xls'', ''.xlsx'', ''.pdf'', ''.jpg'', ''.jpeg'', ''.png'',
    ''.gif'', ''.mp3'', ''.mp4'', ''.avi'', ''.zip'', ''.rar'', ''.exe'', ''.dll'', ''.sys'',
    ''.log'', ''.tmp'', ''.bak'', ''.html'', ''.htm'', ''.css'', ''.js'', ''.py'', ''.rs'',
    ''.c'', ''.h'', ''.cpp'', ''.java'', ''.xml'', ''.json'', ''.csv'', ''.ppt'', ''.pptx''])"

text \<open>The extension from the last dot on, lower-cased, unless common or already known.\<close>

definition unusual_extension :: "(ustring \<Rightarrow> ustring) \<Rightarrow> 'dt usn_record \<Rightarrow> ustring option" where
  "unusual_extension lower r =
     (if 46 \<in> set (filename r) then
        let ext = lower (46 # rev (takeWhile (\<lambda>c. c \<noteq> 46) (rev (filename r)))) in
        if \<not> is_common_extension ext \<and> ext \<notin> set RANSOMWARE_EXTENSIONS then Some ext else None
      else None)"

definition detect_mass_rename_patterns ::
  "('dt \<Rightarrow> 'dt \<Rightarrow> int) \<Rightarrow>
   ((ustring \<times> 'dt::linorder usn_record list) list \<Rightarrow> (ustring \<times> 'dt usn_record list) list) \<Rightarrow>
   (ustring \<Rightarrow> ustring) \<Rightarrow> 'dt usn_record list \<Rightarrow> 'dt ransomware_indicator list" where
  "detect_mass_rename_patterns since order lower records =
     (let rename_records = filter (has_reason RENAME_NEW_NAME) records in
      if length rename_records < 20 then []
      else concat (map (\<lambda>(ext, grp).
          if length grp \<ge> 20
          then filter (\<lambda>i. since (ri_time_end i) (ri_time_start i) \<le> seconds 600)
             (make_ransomware_indicator (75 / 100) ext grp)
          else [])
        (order (hash_groups (unusual_extension lower) rename_records []))))"

definition detect_ransomware_patterns ::
  "('dt \<Rightarrow> 'dt \<Rightarrow> int) \<Rightarrow>
   ((ustring \<times> 'dt::linorder usn_record list) list \<Rightarrow> (ustring \<times> 'dt usn_record list) list) \<Rightarrow>
   (ustring \<Rightarrow> ustring) \<Rightarrow> 'dt usn_record list \<Rightarrow> 'dt ransomware_indicator list" where
  "detect_ransomware_patterns since order lower records =
     detect_known_ransomware_extensions order lower records @
     detect_mass_rename_patterns since order lower records"

section \<open>Timestomping\<close>

record 'dt timestomp_indicator =
  ti_filename :: ustring
  ti_mft_entry :: u64
  ti_change_timestamp :: 'dt
  ti_has_nearby_data_change :: bool
  ti_confidence :: rat

definition nearby_data_change ::
  "('dt::linorder \<Rightarrow> 'dt \<Rightarrow> int) \<Rightarrow> 'dt usn_record \<Rightarrow> 'dt usn_record \<Rightarrow> bool" where
  "nearby_data_change since event other =
     (let time_diff = (if timestamp other \<ge> timestamp event then since (timestamp other) (timestamp event)
                       else since (timestamp event) (timestamp other)) in
      if time_diff > seconds 60 then False
      else has_reason DATA_OVERWRITE other \<or> has_reason DATA_EXTEND other \<or>
           has_reason DATA_TRUNCATION other \<or> has_reason FILE_CREATE other)"

text \<open>\<open>!UsnReason::CLOSE\<close> keeps the known flags only, as the negation of bitflags does.\<close>

definition reason_without_close :: "u32 \<Rightarrow> u32" where
  "reason_without_close w = w AND (NOT CLOSE AND all_reasons)"

definition timestomp_event ::
  "('dt::linorder \<Rightarrow> 'dt \<Rightarrow> int) \<Rightarrow> u64 \<Rightarrow> 'dt usn_record list \<Rightarrow> nat \<times> 'dt usn_record \<Rightarrow> 'dt timestomp_indicator list" where
  "timestomp_event since entry events = (\<lambda>(i, event).
     if \<not> has_reason BASIC_INFO_CHANGE event then []
     else if list_ex (\<lambda>(j, other). if i = j then False else nearby_data_change since event other)
         (enumerate 0 events)
     then []
     else [\<lparr>ti_filename = filename event, ti_mft_entry = entry, ti_change_timestamp = timestamp event,
            ti_has_nearby_data_change = False,
            ti_confidence = (if reason_without_close (reason event) = BASIC_INFO_CHANGE
                             then 8 / 10 else 5 / 10)\<rparr>])"

definition detect_usn_timestomping ::
  "('dt::linorder \<Rightarrow> 'dt \<Rightarrow> int) \<Rightarrow>
   ((u64 \<times> 'dt usn_record list) list \<Rightarrow> (u64 \<times> 'dt usn_record list) list) \<Rightarrow>
   'dt usn_record list \<Rightarrow> 'dt timestomp_indicator list" where
  "detect_usn_timestomping since order records =
     concat (map (\<lambda>(entry, events). concat (map (timestomp_event since entry events) (enumerate 0 events)))
       (order (hash_groups (\<lambda>r. Some (mft_entry r)) records [])))"

section \<open>Bursts\<close>

text \<open>The reference for the grouping: maximal runs of events no more than a bound apart.\<close>

fun bursts :: "('e \<Rightarrow> 'e \<Rightarrow> bool) \<Rightarrow> 'e list \<Rightarrow> 'e list list" where
  "bursts near [] = []"
| "bursts near [x] = [[x]]"
| "bursts near (x # y # zs) =
     (if near x y then (x # hd (bursts near (y # zs))) # tl (bursts near (y # zs))
      else [x] # bursts near (y # zs))"

lemma bursts_nonempty: "xs \<noteq> [] \<Longrightarrow> bursts near xs \<noteq> []"
  by (induction near xs rule: bursts.induct) auto



lemma bursts_concat: "concat (bursts near xs) = xs"
proof (induction near xs rule: bursts.induct)
  case (3 near x y zs)
  then show ?case
    using bursts_nonempty [of "y # zs" near] by (cases "bursts near (y # zs)") auto
qed auto


lemma bursts_of_run: "xs \<noteq> [] \<Longrightarrow> successively near xs \<Longrightarrow> bursts near xs = [xs]"
  by (induction near xs rule: bursts.induct) auto

lemma bursts_break:
  "xs \<noteq> [] \<Longrightarrow> successively near xs \<Longrightarrow> \<not> near (last xs) y \<Longrightarrow>
   bursts near (xs @ y # ys) = xs # bursts near (y # ys)"
  by (induction near xs rule: bursts.induct) auto

abbreviation close_to :: "('dt \<Rightarrow> 'dt \<Rightarrow> int) \<Rightarrow> int \<Rightarrow> 'dt usn_record \<Rightarrow> 'dt usn_record \<Rightarrow> bool" where
  "close_to since secs a b \<equiv> since (timestamp b) (timestamp a) \<le> seconds secs"

lemma group_windows_bursts:
  "current \<noteq> [] \<Longrightarrow> successively (close_to since secs) current \<Longrightarrow>
   group_windows since secs least events groups current =
     groups @ filter (\<lambda>g. length g \<ge> least) (bursts (close_to since secs) (current @ events))"
proof (induction events arbitrary: groups current)
  case Nil
  then show ?case
    by (simp add: bursts_of_run)
next
  case (Cons e es)
  show ?case
  proof (cases "close_to since secs (last current) e")
    case True
    then have "successively (close_to since secs) (current @ [e])"
      using Cons.prems by (simp add: successively_append_iff)
    with True Cons.IH [of "current @ [e]"] Cons.prems show ?thesis
      by simp
  next
    case False
    then show ?thesis
      using Cons.prems Cons.IH [of "[e]"] by (simp add: bursts_break Let_def)
  qed
qed

lemma burst_length: "b \<in> set (bursts near xs) \<Longrightarrow> length b \<le> length xs"
proof -
  assume "b \<in> set (bursts near xs)"
  then have "length b \<le> length (concat (bursts near xs))"
    by (auto dest!: split_list)
  then show ?thesis
    by (simp add: bursts_concat)
qed

lemma few_events: "length es < least \<Longrightarrow> filter (\<lambda>g. length g \<ge> least) (bursts near es) = []"
  using burst_length by (fastforce simp: filter_empty_conv)

lemma detect_sdelete_bursts:
  "detect_sdelete_patterns since records =
     map sdelete_indicator (filter (\<lambda>g. length g \<ge> 3) (bursts (close_to since 60)
       (filter (\<lambda>r. is_sdelete_filename (filename r) \<and>
          (has_reason FILE_CREATE r \<or> has_reason FILE_DELETE r)) records)))"
proof -
  define es where "es = filter (\<lambda>r. is_sdelete_filename (filename r) \<and>
          (has_reason FILE_CREATE r \<or> has_reason FILE_DELETE r)) records"
  show ?thesis
    using few_events [of es 3] group_windows_bursts [of "[hd es]" since 60 3 "tl es" "[]"]
    by (cases es) (auto simp: detect_sdelete_patterns_def Let_def simp flip: es_def)
qed

lemma detect_temp_bursts:
  "detect_bulk_temp_deletion since lower records =
     map (\<lambda>grp. \<lparr>sd_pattern = BulkTempDeletion, sd_filenames = map filename grp,
          sd_time_start = timestamp (hd grp), sd_time_end = timestamp (last grp),
          sd_confidence = 7 / 10\<rparr>)
       (filter (\<lambda>g. length g \<ge> 10) (bursts (close_to since 30)
         (filter (\<lambda>r. has_reason FILE_DELETE r \<and> ends_with (lower (filename r)) (lit ''.tmp'')) records)))"
proof -
  define es where "es = filter (\<lambda>r. has_reason FILE_DELETE r \<and>
    ends_with (lower (filename r)) (lit ''.tmp'')) records"
  show ?thesis
    using few_events [of es 10] group_windows_bursts [of "[hd es]" since 30 10 "tl es" "[]"]
    by (cases es) (auto simp: detect_bulk_temp_deletion_def Let_def simp flip: es_def)
qed

section \<open>Groups under a key\<close>

text \<open>
  Both kinds of table the analyses build insert or update one entry at a time. What such an
  operation promises, and what the loop over the records then gives: distinct keys, and
  under each key the records that have it, folded in order.
\<close>

locale upsert =
  fixes push :: "'k \<Rightarrow> 'v \<Rightarrow> ('k \<times> 's) list \<Rightarrow> ('k \<times> 's) list"
    and start :: "'v \<Rightarrow> 's" and add :: "'v \<Rightarrow> 's \<Rightarrow> 's"
  assumes push_map: "map_of (push k v m) =
      (map_of m)(k \<mapsto> (case map_of m k of Some s \<Rightarrow> add v s | None \<Rightarrow> start v))"
    and push_keys: "set (map fst (push k v m)) = insert k (set (map fst m))"
    and push_length: "length (push k v m) = (if k \<in> set (map fst m) then length m else Suc (length m))"
begin

lemma push_distinct: "distinct (map fst m) \<Longrightarrow> distinct (map fst (push k v m))"
proof (rule card_distinct)
  assume "distinct (map fst m)"
  then have "card (set (map fst m)) = length m"
    using distinct_card by fastforce
  then show "card (set (map fst (push k v m))) = length (map fst (push k v m))"
    unfolding push_keys length_map push_length by (simp add: card_insert_if)
qed

lemma fold_push:
  "distinct (map fst m) \<Longrightarrow>
   distinct (map fst (fold (\<lambda>r. case key r of Some k \<Rightarrow> push k r | None \<Rightarrow> id) rs m)) \<and>
   map_of (fold (\<lambda>r. case key r of Some k \<Rightarrow> push k r | None \<Rightarrow> id) rs m) k =
     (case (map_of m k, filter (\<lambda>r. key r = Some k) rs) of
        (Some s, new) \<Rightarrow> Some (fold add new s)
      | (None, []) \<Rightarrow> None
      | (None, r # new) \<Rightarrow> Some (fold add new (start r)))"
proof (induction rs arbitrary: m)
  case (Cons r rs)
  then show ?case
    by (cases "key r") (auto simp: push_map push_distinct split: option.split list.split)
qed (simp split: option.split)

end

interpretation groups: upsert entry_push "\<lambda>v. [v]" "\<lambda>v vs. vs @ [v]"
proof
  fix k :: 'a and v :: 'b and m :: "('a \<times> 'b list) list"
  show "map_of (entry_push k v m) =
      (map_of m)(k \<mapsto> (case map_of m k of Some s \<Rightarrow> s @ [v] | None \<Rightarrow> [v]))"
    by (induction m) (auto simp: fun_eq_iff)
  show "set (map fst (entry_push k v m)) = insert k (set (map fst m))"
    by (induction k v m rule: entry_push.induct) (simp_all add: insert_commute)
  show "length (entry_push k v m) = (if k \<in> set (map fst m) then length m else Suc (length m))"
    by (induction k v m rule: entry_push.induct) simp_all
qed

lemma hash_groups_fold:
  "hash_groups key rs m = fold (\<lambda>r. case key r of Some k \<Rightarrow> entry_push k r | None \<Rightarrow> id) rs m"
  by (induction rs arbitrary: m) (simp_all split: option.split)

lemma fold_snoc: "fold (\<lambda>v vs. vs @ [v]) xs ys = ys @ xs"
  by (induction xs arbitrary: ys) simp_all

lemma hash_groups_spec:
  "distinct (map fst (hash_groups key rs [])) \<and>
   map_of (hash_groups key rs []) k =
     (let new = filter (\<lambda>r. key r = Some k) rs in if new = [] then None else Some new)"
  using groups.fold_push [of "[]" key rs k]
  by (auto simp: hash_groups_fold fold_snoc Let_def split: list.split)

lemma hash_groups_distinct: "distinct (map fst (hash_groups key rs []))"
  using hash_groups_spec [of key rs] by blast

lemma hash_groups_set:
  "(k, vs) \<in> set (hash_groups key rs []) \<longleftrightarrow> vs = filter (\<lambda>r. key r = Some k) rs \<and> vs \<noteq> []"
  using hash_groups_spec [of key rs k] map_of_eq_Some_iff [OF hash_groups_distinct, of key rs k vs]
  by (auto simp: Let_def split: if_splits)

lemma hash_groups_keys:
  "fst ` set (hash_groups key rs []) = {k. \<exists>i < length rs. key (rs ! i) = Some k}"
proof (rule set_eqI)
  fix k
  have "k \<in> fst ` set (hash_groups key rs []) \<longleftrightarrow> (\<exists>vs. (k, vs) \<in> set (hash_groups key rs []))"
    by force
  also have "\<dots> \<longleftrightarrow> (\<exists>r \<in> set rs. key r = Some k)"
    unfolding hash_groups_set by (simp add: filter_empty_conv)
  also have "\<dots> \<longleftrightarrow> k \<in> {k. \<exists>i < length rs. key (rs ! i) = Some k}"
    unfolding in_set_conv_nth Bex_def by blast
  finally show "k \<in> fst ` set (hash_groups key rs []) \<longleftrightarrow> k \<in> {k. \<exists>i < length rs. key (rs ! i) = Some k}" .
qed

text \<open>Summing over the groups is summing over the positions that have a key.\<close>

lemma sum_filter_upt:
  fixes f :: "nat \<Rightarrow> 'a multiset"
  shows "(\<Sum>i\<leftarrow>filter P [0..<n]. f i) = (\<Sum>i \<in> {i. i < n \<and> P i}. f i)"
  by (subst sum_list_distinct_conv_sum_set) (simp_all add: Collect_conj_eq lessThan_def atLeast0LessThan Int_commute)

lemma sum_list_hash_groups:
  fixes f :: "nat \<Rightarrow> 'a multiset"
  shows "(\<Sum>(k, vs)\<leftarrow>hash_groups key rs []. \<Sum>i\<leftarrow>filter (\<lambda>i. key (rs ! i) = Some k) [0..<length rs]. f i) =
    (\<Sum>i\<leftarrow>filter (\<lambda>i. key (rs ! i) \<noteq> None) [0..<length rs]. f i)"
proof -
  let ?G = "hash_groups key rs []" and ?I = "{i. i < length rs \<and> key (rs ! i) \<noteq> None}"
  let ?g = "\<lambda>k. \<Sum>i \<in> {i. i < length rs \<and> key (rs ! i) = Some k}. f i"
  have "(\<Sum>(k, vs)\<leftarrow>?G. \<Sum>i\<leftarrow>filter (\<lambda>i. key (rs ! i) = Some k) [0..<length rs]. f i) =
      (\<Sum>k\<leftarrow>map fst ?G. ?g k)"
    unfolding sum_filter_upt by (simp add: o_def case_prod_unfold)
  also have "\<dots> = sum ?g (set (map fst ?G))"
    by (rule sum_list_distinct_conv_sum_set [OF hash_groups_distinct])
  also have "set (map fst ?G) = (\<lambda>i. the (key (rs ! i))) ` ?I"
    unfolding set_map hash_groups_keys by force
  also have "sum ?g ((\<lambda>i. the (key (rs ! i))) ` ?I) =
      (\<Sum>k \<in> (\<lambda>i. the (key (rs ! i))) ` ?I. \<Sum>i \<in> {i \<in> ?I. the (key (rs ! i)) = k}. f i)"
    by (intro sum.cong refl) auto
  also have "\<dots> = (\<Sum>i \<in> ?I. f i)"
    by (rule sum.image_gen [symmetric]) simp
  finally show ?thesis
    unfolding sum_filter_upt .
qed

lemma concat_hash_order:
  assumes "hash_order order"
  shows "mset (concat (map F (order xs))) = (\<Sum>x\<leftarrow>xs. mset (F x))"
proof -
  have "mset (concat (map F ys)) = (\<Sum>x \<in># mset ys. mset (F x))" for ys
    by (induction ys) simp_all
  moreover have "mset (order xs) = mset xs"
    using assms by (simp add: hash_order_def)
  ultimately show ?thesis
    by (metis sum_mset_sum_list mset_map)
qed

section \<open>Isolated attribute changes\<close>

text \<open>
  Record number \<open>n\<close> changes attributes, and no other record of the same file within a minute
  creates the file or changes its data.
\<close>

definition isolated_change :: "('dt::linorder \<Rightarrow> 'dt \<Rightarrow> int) \<Rightarrow> 'dt usn_record list \<Rightarrow> nat \<Rightarrow> bool" where
  "isolated_change since records n \<longleftrightarrow>
     contains (reason (records ! n)) BASIC_INFO_CHANGE \<and>
     (\<nexists>m. m < length records \<and> m \<noteq> n \<and> mft_entry (records ! m) = mft_entry (records ! n) \<and>
        \<bar>since (timestamp (records ! m)) (timestamp (records ! n))\<bar> \<le> seconds 60 \<and>
        (\<exists>f \<in> {DATA_OVERWRITE, DATA_EXTEND, DATA_TRUNCATION, FILE_CREATE}. contains (reason (records ! m)) f))"

definition stomp_report :: "'dt usn_record \<Rightarrow> 'dt timestomp_indicator" where
  "stomp_report r = \<lparr>ti_filename = filename r, ti_mft_entry = mft_entry r, ti_change_timestamp = timestamp r,
     ti_has_nearby_data_change = False,
     ti_confidence = (if reason_without_close (reason r) = BASIC_INFO_CHANGE then 8 / 10 else 5 / 10)\<rparr>"

lemma clock_abs:
  assumes "clock_ok since"
  shows "(if a \<ge> b then since a b else since b a) = \<bar>since a b\<bar>"
proof -
  have "since a b = since a a + since a b" "since a a = since a b + since b a"
    using assms unfolding clock_ok_def by blast+
  moreover have "since a b < 0 \<longleftrightarrow> a < b"
    using assms unfolding clock_ok_def by blast
  ultimately show ?thesis
    by (auto simp: not_le)
qed

lemma nearby_data_change_spec:
  "clock_ok since \<Longrightarrow> nearby_data_change since event other \<longleftrightarrow>
     \<bar>since (timestamp other) (timestamp event)\<bar> \<le> seconds 60 \<and>
     (\<exists>f \<in> {DATA_OVERWRITE, DATA_EXTEND, DATA_TRUNCATION, FILE_CREATE}. contains (reason other) f)"
  unfolding nearby_data_change_def clock_abs Let_def by (auto simp: has_reason_def)

lemma list_ex_others:
  "list_ex (\<lambda>(j, other). if i = j then False else P other) (enumerate 0 es) \<longleftrightarrow>
     (\<exists>j < length es. j \<noteq> i \<and> P (es ! j))"
  by (auto simp: list_ex_iff in_set_enumerate_eq)

lemma enumerate_nth: "enumerate 0 xs = map (\<lambda>i. (i, xs ! i)) [0..<length xs]"
  by (rule nth_equalityI) (simp_all add: nth_enumerate_eq)

lemma other_positions:
  assumes "distinct ns" "i < length ns"
  shows "(\<exists>j < length ns. j \<noteq> i \<and> Q (ns ! j)) \<longleftrightarrow> (\<exists>m \<in> set ns. m \<noteq> ns ! i \<and> Q m)"
proof
  assume "\<exists>j < length ns. j \<noteq> i \<and> Q (ns ! j)"
  then obtain j where "j < length ns" "j \<noteq> i" "Q (ns ! j)" by blast
  then show "\<exists>m \<in> set ns. m \<noteq> ns ! i \<and> Q m"
    using assms by (intro bexI [of _ "ns ! j"]) (simp_all add: nth_eq_iff_index_eq)
next
  assume "\<exists>m \<in> set ns. m \<noteq> ns ! i \<and> Q m"
  then obtain j where "j < length ns" "ns ! j \<noteq> ns ! i" "Q (ns ! j)"
    by (auto simp: in_set_conv_nth)
  then show "\<exists>j < length ns. j \<noteq> i \<and> Q (ns ! j)"
    by (intro exI [of _ j]) auto
qed

text \<open>Within the group of a file, the loop sees the other records of the file in the journal.\<close>

lemma timestomp_group:
  assumes "clock_ok since"
  shows "concat (map (timestomp_event since e (filter (\<lambda>r. mft_entry r = e) rs))
      (enumerate 0 (filter (\<lambda>r. mft_entry r = e) rs))) =
    concat (map (\<lambda>n. if isolated_change since rs n then [stomp_report (rs ! n)] else [])
      (filter (\<lambda>n. mft_entry (rs ! n) = e) [0..<length rs]))"
proof -
  define ns where "ns = filter (\<lambda>n. mft_entry (rs ! n) = e) [0..<length rs]"
  have es: "filter (\<lambda>r. mft_entry r = e) rs = map ((!) rs) ns"
    unfolding ns_def using filter_map [of "\<lambda>r. mft_entry r = e" "(!) rs" "[0..<length rs]"]
    by (simp add: map_nth o_def)
  have d: "distinct ns"
    by (simp add: ns_def)
  have mem: "n \<in> set ns \<longleftrightarrow> n < length rs \<and> mft_entry (rs ! n) = e" for n
    by (simp add: ns_def)
  have ev: "timestomp_event since e (map ((!) rs) ns) (i, rs ! (ns ! i)) =
      (if isolated_change since rs (ns ! i) then [stomp_report (rs ! (ns ! i))] else [])"
    if i: "i < length ns" for i
  proof -
    have "(\<exists>j < length ns. j \<noteq> i \<and> Q (ns ! j)) \<longleftrightarrow> (\<exists>m \<in> set ns. m \<noteq> ns ! i \<and> Q m)" for Q
      by (rule other_positions [OF d i])
    then have "list_ex (\<lambda>(j, other). if i = j then False else nearby_data_change since (rs ! (ns ! i)) other)
        (enumerate 0 (map ((!) rs) ns)) \<longleftrightarrow>
        (\<exists>m \<in> set ns. m \<noteq> ns ! i \<and> nearby_data_change since (rs ! (ns ! i)) (rs ! m))"
      unfolding list_ex_others by (simp cong: conj_cong)
    moreover have e: "mft_entry (rs ! (ns ! i)) = e"
      using nth_mem [OF i] unfolding mem by blast
    moreover have "isolated_change since rs (ns ! i) \<longleftrightarrow> has_reason BASIC_INFO_CHANGE (rs ! (ns ! i)) \<and>
        \<not> (\<exists>m \<in> set ns. m \<noteq> ns ! i \<and> nearby_data_change since (rs ! (ns ! i)) (rs ! m))"
      unfolding isolated_change_def nearby_data_change_spec [OF assms] has_reason_def Bex_def mem
      e by blast
    ultimately show ?thesis
      by (simp add: timestomp_event_def stomp_report_def)
  qed
  have "concat (map (timestomp_event since e (map ((!) rs) ns)) (enumerate 0 (map ((!) rs) ns))) =
      concat (map (\<lambda>i. if isolated_change since rs (ns ! i) then [stomp_report (rs ! (ns ! i))] else [])
        [0..<length ns])"
    unfolding enumerate_nth map_map by (intro arg_cong [where f = concat] map_cong) (simp_all add: ev)
  also have "\<dots> = concat (map (\<lambda>n. if isolated_change since rs n then [stomp_report (rs ! n)] else [])
        (map ((!) ns) [0..<length ns]))"
    by (simp add: o_def)
  finally show ?thesis
    unfolding es ns_def [symmetric] map_nth .
qed

section \<open>Gaps and scores\<close>

lemma timestamp_gaps_count:
  "length (timestamp_gaps since rs) =
     card {i. Suc i < length rs \<and> since (timestamp (rs ! Suc i)) (timestamp (rs ! i)) > seconds (24 * 3600)}"
proof (induction since rs rule: timestamp_gaps.induct)
  case (1 since a b rs)
  let ?P = "\<lambda>xs i. Suc i < length xs \<and> since (timestamp (xs ! Suc i)) (timestamp (xs ! i)) > seconds (24 * 3600)"
  have "{i. ?P (a # b # rs) i} =
      (if since (timestamp b) (timestamp a) > seconds (24 * 3600) then {0} else {}) \<union> Suc ` {i. ?P (b # rs) i}"
  proof (rule set_eqI)
    fix i
    show "i \<in> {i. ?P (a # b # rs) i} \<longleftrightarrow>
        i \<in> (if since (timestamp b) (timestamp a) > seconds (24 * 3600) then {0} else {}) \<union> Suc ` {i. ?P (b # rs) i}"
      by (cases i) auto
  qed
  moreover have "finite {i. ?P (b # rs) i}"
    by (rule finite_subset [of _ "{..<length (b # rs)}"]) auto
  ultimately show ?case
    using 1 by (simp add: Let_def card_image)
qed simp_all

section \<open>Renames by extension\<close>

lemma ransomware_indicator_nonempty:
  "grp \<noteq> [] \<Longrightarrow> make_ransomware_indicator c ext grp =
     [\<lparr>ri_extension = ext, ri_affected_count = length grp, ri_sample_filenames = map filename (take 10 grp),
       ri_time_start = Min (timestamp ` set grp), ri_time_end = Max (timestamp ` set grp), ri_confidence = c\<rparr>]"
  using Min.set_eq_fold [of "timestamp (hd grp)" "map timestamp (tl grp)"]
    Max.set_eq_fold [of "timestamp (hd grp)" "map timestamp (tl grp)"]
  by (cases grp) (simp_all add: make_ransomware_indicator_def)

definition rename_confidence :: "nat \<Rightarrow> rat" where
  "rename_confidence n = (if n \<ge> 20 then 95 / 100 else if n \<ge> 10 then 85 / 100 else 60 / 100)"

definition rename_report :: "ustring \<Rightarrow> 'dt::linorder usn_record list \<Rightarrow> 'dt ransomware_indicator" where
  "rename_report ext g = \<lparr>ri_extension = ext, ri_affected_count = length g,
     ri_sample_filenames = map filename (take 10 g), ri_time_start = Min (timestamp ` set g),
     ri_time_end = Max (timestamp ` set g), ri_confidence = rename_confidence (length g)\<rparr>"

lemma known_reports:
  assumes "list_all (\<lambda>(ext, g). g \<noteq> []) G"
  shows "concat (map (\<lambda>(ext, grp).
      if length grp \<ge> 3
      then make_ransomware_indicator
        (if length grp \<ge> 20 then 95 / 100 else if length grp \<ge> 10 then 85 / 100 else 60 / 100) ext grp
      else []) G) =
    map (\<lambda>(ext, g). rename_report ext g) (filter (\<lambda>(ext, g). 3 \<le> length g) G)"
  using assms
  by (induction G) (auto simp: ransomware_indicator_nonempty rename_report_def rename_confidence_def)

section \<open>Suspicious events\<close>

definition sdelete_event :: "'dt usn_record \<Rightarrow> bool" where
  "sdelete_event r \<longleftrightarrow> is_sdelete_filename (filename r) \<and> (has_reason FILE_CREATE r \<or> has_reason FILE_DELETE r)"

definition tmp_delete :: "(ustring \<Rightarrow> ustring) \<Rightarrow> 'dt usn_record \<Rightarrow> bool" where
  "tmp_delete lower r \<longleftrightarrow> has_reason FILE_DELETE r \<and> ends_with (lower (filename r)) (lit ''.tmp'')"

definition time_bursts :: "('dt \<Rightarrow> 'dt \<Rightarrow> int) \<Rightarrow> int \<Rightarrow> 'dt usn_record list \<Rightarrow> 'dt usn_record list list" where
  "time_bursts since secs = bursts (close_to since secs)"

text \<open>What a burst is reported as.\<close>

definition sdelete_report :: "'dt usn_record list \<Rightarrow> 'dt secure_deletion_indicator" where
  "sdelete_report g = \<lparr>sd_pattern = SDelete, sd_filenames = map filename g,
     sd_time_start = timestamp (hd g), sd_time_end = timestamp (last g),
     sd_confidence = (if (\<exists>r \<in> set g. contains (reason r) FILE_CREATE) \<and> (\<exists>r \<in> set g. contains (reason r) FILE_DELETE)
                      then 9 / 10 else 6 / 10)\<rparr>"

definition temp_report :: "'dt usn_record list \<Rightarrow> 'dt secure_deletion_indicator" where
  "temp_report g = \<lparr>sd_pattern = BulkTempDeletion, sd_filenames = map filename g,
     sd_time_start = timestamp (hd g), sd_time_end = timestamp (last g), sd_confidence = 7 / 10\<rparr>"

lemma sdelete_indicator_report: "sdelete_indicator g = sdelete_report g"
  by (simp add: sdelete_indicator_def sdelete_report_def has_reason_def list_ex_iff Let_def)

lemma detect_secure_deletion_reports:
  "detect_secure_deletion since lower records =
     map sdelete_report (filter (\<lambda>g. 3 \<le> length g) (time_bursts since 60 (filter sdelete_event records))) @
     map temp_report (filter (\<lambda>g. 10 \<le> length g) (time_bursts since 30 (filter (tmp_delete lower) records)))"
  unfolding detect_secure_deletion_def detect_sdelete_bursts detect_temp_bursts time_bursts_def
  by (simp add: sdelete_indicator_report temp_report_def sdelete_event_def tmp_delete_def cong: filter_cong)

text \<open>
  Two things the comments in the sources suggest and the code does not do. The folder of a file plays
  no part, be it a temporary one or not; and a group is not bounded by the 60 or 30 seconds: any
  chain of events, each within that time of the one before, is one group.
\<close>

lemma bursts_map: "bursts near (map f xs) = map (map f) (bursts (\<lambda>a b. near (f a) (f b)) xs)"
proof (induction "\<lambda>a b. near (f a) (f b)" xs rule: bursts.induct)
  case (3 x y zs)
  then show ?case
    using bursts_nonempty [of "y # zs" "\<lambda>a b. near (f a) (f b)"] by (simp add: hd_map map_tl)
qed simp_all

lemma folder_ignored:
  "detect_secure_deletion since lower (map (\<lambda>r. r\<lparr>parent_mft_entry := p r, parent_mft_sequence := q r\<rparr>) records) =
   detect_secure_deletion since lower records"
proof -
  define move where "move = (\<lambda>r. r\<lparr>parent_mft_entry := p r, parent_mft_sequence := q r\<rparr>)"
  have same: "filename (move r) = filename r" "reason (move r) = reason r" "timestamp (move r) = timestamp r" for r
    by (simp_all add: move_def)
  have events: "sdelete_event \<circ> move = sdelete_event" "tmp_delete lower \<circ> move = tmp_delete lower"
    by (simp_all add: fun_eq_iff sdelete_event_def tmp_delete_def has_reason_def same)
  have bursts: "time_bursts since secs (map move xs) = map (map move) (time_bursts since secs xs)" for secs xs
    unfolding time_bursts_def bursts_map by (simp add: same)
  have reports: "sdelete_report (map move g) = sdelete_report g" "temp_report (map move g) = temp_report g" if "g \<noteq> []" for g
    using that by (simp_all add: sdelete_report_def temp_report_def same hd_map last_map)
  have keep: "map h (filter (\<lambda>g. Suc n \<le> length g) (time_bursts since secs (filter P (map move records)))) =
      map h (filter (\<lambda>g. Suc n \<le> length g) (time_bursts since secs (filter P records)))"
    if "P \<circ> move = P" "\<And>g. g \<noteq> [] \<Longrightarrow> h (map move g) = h g"
    for h :: "_ \<Rightarrow> 'a secure_deletion_indicator" and n secs P
    using that(1) by (auto simp: filter_map bursts o_def intro!: that(2))
  from keep [of sdelete_event sdelete_report 2 60] keep [of "tmp_delete lower" temp_report 9 30] show ?thesis
    unfolding detect_secure_deletion_reports move_def [symmetric] by (simp add: events reports numeral_eq_Suc)
qed

lemma group_unbounded:
  assumes "list_all sdelete_event records" "3 \<le> length records"
    and "successively (\<lambda>a b. since (timestamp b) (timestamp a) \<le> seconds 60) records"
  shows "sdelete_report records \<in> set (detect_secure_deletion since lower records)"
proof -
  have "filter sdelete_event records = records" "records \<noteq> []"
    using assms(1,2) by (auto simp: list_all_iff)
  then show ?thesis
    using assms(2) bursts_of_run [OF _ assms(3)]
    by (auto simp: detect_secure_deletion_reports time_bursts_def)
qed

section \<open>Properties\<close>


text \<open>
  Claim C39. Timestomping detection on the journal is exact and does not depend on the order in which
  the hash map yields the files: the indicators are, with multiplicity, the reports of the
  records that change attributes while no other record of the same MFT entry within 60 seconds,
  before or after, creates the file or changes its data. Only time counts: how many events of
  the file lie between the two does not matter.
\<close>

theorem usn_timestomping_exact:
  assumes "clock_ok since" "hash_order order"
  shows "mset (detect_usn_timestomping since order records) =
    image_mset (\<lambda>n. stomp_report (records ! n))
      (mset (filter (isolated_change since records) [0..<length records]))"
proof -
  let ?ev = "\<lambda>n. mset (if isolated_change since records n then [stomp_report (records ! n)] else [])"
  let ?key = "\<lambda>r. Some (mft_entry r)"
  have group: "(case x of (e, es) \<Rightarrow> mset (concat (map (timestomp_event since e es) (enumerate 0 es)))) =
      (case x of (e, es) \<Rightarrow> \<Sum>n\<leftarrow>filter (\<lambda>n. ?key (records ! n) = Some e) [0..<length records]. ?ev n)"
    if x: "x \<in> set (hash_groups ?key records [])" for x
  proof -
    obtain e es where "x = (e, es)" by fastforce
    moreover from this x have "es = filter (\<lambda>r. mft_entry r = e) records"
      by (simp add: hash_groups_set)
    ultimately show ?thesis
      by (simp only: prod.case timestomp_group [OF assms(1)]) (simp add: mset_concat o_def)
  qed
  have "mset (detect_usn_timestomping since order records) =
      (\<Sum>(e, es)\<leftarrow>hash_groups ?key records []. mset (concat (map (timestomp_event since e es) (enumerate 0 es))))"
    unfolding detect_usn_timestomping_def concat_hash_order [OF assms(2)] by (simp add: case_prod_unfold)
  also have "\<dots> = (\<Sum>(e, es)\<leftarrow>hash_groups ?key records [].
      \<Sum>n\<leftarrow>filter (\<lambda>n. ?key (records ! n) = Some e) [0..<length records]. ?ev n)"
    by (intro arg_cong [where f = sum_list] map_cong refl group)
  also have "\<dots> = (\<Sum>n\<leftarrow>[0..<length records]. ?ev n)"
    using sum_list_hash_groups [of ?ev ?key records] by simp
  also have "\<dots> = image_mset (\<lambda>n. stomp_report (records ! n))
      (mset (filter (isolated_change since records) [0..<length records]))"
  proof -
    have "(\<Sum>n\<leftarrow>ns. mset (if P n then [g n] else [])) = image_mset g (mset (filter P ns))" for P g and ns :: "nat list"
      by (induction ns) simp_all
    then show ?thesis .
  qed
  finally show ?thesis .
qed

definition sample_change :: "int usn_record" where
  "sample_change = \<lparr>mft_entry = 42, mft_sequence = 1, parent_mft_entry = 5, parent_mft_sequence = 5,
     usn = 0, timestamp = 7, reason = BASIC_INFO_CHANGE OR CLOSE, filename = lit ''a.exe'',
     file_attributes = 0, source_info = 0, security_id = 0, major_version = 2\<rparr>"

text \<open>
  A comment in the sources counts the five neighbouring events as nearby too; the code does not: a
  change whose very next event is a write 61 seconds later is reported.
\<close>

lemma next_event_not_nearby:
  "detect_usn_timestomping (-) (\<lambda>m. m)
     [sample_change, sample_change\<lparr>timestamp := 7 + seconds 61, reason := DATA_OVERWRITE\<rparr>] =
   [stomp_report sample_change]"
  by (simp add: detect_usn_timestomping_def timestomp_event_def nearby_data_change_def stomp_report_def seconds_def
      sample_change_def has_reason_def contains_def BASIC_INFO_CHANGE_def CLOSE_def DATA_OVERWRITE_def)

theorem usn_timestomping_exact_witness:
  "mset (detect_usn_timestomping (-) rev [sample_change]) = {# stomp_report sample_change #}"
proof -
  have "clock_ok ((-) :: int \<Rightarrow> int \<Rightarrow> int)" "hash_order (rev :: (u64 \<times> int usn_record list) list \<Rightarrow> _)"
    by (auto simp: clock_ok_def hash_order_def)
  moreover have "isolated_change (-) [sample_change] 0"
    by (simp add: isolated_change_def sample_change_def contains_def BASIC_INFO_CHANGE_def CLOSE_def)
  ultimately show ?thesis
    using usn_timestomping_exact [of "(-)" rev "[sample_change]"] by simp
qed

text \<open>
  Journal clearing is reported exactly when the first record's sequence number exceeds one
  gibibyte or at least two pairs of neighbouring records are more than a day apart; an empty
  journal is never reported.
\<close>

theorem usn_journal_clearing_exact:
  "jc_clearing_detected (detect_usn_journal_clearing since records) \<longleftrightarrow>
     (\<exists>r rs. records = r # rs \<and>
       (usn r > 2 ^ 30 \<or>
        2 \<le> card {i. Suc i < length records \<and>
          since (timestamp (records ! Suc i)) (timestamp (records ! i)) > seconds 86400}))"
proof (cases records)
  case (Cons r rs)
  define k where "k = length (timestamp_gaps since records)"
  have k: "card {i. Suc i < length records \<and>
      since (timestamp (records ! Suc i)) (timestamp (records ! i)) > seconds 86400} = k"
    using timestamp_gaps_count [of since records] by (simp add: k_def)
  consider "k = 0" | "k = 1" | "k = 2" | "3 \<le> k" by linarith
  then have "4 / 10 \<le> (if usn r > 2 ^ 30 then 5 / 10 else 0 :: rat) +
      (if k \<noteq> 0 then min (of_nat k * (2 / 10)) (5 / 10) else 0) \<longleftrightarrow> usn r > 2 ^ 30 \<or> 2 \<le> k"
    by cases (auto simp: min_def)
  moreover have "jc_clearing_detected (detect_usn_journal_clearing since records) \<longleftrightarrow>
      4 / 10 \<le> (if usn r > 2 ^ 30 then 5 / 10 else 0 :: rat) +
        (if k \<noteq> 0 then min (of_nat k * (2 / 10)) (5 / 10) else 0)"
    unfolding k_def length_0_conv detect_usn_journal_clearing_def Let_def USN_CLEARING_THRESHOLD_def
    by (simp only: Cons list.case journal_clearing_result.simps) simp
  ultimately show ?thesis
    unfolding k using Cons by simp
qed (simp add: detect_usn_journal_clearing_def)

text \<open>
  Renames to known ransomware extensions are reported exactly, independently of the order of
  the hash map: one indicator for each extension that at least three renamed records have as
  their first known one, with their number, the first ten names and the earliest and latest
  time of all of them.
\<close>

theorem known_ransomware_exact:
  assumes "hash_order order"
  shows "distinct (map ri_extension (detect_known_ransomware_extensions order lower records)) \<and>
    (i \<in> set (detect_known_ransomware_extensions order lower records) \<longleftrightarrow>
       (\<exists>ext g. g = filter (\<lambda>r. known_extension lower r = Some ext) records \<and> 3 \<le> length g \<and>
          i = rename_report ext g))"
proof -
  let ?G = "hash_groups (known_extension lower) records []"
  have m: "mset (order ?G) = mset ?G"
    using assms by (simp add: hash_order_def)
  have out: "detect_known_ransomware_extensions order lower records =
      map (\<lambda>(ext, g). rename_report ext g) (filter (\<lambda>(ext, g). 3 \<le> length g) (order ?G))"
  proof -
    have "list_all (\<lambda>(ext, g). g \<noteq> []) (order ?G)"
      using mset_eq_setD [OF m] by (auto simp: list_all_iff hash_groups_set)
    then show ?thesis
      unfolding detect_known_ransomware_extensions_def by (rule known_reports)
  qed
  have "distinct (map fst (order ?G))"
    using m hash_groups_distinct by (metis mset_eq_imp_distinct_iff mset_map)
  then have "distinct (map fst (filter (\<lambda>(ext, g). 3 \<le> length g) (order ?G)))"
    by (rule distinct_map_filter)
  then have "distinct (map ri_extension (detect_known_ransomware_extensions order lower records))"
    unfolding out by (simp add: o_def case_prod_unfold rename_report_def)
  moreover have "i \<in> set (detect_known_ransomware_extensions order lower records) \<longleftrightarrow>
      (\<exists>ext g. (ext, g) \<in> set ?G \<and> 3 \<le> length g \<and> i = rename_report ext g)"
    unfolding out using mset_eq_setD [OF m] by auto
  ultimately show ?thesis
    unfolding hash_groups_set by fastforce
qed

theorem known_ransomware_exact_witness:
  "\<exists>i. i \<in> set (detect_known_ransomware_extensions rev (\<lambda>s. s)
      (replicate 3 (sample_change\<lparr>reason := RENAME_NEW_NAME, filename := lit ''x.locky''\<rparr>))) \<and>
     ri_extension i = lit ''.locky'' \<and> ri_affected_count i = 3"
proof -
  let ?r = "sample_change\<lparr>reason := RENAME_NEW_NAME, filename := lit ''x.locky''\<rparr>"
  have h: "hash_order (rev :: (ustring \<times> int usn_record list) list \<Rightarrow> _)"
    by (simp add: hash_order_def)
  have "known_extension (\<lambda>s. s) ?r = Some (lit ''.locky'')"
    by (simp add: known_extension_def has_reason_def contains_def RANSOMWARE_EXTENSIONS_def ends_with_def lit_def)
  then have "filter (\<lambda>r. known_extension (\<lambda>s. s) r = Some (lit ''.locky'')) (replicate 3 ?r) = replicate 3 ?r"
    by simp
  then have "\<exists>ext g. g = filter (\<lambda>r. known_extension (\<lambda>s. s) r = Some ext) (replicate 3 ?r) \<and> 3 \<le> length g \<and>
      rename_report (lit ''.locky'') (replicate 3 ?r) = rename_report ext g"
    by (intro exI [of _ "lit ''.locky''"] exI [of _ "replicate 3 ?r"]) (simp only: length_replicate order_refl)
  then have "rename_report (lit ''.locky'') (replicate 3 ?r) \<in>
      set (detect_known_ransomware_extensions rev (\<lambda>s. s) (replicate 3 ?r))"
    using known_ransomware_exact [OF h, THEN conjunct2] by blast
  moreover have "ri_extension (rename_report ext g) = ext" "ri_affected_count (rename_report ext g) = length g"
    for ext and g :: "int usn_record list"
    by (simp_all add: rename_report_def)
  ultimately show ?thesis
    by (metis length_replicate)
qed

end
