(* ===== verification/Usn_Extractor.thy ===== *)
theory Usn_Extractor
  imports Logfile Usn_Carver
begin

text \<open>
  \<open>core/src/logfile/usn_extractor.rs\<close>: change-journal records left in the redo and undo
  data and in the slack of \<open>$LogFile\<close> record pages. The page constants are those of
  \<open>Logfile\<close>, which the source repeats with the same values.
\<close>

section \<open>Definitions\<close>

definition RCRD_DATA_OFFSET :: nat where
  "RCRD_DATA_OFFSET = 0x40"

definition LOG_RECORD_HEADER_MIN :: nat where
  "LOG_RECORD_HEADER_MIN = 0x40"

datatype log_file_record_source = RedoData | UndoData | PageSlack

record 'dt log_file_usn_record =
  lur_lsn :: u64
  lur_page_offset :: nat
  lur_source :: log_file_record_source
  lur_record :: "'dt usn_record"

definition try_parse_usn_at :: "'dt chrono \<Rightarrow> bytes \<Rightarrow> nat \<Rightarrow> 'dt usn_record option res" where
  "try_parse_usn_at C data offset =
     (if offset + USN_V2_MIN_SIZE > length data then Ok None
      else and_then (slice data offset (length data)) (\<lambda>s.
      if length s < 8 then Ok None
      else and_then (read_u32_le s 0) (\<lambda>rl. let record_len = unat rl in
      if \<not> (USN_V2_MIN_SIZE \<le> record_len \<and> record_len \<le> USN_MAX_RECORD_SIZE) then Ok None
      else if record_len > length s then Ok None
      else and_then (read_u16_le s 4) (\<lambda>mv.
      if mv \<noteq> 2 then Ok None
      else and_then (slice s 0 record_len) (\<lambda>d.
      case parse_usn_record_v2 C d of
        Ok r \<Rightarrow> Ok (Some r)
      | Err _ \<Rightarrow> Ok None
      | Panic \<Rightarrow> Panic)))))"

text \<open>A V2 record with its own length in its first word, at \<open>off\<close>.\<close>

definition found_at :: "'dt chrono \<Rightarrow> bytes \<Rightarrow> nat \<Rightarrow> 'dt usn_record \<Rightarrow> bool" where
  "found_at C data off r \<longleftrightarrow>
     (let n = unat (le_u32 data off) in
      60 \<le> n \<and> n \<le> 65536 \<and> off + n \<le> length data \<and> le_u16 data (off + 4) = 2 \<and>
      parse_usn_record_v2 C (take n (drop off data)) = Ok r)"

lemma le_drop:
  "off + k \<le> length data \<Longrightarrow> get_range (drop off data) k n = get_range data (off + k) (off + n)"
  by (auto simp: get_range_def add.commute)

lemma try_parse_usn_at_iff:
  "try_parse_usn_at C data off = Ok (Some r) \<longleftrightarrow> found_at C data off r"
proof (cases "off + 60 \<le> length data")
  case True
  then have "le_u32 (drop off data) 0 = le_u32 data off" "le_u16 (drop off data) 4 = le_u16 data (off + 4)"
    by (simp_all add: le_read_defs le_drop ac_simps)
  with True show ?thesis
    by (auto simp: try_parse_usn_at_def found_at_def usn_sizes reads_in Let_def min_absorb1
        split: res.splits if_splits)
next
  case False
  then show ?thesis
    by (auto simp: try_parse_usn_at_def found_at_def usn_sizes Let_def)
qed

lemma try_parse_usn_at_total: "\<exists>x. try_parse_usn_at C data off = Ok x"
proof (cases "off + 60 \<le> length data")
  case True
  then show ?thesis
    using v2.total [of C] by (auto simp: try_parse_usn_at_def usn_sizes reads_in Let_def split: res.splits)
next
  case False
  then show ?thesis
    by (simp add: try_parse_usn_at_def usn_sizes)
qed

function scan_for_usn_loop :: "'dt chrono \<Rightarrow> bytes \<Rightarrow> nat \<Rightarrow> (nat \<times> 'dt usn_record) list res" where
  "scan_for_usn_loop C data offset =
     (if offset + USN_V2_MIN_SIZE \<le> length data then
        and_then (try_parse_usn_at C data offset) (\<lambda>x.
        case x of
          Some record \<Rightarrow>
            and_then (read_u32_le data offset) (\<lambda>record_len.
            and_then (scan_for_usn_loop C data (offset + align8 (unat record_len))) (\<lambda>results.
            Ok ((offset, record) # results)))
        | None \<Rightarrow> scan_for_usn_loop C data (offset + 8))
      else Ok [])"
  by pat_completeness auto

termination scan_for_usn_loop
proof (relation "measure (\<lambda>(C, data, off). length data - off)", goal_cases)
  case (3 C data off x r rl)
  then have "found_at C data off r"
    by (simp add: try_parse_usn_at_iff)
  with 3 have "60 \<le> unat rl"
    by (auto simp: found_at_def Let_def reads_in usn_sizes)
  with align8_ge(1) [of "unat rl"] 3(1) show ?case
    by (simp add: usn_sizes)
qed (simp_all add: usn_sizes)

declare scan_for_usn_loop.simps [simp del]

definition scan_for_usn_records :: "'dt chrono \<Rightarrow> bytes \<Rightarrow> (nat \<times> 'dt usn_record) list res" where
  "scan_for_usn_records C data = scan_for_usn_loop C data 0"

text \<open>The records of one scanned area, with the label the source gives them.\<close>

definition area_records ::
  "u64 \<Rightarrow> nat \<Rightarrow> log_file_record_source \<Rightarrow> (nat \<times> 'dt usn_record) list \<Rightarrow> 'dt log_file_usn_record list" where
  "area_records log_seq page_off source found =
     map (\<lambda>(_, record). \<lparr>lur_lsn = log_seq, lur_page_offset = page_off, lur_source = source,
                         lur_record = record\<rparr>) found"

definition extract_area ::
  "'dt chrono \<Rightarrow> bytes \<Rightarrow> nat \<Rightarrow> u64 \<Rightarrow> log_file_record_source \<Rightarrow> nat \<Rightarrow> nat \<Rightarrow>
   'dt log_file_usn_record list res" where
  "extract_area C data_area page_off log_seq source start len =
     (if start + len \<le> length data_area then
        and_then (slice data_area start (start + len)) (\<lambda>d.
        and_then (scan_for_usn_records C d) (\<lambda>found.
        Ok (area_records log_seq (page_off + RCRD_DATA_OFFSET + start) source found)))
      else Ok [])"

text \<open>The redo and undo areas of the log record at \<open>record_offset\<close>.\<close>

definition extract_log_record ::
  "safe_read \<Rightarrow> 'dt chrono \<Rightarrow> bytes \<Rightarrow> nat \<Rightarrow> u64 \<Rightarrow> nat \<Rightarrow> 'dt log_file_usn_record list res" where
  "extract_log_record S C data_area page_off page_lsn record_offset =
     (let own_lsn = sr_u64 S data_area record_offset;
          redo_offset = unat (sr_u16 S data_area (record_offset + 0x34));
          redo_length = unat (sr_u16 S data_area (record_offset + 0x36));
          undo_offset = unat (sr_u16 S data_area (record_offset + 0x38));
          undo_length = unat (sr_u16 S data_area (record_offset + 0x3A));
          redo_base = record_offset + 0x30;
          undo_base = record_offset + 0x30;
          log_seq = (if own_lsn > 0 then own_lsn else page_lsn)
      in and_then
           (if redo_length \<ge> USN_V2_MIN_SIZE \<and> redo_offset > 0
            then extract_area C data_area page_off log_seq RedoData (redo_base + redo_offset) redo_length
            else Ok []) (\<lambda>redo.
         and_then
           (if undo_length \<ge> USN_V2_MIN_SIZE \<and> undo_offset > 0 then
              let undo_start = undo_base + undo_offset; redo_start = redo_base + redo_offset;
                  same_region = (undo_start = redo_start \<and> undo_length = redo_length)
              in if \<not> same_region
                 then extract_area C data_area page_off log_seq UndoData undo_start undo_length
                 else Ok []
            else Ok []) (\<lambda>undo.
         Ok (redo @ undo))))"

text \<open>Where the next log record starts; \<open>None\<close> leaves the loop.\<close>

definition next_log_record :: "safe_read \<Rightarrow> bytes \<Rightarrow> nat \<Rightarrow> nat option" where
  "next_log_record S data_area record_offset =
     (let client_data_length = unat (sr_u32 S data_area (record_offset + 0x18));
          log_record_size = 0x30 + client_data_length
      in if log_record_size = 0x30 \<and> client_data_length = 0 then Some (record_offset + 8)
         else let aligned_size = align8 log_record_size in
              if aligned_size = 0 then None else Some (record_offset + aligned_size))"

lemma next_log_record_progress: "next_log_record S data off = Some off' \<Longrightarrow> off < off'"
  by (auto simp: next_log_record_def Let_def split: if_splits)

text \<open>The loop over the log records: what was found, and the offset it ends at.\<close>

function log_area_loop ::
  "safe_read \<Rightarrow> 'dt chrono \<Rightarrow> bytes \<Rightarrow> nat \<Rightarrow> u64 \<Rightarrow> nat \<Rightarrow> ('dt log_file_usn_record list \<times> nat) res" where
  "log_area_loop S C data_area page_off page_lsn record_offset =
     (if record_offset + LOG_RECORD_HEADER_MIN \<le> length data_area then
        if record_offset + 8 \<le> length data_area \<and>
           get_range data_area record_offset (record_offset + 8) = Some [0, 0, 0, 0, 0, 0, 0, 0]
        then Ok ([], record_offset)
        else and_then (extract_log_record S C data_area page_off page_lsn record_offset) (\<lambda>found.
          case next_log_record S data_area record_offset of
            None \<Rightarrow> Ok (found, record_offset)
          | Some record_offset' \<Rightarrow>
              if record_offset' > length data_area then Ok (found, record_offset')
              else and_then (log_area_loop S C data_area page_off page_lsn record_offset') (\<lambda>(rest, stop).
                Ok (found @ rest, stop)))
      else Ok ([], record_offset))"
  by pat_completeness auto

termination log_area_loop
  by (relation "measure (\<lambda>(S, C, data, p, l, off). length data - off)")
    (auto simp: LOG_RECORD_HEADER_MIN_def dest!: next_log_record_progress)

declare log_area_loop.simps [simp del]

definition extract_from_rcrd_page ::
  "safe_read \<Rightarrow> 'dt chrono \<Rightarrow> bytes \<Rightarrow> nat \<Rightarrow> 'dt log_file_usn_record list res" where
  "extract_from_rcrd_page S C page_data page_off =
     (if length page_data < RCRD_DATA_OFFSET then Ok []
      else let page_lsn = (if length page_data \<ge> 0x20 then sr_u64 S page_data 0x18 else 0) in
      and_then (slice page_data RCRD_DATA_OFFSET (length page_data)) (\<lambda>data_area.
      and_then (log_area_loop S C data_area page_off page_lsn 0) (\<lambda>(results, record_offset).
      let slack_start = RCRD_DATA_OFFSET + record_offset in
      if slack_start < length page_data then
        and_then (slice page_data slack_start (length page_data)) (\<lambda>slack.
        and_then (scan_for_usn_records C slack) (\<lambda>found.
        Ok (results @ area_records page_lsn (page_off + slack_start) PageSlack found)))
      else Ok results)))"

definition extract_page ::
  "safe_read \<Rightarrow> 'dt chrono \<Rightarrow> bytes \<Rightarrow> nat \<Rightarrow> 'dt log_file_usn_record list res" where
  "extract_page S C logfile_data page_idx =
     (let page_off = page_idx * LOG_PAGE_SIZE in
      and_then (slice logfile_data page_off (page_off + 4)) (\<lambda>sig.
      if sig \<noteq> RCRD_SIGNATURE then Ok []
      else let page_end = min (page_off + LOG_PAGE_SIZE) (length logfile_data) in
      and_then (slice logfile_data page_off page_end) (\<lambda>page_data.
      extract_from_rcrd_page S C page_data page_off)))"

fun extract_pages ::
  "safe_read \<Rightarrow> 'dt chrono \<Rightarrow> bytes \<Rightarrow> nat list \<Rightarrow> 'dt log_file_usn_record list res" where
  "extract_pages S C logfile_data [] = Ok []"
| "extract_pages S C logfile_data (page_idx # rest) =
     (if page_idx * LOG_PAGE_SIZE + 4 > length logfile_data then Ok []
      else and_then (extract_page S C logfile_data page_idx) (\<lambda>page_results.
      and_then (extract_pages S C logfile_data rest) (\<lambda>results.
      Ok (page_results @ results))))"

definition extract_usn_from_logfile ::
  "safe_read \<Rightarrow> 'dt chrono \<Rightarrow> bytes \<Rightarrow> 'dt log_file_usn_record list res" where
  "extract_usn_from_logfile S C logfile_data =
     extract_pages S C logfile_data [0..<length logfile_data div LOG_PAGE_SIZE]"

section \<open>Scanning an area\<close>

text \<open>The two ways the scan goes on.\<close>

lemma scan_for_usn_hit:
  assumes "found_at C data off r"
  shows "scan_for_usn_loop C data off =
    and_then (scan_for_usn_loop C data (off + align8 (unat (le_u32 data off)))) (\<lambda>rs. Ok ((off, r) # rs))"
proof -
  have "off + 60 \<le> length data"
    using assms by (auto simp: found_at_def Let_def)
  then show ?thesis
    using assms [folded try_parse_usn_at_iff]
    by (subst scan_for_usn_loop.simps) (simp add: usn_sizes reads_in)
qed

lemma scan_for_usn_miss:
  assumes "off + 60 \<le> length data" "\<And>r. \<not> found_at C data off r"
  shows "scan_for_usn_loop C data off = scan_for_usn_loop C data (off + 8)"
proof -
  obtain x where x: "try_parse_usn_at C data off = Ok x"
    using try_parse_usn_at_total by blast
  with assms(2) have "x = None"
    by (cases x) (auto simp flip: try_parse_usn_at_iff)
  with x assms(1) show ?thesis
    by (subst scan_for_usn_loop.simps) (simp add: usn_sizes)
qed

lemma scan_for_usn_end: "\<not> off + 60 \<le> length data \<Longrightarrow> scan_for_usn_loop C data off = Ok []"
  by (subst scan_for_usn_loop.simps) (simp add: usn_sizes)

lemma align8_pos: "60 \<le> n \<Longrightarrow> 0 < align8 n"
  using align8_ge(1) [of n] by linarith

lemma scan_for_usn_sound:
  "\<exists>rs. scan_for_usn_loop C data off = Ok rs \<and>
     list_all (\<lambda>(o', r). off \<le> o' \<and> 8 dvd o' - off \<and> found_at C data o' r) rs"
proof (induction "length data - off" arbitrary: off rule: less_induct)
  case less
  let ?P = "\<lambda>off (o', r). off \<le> o' \<and> 8 dvd o' - off \<and> found_at C data o' r"
  have later: "list_all (?P off) rs" if "list_all (?P (off + k)) rs" "8 dvd k" for k rs
  proof -
    have "8 dvd o' - off" if "off + k \<le> o'" "8 dvd o' - (off + k)" for o'
    proof -
      have "o' - off = o' - (off + k) + k"
        using that(1) by simp
      with that(2) \<open>8 dvd k\<close> show ?thesis
        by (metis dvd_add)
    qed
    then show ?thesis
      using that(1) by (force simp: list_all_iff)
  qed
  show ?case
  proof (cases "off + 60 \<le> length data")
    case False
    then show ?thesis
      by (simp add: scan_for_usn_end)
  next
    case inside: True
    show ?thesis
    proof (cases "\<exists>r. found_at C data off r")
      case True
      then obtain r where r: "found_at C data off r"
        by blast
      let ?k = "align8 (unat (le_u32 data off))"
      have "0 < ?k"
        using r by (intro align8_pos) (simp add: found_at_def Let_def)
      then have "length data - (off + ?k) < length data - off"
        using inside by linarith
      from less [OF this] obtain rs where
        "scan_for_usn_loop C data (off + ?k) = Ok rs" "list_all (?P (off + ?k)) rs"
        by blast
      with later [of ?k rs] r show ?thesis
        by (simp add: scan_for_usn_hit align8_ge)
    next
      case False
      then have eq: "scan_for_usn_loop C data off = scan_for_usn_loop C data (off + 8)"
        using inside by (intro scan_for_usn_miss) auto
      have "length data - (off + 8) < length data - off"
        using inside by linarith
      from less [OF this] obtain rs where
        "scan_for_usn_loop C data (off + 8) = Ok rs" "list_all (?P (off + 8)) rs"
        by blast
      with later [of 8 rs] eq show ?thesis
        by simp
    qed
  qed
qed

text \<open>A hit inside a window of the data is a hit of the data.\<close>

lemma found_at_window:
  assumes "found_at C (take n (drop a data)) off r" "a + n \<le> length data"
  shows "found_at C data (a + off) r \<and> a + off + unat (le_u32 data (a + off)) \<le> a + n"
proof -
  let ?w = "take n (drop a data)"
  have len: "length ?w = n"
    using assms(2) by simp
  have in_w: "off + 60 \<le> n"
    using assms(1) len by (auto simp: found_at_def Let_def)
  have g: "get_range ?w (off + i) (off + j) = get_range data (a + off + i) (a + off + j)"
    if "i \<le> j" "off + j \<le> n" for i j
    using that assms(2) by (simp add: get_range_def drop_take min_absorb1 ac_simps)
  have r: "le_u32 ?w off = le_u32 data (a + off)" "le_u16 ?w (off + 4) = le_u16 data (a + off + 4)"
    using g [of 0 4] g [of 4 6] in_w by (simp_all add: le_read_defs ac_simps)
  have "take m (drop off ?w) = take m (drop (a + off) data)" if "off + m \<le> n" for m
    using that by (simp add: drop_take min_absorb1 ac_simps)
  with assms r len show ?thesis
    by (auto simp: found_at_def Let_def)
qed

section \<open>The scan is a scanner\<close>

interpretation log_area: scanner "found_at C data" "record_room data" "length data - 59"
  "\<lambda>off xs. scan_for_usn_loop C data off = Ok xs" for C data
proof
  fix off xs x
  show "off < length data - 59" if "found_at C data off x"
    using that by (auto simp: found_at_def Let_def)
  show "8 dvd record_room data off \<and> 0 < record_room data off" if "found_at C data off x"
    using that align8_pos by (auto simp: found_at_def Let_def align8_ge(3))
  show "xs = []" if "scan_for_usn_loop C data off = Ok xs" "length data - 59 \<le> off"
    using that by (simp add: scan_for_usn_end)
  show "\<exists>ys. xs = (off, x) # ys \<and> scan_for_usn_loop C data (off + record_room data off) = Ok ys"
    if "scan_for_usn_loop C data off = Ok xs" "found_at C data off x"
    using that by (auto simp: scan_for_usn_hit res_inversions)
  show "scan_for_usn_loop C data (off + 8) = Ok xs"
    if "scan_for_usn_loop C data off = Ok xs" "off < length data - 59" "\<And>x. \<not> found_at C data off x"
    using that scan_for_usn_miss [of off data C] by simp
qed

section \<open>What is extracted from a page\<close>

text \<open>
  An extracted record is labelled with the start of the area it was found in; the record
  itself lies a multiple of eight bytes behind that.
\<close>

definition in_page :: "'dt chrono \<Rightarrow> bytes \<Rightarrow> nat \<Rightarrow> 'dt log_file_usn_record \<Rightarrow> bool" where
  "in_page C page po x \<longleftrightarrow>
     (\<exists>start off. lur_page_offset x = po + start \<and> RCRD_DATA_OFFSET \<le> start \<and> start \<le> off \<and>
        8 dvd off - start \<and> found_at C page off (lur_record x))"

lemma area_in_page:
  assumes "RCRD_DATA_OFFSET \<le> start" "start + len \<le> length page"
  shows "\<exists>found. scan_for_usn_records C (take len (drop start page)) = Ok found \<and>
    list_all (in_page C page po) (area_records s (po + start) src found)"
proof -
  let ?d = "take len (drop start page)"
  obtain found where f: "scan_for_usn_records C ?d = Ok found"
      "list_all (\<lambda>(o', r). 8 dvd o' \<and> found_at C ?d o' r) found"
    using scan_for_usn_sound [of C ?d 0] by (auto simp: scan_for_usn_records_def)
  have "in_page C page po \<lparr>lur_lsn = s, lur_page_offset = po + start, lur_source = src, lur_record = r\<rparr>"
    if "8 dvd o'" "found_at C ?d o' r" for o' r
    unfolding in_page_def using found_at_window [OF that(2) assms(2)] that(1) assms(1)
    by (intro exI [of _ start] exI [of _ "start + o'"]) simp
  with f show ?thesis
    by (auto simp: area_records_def list_all_iff)
qed

lemma extract_area_in_page:
  assumes "RCRD_DATA_OFFSET \<le> length page"
  shows "\<exists>rs. extract_area C (drop RCRD_DATA_OFFSET page) po s src start len = Ok rs \<and>
    list_all (in_page C page po) rs"
proof (cases "start + len \<le> length page - RCRD_DATA_OFFSET")
  case True
  then have "RCRD_DATA_OFFSET + start + len \<le> length page"
    using assms by simp
  from area_in_page [OF _ this, of C po s src] True show ?thesis
    by (auto simp: extract_area_def add.assoc add.commute [of start RCRD_DATA_OFFSET])
qed (simp add: extract_area_def)

lemma extract_log_record_in_page:
  assumes "RCRD_DATA_OFFSET \<le> length page"
  shows "\<exists>rs. extract_log_record S C (drop RCRD_DATA_OFFSET page) po pl off = Ok rs \<and>
    list_all (in_page C page po) rs"
proof -
  note area = extract_area_in_page [OF assms, of C po]
  have both: "\<exists>rs. and_then m (\<lambda>a. and_then n (\<lambda>b. Ok (a @ b))) = Ok rs \<and> list_all (in_page C page po) rs"
    if "\<exists>a. m = Ok a \<and> list_all (in_page C page po) a" "\<exists>b. n = Ok b \<and> list_all (in_page C page po) b"
    for m n :: "'a log_file_usn_record list res"
    using that by auto
  show ?thesis
    unfolding extract_log_record_def Let_def
    by (rule both; auto intro: area)
qed

lemma log_area_in_page:
  assumes "RCRD_DATA_OFFSET \<le> length page"
  shows "\<exists>rs stop. log_area_loop S C (drop RCRD_DATA_OFFSET page) po pl off = Ok (rs, stop) \<and>
    list_all (in_page C page po) rs"
proof (induction S C "drop RCRD_DATA_OFFSET page" po pl off rule: log_area_loop.induct)
  case (1 S C po pl off)
  let ?a = "drop RCRD_DATA_OFFSET page"
  obtain found where f: "extract_log_record S C ?a po pl off = Ok found" "list_all (in_page C page po) found"
    using extract_log_record_in_page [OF assms] by blast
  consider (stop) "\<not> off + LOG_RECORD_HEADER_MIN \<le> length ?a \<or>
      off + 8 \<le> length ?a \<and> get_range ?a off (off + 8) = Some [0, 0, 0, 0, 0, 0, 0, 0]"
    | (go) "off + LOG_RECORD_HEADER_MIN \<le> length ?a"
      "\<not> (off + 8 \<le> length ?a \<and> get_range ?a off (off + 8) = Some [0, 0, 0, 0, 0, 0, 0, 0])"
    by blast
  then show ?case
  proof cases
    case stop
    then show ?thesis
      by (subst log_area_loop.simps) auto
  next
    case go
    show ?thesis
    proof (cases "next_log_record S ?a off")
      case None
      with go f show ?thesis
        by (subst log_area_loop.simps) (simp del: length_drop)
    next
      case (Some off')
      show ?thesis
      proof (cases "off' > length ?a")
        case True
        with go f Some show ?thesis
          by (subst log_area_loop.simps) (simp del: length_drop)
      next
        case False
        from "1.hyps" [OF go f(1) Some False] go f Some False show ?thesis
          by (subst log_area_loop.simps) (auto simp del: length_drop)
      qed
    qed
  qed
qed

lemma extract_from_rcrd_page_sound:
  "\<exists>rs. extract_from_rcrd_page S C page po = Ok rs \<and> list_all (in_page C page po) rs"
proof (cases "RCRD_DATA_OFFSET \<le> length page")
  case True
  let ?pl = "if length page \<ge> 0x20 then sr_u64 S page 0x18 else 0"
  obtain rs stop where l: "log_area_loop S C (drop RCRD_DATA_OFFSET page) po ?pl 0 = Ok (rs, stop)"
      "list_all (in_page C page po) rs"
    using log_area_in_page [OF True] by blast
  let ?s = "RCRD_DATA_OFFSET + stop"
  show ?thesis
  proof (cases "?s < length page")
    case False
    with l True show ?thesis
      by (simp add: extract_from_rcrd_page_def Let_def)
  next
    case in_slack: True
    obtain found where "scan_for_usn_records C (drop ?s page) = Ok found"
        "list_all (in_page C page po) (area_records ?pl (po + ?s) PageSlack found)"
      using area_in_page [of ?s "length page - ?s" page C po ?pl PageSlack] in_slack by auto
    with in_slack l True show ?thesis
      by (simp add: extract_from_rcrd_page_def Let_def)
  qed
qed (simp add: extract_from_rcrd_page_def)

definition recovered :: "'dt chrono \<Rightarrow> bytes \<Rightarrow> 'dt log_file_usn_record \<Rightarrow> bool" where
  "recovered C data x \<longleftrightarrow>
     (\<exists>i off. i < length data div LOG_PAGE_SIZE \<and> page_sig data i = RCRD_SIGNATURE \<and>
        i * LOG_PAGE_SIZE + RCRD_DATA_OFFSET \<le> lur_page_offset x \<and> lur_page_offset x \<le> off \<and>
        8 dvd off - lur_page_offset x \<and> found_at C data off (lur_record x) \<and>
        off + unat (le_u32 data off) \<le> Suc i * LOG_PAGE_SIZE)"

lemma recovered_page:
  assumes "i < length data div LOG_PAGE_SIZE" "page_sig data i = RCRD_SIGNATURE"
    "in_page C (take LOG_PAGE_SIZE (drop (i * LOG_PAGE_SIZE) data)) (i * LOG_PAGE_SIZE) x"
  shows "recovered C data x"
proof -
  let ?p = "i * LOG_PAGE_SIZE"
  obtain start off where s: "lur_page_offset x = ?p + start" "RCRD_DATA_OFFSET \<le> start" "start \<le> off"
      "8 dvd off - start" "found_at C (take LOG_PAGE_SIZE (drop ?p data)) off (lur_record x)"
    using assms(3) by (auto simp: in_page_def)
  from found_at_window [OF s(5) page_fits [OF assms(1)]] s assms(1,2) show ?thesis
    unfolding recovered_def by (intro exI [of _ i] exI [of _ "?p + off"]) (simp add: add.commute)
qed

lemma extract_page_sound:
  assumes "i < length data div LOG_PAGE_SIZE"
  shows "\<exists>rs. extract_page S C data i = Ok rs \<and> list_all (recovered C data) rs"
proof -
  let ?p = "i * LOG_PAGE_SIZE"
  have fits: "?p + LOG_PAGE_SIZE \<le> length data"
    by (rule page_fits [OF assms])
  then have sig: "slice data ?p (?p + 4) = Ok (page_sig data i)"
    by (simp add: page_sig_def LOG_PAGE_SIZE_def)
  show ?thesis
  proof (cases "page_sig data i = RCRD_SIGNATURE")
    case True
    obtain rs where rs: "extract_from_rcrd_page S C (take LOG_PAGE_SIZE (drop ?p data)) ?p = Ok rs"
        "list_all (in_page C (take LOG_PAGE_SIZE (drop ?p data)) ?p) rs"
      using extract_from_rcrd_page_sound by blast
    then have "list_all (recovered C data) rs"
      using recovered_page [OF assms True] by (auto simp: list_all_iff)
    with rs sig True fits show ?thesis
      by (simp add: extract_page_def Let_def min_absorb1)
  next
    case False
    with sig show ?thesis
      by (simp add: extract_page_def Let_def)
  qed
qed

lemma extract_pages_sound:
  assumes "\<And>i. i \<in> set is \<Longrightarrow> i < length data div LOG_PAGE_SIZE"
  shows "\<exists>rs. extract_pages S C data is = Ok rs \<and> list_all (recovered C data) rs"
  using assms
proof (induction "is")
  case Nil
  then show ?case by simp
next
  case (Cons i "is")
  then have i: "i < length data div LOG_PAGE_SIZE"
    by simp
  have "i * LOG_PAGE_SIZE + 4 \<le> length data"
    using page_fits [OF i] by (simp add: LOG_PAGE_SIZE_def)
  with extract_page_sound [OF i, of S C] Cons show ?case
    by fastforce
qed

section \<open>Properties\<close>

text \<open>
  Claim C29. Extraction from a log of any content returns, without panicking, only genuine records:
  each parses as a version 2 record of its own stated length, lies wholly inside one record
  page behind its header, and starts a multiple of eight bytes behind the reported offset.
\<close>

theorem extract_usn_from_logfile_sound:
  "\<exists>rs. extract_usn_from_logfile S C data = Ok rs \<and> list_all (recovered C data) rs"
  unfolding extract_usn_from_logfile_def by (rule extract_pages_sound) simp

text \<open>
  Claim C30. The scan of an area is exact on every byte string, garbage included. It returns version 2
  records on eight-byte boundaries, in order and disjoint, each with the offset it lies at; and it
  misses none: every version 2 record on a boundary whose length fits and that the record
  parser reads is returned or begins inside a returned one. What fails to parse costs no more
  than the eight bytes it starts with.
\<close>

theorem scan_for_usn_records_exact:
  "\<exists>rs. scan_for_usn_records C data = Ok rs \<and>
    greedy (found_at C data) (\<lambda>off. align8 (unat (le_u32 data off))) 0 rs"
  using scan_for_usn_sound [of C data 0] log_area.scan_greedy [of C data 0]
  by (auto simp: scan_for_usn_records_def)

end
