(* ===== verification/Mft_Data.thy ===== *)
theory Mft_Data
  imports Rewind Standard_Information Attribute Mft_Record
begin

text \<open>
  \<open>core/src/mft.rs\<close>: the table of all MFT entries with its two indexes, the path each entry
  is given, the conversion of timestamps and the seed of the rewind engine. Hash maps are
  maps; the constants crate is the parameter \<open>N\<close>, the \<open>chrono\<close> crate the parameter \<open>C\<close>.
\<close>

section \<open>Definitions\<close>

definition REC :: nat where
  "REC = 1024"

record 'dt mft_entry =
  me_entry_number :: u64
  me_sequence_number :: u16
  me_filename :: ustring
  me_parent_entry :: u64
  me_parent_sequence :: u16
  me_is_directory :: bool
  me_is_in_use :: bool
  me_si_created :: "'dt option"
  me_si_modified :: "'dt option"
  me_si_mft_modified :: "'dt option"
  me_si_accessed :: "'dt option"
  me_fn_created :: "'dt option"
  me_fn_modified :: "'dt option"
  me_fn_mft_modified :: "'dt option"
  me_fn_accessed :: "'dt option"
  me_full_path :: ustring
  me_file_size :: u64
  me_has_ads :: bool

record 'dt mft_data =
  md_entries :: "'dt mft_entry list"
  md_by_entry :: "u64 \<Rightarrow> nat option"
  md_by_key :: "entry_key \<Rightarrow> nat option"

text \<open>The remainder of \<open>rem_euclid\<close> by a positive number is \<open>mod\<close>; it fits a \<open>u32\<close>.\<close>

definition to_datetime :: "'dt chrono \<Rightarrow> filetime \<Rightarrow> 'dt option" where
  "to_datetime C ft =
     (if is_zero ft then None
      else let secs = to_unix_seconds ft; sub_nanos = to_unix_nanos ft mod 1000000000;
               nsec = (if 0 \<le> sub_nanos \<and> sub_nanos < 2 ^ 32 then sub_nanos else 0)
      in from_timestamp C secs nsec)"

text \<open>\<open>data.chunks(REC)\<close>.\<close>

function mft_chunks :: "bytes \<Rightarrow> bytes list" where
  "mft_chunks data = (if data = [] then [] else take REC data # mft_chunks (drop REC data))"
  by pat_completeness auto

termination mft_chunks
  by (relation "measure length") (auto simp: REC_def)

declare mft_chunks.simps [simp del]

definition si_of :: "bytes \<Rightarrow> attribute \<Rightarrow> standard_information option" where
  "si_of buf a = Option.bind (resident_content a buf) (\<lambda>c. res_ok (standard_information_parse c))"

definition fn_of :: "bytes \<Rightarrow> attribute \<Rightarrow> file_name option" where
  "fn_of buf a = Option.bind (resident_content a buf) (\<lambda>c. res_ok (file_name_parse c))"

text \<open>The four \<open>$STANDARD_INFORMATION\<close> times: those of the last attribute that parses.\<close>

fun si_times ::
  "'dt chrono \<Rightarrow> bytes \<Rightarrow> attribute list \<Rightarrow> 'dt option \<times> 'dt option \<times> 'dt option \<times> 'dt option \<Rightarrow>
   'dt option \<times> 'dt option \<times> 'dt option \<times> 'dt option" where
  "si_times C buf [] t = t"
| "si_times C buf (a # as) t =
     si_times C buf as
       (if type_code a = 0x10 then
          case si_of buf a of
            Some si \<Rightarrow> (to_datetime C (si_created si), to_datetime C (si_modified si),
                        to_datetime C (si_mft_modified si), to_datetime C (si_accessed si))
          | None \<Rightarrow> t
        else t)"

definition name_priority :: "u8 \<Rightarrow> nat" where
  "name_priority ns = (if ns = 1 \<or> ns = 3 then 3 else if ns = 2 then 1 else 2)"

fun best_file_name :: "bytes \<Rightarrow> attribute list \<Rightarrow> (nat \<times> file_name) option \<Rightarrow> (nat \<times> file_name) option" where
  "best_file_name buf [] best = best"
| "best_file_name buf (a # as) best =
     best_file_name buf as
       (if type_code a = 0x30 then
          case fn_of buf a of
            Some f \<Rightarrow>
              (let priority = name_priority (namespace f) in
               if (case best of None \<Rightarrow> True | Some (p, _) \<Rightarrow> priority > p)
               then Some (priority, f) else best)
          | None \<Rightarrow> best
        else best)"

definition data_size :: "attribute \<Rightarrow> u64" where
  "data_size a =
     (case attr_body a of
        NonResident _ _ _ _ _ rs _ \<Rightarrow> rs
      | Resident _ cl \<Rightarrow> ucast cl)"

definition mft_file_size :: "attribute list \<Rightarrow> u64" where
  "mft_file_size attrs =
     (case find (\<lambda>a. type_code a = 0x80 \<and> attr_name a = None) attrs of
        Some a \<Rightarrow> data_size a
      | None \<Rightarrow> 0)"

definition build_entry ::
  "nomicon \<Rightarrow> 'dt chrono \<Rightarrow> bytes \<Rightarrow> mft_record_header \<Rightarrow> attribute list \<Rightarrow> file_name \<Rightarrow> 'dt mft_entry" where
  "build_entry N C buf header attrs best_fn =
     (case si_times C buf attrs (None, None, None, None) of (sc, sm, smm, sa) \<Rightarrow>
        \<lparr>me_entry_number = ucast (record_number header), me_sequence_number = sequence_number header,
         me_filename = fn_name best_fn, me_parent_entry = fr_record_number (parent best_fn),
         me_parent_sequence = fr_sequence (parent best_fn), me_is_directory = is_directory N header,
         me_is_in_use = is_in_use N header, me_si_created = sc, me_si_modified = sm,
         me_si_mft_modified = smm, me_si_accessed = sa,
         me_fn_created = to_datetime C (fn_created best_fn),
         me_fn_modified = to_datetime C (fn_modified best_fn),
         me_fn_mft_modified = to_datetime C (fn_mft_modified best_fn),
         me_fn_accessed = to_datetime C (fn_accessed best_fn), me_full_path = [],
         me_file_size = mft_file_size attrs,
         me_has_ads = list_ex (\<lambda>a. type_code a = 0x80 \<and> attr_name a \<noteq> None) attrs\<rparr>)"

text \<open>The body of the loop over the chunks; \<open>None\<close> is its \<open>continue\<close>.\<close>

definition parse_chunk :: "nomicon \<Rightarrow> 'dt chrono \<Rightarrow> bytes \<Rightarrow> 'dt mft_entry option res" where
  "parse_chunk N C chunk =
     (if length chunk < REC \<or> get_range chunk 0 4 \<noteq> Some FILE_SIGNATURE then Ok None
      else case apply_fixup N chunk 512 of
        (Err _, _) \<Rightarrow> Ok None
      | (Panic, _) \<Rightarrow> Panic
      | (Ok _, buf) \<Rightarrow>
          (case header_parse N buf of
             Err _ \<Rightarrow> Ok None
           | Panic \<Rightarrow> Panic
           | Ok header \<Rightarrow>
               (case parse_attributes N buf (unat (first_attribute_offset header)) of
                  Err _ \<Rightarrow> Ok None
                | Panic \<Rightarrow> Panic
                | Ok attrs \<Rightarrow>
                    (case best_file_name buf attrs None of
                       None \<Rightarrow> Ok None
                     | Some (_, best_fn) \<Rightarrow> Ok (Some (build_entry N C buf header attrs best_fn))))))"

definition entry_key_of :: "'dt mft_entry \<Rightarrow> entry_key" where
  "entry_key_of e = \<lparr>ek_entry = me_entry_number e, ek_sequence = me_sequence_number e\<rparr>"

definition push_entry :: "'dt mft_entry \<Rightarrow> 'dt mft_data \<Rightarrow> 'dt mft_data" where
  "push_entry e d =
     (let i = length (md_entries d) in
      \<lparr>md_entries = md_entries d @ [e], md_by_entry = (md_by_entry d)(me_entry_number e \<mapsto> i),
       md_by_key = (md_by_key d)(entry_key_of e \<mapsto> i)\<rparr>)"

fun parse_chunks :: "nomicon \<Rightarrow> 'dt chrono \<Rightarrow> bytes list \<Rightarrow> 'dt mft_data \<Rightarrow> 'dt mft_data res" where
  "parse_chunks N C [] d = Ok d"
| "parse_chunks N C (chunk # chunks) d =
     and_then (parse_chunk N C chunk) (\<lambda>x.
     parse_chunks N C chunks (case x of None \<Rightarrow> d | Some e \<Rightarrow> push_entry e d))"

text \<open>The walk up the parents: the names met, from the entry upwards.\<close>

fun path_parts :: "'dt mft_entry list \<Rightarrow> (u64 \<Rightarrow> nat option) \<Rightarrow> nat \<Rightarrow> nat \<Rightarrow> ustring list" where
  "path_parts es by_entry 0 cur = []"
| "path_parts es by_entry (Suc left) cur =
     (if cur < length es then
        let e = es ! cur in
        me_filename e #
        (if me_parent_entry e = 5 \<or> me_parent_entry e = me_entry_number e then []
         else case by_entry (me_parent_entry e) of
           Some p \<Rightarrow> if p \<noteq> cur then path_parts es by_entry left p else []
         | None \<Rightarrow> [])
      else [])"

definition resolve_full_path :: "'dt mft_entry list \<Rightarrow> (u64 \<Rightarrow> nat option) \<Rightarrow> nat \<Rightarrow> ustring" where
  "resolve_full_path es by_entry i =
     (let parts = rev (path_parts es by_entry 256 i) in [46, 92] @ join_backslash parts)"

definition set_path :: "'dt mft_entry \<times> ustring \<Rightarrow> 'dt mft_entry" where
  "set_path x = (case x of (e, p) \<Rightarrow> e\<lparr>me_full_path := p\<rparr>)"

definition mft_data_parse :: "nomicon \<Rightarrow> 'dt chrono \<Rightarrow> bytes \<Rightarrow> 'dt mft_data res" where
  "mft_data_parse N C data =
     and_then (parse_chunks N C (mft_chunks data)
       \<lparr>md_entries = [], md_by_entry = (\<lambda>_. None), md_by_key = (\<lambda>_. None)\<rparr>) (\<lambda>d.
     let paths = map (resolve_full_path (md_entries d) (md_by_entry d)) [0..<length (md_entries d)] in
     Ok (d\<lparr>md_entries := map set_path (zip (md_entries d) paths)\<rparr>))"

definition seed_rewind :: "'dt mft_data \<Rightarrow> rewind_engine" where
  "seed_rewind d =
     from_mft (map (\<lambda>e. (me_entry_number e, me_sequence_number e, me_filename e, me_parent_entry e,
                         me_parent_sequence e)) (md_entries d)) rewind_new"

definition stomped :: "'dt::linorder mft_entry \<Rightarrow> bool" where
  "stomped e \<longleftrightarrow>
     (case (me_si_created e, me_fn_created e) of
        (Some si_c, Some fn_c) \<Rightarrow>
          si_c < fn_c \<or> (case me_si_modified e of Some si_m \<Rightarrow> si_m < fn_c | None \<Rightarrow> False)
      | _ \<Rightarrow> False)"

definition detect_timestomping :: "'dt::linorder mft_data \<Rightarrow> 'dt mft_entry list" where
  "detect_timestomping d = filter stomped (md_entries d)"

definition get_by_entry :: "'dt mft_data \<Rightarrow> u64 \<Rightarrow> 'dt mft_entry option" where
  "get_by_entry d n =
     Option.bind (md_by_entry d n) (\<lambda>i. if i < length (md_entries d) then Some (md_entries d ! i) else None)"

definition get_by_key :: "'dt mft_data \<Rightarrow> entry_key \<Rightarrow> 'dt mft_entry option" where
  "get_by_key d k =
     Option.bind (md_by_key d k) (\<lambda>i. if i < length (md_entries d) then Some (md_entries d ! i) else None)"

section \<open>The indexes\<close>

text \<open>The position of the last entry with a given key.\<close>

definition last_index :: "('e \<Rightarrow> 'k) \<Rightarrow> 'e list \<Rightarrow> 'k \<Rightarrow> nat option" where
  "last_index f es k =
     (let is = filter (\<lambda>i. f (es ! i) = k) [0..<length es] in if is = [] then None else Some (last is))"

lemma last_index_Nil [simp]: "last_index f [] k = None"
  by (simp add: last_index_def)

lemma last_index_snoc: "last_index f (es @ [e]) = (last_index f es)(f e \<mapsto> length es)"
proof
  fix k
  have "filter (\<lambda>i. f ((es @ [e]) ! i) = k) [0..<length es] = filter (\<lambda>i. f (es ! i) = k) [0..<length es]"
    by (rule filter_cong) (simp_all add: nth_append)
  then show "last_index f (es @ [e]) k = ((last_index f es)(f e \<mapsto> length es)) k"
    by (simp add: last_index_def Let_def nth_append)
qed

lemma last_index_Some: "last_index f es k = Some i \<Longrightarrow> i < length es \<and> f (es ! i) = k"
proof -
  assume "last_index f es k = Some i"
  then have "i \<in> set (filter (\<lambda>i. f (es ! i) = k) [0..<length es])"
    using last_in_set [of "filter (\<lambda>i. f (es ! i) = k) [0..<length es]"]
    by (simp only: last_index_def Let_def option.inject option.distinct not_False_eq_True split: if_splits)
  then show ?thesis by simp
qed

lemma last_index_None: "last_index f es k = None \<Longrightarrow> i < length es \<Longrightarrow> f (es ! i) \<noteq> k"
  by (auto simp: last_index_def Let_def filter_empty_conv split: if_splits)

lemma last_index_cong: "map f es = map g fs \<Longrightarrow> last_index f es = last_index g fs"
proof -
  assume eq: "map f es = map g fs"
  then have len: "length es = length fs"
    by (rule map_eq_imp_length_eq)
  have "f (es ! i) = g (fs ! i)" if "i < length es" for i
    using arg_cong [OF eq, of "\<lambda>xs. xs ! i"] that len by simp
  then have "filter (\<lambda>i. f (es ! i) = k) [0..<length es] = filter (\<lambda>i. g (fs ! i) = k) [0..<length es]" for k
    by (intro filter_cong) simp_all
  then show ?thesis
    by (simp add: last_index_def len fun_eq_iff)
qed

lemma last_index_distinct:
  assumes "distinct (map f es)" "i < length es"
  shows "last_index f es (f (es ! i)) = Some i"
proof (cases "last_index f es (f (es ! i))")
  case None
  with last_index_None [OF None assms(2)] show ?thesis by simp
next
  case (Some j)
  with last_index_Some [OF Some] nth_eq_iff_index_eq [OF assms(1), of j i] assms(2) show ?thesis
    by simp
qed

definition indexed :: "'dt mft_data \<Rightarrow> bool" where
  "indexed d \<longleftrightarrow> md_by_entry d = last_index me_entry_number (md_entries d) \<and>
     md_by_key d = last_index entry_key_of (md_entries d)"

lemma push_entry_indexed: "indexed d \<Longrightarrow> indexed (push_entry e d)"
  by (simp add: indexed_def push_entry_def Let_def last_index_snoc)

section \<open>Parsing returns\<close>

lemma parse_chunk_total:
  assumes "attr_in_header N" "length chunk \<le> REC"
  shows "\<exists>x. parse_chunk N C chunk = Ok x"
proof (cases "length chunk < REC \<or> get_range chunk 0 4 \<noteq> Some FILE_SIGNATURE")
  case True
  then show ?thesis by (auto simp: parse_chunk_def)
next
  case False
  obtain r buf where f: "apply_fixup N chunk 512 = (r, buf)"
    by fastforce
  have r: "r \<noteq> Panic" and len: "length buf = length chunk"
    using apply_fixup_never_panics [of N chunk 512] apply_fixup_length [of N chunk 512] f by simp_all
  have attrs: "parse_attributes N buf (unat (first_attribute_offset h)) \<noteq> Panic" for h
  proof -
    have "ATTR_TYPE (attr_off N) < 16" "length buf \<le> 1024"
      using len assms by (simp_all add: REC_def attr_in_header_def)
    then have "length buf + ATTR_TYPE (attr_off N) + 4 \<le> 70000"
      "unat (first_attribute_offset h) + ATTR_TYPE (attr_off N) + 4 \<le> 70000"
      using unat_u16_less [of "first_attribute_offset h"] by linarith+
    moreover have small: "(70000 :: nat) < 2 ^ 64"
      by simp
    ultimately show ?thesis
      unfolding parse_attributes_def
      by (intro attributes_loop_no_panic assms(1)) (erule le_less_trans, rule small)+
  qed
  have h: "header_parse N buf \<noteq> Panic"
    by (rule header_parse_no_panic)
  show ?thesis
    unfolding parse_chunk_def using False f r
    by (auto simp: h attrs split: res.split option.split)
qed

lemma parse_chunks_indexed:
  assumes "attr_in_header N" "list_all (\<lambda>c. length c \<le> REC) chunks" "indexed d"
  shows "\<exists>d'. parse_chunks N C chunks d = Ok d' \<and> indexed d'"
  using assms(2,3)
proof (induction chunks arbitrary: d)
  case (Cons c cs)
  obtain x where x: "parse_chunk N C c = Ok x"
    using parse_chunk_total [OF assms(1)] Cons.prems(1) by auto
  have "indexed (case x of None \<Rightarrow> d | Some e \<Rightarrow> push_entry e d)"
    using Cons.prems(2) push_entry_indexed by (auto split: option.split)
  with Cons x show ?case by simp
qed simp

lemma mft_chunks_small: "list_all (\<lambda>c. length c \<le> REC) (mft_chunks data)"
proof (induction data rule: mft_chunks.induct)
  case (1 data)
  then show ?case by (subst mft_chunks.simps) simp
qed

text \<open>The second pass changes nothing but the paths.\<close>

definition same_entry :: "'dt mft_entry \<Rightarrow> ustring \<times> u64 \<times> u16 \<times> u64 \<times> u16" where
  "same_entry e = (me_filename e, me_entry_number e, me_sequence_number e, me_parent_entry e, me_parent_sequence e)"

lemma set_path_fields: "same_entry (set_path x) = same_entry (fst x)"
  by (simp add: same_entry_def set_path_def split: prod.split)

lemma map_set_path:
  "length ps = length es \<Longrightarrow> map (g \<circ> same_entry) (map set_path (zip es ps)) = map (g \<circ> same_entry) es"
  by (induction ps es rule: list_induct2) (simp_all add: set_path_fields)

lemma mft_data_parse_cases:
  assumes "mft_data_parse N C data = Ok d"
  obtains d0 where "parse_chunks N C (mft_chunks data)
      \<lparr>md_entries = [], md_by_entry = (\<lambda>_. None), md_by_key = (\<lambda>_. None)\<rparr> = Ok d0"
    "md_by_entry d = md_by_entry d0" "md_by_key d = md_by_key d0"
    "md_entries d = map set_path (zip (md_entries d0)
       (map (resolve_full_path (md_entries d0) (md_by_entry d0)) [0..<length (md_entries d0)]))"
  using assms by (auto simp: mft_data_parse_def Let_def and_then_Ok_iff)

lemma mft_data_parse_indexed:
  assumes "attr_in_header N"
  shows "\<exists>d. mft_data_parse N C data = Ok d \<and> indexed d"
proof -
  let ?d = "\<lparr>md_entries = [], md_by_entry = (\<lambda>_. None), md_by_key = (\<lambda>_. None)\<rparr>"
  have "indexed ?d"
    by (simp add: indexed_def fun_eq_iff)
  then obtain d0 where d0: "parse_chunks N C (mft_chunks data) ?d = Ok d0" "indexed d0"
    using parse_chunks_indexed [OF assms mft_chunks_small] by blast
  let ?ps = "map (resolve_full_path (md_entries d0) (md_by_entry d0)) [0..<length (md_entries d0)]"
  let ?es = "map set_path (zip (md_entries d0) ?ps)"
  have key: "me_entry_number = (\<lambda>(n, en, s, pe, ps). en) \<circ> same_entry"
    "entry_key_of = (\<lambda>(n, en, s, pe, ps). \<lparr>ek_entry = en, ek_sequence = s\<rparr>) \<circ> same_entry"
    by (simp_all add: fun_eq_iff same_entry_def entry_key_of_def)
  have "map me_entry_number ?es = map me_entry_number (md_entries d0)"
    "map entry_key_of ?es = map entry_key_of (md_entries d0)"
    unfolding key by (rule map_set_path, simp)+
  then have "last_index me_entry_number ?es = last_index me_entry_number (md_entries d0)"
    "last_index entry_key_of ?es = last_index entry_key_of (md_entries d0)"
    by (auto intro: last_index_cong)
  with d0 show ?thesis
    by (simp add: mft_data_parse_def Let_def indexed_def)
qed

section \<open>The seed of the rewind engine\<close>

definition entry_info_of :: "'dt mft_entry \<Rightarrow> entry_info" where
  "entry_info_of e =
     \<lparr>ei_name = me_filename e,
      ei_parent = \<lparr>ek_entry = me_parent_entry e, ek_sequence = me_parent_sequence e\<rparr>\<rparr>"

lemma from_mft_append: "from_mft (xs @ ys) e = from_mft ys (from_mft xs e)"
  by (induction xs e rule: from_mft.induct) simp_all

lemma seed_lookup:
  "re_lookup (from_mft (map (\<lambda>e. (me_entry_number e, me_sequence_number e, me_filename e, me_parent_entry e,
       me_parent_sequence e)) es) rewind_new) k =
   map_option (\<lambda>i. entry_info_of (es ! i)) (last_index entry_key_of es k)"
proof (induction es rule: rev_induct)
  case Nil
  then show ?case by (simp add: rewind_new_def)
next
  case (snoc e es)
  have "map_option (\<lambda>i. entry_info_of ((es @ [e]) ! i)) (last_index entry_key_of es k) =
      map_option (\<lambda>i. entry_info_of (es ! i)) (last_index entry_key_of es k)"
    using last_index_Some [of entry_key_of es k]
    by (cases "last_index entry_key_of es k") (simp_all add: nth_append)
  moreover have "entry_info_of e = \<lparr>ei_name = me_filename e,
      ei_parent = \<lparr>ek_entry = me_parent_entry e, ek_sequence = me_parent_sequence e\<rparr>\<rparr>"
    "entry_key_of e = \<lparr>ek_entry = me_entry_number e, ek_sequence = me_sequence_number e\<rparr>"
    by (simp_all add: entry_info_of_def entry_key_of_def)
  ultimately show ?case
    using snoc by (simp add: from_mft_append engine_insert_def last_index_snoc)
qed

lemma seed_rewind_lookup:
  assumes "indexed d"
  shows "re_lookup (seed_rewind d) k = map_option entry_info_of (get_by_key d k)"
proof -
  have "re_lookup (seed_rewind d) k = map_option (\<lambda>i. entry_info_of (md_entries d ! i)) (md_by_key d k)"
    using assms by (simp add: seed_rewind_def seed_lookup indexed_def)
  then show ?thesis
    using assms last_index_Some [of entry_key_of "md_entries d" k]
    by (cases "md_by_key d k") (simp_all add: get_by_key_def indexed_def)
qed

section \<open>Paths\<close>

lemma tree_path_root: "tree_path T k d p \<Longrightarrow> is_root k \<Longrightarrow> d = 0 \<and> p = lit ''.''"
  by (cases rule: tree_path.cases) auto

lemma tree_path_depth: "tree_path T k d p \<Longrightarrow> tree_path T k d' p' \<Longrightarrow> d = d'"
proof (induction arbitrary: d' p' rule: tree_path.induct)
  case (at_root k)
  then show ?case using tree_path_root by blast
next
  case (below k i d p)
  from below.prems below.hyps(1,2) obtain e q where "d' = Suc e" "tree_path T (ei_parent i) e q"
    by (cases rule: tree_path.cases) auto
  with below.IH show ?case by blast
qed

text \<open>Walking the indexes and walking the lookup table give the same names.\<close>

lemma path_parts_tree:
  assumes path: "tree_path L k d p"
    and L: "\<And>k. L k = map_option (\<lambda>i. entry_info_of (es ! i)) (last_index entry_key_of es k)"
    and distinct: "distinct (map me_entry_number es)"
    and i: "i < length es" "entry_key_of (es ! i) = k" "\<not> is_root k" "d \<le> n"
  shows "[46] @ concat (map ((#) 92) (rev (path_parts es (last_index me_entry_number es) n i))) = p \<and>
    path_parts es (last_index me_entry_number es) n i \<noteq> []"
  using path i
proof (induction arbitrary: i n rule: tree_path.induct)
  case (at_root k)
  then show ?case by simp
next
  case (below k info d p)
  let ?be = "last_index me_entry_number es"
  obtain m where n: "n = Suc m" "d \<le> m"
    using below.prems(4) by (cases n) auto
  have keys: "distinct (map entry_key_of es)"
    using distinct by (auto simp: distinct_conv_nth entry_key_of_def)
  have "last_index entry_key_of es k = Some i"
    using last_index_distinct [OF keys below.prems(1)] below.prems(2) by simp
  then have info: "info = entry_info_of (es ! i)"
    using below.hyps(2) by (simp add: L)
  show ?case
  proof (cases "is_root (ei_parent info)")
    case True
    then have "me_parent_entry (es ! i) = 5" "p = lit ''.''"
      using tree_path_root [OF below.hyps(3)] by (auto simp: info entry_info_of_def is_root_def)
    then show ?thesis
      using below.prems(1) by (simp add: n info entry_info_of_def lit_def)
  next
    case False
    obtain info' where "L (ei_parent info) = Some info'"
      using below.hyps(3) False by (cases rule: tree_path.cases) auto
    then obtain j where j: "last_index entry_key_of es (ei_parent info) = Some j"
      by (auto simp: L)
    note jk = last_index_Some [OF j]
    have num: "me_entry_number (es ! j) = me_parent_entry (es ! i)"
      using arg_cong [OF conjunct2 [OF jk], of ek_entry] by (simp add: info entry_info_of_def entry_key_of_def)
    have be: "?be (me_parent_entry (es ! i)) = Some j"
      using last_index_distinct [OF distinct conjunct1 [OF jk]] num by simp
    have "j \<noteq> i"
    proof
      assume "j = i"
      then have "ei_parent info = k"
        using jk below.prems(2) by simp
      then have "tree_path L k d p"
        using below.hyps(3) by simp
      moreover have "tree_path L k (Suc d) (p @ [92] @ ei_name info)"
        by (rule tree_path.below [OF below.hyps(1-3)])
      ultimately have "d = Suc d"
        by (rule tree_path_depth)
      then show False by simp
    qed
    then have other: "me_parent_entry (es ! i) \<noteq> me_entry_number (es ! i)"
      using nth_eq_iff_index_eq [OF distinct, of j i] jk num below.prems(1) by auto
    have not5: "me_parent_entry (es ! i) \<noteq> 5"
      using False by (simp add: info entry_info_of_def is_root_def)
    have "path_parts es ?be n i = me_filename (es ! i) # path_parts es ?be m j"
      using below.prems(1) be other not5 \<open>j \<noteq> i\<close> by (simp add: n)
    with below.IH [of j m] jk False n(2) show ?thesis
      by (simp add: info entry_info_of_def)
  qed
qed

lemma path_parts_cong:
  assumes "map same_entry es = map same_entry fs"
  shows "path_parts es by_entry n i = path_parts fs by_entry n i"
proof (induction n arbitrary: i)
  case (Suc n)
  have len: "length es = length fs"
    using assms by (rule map_eq_imp_length_eq)
  have "same_entry (es ! i) = same_entry (fs ! i)" if "i < length es"
    using arg_cong [OF assms, of "\<lambda>xs. xs ! i"] that len by simp
  then show ?case
    using Suc.IH len by (auto simp: same_entry_def Let_def split: option.split)
qed simp

lemma full_path_parts:
  assumes parse: "mft_data_parse N C data = Ok d" and N: "attr_in_header N" and i: "i < length (md_entries d)"
  shows "me_full_path (md_entries d ! i) = [46, 92] @ join_backslash (rev (path_parts (md_entries d)
      (last_index me_entry_number (md_entries d)) 256 i))"
proof -
  from parse obtain d0 where "parse_chunks N C (mft_chunks data)
      \<lparr>md_entries = [], md_by_entry = (\<lambda>_. None), md_by_key = (\<lambda>_. None)\<rparr> = Ok d0"
    and d0: "md_by_entry d = md_by_entry d0" and "md_by_key d = md_by_key d0"
    and d1: "md_entries d = map set_path (zip (md_entries d0)
       (map (resolve_full_path (md_entries d0) (md_by_entry d0)) [0..<length (md_entries d0)]))"
    by (rule mft_data_parse_cases)
  have ix: "indexed d"
    using mft_data_parse_indexed [OF N, of C data] parse by auto
  then have be: "md_by_entry d0 = last_index me_entry_number (md_entries d)"
    using d0 by (simp add: indexed_def)
  have same: "map same_entry (md_entries d0) = map same_entry (md_entries d)"
    using map_set_path [where g = id, of _ "md_entries d0"] d1 by simp
  have "me_full_path (md_entries d ! i) = resolve_full_path (md_entries d0) (md_by_entry d0) i"
    using i unfolding d1 by (simp add: set_path_def)
  then show ?thesis
    unfolding resolve_full_path_def Let_def be path_parts_cong [OF same] .
qed

lemma seed_by_index:
  "re_lookup (seed_rewind d) k =
     map_option (\<lambda>i. entry_info_of (md_entries d ! i)) (last_index entry_key_of (md_entries d) k)"
  by (simp add: seed_rewind_def seed_lookup)

lemma full_path_tree:
  assumes parse: "mft_data_parse N C data = Ok d" and N: "attr_in_header N"
    and distinct: "distinct (map me_entry_number (md_entries d))"
    and i: "i < length (md_entries d)" "\<not> is_root (entry_key_of (md_entries d ! i))"
    and path: "tree_path (re_lookup (seed_rewind d)) (entry_key_of (md_entries d ! i)) n p" "n \<le> 256"
  shows "me_full_path (md_entries d ! i) = p"
  using path_parts_tree [OF path(1) seed_by_index distinct i(1) refl i(2) path(2)]
    join_backslash_concat [of "rev (path_parts (md_entries d) (last_index me_entry_number (md_entries d)) 256 i)"]
  by (simp add: full_path_parts [OF parse N i(1)])

text \<open>
  Where the two resolvers part: the parent named by number and sequence is not in the table. The engine
  marks it as unknown; the full path goes on from whatever entry now has the number, and where none
  has it hangs the name under the root.
\<close>

lemma missing_parent_paths:
  assumes parse: "mft_data_parse N C data = Ok d" and N: "attr_in_header N"
    and distinct: "distinct (map me_entry_number (md_entries d))"
    and i: "i < length (md_entries d)" "\<not> is_root (entry_key_of (md_entries d ! i))"
    and parent: "me_parent_entry (md_entries d ! i) \<noteq> 5"
      "re_lookup (seed_rewind d) (ei_parent (entry_info_of (md_entries d ! i))) = None"
  shows "engine_resolve_path (seed_rewind d) (entry_key_of (md_entries d ! i)) =
      key_label ''UNKNOWN'' (ei_parent (entry_info_of (md_entries d ! i))) @ [92] @ me_filename (md_entries d ! i)"
    and "last_index me_entry_number (md_entries d) (me_parent_entry (md_entries d ! i)) = None \<Longrightarrow>
      me_full_path (md_entries d ! i) = [46, 92] @ me_filename (md_entries d ! i)"
    and "last_index me_entry_number (md_entries d) (me_parent_entry (md_entries d ! i)) = Some j \<Longrightarrow> j \<noteq> i \<Longrightarrow>
      me_full_path (md_entries d ! i) = [46, 92] @ join_backslash (rev (path_parts (md_entries d)
        (last_index me_entry_number (md_entries d)) 255 j) @ [me_filename (md_entries d ! i)])"
proof -
  let ?es = "md_entries d"
  have keys: "distinct (map entry_key_of ?es)"
    using distinct by (auto simp: distinct_conv_nth entry_key_of_def)
  have here: "re_lookup (seed_rewind d) (entry_key_of (?es ! i)) = Some (entry_info_of (?es ! i))"
    using last_index_distinct [OF keys i(1)] by (simp add: seed_by_index)
  have "\<not> is_root (ei_parent (entry_info_of (?es ! i)))"
    using parent(1) by (simp add: entry_info_of_def is_root_def)
  then have "resolve_path_from_inner (re_lookup (seed_rewind d)) (ei_parent (entry_info_of (?es ! i))) 1 =
      key_label ''UNKNOWN'' (ei_parent (entry_info_of (?es ! i)))"
    using parent(2) by (subst resolve_path_from_inner.simps) simp
  then show "engine_resolve_path (seed_rewind d) (entry_key_of (?es ! i)) =
      key_label ''UNKNOWN'' (ei_parent (entry_info_of (?es ! i))) @ [92] @ me_filename (?es ! i)"
    using here i(2) unfolding engine_resolve_path_def
    by (subst resolve_path_from_inner.simps) (simp add: entry_info_of_def)
  have walk: "path_parts ?es be 256 i = me_filename (?es ! i) #
      (if me_parent_entry (?es ! i) = me_entry_number (?es ! i) then []
       else case be (me_parent_entry (?es ! i)) of Some p \<Rightarrow> if p \<noteq> i then path_parts ?es be 255 p else [] | None \<Rightarrow> [])" for be
    using i(1) parent(1) path_parts.simps(2) [of ?es be 255 i] by (simp add: Let_def)
  show "me_full_path (?es ! i) = [46, 92] @ me_filename (?es ! i)"
    if "last_index me_entry_number ?es (me_parent_entry (?es ! i)) = None"
    using that by (simp add: full_path_parts [OF parse N i(1)] walk)
  show "me_full_path (?es ! i) = [46, 92] @ join_backslash (rev (path_parts ?es
        (last_index me_entry_number ?es) 255 j) @ [me_filename (?es ! i)])"
    if j: "last_index me_entry_number ?es (me_parent_entry (?es ! i)) = Some j" "j \<noteq> i"
  proof -
    have "me_parent_entry (?es ! i) \<noteq> me_entry_number (?es ! i)"
      using j last_index_distinct [OF distinct i(1)] by auto
    then show ?thesis
      using j by (simp add: full_path_parts [OF parse N i(1)] walk)
  qed
qed

section \<open>A table of one record\<close>

definition tiny_mft_record :: bytes where
  "tiny_mft_record = [70, 73, 76, 69, 48, 0, 1, 0, 0, 0, 0, 0, 0, 0, 0, 0, 1, 0, 1, 0, 56, 0, 1, 0,
     156, 0, 0, 0, 0, 4, 0, 0, 0, 0, 0, 0, 0, 0, 0, 0, 2, 0, 0, 0, 20, 0, 0, 0, 0, 0, 0, 0, 0, 0, 0, 0,
     0x30, 0, 0, 0, 96, 0, 0, 0, 0, 0, 0, 0, 0, 0, 1, 0, 68, 0, 0, 0, 24, 0, 0, 0,
     5, 0, 0, 0, 0, 0, 5, 0, 0, 0, 0, 0, 0, 0, 0, 0, 0, 0, 0, 0, 0, 0, 0, 0, 0, 0, 0, 0, 0, 0, 0, 0,
     0, 0, 0, 0, 0, 0, 0, 0, 0, 0, 0, 0, 0, 0, 0, 0, 0, 0, 0, 0, 0, 0, 0, 0, 0, 0, 0, 0, 0, 0, 0, 0,
     1, 1, 97, 0, 0, 0, 0, 0, 0xFF, 0xFF, 0xFF, 0xFF] @ replicate 868 0"

definition tiny_name_attr :: attribute where
  "tiny_name_attr = \<lparr>type_code = 0x30, attr_length = 96, non_resident = False, attr_name = None,
     attr_flags = 0, attribute_id = 1, attr_offset = 56, attr_body = Resident 24 68\<rparr>"

lemma tiny_mft_fixup: "apply_fixup ntfs_layout tiny_mft_record 512 = (Ok (), tiny_mft_record)"
  by (simp add: apply_fixup_def HEADER_LEN_def tiny_mft_record_def layout_defs le_u16_def
      get_range_def from_le_bytes_def usize_checked_add_def usize_checked_mul_def cong: and_then_weak_cong)

lemma tiny_mft_header:
  "\<exists>h. header_parse ntfs_layout tiny_mft_record = Ok h \<and> first_attribute_offset h = 56 \<and>
     record_number h = 20 \<and> sequence_number h = 1"
  by (simp add: header_parse_def HEADER_LEN_def tiny_mft_record_def layout_defs le_read_defs
      get_range_def from_le_bytes_def arr_def Let_def)

lemma tiny_mft_attributes: "parse_attributes ntfs_layout tiny_mft_record 56 = Ok [tiny_name_attr]"
  by (simp add: tiny_mft_record_def tiny_name_attr_def
      parse_attributes_def MAX_ATTRIBUTES_def attributes_loop_numeral parse_one_def parse_attr_name_def
      parse_attr_body_def layout_defs HEADER_MIN_def RESIDENT_MIN_def le_read_defs get_range_def
      from_le_bytes_def usize_checked_add_def idx_def cong: and_then_weak_cong)

definition tiny_name :: file_name where
  "tiny_name = \<lparr>parent = \<lparr>fr_record_number = 5, fr_sequence = 5\<rparr>, fn_created = Filetime 0,
     fn_modified = Filetime 0, fn_mft_modified = Filetime 0, fn_accessed = Filetime 0,
     fn_allocated_size = 0, fn_real_size = 0, fn_flags = 0, namespace = 1, fn_name = [97]\<rparr>"

lemma tiny_mft_name: "fn_of tiny_mft_record tiny_name_attr = Some tiny_name"
proof -
  have "file_reference_raw (parent tiny_name) = 0x0005000000000005"
    by (simp add: tiny_name_def file_reference_raw_def)
  then have "resident_content tiny_name_attr tiny_mft_record = Some (file_name_bytes [0, 0, 0, 0] tiny_name @ [])"
    by (simp add: file_name_bytes_def resident_content_def tiny_name_attr_def tiny_mft_record_def
        usize_checked_add_def get_range_def)
      (simp add: tiny_name_def encode_utf16_def encode_char_def le_bytes_numeral)
  moreover have "file_name_ok tiny_name"
    by (simp add: tiny_name_def file_name_ok_def scalar_def encode_utf16_def encode_char_def)
  ultimately show ?thesis
    using file_name_parse_bytes [of tiny_name "[0, 0, 0, 0]" "[]"] by (simp add: fn_of_def)
qed

lemma tiny_mft_parse:
  "\<exists>d e. mft_data_parse ntfs_layout C tiny_mft_record = Ok d \<and> md_entries d = [e] \<and>
     entry_key_of e = \<lparr>ek_entry = 20, ek_sequence = 1\<rparr> \<and>
     entry_info_of e = \<lparr>ei_name = [97], ei_parent = \<lparr>ek_entry = 5, ek_sequence = 5\<rparr>\<rparr>"
proof -
  obtain h where h: "header_parse ntfs_layout tiny_mft_record = Ok h" "first_attribute_offset h = 56"
      "record_number h = 20" "sequence_number h = 1"
    using tiny_mft_header by blast
  let ?e = "build_entry ntfs_layout C tiny_mft_record h [tiny_name_attr] tiny_name"
  have len: "length tiny_mft_record = REC" "get_range tiny_mft_record 0 4 = Some FILE_SIGNATURE"
    by (simp_all add: tiny_mft_record_def REC_def get_range_def FILE_SIGNATURE_def)
  have "best_file_name tiny_mft_record [tiny_name_attr] None = Some (3, tiny_name)"
    by (simp add: tiny_mft_name) (simp add: tiny_name_attr_def tiny_name_def name_priority_def)
  then have chunk: "parse_chunk ntfs_layout C tiny_mft_record = Ok (Some ?e)"
    using len tiny_mft_fixup h tiny_mft_attributes by (simp add: parse_chunk_def)
  have "mft_chunks tiny_mft_record = [tiny_mft_record]"
    using len(1) by (subst mft_chunks.simps, subst mft_chunks.simps) (auto simp: REC_def)
  then have "\<exists>d p. mft_data_parse ntfs_layout C tiny_mft_record = Ok d \<and> md_entries d = [set_path (?e, p)]"
    using chunk by (auto simp: mft_data_parse_def push_entry_def Let_def)
  moreover have "entry_key_of (set_path (?e, p)) = \<lparr>ek_entry = 20, ek_sequence = 1\<rparr>"
    "entry_info_of (set_path (?e, p)) = \<lparr>ei_name = [97], ei_parent = \<lparr>ek_entry = 5, ek_sequence = 5\<rparr>\<rparr>" for p
    using h by (simp_all add: build_entry_def entry_key_of_def entry_info_of_def set_path_def tiny_name_def
        split: prod.split)
  ultimately show ?thesis
    by blast
qed

section \<open>Properties\<close>

text \<open>
  Claim C33. The MFT table is built without error or panic from any data, and its indexes are
  exact: each leads to the last entry with that number, or with that number and sequence,
  and the rewind engine seeded from the table answers as the second index does.
\<close>

theorem mft_data_indexes:
  assumes "attr_in_header N"
  shows "\<exists>d. mft_data_parse N C data = Ok d \<and>
    md_by_entry d = last_index me_entry_number (md_entries d) \<and>
    md_by_key d = last_index entry_key_of (md_entries d) \<and>
    (\<forall>k. re_lookup (seed_rewind d) k = map_option entry_info_of (get_by_key d k))"
  using mft_data_parse_indexed [OF assms, of C data] seed_rewind_lookup by (auto simp: indexed_def)

theorem mft_data_indexes_witness:
  "\<exists>d. mft_data_parse ntfs_layout sample_chrono tiny_mft_record = Ok d \<and> length (md_entries d) = 1 \<and>
     md_by_entry d 20 = Some 0 \<and> md_by_key d \<lparr>ek_entry = 20, ek_sequence = 1\<rparr> = Some 0 \<and> md_by_entry d 21 = None"
proof -
  obtain d e where d: "mft_data_parse ntfs_layout sample_chrono tiny_mft_record = Ok d" "md_entries d = [e]"
      "entry_key_of e = \<lparr>ek_entry = 20, ek_sequence = 1\<rparr>"
    using tiny_mft_parse by blast
  then have "me_entry_number e = 20"
    by (simp add: entry_key_of_def)
  then show ?thesis
    using mft_data_indexes [OF documented_attr [OF documented_ntfs_layout], of sample_chrono tiny_mft_record] d
    by (auto simp: last_index_snoc [where es = "[]", simplified])
qed

text \<open>
  Claim C34. On intact chains the two path resolvers agree. Let a table hold each record number once,
  and let the parents of an entry, followed by number and sequence number, all be in the table up to
  the root within the 256 steps both resolvers allow. Then the full path the entry is given and the
  path the seeded rewind engine resolves both are the names along that chain. (On a missing or
  re-used parent they differ.)
\<close>

theorem full_path_agrees_with_rewind:
  assumes "mft_data_parse N C data = Ok d" "attr_in_header N"
    "distinct (map me_entry_number (md_entries d))" "i < length (md_entries d)"
    "\<not> is_root (entry_key_of (md_entries d ! i))"
    "tree_path (re_lookup (seed_rewind d)) (entry_key_of (md_entries d ! i)) n p" "n \<le> 256"
  shows "me_full_path (md_entries d ! i) = p \<and>
    engine_resolve_path (seed_rewind d) (entry_key_of (md_entries d ! i)) = p"
  using full_path_tree [OF assms] resolve_tree_path [OF assms(6), of 0] assms(7)
  by (simp add: engine_resolve_path_def)

theorem full_path_agrees_with_rewind_witness:
  "\<exists>d. mft_data_parse ntfs_layout sample_chrono tiny_mft_record = Ok d \<and>
     me_full_path (md_entries d ! 0) = [46, 92, 97]"
proof -
  obtain d e where d: "mft_data_parse ntfs_layout sample_chrono tiny_mft_record = Ok d" "md_entries d = [e]"
      "entry_key_of e = \<lparr>ek_entry = 20, ek_sequence = 1\<rparr>"
      "entry_info_of e = \<lparr>ei_name = [97], ei_parent = \<lparr>ek_entry = 5, ek_sequence = 5\<rparr>\<rparr>"
    using tiny_mft_parse by blast
  have L: "re_lookup (seed_rewind d) \<lparr>ek_entry = 20, ek_sequence = 1\<rparr> =
      Some \<lparr>ei_name = [97], ei_parent = \<lparr>ek_entry = 5, ek_sequence = 5\<rparr>\<rparr>"
    using d(2-4) by (simp add: seed_rewind_def engine_insert_def entry_key_of_def entry_info_of_def)
  have "tree_path (re_lookup (seed_rewind d)) \<lparr>ek_entry = 20, ek_sequence = 1\<rparr> 1 (lit ''.'' @ [92] @ [97])"
    using tree_path.below [where T = "re_lookup (seed_rewind d)", OF _ L, of 0 "lit ''.''"]
      tree_path.at_root [of "\<lparr>ek_entry = 5, ek_sequence = 5\<rparr>" "re_lookup (seed_rewind d)"]
    by (simp add: is_root_def)
  then have "me_full_path (md_entries d ! 0) = lit ''.'' @ [92] @ [97]"
    using full_path_agrees_with_rewind [OF d(1) documented_attr [OF documented_ntfs_layout], of 0 1] d
    by (simp add: is_root_def)
  with d(1) show ?thesis
    by (auto simp: lit_def)
qed

text \<open>
  The timestamp conversion, exactly: an unset time has no date; any other is the whole
  number of seconds since 1970 rounded towards zero together with the fraction counted from
  the second below. From 1970 on that is the time itself; an earlier time with a fraction
  comes out one second late.
\<close>

theorem to_datetime_value:
  "to_datetime C (Filetime t) =
     (if t = 0 then None
      else let x = uint t - 116444736000000000
           in from_timestamp C (x div 10000000 + (if x < 0 \<and> x mod 10000000 \<noteq> 0 then 1 else 0))
                (x mod 10000000 * 100))"
proof -
  define x where "x = uint t - 116444736000000000"
  have nanos: "x * 100 mod 1000000000 = x mod 10000000 * 100"
    using mult_mod_left [of x 10000000 100] by simp
  have "x mod 10000000 < 10000000"
    by simp
  then have range: "0 \<le> x mod 10000000 * 100" "x mod 10000000 * 100 < 2 ^ 32"
    by simp_all
  have secs: "i128_div x 10000000 = x div 10000000 + (if x < 0 \<and> x mod 10000000 \<noteq> 0 then 1 else 0)"
  proof (cases "x < 0")
    case True
    then have "i128_div x 10000000 = - ((- x) div 10000000)"
      by (rule i128_div_neg) simp
    with True show ?thesis
      using zdiv_zminus1_eq_if [of 10000000 x] by auto
  next
    case False
    then show ?thesis by (simp add: i128_div_nonneg)
  qed
  show ?thesis
    using nanos range secs
    by (simp add: to_datetime_def is_zero_def Let_def to_unix_seconds_def to_unix_nanos_def
        FILETIME_TO_UNIX_100NS_def flip: x_def)
qed

end
