(* ===== verification/Correlation.thy ===== *)
theory Correlation
  imports Analysis Usn_Extractor Mft_Data
begin

text \<open>
  \<open>forensic/src/correlation.rs\<close>: the correlation of the change journal, the records recovered
  from the log file and the file table. The parameters are those of the detectors, and
  \<open>secs\<close>, the whole seconds of an instant (\<open>DateTime::timestamp\<close>). \<open>sort_by_key\<close> is a stable
  sort, as \<open>sort_key\<close> is.
\<close>

section \<open>Data\<close>

datatype event_source = FromUsnJournal | FromLogFile | FromBoth

record 'dt correlated_event =
  ce_record :: "'dt usn_record"
  ce_source :: event_source
  ce_lsn :: "u64 option"

record 'dt ghost_record =
  gr_record :: "'dt usn_record"
  gr_lsn :: u64

record 'dt coverage_analysis =
  ca_usn_earliest_ts :: 'dt
  ca_usn_latest_ts :: 'dt
  ca_usn_record_count :: nat
  ca_logfile_earliest_ts :: "'dt option"
  ca_logfile_latest_ts :: "'dt option"
  ca_logfile_record_count :: nat
  ca_logfile_extends_before_usn :: bool

datatype timestamp_conflict_type = SiPredatesUsnCreate

record 'dt timestamp_conflict =
  tc_mft_entry :: u64
  tc_filename :: ustring
  tc_conflict_type :: timestamp_conflict_type
  tc_si_timestamp :: 'dt
  tc_usn_timestamp :: 'dt

record 'dt entry_reuse =
  er_mft_entry :: u64
  er_old_sequence :: u16
  er_new_sequence :: u16
  er_old_filename :: ustring
  er_new_filename :: ustring
  er_reuse_timestamp :: 'dt

record 'dt tri_force_report =
  tf_timeline_event_count :: nat
  tf_ghost_record_count :: nat
  tf_journal_clearing_suspected :: bool
  tf_timestamp_conflict_count :: nat
  tf_entry_reuse_count :: nat
  tf_coverage :: "'dt coverage_analysis"

record 'dt file_activity_summary =
  fa_mft_entry :: u64
  fa_mft_sequence :: u16
  fa_filename :: ustring
  fa_event_count :: nat
  fa_first_seen :: 'dt
  fa_last_seen :: 'dt
  fa_reasons :: u32

section \<open>The timeline\<close>

type_synonym dedup_key = "u64 \<times> int \<times> int"

definition dedup_key :: "('dt \<Rightarrow> int) \<Rightarrow> 'dt usn_record \<Rightarrow> dedup_key" where
  "dedup_key secs r = (mft_entry r, usn r, secs (timestamp r))"

fun logfile_by_key ::
  "('dt \<Rightarrow> int) \<Rightarrow> 'dt log_file_usn_record list \<Rightarrow> (dedup_key \<Rightarrow> u64 option) \<Rightarrow> dedup_key \<Rightarrow> u64 option" where
  "logfile_by_key secs [] m = m"
| "logfile_by_key secs (lr # lrs) m = logfile_by_key secs lrs (m(dedup_key secs (lur_record lr) \<mapsto> lur_lsn lr))"

fun usn_events ::
  "('dt \<Rightarrow> int) \<Rightarrow> (dedup_key \<Rightarrow> u64 option) \<Rightarrow> 'dt usn_record list \<Rightarrow>
   'dt correlated_event list \<Rightarrow> dedup_key set \<Rightarrow> 'dt correlated_event list \<times> dedup_key set" where
  "usn_events secs by_key [] events seen = (events, seen)"
| "usn_events secs by_key (r # rs) events seen =
     (let key = dedup_key secs r;
          (source, l) = (case by_key key of Some l \<Rightarrow> (FromBoth, Some l) | None \<Rightarrow> (FromUsnJournal, None)) in
      usn_events secs by_key rs
        (events @ [\<lparr>ce_record = r, ce_source = source, ce_lsn = l\<rparr>]) (insert key seen))"

fun logfile_events ::
  "('dt \<Rightarrow> int) \<Rightarrow> dedup_key set \<Rightarrow> 'dt log_file_usn_record list \<Rightarrow>
   'dt correlated_event list \<Rightarrow> 'dt correlated_event list" where
  "logfile_events secs seen [] events = events"
| "logfile_events secs seen (lr # lrs) events =
     logfile_events secs seen lrs
       (if dedup_key secs (lur_record lr) \<notin> seen
        then events @ [\<lparr>ce_record = lur_record lr, ce_source = FromLogFile, ce_lsn = Some (lur_lsn lr)\<rparr>]
        else events)"

definition build_timeline ::
  "('dt::linorder \<Rightarrow> int) \<Rightarrow> 'dt usn_record list \<Rightarrow> 'dt log_file_usn_record list \<Rightarrow> 'dt correlated_event list" where
  "build_timeline secs usn_records logfile_records =
     (let by_key = logfile_by_key secs logfile_records (\<lambda>_. None);
          (events, seen) = usn_events secs by_key usn_records [] {} in
      sort_key (\<lambda>e. timestamp (ce_record e)) (logfile_events secs seen logfile_records events))"

definition find_ghost_records ::
  "('dt \<Rightarrow> int) \<Rightarrow> 'dt usn_record list \<Rightarrow> 'dt log_file_usn_record list \<Rightarrow> 'dt ghost_record list" where
  "find_ghost_records secs usn_records logfile_records =
     (let usn_keys = set (map (dedup_key secs) usn_records) in
      map (\<lambda>lr. \<lparr>gr_record = lur_record lr, gr_lsn = lur_lsn lr\<rparr>)
        (filter (\<lambda>lr. dedup_key secs (lur_record lr) \<notin> usn_keys) logfile_records))"

section \<open>Coverage, conflicts, reuse\<close>

definition analyze_coverage ::
  "'dt::linorder chrono \<Rightarrow> 'dt usn_record list \<Rightarrow> 'dt log_file_usn_record list \<Rightarrow> 'dt coverage_analysis" where
  "analyze_coverage C usn_records logfile_records =
     (let usn_earliest = iter_min (map timestamp usn_records);
          usn_latest = iter_max (map timestamp usn_records);
          lf_earliest = iter_min (map (\<lambda>r. timestamp (lur_record r)) logfile_records);
          lf_latest = iter_max (map (\<lambda>r. timestamp (lur_record r)) logfile_records);
          epoch = (case from_timestamp C 0 0 of Some t \<Rightarrow> t | None \<Rightarrow> dt_default C) in
      \<lparr>ca_usn_earliest_ts = (case usn_earliest of Some t \<Rightarrow> t | None \<Rightarrow> epoch),
       ca_usn_latest_ts = (case usn_latest of Some t \<Rightarrow> t | None \<Rightarrow> epoch),
       ca_usn_record_count = length usn_records,
       ca_logfile_earliest_ts = lf_earliest, ca_logfile_latest_ts = lf_latest,
       ca_logfile_record_count = length logfile_records,
       ca_logfile_extends_before_usn =
         (case (usn_earliest, lf_earliest) of (Some usn_e, Some lf_e) \<Rightarrow> lf_e < usn_e | _ \<Rightarrow> False)\<rparr>)"

fun create_times :: "'dt::linorder usn_record list \<Rightarrow> (u64 \<Rightarrow> 'dt option) \<Rightarrow> u64 \<Rightarrow> 'dt option" where
  "create_times [] m = m"
| "create_times (r # rs) m =
     create_times rs
       (if has_reason FILE_CREATE r
        then m(mft_entry r \<mapsto> (case m (mft_entry r) of
               Some existing \<Rightarrow> if timestamp r < existing then timestamp r else existing
             | None \<Rightarrow> timestamp r))
        else m)"

text \<open>\<open>Duration::num_seconds\<close> drops the fraction of a difference that is not negative.\<close>

definition conflict_of ::
  "('dt::linorder \<Rightarrow> 'dt \<Rightarrow> int) \<Rightarrow> (u64 \<Rightarrow> 'dt option) \<Rightarrow> 'dt mft_entry \<Rightarrow> 'dt timestamp_conflict list" where
  "conflict_of since create_ts entry =
     (case create_ts (me_entry_number entry) of
        Some usn_create_ts \<Rightarrow>
          (case me_si_created entry of
             Some si \<Rightarrow>
               if si < usn_create_ts \<and> since usn_create_ts si div 1000000000 > 2
               then [\<lparr>tc_mft_entry = me_entry_number entry, tc_filename = me_filename entry,
                      tc_conflict_type = SiPredatesUsnCreate, tc_si_timestamp = si,
                      tc_usn_timestamp = usn_create_ts\<rparr>]
               else []
           | None \<Rightarrow> [])
      | None \<Rightarrow> [])"

definition find_timestamp_conflicts ::
  "('dt::linorder \<Rightarrow> 'dt \<Rightarrow> int) \<Rightarrow> 'dt usn_record list \<Rightarrow> 'dt mft_entry list \<Rightarrow> 'dt timestamp_conflict list" where
  "find_timestamp_conflicts since usn_records mft_entries =
     concat (map (conflict_of since (create_times usn_records (\<lambda>_. None))) mft_entries)"

fun reuse_loop ::
  "'dt usn_record list \<Rightarrow> (u64 \<Rightarrow> (u16 \<times> ustring) option) \<Rightarrow> 'dt entry_reuse list" where
  "reuse_loop [] last_seen = []"
| "reuse_loop (r # rs) last_seen =
     (case last_seen (mft_entry r) of
        Some (prev_seq, prev_name) \<Rightarrow>
          if prev_seq \<noteq> mft_sequence r
          then [\<lparr>er_mft_entry = mft_entry r, er_old_sequence = prev_seq, er_new_sequence = mft_sequence r,
                 er_old_filename = prev_name, er_new_filename = filename r,
                 er_reuse_timestamp = timestamp r\<rparr>]
          else []
      | None \<Rightarrow> []) @
     reuse_loop rs (last_seen(mft_entry r \<mapsto> (mft_sequence r, filename r)))"

definition detect_entry_reuse :: "'dt::linorder usn_record list \<Rightarrow> 'dt entry_reuse list" where
  "detect_entry_reuse usn_records = reuse_loop (sort_key timestamp usn_records) (\<lambda>_. None)"

definition generate_report ::
  "('dt::linorder \<Rightarrow> int) \<Rightarrow> ('dt \<Rightarrow> 'dt \<Rightarrow> int) \<Rightarrow> 'dt chrono \<Rightarrow> 'dt usn_record list \<Rightarrow>
   'dt log_file_usn_record list \<Rightarrow> 'dt mft_entry list \<Rightarrow> 'dt tri_force_report" where
  "generate_report secs since C usn_records logfile_records mft_entries =
     (let timeline = build_timeline secs usn_records logfile_records;
          ghosts = find_ghost_records secs usn_records logfile_records;
          coverage = analyze_coverage C usn_records logfile_records;
          conflicts = find_timestamp_conflicts since usn_records mft_entries;
          reuses = detect_entry_reuse usn_records in
      \<lparr>tf_timeline_event_count = length timeline, tf_ghost_record_count = length ghosts,
       tf_journal_clearing_suspected = ca_logfile_extends_before_usn coverage,
       tf_timestamp_conflict_count = length conflicts, tf_entry_reuse_count = length reuses,
       tf_coverage = coverage\<rparr>)"

section \<open>Activity per file\<close>

definition new_summary :: "'dt usn_record \<Rightarrow> 'dt file_activity_summary" where
  "new_summary r = \<lparr>fa_mft_entry = mft_entry r, fa_mft_sequence = mft_sequence r, fa_filename = filename r,
     fa_event_count = 1, fa_first_seen = timestamp r, fa_last_seen = timestamp r, fa_reasons = reason r\<rparr>"

definition add_to_summary ::
  "'dt::linorder usn_record \<Rightarrow> 'dt file_activity_summary \<Rightarrow> 'dt file_activity_summary" where
  "add_to_summary r s =
     s\<lparr>fa_event_count := fa_event_count s + 1,
       fa_first_seen := (if timestamp r < fa_first_seen s then timestamp r else fa_first_seen s),
       fa_last_seen := (if timestamp r > fa_last_seen s then timestamp r else fa_last_seen s),
       fa_reasons := fa_reasons s OR reason r,
       fa_filename := filename r\<rparr>"

text \<open>\<open>map.entry(key).and_modify(..).or_insert(..)\<close> on an association list.\<close>

fun summary_push ::
  "u64 \<times> u16 \<Rightarrow> 'dt::linorder usn_record \<Rightarrow> ((u64 \<times> u16) \<times> 'dt file_activity_summary) list \<Rightarrow>
   ((u64 \<times> u16) \<times> 'dt file_activity_summary) list" where
  "summary_push k r [] = [(k, new_summary r)]"
| "summary_push k r ((k', s) # m) =
     (if k = k' then (k', add_to_summary r s) # m else (k', s) # summary_push k r m)"

fun summaries ::
  "'dt::linorder usn_record list \<Rightarrow> ((u64 \<times> u16) \<times> 'dt file_activity_summary) list \<Rightarrow>
   ((u64 \<times> u16) \<times> 'dt file_activity_summary) list" where
  "summaries [] m = m"
| "summaries (r # rs) m = summaries rs (summary_push (mft_entry r, mft_sequence r) r m)"

definition summarize_file_activity ::
  "(((u64 \<times> u16) \<times> 'dt::linorder file_activity_summary) list \<Rightarrow>
    ((u64 \<times> u16) \<times> 'dt file_activity_summary) list) \<Rightarrow>
   'dt usn_record list \<Rightarrow> 'dt file_activity_summary list" where
  "summarize_file_activity order usn_records =
     sort_key fa_first_seen (map snd (order (summaries usn_records [])))"

section \<open>What the loops collect\<close>

text \<open>The sequence number the log gives for a key: that of its last record.\<close>

definition log_lsn :: "('dt \<Rightarrow> int) \<Rightarrow> 'dt log_file_usn_record list \<Rightarrow> dedup_key \<Rightarrow> u64 option" where
  "log_lsn secs lrs k = map_option lur_lsn (find (\<lambda>lr. dedup_key secs (lur_record lr) = k) (rev lrs))"

lemma logfile_by_key_spec:
  "logfile_by_key secs lrs m k = (case log_lsn secs lrs k of Some l \<Rightarrow> Some l | None \<Rightarrow> m k)"
proof (induction lrs arbitrary: m)
  case (Cons lr lrs)
  have "find P (xs @ [x]) = (case find P xs of Some y \<Rightarrow> Some y | None \<Rightarrow> if P x then Some x else None)"
    for P xs and x :: "'a log_file_usn_record"
    by (induction xs) auto
  with Cons show ?case
    by (auto simp: log_lsn_def split: option.splits)
qed (simp add: log_lsn_def)

definition usn_event ::
  "('dt \<Rightarrow> int) \<Rightarrow> (dedup_key \<Rightarrow> u64 option) \<Rightarrow> 'dt usn_record \<Rightarrow> 'dt correlated_event" where
  "usn_event secs by_key r =
     \<lparr>ce_record = r, ce_source = (if by_key (dedup_key secs r) = None then FromUsnJournal else FromBoth),
      ce_lsn = by_key (dedup_key secs r)\<rparr>"

definition log_event :: "'dt log_file_usn_record \<Rightarrow> 'dt correlated_event" where
  "log_event lr = \<lparr>ce_record = lur_record lr, ce_source = FromLogFile, ce_lsn = Some (lur_lsn lr)\<rparr>"

lemma usn_events_spec:
  "usn_events secs by_key rs events seen =
     (events @ map (usn_event secs by_key) rs, seen \<union> dedup_key secs ` set rs)"
  by (induction rs arbitrary: events seen) (auto simp: usn_event_def Let_def split: option.splits)

lemma logfile_events_spec:
  "logfile_events secs seen lrs events =
     events @ map log_event (filter (\<lambda>lr. dedup_key secs (lur_record lr) \<notin> seen) lrs)"
  by (induction lrs arbitrary: events) (auto simp: log_event_def)

lemma build_timeline_events:
  "build_timeline secs us lrs =
     sort_key (\<lambda>e. timestamp (ce_record e))
       (map (usn_event secs (log_lsn secs lrs)) us @
        map log_event (filter (\<lambda>lr. dedup_key secs (lur_record lr) \<notin> dedup_key secs ` set us) lrs))"
proof -
  have "logfile_by_key secs lrs (\<lambda>_. None) = log_lsn secs lrs"
    by (simp add: fun_eq_iff logfile_by_key_spec split: option.split)
  then show ?thesis
    by (simp add: build_timeline_def usn_events_spec logfile_events_spec)
qed

lemma map_sort_key: "map g (sort_key (\<lambda>x. f (g x)) xs) = sort_key f (map g xs)"
proof -
  have "map g (insort_key (\<lambda>x. f (g x)) x ys) = insort_key f (g x) (map g ys)" for x ys
    by (induction ys) auto
  then show ?thesis
    by (induction xs) simp_all
qed

lemma iter_min_Min: "iter_min xs = (if xs = [] then None else Some (Min (set xs)))"
proof (cases xs)
  case (Cons a as)
  then show ?thesis
    using Min.set_eq_fold [of a as] by simp
qed simp

lemma usn_event_source [simp]: "ce_source (usn_event secs m r) \<noteq> FromLogFile" "ce_record (usn_event secs m r) = r"
  by (simp_all add: usn_event_def)

lemma log_event_fields [simp]:
  "ce_source (log_event lr) = FromLogFile" "ce_record (log_event lr) = lur_record lr"
  "ce_lsn (log_event lr) = Some (lur_lsn lr)"
  by (simp_all add: log_event_def)

text \<open>An event of the journal carries the log's sequence number exactly when the log has its key.\<close>

definition log_matched :: "('dt \<Rightarrow> int) \<Rightarrow> 'dt log_file_usn_record list \<Rightarrow> 'dt correlated_event \<Rightarrow> bool" where
  "log_matched secs lrs e \<longleftrightarrow>
     (case ce_source e of
        FromLogFile \<Rightarrow> \<exists>lr \<in> set lrs. e = log_event lr
      | FromBoth \<Rightarrow> ce_lsn e = log_lsn secs lrs (dedup_key secs (ce_record e)) \<and> ce_lsn e \<noteq> None
      | FromUsnJournal \<Rightarrow> log_lsn secs lrs (dedup_key secs (ce_record e)) = None \<and> ce_lsn e = None)"

text \<open>The earliest creation of each file.\<close>

definition creations :: "'dt usn_record list \<Rightarrow> u64 \<Rightarrow> 'dt set" where
  "creations us k = timestamp ` {r \<in> set us. mft_entry r = k \<and> has_reason FILE_CREATE r}"

lemma create_times_spec:
  "create_times us m k =
     (case m k of
        Some t \<Rightarrow> Some (Min (insert t (creations us k)))
      | None \<Rightarrow> if creations us k = {} then None else Some (Min (creations us k)))"
proof (induction us arbitrary: m)
  case Nil
  then show ?case
    by (simp add: creations_def split: option.split)
next
  case (Cons r us)
  have fin: "finite (creations us k)"
    by (simp add: creations_def)
  have split: "creations (r # us) k =
      (if mft_entry r = k \<and> has_reason FILE_CREATE r then insert (timestamp r) (creations us k) else creations us k)"
    by (auto simp: creations_def)
  from fin show ?case
    by (auto simp: Cons.IH split min.assoc [symmetric] not_less split: option.split)
qed

lemma create_times_first:
  "create_times us (\<lambda>_. None) k = (if creations us k = {} then None else Some (Min (creations us k)))"
  by (simp add: create_times_spec)

text \<open>Consecutive records of one file whose sequence numbers differ.\<close>

fun reuse_pairs :: "'dt usn_record list \<Rightarrow> 'dt entry_reuse list" where
  "reuse_pairs (a # b # rs) =
     (if mft_sequence a \<noteq> mft_sequence b
      then [\<lparr>er_mft_entry = mft_entry b, er_old_sequence = mft_sequence a, er_new_sequence = mft_sequence b,
             er_old_filename = filename a, er_new_filename = filename b, er_reuse_timestamp = timestamp b\<rparr>]
      else []) @ reuse_pairs (b # rs)"
| "reuse_pairs _ = []"

lemma reuse_loop_pairs:
  fixes rs :: "'dt usn_record list"
  shows "(last_seen k = Some (mft_sequence a, filename a) \<longrightarrow>
      filter (\<lambda>u. er_mft_entry u = k) (reuse_loop rs last_seen) =
        reuse_pairs ((a :: 'dt usn_record) # filter (\<lambda>r. mft_entry r = k) rs)) \<and>
    (last_seen k = None \<longrightarrow>
      filter (\<lambda>u. er_mft_entry u = k) (reuse_loop rs last_seen) = reuse_pairs (filter (\<lambda>r. mft_entry r = k) rs))"
proof (induction rs arbitrary: last_seen a)
  case (Cons r rs)
  define ls where "ls = last_seen(mft_entry r \<mapsto> (mft_sequence r, filename r))"
  have ls: "mft_entry r = k \<Longrightarrow> ls k = Some (mft_sequence r, filename r)"
    "mft_entry r \<noteq> k \<Longrightarrow> ls k = last_seen k"
    by (auto simp: ls_def)
  show ?case
    using Cons.IH [of ls r] Cons.IH [of ls a] ls
    by (cases "mft_entry r = k") (auto simp flip: ls_def split: option.split)
qed simp

text \<open>How often a key occurs in the timeline.\<close>

lemma timeline_key_count:
  "length (filter (\<lambda>e. dedup_key secs (ce_record e) = k) (build_timeline secs us lrs)) =
     (if k \<in> dedup_key secs ` set us then length (filter (\<lambda>r. dedup_key secs r = k) us)
      else length (filter (\<lambda>lr. dedup_key secs (lur_record lr) = k) lrs))"
proof -
  let ?P = "\<lambda>lr. dedup_key secs (lur_record lr) = k" and ?G = "\<lambda>lr. dedup_key secs (lur_record lr) \<notin> dedup_key secs ` set us"
  have "length (filter (\<lambda>e. dedup_key secs (ce_record e) = k) (build_timeline secs us lrs)) =
      length (filter (\<lambda>r. dedup_key secs r = k) us) + length (filter ?P (filter ?G lrs))"
    by (simp add: build_timeline_events filter_sort filter_map o_def)
  moreover have "filter ?P (filter ?G lrs) = (if k \<in> dedup_key secs ` set us then [] else filter ?P lrs)"
    by (auto simp: filter_empty_conv intro!: filter_cong)
  moreover have "k \<notin> dedup_key secs ` set us \<Longrightarrow> filter (\<lambda>r. dedup_key secs r = k) us = []"
    by (auto simp: filter_empty_conv)
  ultimately show ?thesis
    by auto
qed

text \<open>
  Records the log repeats are not merged, although the timeline is documented as deduplicated: the
  loop over the log tests the keys of the journal and adds none of its own.
\<close>

lemma repeated_log_record_kept: "build_timeline secs [] [lr, lr] = [log_event lr, log_event lr]"
  by (simp add: build_timeline_events)

section \<open>Properties\<close>

text \<open>
  Claim C40. The timeline merges the two sources without loss and in time order. Its events of the
  journal are the journal's records, stably sorted by time; its events found only in the log are the
  log's records whose key (file, journal position, second) no journal record has, likewise sorted, and
  these are the ghost records. An event of the journal is marked as confirmed by the log, with the
  sequence number of the last such log record, exactly when the log has a record of its key. So a key
  of the journal occurs in the timeline as often as in the journal, however often the log has it, and
  a key the journal lacks as often as in the log: repetitions within one source are kept.
\<close>

theorem build_timeline_exact:
  "sorted (map (\<lambda>e. timestamp (ce_record e)) (build_timeline secs us lrs)) \<and>
   map ce_record (filter (\<lambda>e. ce_source e \<noteq> FromLogFile) (build_timeline secs us lrs)) =
     sort_key timestamp us \<and>
   filter (\<lambda>e. ce_source e = FromLogFile) (build_timeline secs us lrs) =
     map log_event (sort_key (\<lambda>lr. timestamp (lur_record lr))
       (filter (\<lambda>lr. dedup_key secs (lur_record lr) \<notin> dedup_key secs ` set us) lrs)) \<and>
   map (\<lambda>e. \<lparr>gr_record = ce_record e, gr_lsn = the (ce_lsn e)\<rparr>)
       (filter (\<lambda>e. ce_source e = FromLogFile) (build_timeline secs us lrs)) =
     sort_key (\<lambda>g. timestamp (gr_record g)) (find_ghost_records secs us lrs) \<and>
   list_all (log_matched secs lrs) (build_timeline secs us lrs) \<and>
   length (filter (\<lambda>e. dedup_key secs (ce_record e) = k) (build_timeline secs us lrs)) =
     (if k \<in> dedup_key secs ` set us then length (filter (\<lambda>r. dedup_key secs r = k) us)
      else length (filter (\<lambda>lr. dedup_key secs (lur_record lr) = k) lrs))"
proof (intro conjI)
  let ?ghosts = "filter (\<lambda>lr. dedup_key secs (lur_record lr) \<notin> dedup_key secs ` set us) lrs"
  show "sorted (map (\<lambda>e. timestamp (ce_record e)) (build_timeline secs us lrs))"
    by (simp add: build_timeline_events)
  show "map ce_record (filter (\<lambda>e. ce_source e \<noteq> FromLogFile) (build_timeline secs us lrs)) = sort_key timestamp us"
    using map_sort_key [of ce_record timestamp "map (usn_event secs (log_lsn secs lrs)) us"]
    by (simp add: build_timeline_events filter_sort filter_map o_def)
  show "filter (\<lambda>e. ce_source e = FromLogFile) (build_timeline secs us lrs) =
     map log_event (sort_key (\<lambda>lr. timestamp (lur_record lr)) ?ghosts)"
    using map_sort_key [of log_event "\<lambda>e. timestamp (ce_record e)" ?ghosts]
    by (simp add: build_timeline_events filter_sort filter_map o_def)
  show "map (\<lambda>e. \<lparr>gr_record = ce_record e, gr_lsn = the (ce_lsn e)\<rparr>)
       (filter (\<lambda>e. ce_source e = FromLogFile) (build_timeline secs us lrs)) =
     sort_key (\<lambda>g. timestamp (gr_record g)) (find_ghost_records secs us lrs)"
    using map_sort_key [of "\<lambda>e. \<lparr>gr_record = ce_record e, gr_lsn = the (ce_lsn e)\<rparr>" "\<lambda>g. timestamp (gr_record g)"
        "map log_event ?ghosts"]
    by (simp add: build_timeline_events filter_sort filter_map o_def find_ghost_records_def Let_def)
  show "list_all (log_matched secs lrs) (build_timeline secs us lrs)"
    by (auto simp: build_timeline_events list_all_iff log_matched_def usn_event_def)
qed (rule timeline_key_count)

text \<open>
  Reuse of a file-table entry is reported exactly: for every entry, one report for each pair
  of records of that entry that follow one another in (stable) time order and have different
  sequence numbers, with the names and numbers of both and the time of the later one.
\<close>

theorem entry_reuse_exact:
  "filter (\<lambda>u. er_mft_entry u = k) (detect_entry_reuse us) =
     reuse_pairs (sort_key timestamp (filter (\<lambda>r. mft_entry r = k) us))"
  using reuse_loop_pairs [of "\<lambda>_. None" k _ "sort_key timestamp us"]
  by (simp add: detect_entry_reuse_def filter_sort)

text \<open>
  The report adds up. The timeline has as many events as there are journal records and ghost
  records together; clearing is suspected exactly when the journal is not empty and some
  record of the log is older than all of it; and the conflicts are the files whose stored
  creation time is at least three seconds before their earliest creation in the journal.
\<close>

theorem generate_report_exact:
  assumes "clock_ok since"
  shows "tf_timeline_event_count (generate_report secs since C us lrs es) =
      length us + tf_ghost_record_count (generate_report secs since C us lrs es) \<and>
    (tf_journal_clearing_suspected (generate_report secs since C us lrs es) \<longleftrightarrow>
       us \<noteq> [] \<and> list_ex (\<lambda>lr. list_all (\<lambda>u. timestamp (lur_record lr) < timestamp u) us) lrs) \<and>
    tf_timestamp_conflict_count (generate_report secs since C us lrs es) =
      length (filter (\<lambda>e. case me_si_created e of
           Some si \<Rightarrow> creations us (me_entry_number e) \<noteq> {} \<and>
             seconds 3 \<le> since (Min (creations us (me_entry_number e))) si
         | None \<Rightarrow> False) es)"
proof (intro conjI)
  show "tf_timeline_event_count (generate_report secs since C us lrs es) =
      length us + tf_ghost_record_count (generate_report secs since C us lrs es)"
    by (simp add: generate_report_def Let_def build_timeline_events find_ghost_records_def)
  have "(Min (timestamp ` lur_record ` set lrs) < Min (timestamp ` set us)) \<longleftrightarrow>
      (\<exists>lr \<in> set lrs. \<forall>u \<in> set us. timestamp (lur_record lr) < timestamp u)" if "us \<noteq> []" "lrs \<noteq> []"
    using that by (subst Min_less_iff) simp_all
  then show "tf_journal_clearing_suspected (generate_report secs since C us lrs es) \<longleftrightarrow>
       us \<noteq> [] \<and> list_ex (\<lambda>lr. list_all (\<lambda>u. timestamp (lur_record lr) < timestamp u) us) lrs"
    by (auto simp: generate_report_def Let_def analyze_coverage_def iter_min_Min list_ex_iff list_all_iff image_image)
  have later: "si < t \<and> since t si div 1000000000 > 2 \<longleftrightarrow> seconds 3 \<le> since t si" for t si
  proof -
    have "since si t < 0 \<longleftrightarrow> si < t" "since t t = since t si + since si t" "since t t = since t t + since t t"
      using assms unfolding clock_ok_def by blast+
    then show ?thesis
      unfolding seconds_def by linarith
  qed
  have "length (conflict_of since (create_times us (\<lambda>_. None)) e) =
      (if (case me_si_created e of
           Some si \<Rightarrow> creations us (me_entry_number e) \<noteq> {} \<and>
             seconds 3 \<le> since (Min (creations us (me_entry_number e))) si
         | None \<Rightarrow> False) then 1 else 0)" for e
    unfolding conflict_of_def later create_times_first by (simp split: option.split)
  then have "length (concat (map (conflict_of since (create_times us (\<lambda>_. None))) es)) =
      length (filter (\<lambda>e. case me_si_created e of
           Some si \<Rightarrow> creations us (me_entry_number e) \<noteq> {} \<and>
             seconds 3 \<le> since (Min (creations us (me_entry_number e))) si
         | None \<Rightarrow> False) es)"
    by (induction es) simp_all
  then show "tf_timestamp_conflict_count (generate_report secs since C us lrs es) =
      length (filter (\<lambda>e. case me_si_created e of
           Some si \<Rightarrow> creations us (me_entry_number e) \<noteq> {} \<and>
             seconds 3 \<le> since (Min (creations us (me_entry_number e))) si
         | None \<Rightarrow> False) es)"
    by (simp add: generate_report_def Let_def find_timestamp_conflicts_def)
qed

definition nano_chrono :: "int chrono" where
  "nano_chrono = \<lparr>from_timestamp = (\<lambda>s n. Some (s * 1000000000 + n)), dt_default = 0\<rparr>"

definition sample_ghost :: "int log_file_usn_record" where
  "sample_ghost = \<lparr>lur_lsn = 9, lur_page_offset = 0, lur_source = RedoData,
     lur_record = sample_change\<lparr>usn := 5, timestamp := 1\<rparr>\<rparr>"

theorem generate_report_exact_witness:
  "tf_timeline_event_count (generate_report (\<lambda>t. t) (-) nano_chrono [sample_change] [sample_ghost] []) =
     1 + tf_ghost_record_count (generate_report (\<lambda>t. t) (-) nano_chrono [sample_change] [sample_ghost] []) \<and>
   tf_journal_clearing_suspected (generate_report (\<lambda>t. t) (-) nano_chrono [sample_change] [sample_ghost] [])"
proof -
  have "clock_ok ((-) :: int \<Rightarrow> int \<Rightarrow> int)"
    by (auto simp: clock_ok_def)
  from generate_report_exact [OF this, of "\<lambda>t. t" nano_chrono "[sample_change]" "[sample_ghost]" "[]"] show ?thesis
    by (simp add: sample_ghost_def sample_change_def)
qed

section \<open>Summaries\<close>

text \<open>The summary of the records of one file, in journal order.\<close>

definition summary_of :: "'dt::linorder usn_record list \<Rightarrow> 'dt file_activity_summary" where
  "summary_of g = \<lparr>fa_mft_entry = mft_entry (hd g), fa_mft_sequence = mft_sequence (hd g),
     fa_filename = filename (last g), fa_event_count = length g,
     fa_first_seen = Min (timestamp ` set g), fa_last_seen = Max (timestamp ` set g),
     fa_reasons = fold (OR) (map reason g) 0\<rparr>"

lemma new_summary_of: "new_summary r = summary_of [r]"
  by (simp add: new_summary_def summary_of_def)

lemma add_summary_of:
  assumes "g \<noteq> []"
  shows "add_to_summary r (summary_of g) = summary_of (g @ [r])"
proof -
  let ?T = "timestamp ` set g"
  have "finite ?T" "?T \<noteq> {}"
    using assms by simp_all
  then have "Min (insert (timestamp r) ?T) = min (timestamp r) (Min ?T)"
    "Max (insert (timestamp r) ?T) = max (timestamp r) (Max ?T)"
    by simp_all
  moreover have "(if a < b then a else b) = min a b" "(if b < a then a else b) = max a b" for a b :: 'a
    by auto
  ultimately show ?thesis
    using assms by (simp only: add_to_summary_def summary_of_def) (simp add: or.commute)
qed

interpretation activity: upsert summary_push new_summary add_to_summary
proof
  fix k :: "u64 \<times> u16" and v :: "'a usn_record" and m :: "((u64 \<times> u16) \<times> 'a file_activity_summary) list"
  show "map_of (summary_push k v m) =
      (map_of m)(k \<mapsto> (case map_of m k of Some s \<Rightarrow> add_to_summary v s | None \<Rightarrow> new_summary v))"
    by (induction m) (auto simp: fun_eq_iff)
  show "set (map fst (summary_push k v m)) = insert k (set (map fst m))"
    by (induction k v m rule: summary_push.induct) (simp_all add: insert_commute)
  show "length (summary_push k v m) = (if k \<in> set (map fst m) then length m else Suc (length m))"
    by (induction k v m rule: summary_push.induct) simp_all
qed

lemma summaries_fold:
  "summaries rs m =
     fold (\<lambda>r. case Some (mft_entry r, mft_sequence r) of Some k \<Rightarrow> summary_push k r | None \<Rightarrow> id) rs m"
  by (induction rs arbitrary: m) simp_all

lemma fold_summary: "fold add_to_summary rs (new_summary r) = summary_of (r # rs)"
  by (induction rs rule: rev_induct) (simp_all add: new_summary_of add_summary_of)

text \<open>The table is that of the groups, each entry summarised.\<close>

lemma summaries_spec:
  "distinct (map fst (summaries rs [])) \<and>
   map_of (summaries rs []) k =
     (let h = filter (\<lambda>r. (mft_entry r, mft_sequence r) = k) rs in
      if h = [] then None else Some (summary_of h))"
  using activity.fold_push [of "[]" "\<lambda>r. Some (mft_entry r, mft_sequence r)" rs k]
  unfolding summaries_fold by (auto simp: fold_summary Let_def split: list.split)

lemma summaries_distinct: "distinct (map fst (summaries us []))"
  using summaries_spec [of us] by blast

lemma summaries_set:
  "(k, s) \<in> set (summaries us []) \<longleftrightarrow>
     filter (\<lambda>r. (mft_entry r, mft_sequence r) = k) us \<noteq> [] \<and>
     s = summary_of (filter (\<lambda>r. (mft_entry r, mft_sequence r) = k) us)"
proof -
  define h where "h = filter (\<lambda>r. (mft_entry r, mft_sequence r) = k) us"
  have "map_of (summaries us []) k = (if h = [] then None else Some (summary_of h))"
    using summaries_spec [of us k] unfolding h_def Let_def by simp
  then show ?thesis
    using map_of_eq_Some_iff [OF summaries_distinct, of us k s] unfolding h_def [symmetric]
    by (cases "h = []") auto
qed

lemma summary_of_key:
  assumes "(k, s) \<in> set (summaries us [])"
  shows "(fa_mft_entry s, fa_mft_sequence s) = k"
proof -
  define h where "h = filter (\<lambda>r. (mft_entry r, mft_sequence r) = k) us"
  have "h \<noteq> []" "s = summary_of h"
    using assms unfolding summaries_set h_def by blast+
  moreover from this(1) have "hd h \<in> set h"
    by simp
  then have "(mft_entry (hd h), mft_sequence (hd h)) = k"
    unfolding h_def set_filter by blast
  ultimately show ?thesis
    by (simp add: summary_of_def)
qed

text \<open>
  The activity summary has one line per file generation, whatever the order of the hash map:
  for each entry and sequence number with records in the journal, their number, earliest and
  latest time, the union of their reasons and the name of the last one; the lines are sorted
  by earliest time.
\<close>

theorem summarize_file_activity_exact:
  assumes "hash_order order"
  shows "sorted (map fa_first_seen (summarize_file_activity order us)) \<and>
    distinct (map (\<lambda>s. (fa_mft_entry s, fa_mft_sequence s)) (summarize_file_activity order us)) \<and>
    (s \<in> set (summarize_file_activity order us) \<longleftrightarrow>
      (\<exists>k g. g = filter (\<lambda>r. (mft_entry r, mft_sequence r) = k) us \<and> g \<noteq> [] \<and> s = summary_of g))"
proof (intro conjI)
  let ?S = "summaries us []"
  have m: "mset (order ?S) = mset ?S"
    using assms by (simp add: hash_order_def)
  show "sorted (map fa_first_seen (summarize_file_activity order us))"
    by (simp add: summarize_file_activity_def)
  have out: "mset (summarize_file_activity order us) = image_mset snd (mset ?S)"
    by (simp add: summarize_file_activity_def m)
  then have "set (summarize_file_activity order us) = snd ` set ?S"
    by (metis set_image_mset set_mset_mset)
  then show "s \<in> set (summarize_file_activity order us) \<longleftrightarrow>
      (\<exists>k g. g = filter (\<lambda>r. (mft_entry r, mft_sequence r) = k) us \<and> g \<noteq> [] \<and> s = summary_of g)"
  proof -
    assume "set (summarize_file_activity order us) = snd ` set ?S"
    then have "s \<in> set (summarize_file_activity order us) \<longleftrightarrow> (\<exists>k. (k, s) \<in> set ?S)"
      by force
    then show ?thesis
      unfolding summaries_set by blast
  qed
  have "mset (map (\<lambda>s. (fa_mft_entry s, fa_mft_sequence s)) (summarize_file_activity order us)) =
      mset (map (\<lambda>x. (fa_mft_entry (snd x), fa_mft_sequence (snd x))) ?S)"
    by (simp add: out image_mset.compositionality o_def)
  also have "\<dots> = mset (map fst ?S)"
    by (intro arg_cong [where f = mset] map_cong refl) (metis prod.collapse summary_of_key)
  finally show "distinct (map (\<lambda>s. (fa_mft_entry s, fa_mft_sequence s)) (summarize_file_activity order us))"
    using summaries_distinct mset_eq_imp_distinct_iff by blast
qed

theorem summarize_file_activity_exact_witness:
  "summary_of [sample_change, sample_change\<lparr>timestamp := 9\<rparr>] \<in>
     set (summarize_file_activity rev [sample_change, sample_change\<lparr>timestamp := 9\<rparr>])"
proof -
  let ?us = "[sample_change, sample_change\<lparr>timestamp := 9\<rparr>]"
  have "hash_order (rev :: ((u64 \<times> u16) \<times> int file_activity_summary) list \<Rightarrow> _)"
    by (simp add: hash_order_def)
  moreover have "filter (\<lambda>r. (mft_entry r, mft_sequence r) = (42, 1)) ?us = ?us"
    by (simp add: sample_change_def)
  then have "\<exists>k g. g = filter (\<lambda>r. (mft_entry r, mft_sequence r) = k) ?us \<and> g \<noteq> [] \<and> summary_of ?us = summary_of g"
    by (intro exI [of _ "(42, 1)"] exI [of _ ?us]) (simp only: list.distinct not_False_eq_True refl simp_thms)
  ultimately show ?thesis
    using summarize_file_activity_exact [of rev ?us "summary_of ?us", THEN conjunct2, THEN conjunct2] by blast
qed

end
