(* ===== verification/Spec2Isabelle.thy ===== *)
theory Spec2Isabelle
  imports Boot Fs_Shared Fs_Open Usn_Progress Flag_Names Transactions Refs Correlation
begin

text \<open>
  \<^bold>\<open>A verification library for ntfs-forensic.\<close>

  The repository is two Rust crates. \<open>core\<close> reads NTFS: it parses the boot sector, MFT records
  and their attributes, decodes runlists and directory indexes, reads file data from a
  partition of a disk image, and parses the change journal (\<open>$UsnJrnl:$J\<close>), the transaction log
  (\<open>$LogFile\<close>), the mirror of the file table and unallocated space. \<open>forensic\<close> works on what
  \<open>core\<close> parsed: it audits records and artifacts, evaluates detection rules and triage
  questions, and correlates the three journals into a timeline. All inputs are untrusted
  bytes, so that the code promises, besides the right answer on a sound volume, an answer or
  an error but never a panic on a crafted one.

  \<^bold>\<open>How the code is modelled.\<close> A Rust function is a HOL function of the same name; a \<open>struct\<close> is
  a record, an \<open>enum\<close> a datatype. \<open>u8\<close> to \<open>u128\<close> are words; \<open>usize\<close> is \<open>nat\<close>, with the
  overflow of the checked operations (and, where the input can provoke it, of the unchecked
  ones) written out; \<open>i64\<close> and \<open>i128\<close> are \<open>int\<close>. A \<open>Result\<close> is \<open>res\<close> (\<open>Ntfs_Error\<close>): a value,
  one of the crate's errors, or \<open>Panic\<close>, which indexing and slicing out of range yield. A
  \<open>String\<close> is the list of its code points. A loop is recursion over its counter or its data,
  or a \<open>function\<close> with a measure; none of the definitions needs fuel that could run out, since
  every loop of the sources is bounded by its input or by a constant (\<open>MAX_ATTRIBUTES\<close>,
  \<open>MAX_RUNS\<close>, \<open>MAX_ENTRIES\<close>, \<open>MAX_ATTR_WALK\<close>, 256 path components), which the models keep.
  Stateful readers pass their state (\<open>Source\<close>, \<open>Reader_Monad\<close>, \<open>Usn_Reader\<close>).

  \<^bold>\<open>Parameters.\<close> Code outside the repository is an argument of the definitions that use it: the
  constants of \<open>forensicnomicon\<close> (record \<open>nomicon\<close>, assumed \<open>documented\<close> where offsets matter),
  the \<open>safe_read\<close> helpers, \<open>chrono\<close> (its constructor, differences of instants, \<open>clock_ok\<close>),
  \<open>lznt1::decompress\<close>, \<open>regex\<close>, the flag names \<open>bitflags\<close> iterates over, the Unicode lower-casing tables, the iteration order of a
  \<open>HashMap\<close> (\<open>slot_order\<close>, \<open>hash_order\<close>: each entry once, in some order) and the volume source
  itself (record \<open>host\<close>, with the laws of the locale \<open>medium\<close>, a fault-free source, or of the
  weaker \<open>drive\<close>, one that may fail at any time and return anything).

  \<^bold>\<open>Theories of the core crate.\<close>
  \<^item> \<open>Prelude\<close>, \<open>Ntfs_Error\<close>, \<open>Nomicon\<close>, \<open>Utf16\<close>, \<open>Utf8\<close>, \<open>Entry_Walk\<close>, \<open>Greedy_Scan\<close>: machine integers and
    byte strings, results (\<open>error.rs\<close>), on-disk constants, lossy UTF-16 decoding, UTF-8 bytes and the
    characters behind them, the walk over length-prefixed entries (locale \<open>bounded_walk\<close>), and the
    scan of the eight-byte boundaries of raw bytes (locale \<open>scanner\<close>), whose result is unique.
  \<^item> \<open>Bytes\<close>, \<open>Filetime\<close>, \<open>Boot\<close>: \<open>bytes.rs\<close>, \<open>time.rs\<close>, \<open>boot.rs\<close>.
  \<^item> \<open>Mft_Record\<close>: \<open>record.rs\<close>. The fixup inverts the writer's protection of sector tails, detects
    torn writes, touches nothing else and never panics (locale \<open>sector_fixup\<close>).
  \<^item> \<open>File_Name\<close>, \<open>Standard_Information\<close>, \<open>Attribute\<close>, \<open>Attribute_List\<close>, \<open>Index\<close>, \<open>Runlist\<close>: the
    attribute parsers. Attributes tile the record; a directory node and a runlist are read
    back as they were written; the list parser misses no entry; none panics.
  \<^item> \<open>Source\<close>, \<open>Data_Read\<close>, \<open>Reader_Monad\<close>, \<open>Fs\<close>: \<open>source.rs\<close>, \<open>data.rs\<close>, \<open>fs.rs\<close>. The partition
    window is again a \<open>medium\<close> (locale \<open>window\<close>, by \<open>sublocale\<close>), reads return the bytes the runs
    describe, records are those of the file table's stream, and results do not depend on where
    other readers left the shared source. \<open>Fs_Paths\<close>: a path resolves by walking the directory graph
    (\<open>leads\<close>), and paths compose. \<open>Shared\<close>, \<open>Fs_Shared\<close>: the mutex around the source. Workers are trees
    of lock, use and release steps, \<open>pool_step\<close> interleaves them, and every method of the handle is
    given with its locked scopes; every schedule ends, none deadlocks, and each worker gets the
    result its call has on its own, also when the lock was poisoned by a panic.
  \<^item> \<open>Vfs_Node\<close>, \<open>Vfs\<close>: \<open>vfs.rs\<close>, the adapter to a generic filesystem interface. What it reports
    of one record (kind, metadata, names, symlink targets), and its operations on a volume:
    positioned reads are windows of the stream, the bytes of the extents of an uncompressed stream
    start with its value, slack starts where the data ends, free space is what the bitmap says,
    deleted files are listed completely once record 0 can be read, and every listed name and
    stream can be opened.
  \<^item> \<open>Drive\<close>, \<open>Fs_Safety\<close>, \<open>Vfs_Safety\<close>, \<open>Fs_Open\<close>: the reader and the adapter over a source that may
    fail. Every fault-free source is a drive (\<open>sublocale\<close>), and so is a partition window over a drive.
    No operation panics, whatever the volume holds, unless a record claims an absurd compression
    unit, which does panic; an opened volume is well formed, its table has the runs of record 0 and of
    the extension records its attribute list names, and it reads its first record back.
  \<^item> \<open>Usn_Reason\<close>, \<open>Usn_Record\<close>, \<open>Usn_Reader\<close>, \<open>Usn_Progress\<close>, \<open>Usn_Carver\<close>: \<open>usn/\<close>. Records round-trip (locale
    \<open>record_decoder\<close> for both versions), a journal of records and gaps is read completely, on such a
    journal the streaming iterator agrees with the bulk parser over any source that fills its
    requests (locale \<open>full_medium\<close>), and carving returns exactly the plausible records the scan of
    the boundaries meets. \<open>Usn_Progress\<close>:
    over any drive the iterator does not panic and delivers finitely many records, and it ends
    when the drive does not fail. \<open>Flag_Names\<close>: the printed flags determine the named bits
    (locale \<open>flag_table\<close> for both types).
  \<^item> \<open>Logfile\<close>, \<open>Transactions\<close>, \<open>Usn_Extractor\<close>: \<open>logfile/\<close>. Pages, log records, their grouping
    into transactions (the runs of each slot, cut at their terminals, whatever the hash order), and
    journal records found in redo, undo and slack, where the scan of an area is exact on any bytes.
  \<^item> \<open>Mftmirr\<close>, \<open>Carve\<close>, \<open>Rewind\<close>, \<open>Mft_Data\<close>, \<open>Refs\<close>: the mirror comparison, carving of MFT entries,
    path reconstruction by rewinding the journal, the parsed file table, and journals with
    128-bit identifiers. Rewinding gives every record the path it had when it was logged, on
    the entries that are known, and where the chain of parents is complete the path stored with a
    table entry is the one the rewind engine resolves.

  \<^bold>\<open>Theories of the forensic crate.\<close>
  \<^item> \<open>Auditor\<close>: \<open>lib.rs\<close>. The record and volume auditors report exactly what they claim to.
  \<^item> \<open>Rules\<close>, \<open>Triage\<close>: \<open>rules.rs\<close>, \<open>triage/\<close>. The backtracking glob matcher equals the reference
    relation on characters (for names without an asterisk, and in ASCII under a question mark); rules and questions report exactly the records they ask for.
  \<^item> \<open>Analysis\<close>, \<open>Correlation\<close>: \<open>analysis.rs\<close>, \<open>correlation.rs\<close>. The detectors against reference
    definitions (maximal bursts, isolated changes, groups by key: locale \<open>upsert\<close>), and the
    merged timeline, ghosts, reuse, conflicts and summaries.

  \<^bold>\<open>Properties.\<close> The theorems whose text starts with a claim number are the properties of the
  library; each one with hypotheses is followed by a witness at a concrete input. Round trips
  are stated against encoders written for the purpose (\<open>protect\<close>, \<open>encode_runs\<close>, \<open>node_bytes\<close>,
  \<open>v2_bytes\<close>), refinements against abstract content (\<open>stream\<close>, \<open>win_disk\<close>, \<open>tree_at\<close>),
  equivalences against reference definitions (\<open>glob\<close>, \<open>bursts\<close>, the bulk parser).

  \<^bold>\<open>Not modelled.\<close> The
  texts of error messages, the category and source of report findings (built by the
  external report crate), re-exports, tests and fuzz targets are left out. A locked
  scope is one step of its worker, since nobody else can use the reader meanwhile; calls of the
  adapter (\<open>Vfs\<close>) interleave only through the calls of the handle they make. The call stack has no
  bound: \<open>next\<close> of the streaming iterator calls itself for every word it skips, and whether a long
  stretch of such words exhausts the stack is up to the compiler. Confidence scores of the
  detectors are exact decimals instead of \<open>f64\<close>.
\<close>

end
